(* ===== verification/Cweb_Prelude.thy ===== *)
theory Cweb_Prelude
  imports Main "HOL-Library.Word" "HOL-Library.Sublist" "HOL-Library.Monad_Syntax"
begin

text \<open>
  Shared vocabulary of the development: the byte strings the C code works on, the few
  functions of the C library the program calls on them (\<open>strlen\<close>, \<open>memmem\<close>,
  \<open>strstr\<close>, \<open>memcmp\<close>), uninitialised memory, and the generic list lemmas that
  the component theories share.

  A C \<open>char\<close> is HOL's \<open>char\<close> (eight bits). A computation that may run into
  undefined behaviour (an access outside its buffer, a read of uninitialised memory, a failed
  \<open>assert\<close>) has type \<open>'a run\<close>: \<open>None\<close> is the undefined behaviour.
\<close>

section \<open>Types and collections\<close>

type_synonym bytes = "char list"

type_synonym 'a run = "'a option"

text \<open>A memory cell: \<open>None\<close> is a byte that \<open>malloc\<close> returned and nobody wrote.\<close>

type_synonym cell = "char option"

named_theorems byte_simps \<open>facts about the C string functions\<close>
named_theorems list_facts \<open>generic facts about slices of lists\<close>

abbreviation NUL :: char where "NUL \<equiv> CHR 0x00"
abbreviation HT :: char where "HT \<equiv> CHR 0x09"
abbreviation LF :: char where "LF \<equiv> CHR 0x0A"
abbreviation FF :: char where "FF \<equiv> CHR 0x0C"
abbreviation CR :: char where "CR \<equiv> CHR 0x0D"

definition CRLF :: bytes where "CRLF = [CR, LF]"

definition byte :: "char \<Rightarrow> nat" where "byte c = of_char c"

lemma byte_less [simp]: "byte c < 256"
  by (simp add: byte_def)

lemma byte_inj [simp]: "byte c = byte d \<longleftrightarrow> c = d"
  by (simp add: byte_def of_char_eq_iff)

lemma byte_char_of [simp]: "n < 256 \<Longrightarrow> byte (char_of n) = n"
  by (simp add: byte_def)

lemma char_of_byte [simp]: "char_of (byte c) = c"
  by (simp add: byte_def)

section \<open>Slices\<close>

definition bslice :: "'a list \<Rightarrow> nat \<Rightarrow> nat \<Rightarrow> 'a list" where
  "bslice xs a n = take n (drop a xs)"

lemma length_bslice [simp]: "length (bslice xs a n) = min n (length xs - a)"
  by (simp add: bslice_def)

lemma bslice_0 [simp]: "bslice xs a 0 = []"
  by (simp add: bslice_def)

lemma bslice_Nil [simp]: "bslice [] a n = []"
  by (simp add: bslice_def)

lemma bslice_all: "bslice xs 0 (length xs) = xs"
  by (simp add: bslice_def)

lemma bslice_Suc_snoc [list_facts]:
  assumes "a + n < length xs"
  shows "bslice xs a (Suc n) = bslice xs a n @ [xs ! (a + n)]"
  using assms by (simp add: bslice_def take_Suc_conv_app_nth)

lemma bslice_Cons [list_facts]:
  assumes "a < length xs" "0 < n"
  shows "bslice xs a n = xs ! a # bslice xs (Suc a) (n - 1)"
  using assms by (cases n) (simp_all add: bslice_def Cons_nth_drop_Suc [symmetric])

lemma bslice_append_right [list_facts]:
  "bslice (xs @ ys) (length xs + a) n = bslice ys a n"
  by (simp add: bslice_def)

lemma bslice_append_left [list_facts]:
  "a + n \<le> length xs \<Longrightarrow> bslice (xs @ ys) a n = bslice xs a n"
  by (simp add: bslice_def)

lemma nth_bslice [list_facts]:
  "i < n \<Longrightarrow> a + i < length xs \<Longrightarrow> bslice xs a n ! i = xs ! (a + i)"
  by (simp add: bslice_def)

lemma list_update_mono_map: "map f (xs[i := x]) = (map f xs)[i := f x]"
  by (rule map_update)

section \<open>The C library on bytes\<close>

text \<open>The string a C function sees at a pointer: up to the first NUL.\<close>

definition cstr :: "bytes \<Rightarrow> bytes" where
  "cstr s = takeWhile (\<lambda>c. c \<noteq> NUL) s"

lemma cstr_id [byte_simps]: "NUL \<notin> set s \<Longrightarrow> cstr s = s"
  by (auto simp: cstr_def intro: takeWhile_eq_all_conv [THEN iffD2])

lemma cstr_no_NUL [simp]: "NUL \<notin> set (cstr s)"
  by (auto simp: cstr_def dest: set_takeWhileD)

lemma cstr_idem [simp]: "cstr (cstr s) = cstr s"
  by (simp add: cstr_id)

lemma length_cstr_le [simp]: "length (cstr s) \<le> length s"
  by (simp add: cstr_def length_takeWhile_le)

lemma cstr_append_NUL [byte_simps]:
  "NUL \<notin> set s \<Longrightarrow> cstr (s @ NUL # t) = s"
  by (simp add: cstr_def takeWhile_append)

text \<open>\<open>memmem\<close>: the offset of the first occurrence.\<close>

fun memmem :: "'a list \<Rightarrow> 'a list \<Rightarrow> nat option" where
  "memmem [] pat = (if pat = [] then Some 0 else None)"
| "memmem (x # xs) pat =
     (if take (length pat) (x # xs) = pat then Some 0
      else map_option Suc (memmem xs pat))"

definition strstr :: "bytes \<Rightarrow> bytes \<Rightarrow> nat option" where
  "strstr hay needle = memmem (cstr hay) (cstr needle)"

lemma memmem_SomeD:
  "memmem xs pat = Some i \<Longrightarrow>
     i + length pat \<le> length xs \<and> bslice xs i (length pat) = pat
     \<and> (\<forall>j < i. bslice xs j (length pat) \<noteq> pat)"
proof (induction xs arbitrary: i)
  case Nil
  then show ?case by (simp split: if_splits)
next
  case (Cons x xs)
  show ?case
  proof (cases "take (length pat) (x # xs) = pat")
    case True
    then have "length pat \<le> Suc (length xs)"
      by (metis length_Cons length_take min.cobounded1)
    with True Cons.prems show ?thesis by (simp add: bslice_def)
  next
    case False
    with Cons.prems obtain k where k: "memmem xs pat = Some k" "i = Suc k" by auto
    note IH = Cons.IH [OF k(1)]
    have "bslice (x # xs) j (length pat) \<noteq> pat" if "j < i" for j
      using that IH False k(2) by (cases j) (auto simp: bslice_def)
    with IH k(2) show ?thesis by (simp add: bslice_def)
  qed
qed

lemma memmem_None_iff: "memmem xs pat = None \<longleftrightarrow> \<not> sublist pat xs"
proof (induction xs)
  case Nil
  then show ?case by simp
next
  case (Cons x xs)
  have "take (length pat) (x # xs) = pat \<longleftrightarrow> prefix pat (x # xs)"
    by (metis append_eq_conv_conj prefix_def)
  with Cons show ?case by (auto simp: sublist_Cons_right)
qed

lemma memmem_Some_iff: "memmem xs pat \<noteq> None \<longleftrightarrow> sublist pat xs"
  using memmem_None_iff [of xs pat] by simp

lemma memmem_prefix [byte_simps]: "memmem (pat @ xs) pat = Some 0"
proof (cases "pat @ xs")
  case Nil
  then show ?thesis by simp
next
  case (Cons y ys)
  have "take (length pat) (y # ys) = pat" by (simp flip: Cons)
  then show ?thesis by (simp add: Cons)
qed

lemma memmem_eq_Some:
  assumes "i + length pat \<le> length xs" "bslice xs i (length pat) = pat"
    "\<And>j. j < i \<Longrightarrow> bslice xs j (length pat) \<noteq> pat"
  shows "memmem xs pat = Some i"
proof (cases "memmem xs pat")
  case None
  have "sublist (bslice xs i (length pat)) xs"
    by (simp add: bslice_def sublist_order.order.trans [OF sublist_take sublist_drop])
  with None assms(2) show ?thesis by (simp add: memmem_None_iff)
next
  case (Some k)
  from memmem_SomeD [OF this] assms Some show ?thesis by (metis linorder_neqE_nat)
qed

lemma memmem_eq_None:
  assumes "\<And>j. j + length pat \<le> length xs \<Longrightarrow> bslice xs j (length pat) \<noteq> pat"
  shows "memmem xs pat = None"
  using memmem_SomeD [of xs pat] assms by (cases "memmem xs pat") auto

lemma bslice_drop: "bslice (drop a xs) i n = bslice xs (a + i) n"
  by (simp add: bslice_def add.commute)

section \<open>Reading and writing buffers\<close>

text \<open>A read and a write at an index of a buffer; outside the buffer there is no result.\<close>

definition rd :: "'a list \<Rightarrow> nat \<Rightarrow> 'a run" where
  "rd xs i = (if i < length xs then Some (xs ! i) else None)"

definition put :: "cell list \<Rightarrow> nat \<Rightarrow> char \<Rightarrow> cell list run" where
  "put buf i c = (if i < length buf then Some (buf[i := Some c]) else None)"

fun puts :: "cell list \<Rightarrow> nat \<Rightarrow> bytes \<Rightarrow> cell list run" where
  "puts buf i [] = Some buf"
| "puts buf i (c # cs) = do { buf' \<leftarrow> put buf i c; puts buf' (Suc i) cs }"

text \<open>The effect of a sequence of writes that fits.\<close>

definition overwrite :: "cell list \<Rightarrow> nat \<Rightarrow> bytes \<Rightarrow> cell list" where
  "overwrite buf i cs = take i buf @ map Some cs @ drop (i + length cs) buf"

lemma rd_Some [simp]: "i < length xs \<Longrightarrow> rd xs i = Some (xs ! i)"
  by (simp add: rd_def)

lemma rd_eq_None [simp]: "rd xs i = None \<longleftrightarrow> length xs \<le> i"
  by (auto simp: rd_def)

lemma length_overwrite [simp]:
  "i + length cs \<le> length buf \<Longrightarrow> length (overwrite buf i cs) = length buf"
  by (simp add: overwrite_def)

lemma overwrite_Nil [simp]: "overwrite buf i [] = buf"
  by (simp add: overwrite_def)

lemma puts_fits [simp]:
  "i + length cs \<le> length buf \<Longrightarrow> puts buf i cs = Some (overwrite buf i cs)"
proof (induction cs arbitrary: buf i)
  case Nil
  then show ?case by simp
next
  case (Cons c cs)
  have "overwrite (buf[i := Some c]) (Suc i) cs = overwrite buf i (c # cs)"
    using Cons.prems by (simp add: overwrite_def take_Suc_conv_app_nth)
  with Cons show ?case by (simp add: put_def)
qed

lemma puts_overflow:
  "length buf < i + length cs \<Longrightarrow> cs \<noteq> [] \<Longrightarrow> puts buf i cs = None"
proof (induction cs arbitrary: buf i)
  case Nil
  then show ?case by simp
next
  case (Cons c cs)
  then show ?case by (cases "cs = []") (auto simp: put_def)
qed

lemma overwrite_append:
  "i + length cs + length ds \<le> length buf \<Longrightarrow>
     overwrite (overwrite buf i cs) (i + length cs) ds = overwrite buf i (cs @ ds)"
  by (simp add: overwrite_def ac_simps)

lemma overwrite_0_fresh:
  "length cs \<le> n \<Longrightarrow>
     overwrite (replicate n None) 0 cs = map Some cs @ replicate (n - length cs) None"
  by (simp add: overwrite_def)

section \<open>Bit operations on small naturals\<close>

unbundle bit_operations_syntax

lemma or_disjoint: "b < 2 ^ k \<Longrightarrow> push_bit k a OR b = push_bit k a + (b::nat)"
proof (rule disjunctive_add [symmetric])
  fix n
  assume b: "b < 2 ^ k"
  show "\<not> bit (push_bit k a) n \<or> \<not> bit b n"
  proof (cases "n < k")
    case True
    then show ?thesis by (simp add: bit_simps)
  next
    case False
    then have "b < 2 ^ n"
      using b by (meson dual_order.strict_trans1 linorder_not_less one_le_numeral power_increasing)
    then show ?thesis by (simp add: bit_iff_odd)
  qed
qed

lemma and_mask_mod:
  "x AND (1::nat) = x mod 2" "x AND (3::nat) = x mod 4"
  "x AND (15::nat) = x mod 16" "x AND (63::nat) = x mod 64"
  using take_bit_eq_mask [of 1 x] take_bit_eq_mask [of 2 x] take_bit_eq_mask [of 4 x]
    take_bit_eq_mask [of 6 x]
  by (simp_all add: take_bit_eq_mod mask_eq_exp_minus_1)

section \<open>Folds that keep an invariant\<close>

lemma fold_invariant:
  "P s \<Longrightarrow> (\<And>x s. x \<in> set xs \<Longrightarrow> P s \<Longrightarrow> P (f x s)) \<Longrightarrow> P (fold f xs s)"
  by (induction xs arbitrary: s) auto

lemma find_Some_first:
  "find P xs = Some x \<Longrightarrow>
     \<exists>i < length xs. xs ! i = x \<and> P x \<and> (\<forall>j < i. \<not> P (xs ! j))"
  by (auto simp: find_Some_iff)

end
