(* ===== verification/Http_Types.thy ===== *)
theory Http_Types
  imports Cweb_Prelude
begin

text \<open>
  The data of the HTTP parser, \<open>server/backend/http_parser\<close>: the enumerations and tables of
  \<open>http_parser.h\<close> and \<open>http_parser.c\<close>, the character classes, the parser struct and
  the settings with the callbacks. The library is built with \<open>HTTP_PARSER_STRICT\<close> set, as
  its header does by default, and so are the tables here.
\<close>

section \<open>Enumerations\<close>

text \<open>
  The parser states in the order of \<open>enum state\<close>, which starts at 1: the order decides
  which states count as header states.
\<close>

datatype (plugins only: code) state =
    s_dead | s_start_req_or_res | s_res_or_resp_H | s_start_res | s_res_H | s_res_HT | s_res_HTT
    | s_res_HTTP | s_res_http_major | s_res_http_dot | s_res_http_minor | s_res_http_end
    | s_res_first_status_code | s_res_status_code | s_res_status_start | s_res_status
    | s_res_line_almost_done | s_start_req | s_req_method | s_req_spaces_before_url | s_req_schema
    | s_req_schema_slash | s_req_schema_slash_slash | s_req_server_start | s_req_server
    | s_req_server_with_at | s_req_path | s_req_query_string_start | s_req_query_string
    | s_req_fragment_start | s_req_fragment | s_req_http_start | s_req_http_H | s_req_http_HT
    | s_req_http_HTT | s_req_http_HTTP | s_req_http_I | s_req_http_IC | s_req_http_major
    | s_req_http_dot | s_req_http_minor | s_req_http_end | s_req_line_almost_done
    | s_header_field_start | s_header_field | s_header_value_discard_ws
    | s_header_value_discard_ws_almost_done | s_header_value_discard_lws | s_header_value_start
    | s_header_value | s_header_value_lws | s_header_almost_done | s_chunk_size_start
    | s_chunk_size | s_chunk_parameters | s_chunk_size_almost_done | s_headers_almost_done
    | s_headers_done | s_chunk_data | s_chunk_data_almost_done | s_chunk_data_done
    | s_body_identity | s_body_identity_eof | s_message_done

definition states :: "state list" where
  "states =
    [s_dead, s_start_req_or_res, s_res_or_resp_H, s_start_res, s_res_H, s_res_HT, s_res_HTT,
     s_res_HTTP, s_res_http_major, s_res_http_dot, s_res_http_minor, s_res_http_end,
     s_res_first_status_code, s_res_status_code, s_res_status_start, s_res_status,
     s_res_line_almost_done, s_start_req, s_req_method, s_req_spaces_before_url, s_req_schema,
     s_req_schema_slash, s_req_schema_slash_slash, s_req_server_start, s_req_server,
     s_req_server_with_at, s_req_path, s_req_query_string_start, s_req_query_string,
     s_req_fragment_start, s_req_fragment, s_req_http_start, s_req_http_H, s_req_http_HT,
     s_req_http_HTT, s_req_http_HTTP, s_req_http_I, s_req_http_IC, s_req_http_major,
     s_req_http_dot, s_req_http_minor, s_req_http_end, s_req_line_almost_done,
     s_header_field_start, s_header_field, s_header_value_discard_ws,
     s_header_value_discard_ws_almost_done, s_header_value_discard_lws, s_header_value_start,
     s_header_value, s_header_value_lws, s_header_almost_done, s_chunk_size_start, s_chunk_size,
     s_chunk_parameters, s_chunk_size_almost_done, s_headers_almost_done, s_headers_done,
     s_chunk_data, s_chunk_data_almost_done, s_chunk_data_done, s_body_identity,
     s_body_identity_eof, s_message_done]"

datatype (plugins only: code) header_states =
    h_general | h_C | h_CO | h_CON | h_matching_connection | h_matching_proxy_connection
    | h_matching_content_length | h_matching_transfer_encoding | h_matching_upgrade | h_connection
    | h_content_length | h_content_length_num | h_content_length_ws | h_transfer_encoding
    | h_upgrade | h_matching_transfer_encoding_token_start | h_matching_transfer_encoding_chunked
    | h_matching_transfer_encoding_token | h_matching_connection_token_start
    | h_matching_connection_keep_alive | h_matching_connection_close
    | h_matching_connection_upgrade | h_matching_connection_token | h_transfer_encoding_chunked
    | h_connection_keep_alive | h_connection_close | h_connection_upgrade

datatype (plugins only: code) http_host_state =
    s_http_host_dead | s_http_userinfo_start | s_http_userinfo | s_http_host_start
    | s_http_host_v6_start | s_http_host | s_http_host_v6 | s_http_host_v6_end
    | s_http_host_v6_zone_start | s_http_host_v6_zone | s_http_host_port_start | s_http_host_port

datatype (plugins only: code) http_method =
    HTTP_DELETE | HTTP_GET | HTTP_HEAD | HTTP_POST | HTTP_PUT | HTTP_CONNECT | HTTP_OPTIONS
    | HTTP_TRACE | HTTP_COPY | HTTP_LOCK | HTTP_MKCOL | HTTP_MOVE | HTTP_PROPFIND | HTTP_PROPPATCH
    | HTTP_SEARCH | HTTP_UNLOCK | HTTP_BIND | HTTP_REBIND | HTTP_UNBIND | HTTP_ACL | HTTP_REPORT
    | HTTP_MKACTIVITY | HTTP_CHECKOUT | HTTP_MERGE | HTTP_MSEARCH | HTTP_NOTIFY | HTTP_SUBSCRIBE
    | HTTP_UNSUBSCRIBE | HTTP_PATCH | HTTP_PURGE | HTTP_MKCALENDAR | HTTP_LINK | HTTP_UNLINK
    | HTTP_SOURCE

definition methods :: "http_method list" where
  "methods =
    [HTTP_DELETE, HTTP_GET, HTTP_HEAD, HTTP_POST, HTTP_PUT, HTTP_CONNECT, HTTP_OPTIONS, HTTP_TRACE,
     HTTP_COPY, HTTP_LOCK, HTTP_MKCOL, HTTP_MOVE, HTTP_PROPFIND, HTTP_PROPPATCH, HTTP_SEARCH,
     HTTP_UNLOCK, HTTP_BIND, HTTP_REBIND, HTTP_UNBIND, HTTP_ACL, HTTP_REPORT, HTTP_MKACTIVITY,
     HTTP_CHECKOUT, HTTP_MERGE, HTTP_MSEARCH, HTTP_NOTIFY, HTTP_SUBSCRIBE, HTTP_UNSUBSCRIBE,
     HTTP_PATCH, HTTP_PURGE, HTTP_MKCALENDAR, HTTP_LINK, HTTP_UNLINK, HTTP_SOURCE]"

definition method_strings :: "bytes list" where
  "method_strings =
    [''DELETE'', ''GET'', ''HEAD'', ''POST'', ''PUT'', ''CONNECT'', ''OPTIONS'', ''TRACE'',
     ''COPY'', ''LOCK'', ''MKCOL'', ''MOVE'', ''PROPFIND'', ''PROPPATCH'', ''SEARCH'',
     ''UNLOCK'', ''BIND'', ''REBIND'', ''UNBIND'', ''ACL'', ''REPORT'', ''MKACTIVITY'',
     ''CHECKOUT'', ''MERGE'', ''M-SEARCH'', ''NOTIFY'', ''SUBSCRIBE'', ''UNSUBSCRIBE'',
     ''PATCH'', ''PURGE'', ''MKCALENDAR'', ''LINK'', ''UNLINK'', ''SOURCE'']"

datatype (plugins only: code) http_errno =
    HPE_OK | HPE_CB_message_begin | HPE_CB_url | HPE_CB_header_field | HPE_CB_header_value
    | HPE_CB_headers_complete | HPE_CB_body | HPE_CB_message_complete | HPE_CB_status
    | HPE_CB_chunk_header | HPE_CB_chunk_complete | HPE_INVALID_EOF_STATE | HPE_HEADER_OVERFLOW
    | HPE_CLOSED_CONNECTION | HPE_INVALID_VERSION | HPE_INVALID_STATUS | HPE_INVALID_METHOD
    | HPE_INVALID_URL | HPE_INVALID_HOST | HPE_INVALID_PORT | HPE_INVALID_PATH
    | HPE_INVALID_QUERY_STRING | HPE_INVALID_FRAGMENT | HPE_LF_EXPECTED | HPE_INVALID_HEADER_TOKEN
    | HPE_INVALID_CONTENT_LENGTH | HPE_UNEXPECTED_CONTENT_LENGTH | HPE_INVALID_CHUNK_SIZE
    | HPE_INVALID_CONSTANT | HPE_INVALID_INTERNAL_STATE | HPE_STRICT | HPE_PAUSED | HPE_UNKNOWN
    | HPE_INVALID_TRANSFER_ENCODING

definition errnos :: "http_errno list" where
  "errnos =
    [HPE_OK, HPE_CB_message_begin, HPE_CB_url, HPE_CB_header_field, HPE_CB_header_value,
     HPE_CB_headers_complete, HPE_CB_body, HPE_CB_message_complete, HPE_CB_status,
     HPE_CB_chunk_header, HPE_CB_chunk_complete, HPE_INVALID_EOF_STATE, HPE_HEADER_OVERFLOW,
     HPE_CLOSED_CONNECTION, HPE_INVALID_VERSION, HPE_INVALID_STATUS, HPE_INVALID_METHOD,
     HPE_INVALID_URL, HPE_INVALID_HOST, HPE_INVALID_PORT, HPE_INVALID_PATH,
     HPE_INVALID_QUERY_STRING, HPE_INVALID_FRAGMENT, HPE_LF_EXPECTED, HPE_INVALID_HEADER_TOKEN,
     HPE_INVALID_CONTENT_LENGTH, HPE_UNEXPECTED_CONTENT_LENGTH, HPE_INVALID_CHUNK_SIZE,
     HPE_INVALID_CONSTANT, HPE_INVALID_INTERNAL_STATE, HPE_STRICT, HPE_PAUSED, HPE_UNKNOWN,
     HPE_INVALID_TRANSFER_ENCODING]"

definition http_strerror_tab :: "(bytes \<times> bytes) list" where
  "http_strerror_tab =
    [(''HPE_OK'', ''success''),
     (''HPE_CB_message_begin'', ''the on_message_begin callback failed''),
     (''HPE_CB_url'', ''the on_url callback failed''),
     (''HPE_CB_header_field'', ''the on_header_field callback failed''),
     (''HPE_CB_header_value'', ''the on_header_value callback failed''),
     (''HPE_CB_headers_complete'', ''the on_headers_complete callback failed''),
     (''HPE_CB_body'', ''the on_body callback failed''),
     (''HPE_CB_message_complete'', ''the on_message_complete callback failed''),
     (''HPE_CB_status'', ''the on_status callback failed''),
     (''HPE_CB_chunk_header'', ''the on_chunk_header callback failed''),
     (''HPE_CB_chunk_complete'', ''the on_chunk_complete callback failed''),
     (''HPE_INVALID_EOF_STATE'', ''stream ended at an unexpected time''),
     (''HPE_HEADER_OVERFLOW'', ''too many header bytes seen; overflow detected''),
     (''HPE_CLOSED_CONNECTION'', ''data received after completed connection: close message''),
     (''HPE_INVALID_VERSION'', ''invalid HTTP version''),
     (''HPE_INVALID_STATUS'', ''invalid HTTP status code''),
     (''HPE_INVALID_METHOD'', ''invalid HTTP method''),
     (''HPE_INVALID_URL'', ''invalid URL''),
     (''HPE_INVALID_HOST'', ''invalid host''),
     (''HPE_INVALID_PORT'', ''invalid port''),
     (''HPE_INVALID_PATH'', ''invalid path''),
     (''HPE_INVALID_QUERY_STRING'', ''invalid query string''),
     (''HPE_INVALID_FRAGMENT'', ''invalid fragment''),
     (''HPE_LF_EXPECTED'', ''LF character expected''),
     (''HPE_INVALID_HEADER_TOKEN'', ''invalid character in header''),
     (''HPE_INVALID_CONTENT_LENGTH'', ''invalid character in content-length header''),
     (''HPE_UNEXPECTED_CONTENT_LENGTH'', ''unexpected content-length header''),
     (''HPE_INVALID_CHUNK_SIZE'', ''invalid character in chunk size header''),
     (''HPE_INVALID_CONSTANT'', ''invalid constant string''),
     (''HPE_INVALID_INTERNAL_STATE'', ''encountered unexpected internal state''),
     (''HPE_STRICT'', ''strict mode assertion failed''),
     (''HPE_PAUSED'', ''parser is paused''),
     (''HPE_UNKNOWN'', ''an unknown error occurred''),
     (''HPE_INVALID_TRANSFER_ENCODING'', ''request has invalid transfer-encoding'')]"

definition http_statuses :: "(nat \<times> bytes) list" where
  "http_statuses =
    [(100, ''Continue''), (101, ''Switching Protocols''), (102, ''Processing''), (200, ''OK''),
     (201, ''Created''), (202, ''Accepted''), (203, ''Non-Authoritative Information''),
     (204, ''No Content''), (205, ''Reset Content''), (206, ''Partial Content''),
     (207, ''Multi-Status''), (208, ''Already Reported''), (226, ''IM Used''),
     (300, ''Multiple Choices''), (301, ''Moved Permanently''), (302, ''Found''),
     (303, ''See Other''), (304, ''Not Modified''), (305, ''Use Proxy''),
     (307, ''Temporary Redirect''), (308, ''Permanent Redirect''), (400, ''Bad Request''),
     (401, ''Unauthorized''), (402, ''Payment Required''), (403, ''Forbidden''),
     (404, ''Not Found''), (405, ''Method Not Allowed''), (406, ''Not Acceptable''),
     (407, ''Proxy Authentication Required''), (408, ''Request Timeout''), (409, ''Conflict''),
     (410, ''Gone''), (411, ''Length Required''), (412, ''Precondition Failed''),
     (413, ''Payload Too Large''), (414, ''URI Too Long''), (415, ''Unsupported Media Type''),
     (416, ''Range Not Satisfiable''), (417, ''Expectation Failed''),
     (421, ''Misdirected Request''), (422, ''Unprocessable Entity''), (423, ''Locked''),
     (424, ''Failed Dependency''), (426, ''Upgrade Required''), (428, ''Precondition Required''),
     (429, ''Too Many Requests''), (431, ''Request Header Fields Too Large''),
     (451, ''Unavailable For Legal Reasons''), (500, ''Internal Server Error''),
     (501, ''Not Implemented''), (502, ''Bad Gateway''), (503, ''Service Unavailable''),
     (504, ''Gateway Timeout''), (505, ''HTTP Version Not Supported''),
     (506, ''Variant Also Negotiates''), (507, ''Insufficient Storage''),
     (508, ''Loop Detected''), (510, ''Not Extended''),
     (511, ''Network Authentication Required'')]"

text \<open>
  The number of an enumerator: its place in the declaration (states count from 1). The order of
  the states is the order of their numbers.
\<close>

definition enum_num :: "'a list \<Rightarrow> 'a \<Rightarrow> nat" where
  "enum_num xs x = length (takeWhile (\<lambda>y. y \<noteq> x) xs)"

definition state_num :: "state \<Rightarrow> nat" where
  "state_num s = Suc (enum_num states s)"

lemma enum_num_less: "x \<in> set xs \<Longrightarrow> enum_num xs x < length xs"
  by (induction xs) (auto simp: enum_num_def)

lemma enum_num_nth: "x \<in> set xs \<Longrightarrow> xs ! enum_num xs x = x"
  by (induction xs) (auto simp: enum_num_def)

lemma states_all: "s \<in> set states"
  by (cases s) (simp_all add: states_def)

lemma state_num_inj: "state_num s = state_num t \<Longrightarrow> s = t"
  unfolding state_num_def by (metis Suc_inject enum_num_nth states_all)

instantiation state :: linorder
begin
definition less_eq_state :: "state \<Rightarrow> state \<Rightarrow> bool" where
  "less_eq_state s t \<longleftrightarrow> state_num s \<le> state_num t"
definition less_state :: "state \<Rightarrow> state \<Rightarrow> bool" where
  "less_state s t \<longleftrightarrow> state_num s < state_num t"
instance
  by standard (auto simp: less_eq_state_def less_state_def dest: state_num_inj)
end

definition PARSING_HEADER :: "state \<Rightarrow> bool" where
  "PARSING_HEADER s \<longleftrightarrow> s \<le> s_headers_done"

definition method_string :: "http_method \<Rightarrow> bytes" where
  "method_string m = method_strings ! enum_num methods m"

section \<open>Character tables and classes\<close>

definition tokens :: bytes where
  "tokens =
     replicate 32 NUL @ '' !'' @ [NUL] @ ''#$%&'' @ [CHR 0x27, NUL, NUL] @ ''*+'' @ [NUL] @ ''-.''
     @ [NUL] @ ''0123456789'' @ replicate 7 NUL @ ''abcdefghijklmnopqrstuvwxyz''
     @ replicate 3 NUL @ ''^_'' @ [CHR 0x60] @ ''abcdefghijklmnopqrstuvwxyz''
     @ [NUL, CHR ''|'', NUL, CHR ''~'', NUL] @ replicate 128 NUL"

text \<open>The initialiser of \<open>unhex\<close> has 128 entries; C fills the other 128 with zero.\<close>

definition unhex :: "int list" where
  "unhex =
     replicate 48 (- 1) @ [0, 1, 2, 3, 4, 5, 6, 7, 8, 9] @ replicate 7 (- 1)
     @ [10, 11, 12, 13, 14, 15] @ replicate 26 (- 1) @ [10, 11, 12, 13, 14, 15]
     @ replicate 25 (- 1) @ replicate 128 0"

definition normal_url_char :: "nat list" where
  "normal_url_char =
     replicate 4 0 @ [246, 255, 255, 127] @ replicate 7 255 @ [127] @ replicate 16 0"

definition BIT_AT :: "nat list \<Rightarrow> nat \<Rightarrow> bool" where
  "BIT_AT a i \<longleftrightarrow> bit (a ! drop_bit 3 i) (i AND 7)"

definition LOWER :: "char \<Rightarrow> char" where
  "LOWER c = char_of (byte c OR 32)"

definition IS_ALPHA :: "char \<Rightarrow> bool" where
  "IS_ALPHA c \<longleftrightarrow> 97 \<le> byte (LOWER c) \<and> byte (LOWER c) \<le> 122"

definition IS_NUM :: "char \<Rightarrow> bool" where
  "IS_NUM c \<longleftrightarrow> 48 \<le> byte c \<and> byte c \<le> 57"

definition IS_ALPHANUM :: "char \<Rightarrow> bool" where
  "IS_ALPHANUM c \<longleftrightarrow> IS_ALPHA c \<or> IS_NUM c"

definition IS_HEX :: "char \<Rightarrow> bool" where
  "IS_HEX c \<longleftrightarrow> IS_NUM c \<or> (97 \<le> byte (LOWER c) \<and> byte (LOWER c) \<le> 102)"

definition IS_MARK :: "char \<Rightarrow> bool" where
  "IS_MARK c \<longleftrightarrow> c \<in> set (''-_.!~*'' @ [CHR 0x27] @ ''()'')"

definition IS_USERINFO_CHAR :: "char \<Rightarrow> bool" where
  "IS_USERINFO_CHAR c \<longleftrightarrow> IS_ALPHANUM c \<or> IS_MARK c \<or> c \<in> set ''%;:&=+$,''"

definition STRICT_TOKEN :: "char \<Rightarrow> char" where
  "STRICT_TOKEN c = (if c = CHR '' '' then NUL else tokens ! byte c)"

abbreviation TOKEN :: "char \<Rightarrow> char" where
  "TOKEN \<equiv> STRICT_TOKEN"

definition IS_URL_CHAR :: "char \<Rightarrow> bool" where
  "IS_URL_CHAR c \<longleftrightarrow> BIT_AT normal_url_char (byte c)"

definition IS_HOST_CHAR :: "char \<Rightarrow> bool" where
  "IS_HOST_CHAR c \<longleftrightarrow> IS_ALPHANUM c \<or> c = CHR ''.'' \<or> c = CHR ''-''"

definition IS_HEADER_CHAR :: "char \<Rightarrow> bool" where
  "IS_HEADER_CHAR c \<longleftrightarrow> c = CR \<or> c = LF \<or> byte c = 9 \<or> (31 < byte c \<and> byte c \<noteq> 127)"

text \<open>The value of a digit character, for \<open>ch - '0'\<close>.\<close>

definition digit :: "char \<Rightarrow> nat" where
  "digit c = byte c - 48"

section \<open>The parser and its settings\<close>

datatype http_parser_type = HTTP_REQUEST | HTTP_RESPONSE | HTTP_BOTH

text \<open>The flags, as masks; \<open>F_TRANSFER_ENCODING >> 8\<close> is bit 0 of \<open>extra_flags\<close>.\<close>

definition F_CHUNKED :: "8 word" where "F_CHUNKED = push_bit 0 1"
definition F_CONNECTION_KEEP_ALIVE :: "8 word" where "F_CONNECTION_KEEP_ALIVE = push_bit 1 1"
definition F_CONNECTION_CLOSE :: "8 word" where "F_CONNECTION_CLOSE = push_bit 2 1"
definition F_CONNECTION_UPGRADE :: "8 word" where "F_CONNECTION_UPGRADE = push_bit 3 1"
definition F_TRAILING :: "8 word" where "F_TRAILING = push_bit 4 1"
definition F_UPGRADE :: "8 word" where "F_UPGRADE = push_bit 5 1"
definition F_SKIPBODY :: "8 word" where "F_SKIPBODY = push_bit 6 1"
definition F_CONTENTLENGTH :: "8 word" where "F_CONTENTLENGTH = push_bit 7 1"
definition F_TRANSFER_ENCODING :: "16 word" where "F_TRANSFER_ENCODING = push_bit 8 1"

text \<open>The parser struct; the pointer \<open>data\<close> is the client state the callbacks get.\<close>

record http_parser =
  ptype :: http_parser_type
  flags :: "8 word"
  pstate :: state
  header_state :: header_states
  index :: "5 word"
  extra_flags :: "2 word"
  lenient_http_headers :: bool
  pnread :: "32 word"
  content_length :: "64 word"
  http_major :: "16 word"
  http_minor :: "16 word"
  status_code :: "16 word"
  meth :: http_method
  http_errno :: http_errno
  upgrade :: bool

type_synonym 'c http_cb = "http_parser \<Rightarrow> 'c \<Rightarrow> int \<times> http_parser \<times> 'c"
type_synonym 'c http_data_cb = "http_parser \<Rightarrow> bytes \<Rightarrow> 'c \<Rightarrow> int \<times> http_parser \<times> 'c"

record 'c http_parser_settings =
  on_message_begin :: "'c http_cb option"
  on_url :: "'c http_data_cb option"
  on_status :: "'c http_data_cb option"
  on_header_field :: "'c http_data_cb option"
  on_header_value :: "'c http_data_cb option"
  on_headers_complete :: "'c http_cb option"
  on_body :: "'c http_data_cb option"
  on_message_complete :: "'c http_cb option"
  on_chunk_header :: "'c http_cb option"
  on_chunk_complete :: "'c http_cb option"

definition has_flag :: "8 word \<Rightarrow> http_parser \<Rightarrow> bool" where
  "has_flag f p \<longleftrightarrow> flags p AND f \<noteq> 0"

definition set_flag :: "8 word \<Rightarrow> http_parser \<Rightarrow> http_parser" where
  "set_flag f p = p\<lparr>flags := flags p OR f\<rparr>"

definition has_transfer_encoding :: "http_parser \<Rightarrow> bool" where
  "has_transfer_encoding p \<longleftrightarrow>
     extra_flags p AND ucast (drop_bit 8 F_TRANSFER_ENCODING) \<noteq> 0"

section \<open>The small functions of the library\<close>

definition ULLONG_MAX :: "64 word" where "ULLONG_MAX = - 1"

definition HTTP_MAX_HEADER_SIZE :: "32 word" where "HTTP_MAX_HEADER_SIZE = 80 * 1024"

definition http_message_needs_eof :: "http_parser \<Rightarrow> bool" where
  "http_message_needs_eof p =
     (if ptype p = HTTP_REQUEST then False
      else if unat (status_code p) div 100 = 1 \<or> status_code p = 204 \<or> status_code p = 304
        \<or> has_flag F_SKIPBODY p then False
      else if has_transfer_encoding p \<and> \<not> has_flag F_CHUNKED p then True
      else if has_flag F_CHUNKED p \<or> content_length p \<noteq> ULLONG_MAX then False
      else True)"

definition http_should_keep_alive :: "http_parser \<Rightarrow> bool" where
  "http_should_keep_alive p =
     (if 0 < http_major p \<and> 0 < http_minor p
      then if has_flag F_CONNECTION_CLOSE p then False else \<not> http_message_needs_eof p
      else if \<not> has_flag F_CONNECTION_KEEP_ALIVE p then False else \<not> http_message_needs_eof p)"

definition http_method_str :: "nat \<Rightarrow> bytes" where
  "http_method_str m =
     (if m < length method_strings then method_strings ! m else ''<unknown>'')"

definition http_status_str :: "nat \<Rightarrow> bytes" where
  "http_status_str s = (case map_of http_statuses s of Some t \<Rightarrow> t | None \<Rightarrow> ''<unknown>'')"

definition http_errno_name :: "http_errno \<Rightarrow> bytes run" where
  "http_errno_name e = map_option fst (rd http_strerror_tab (enum_num errnos e))"

definition http_errno_description :: "http_errno \<Rightarrow> bytes run" where
  "http_errno_description e = map_option snd (rd http_strerror_tab (enum_num errnos e))"

definition http_parser_init :: "http_parser_type \<Rightarrow> http_parser" where
  "http_parser_init t =
     \<lparr>ptype = t, flags = 0,
      pstate = (if t = HTTP_REQUEST then s_start_req
                else if t = HTTP_RESPONSE then s_start_res else s_start_req_or_res),
      header_state = h_general, index = 0, extra_flags = 0, lenient_http_headers = False,
      pnread = 0, content_length = 0, http_major = 0, http_minor = 0, status_code = 0,
      meth = HTTP_DELETE, http_errno = HPE_OK, upgrade = False\<rparr>"

definition http_parser_settings_init :: "'c http_parser_settings" where
  "http_parser_settings_init =
     \<lparr>on_message_begin = None, on_url = None, on_status = None, on_header_field = None,
      on_header_value = None, on_headers_complete = None, on_body = None,
      on_message_complete = None, on_chunk_header = None, on_chunk_complete = None\<rparr>"

text \<open>\<open>None\<close> is the failed assertion that the parser was not in an error state.\<close>

definition http_parser_pause :: "http_parser \<Rightarrow> bool \<Rightarrow> http_parser run" where
  "http_parser_pause p paused =
     (if http_errno p = HPE_OK \<or> http_errno p = HPE_PAUSED
      then Some (p\<lparr>http_errno := if paused then HPE_PAUSED else HPE_OK\<rparr>)
      else None)"

definition http_body_is_final :: "http_parser \<Rightarrow> bool" where
  "http_body_is_final p \<longleftrightarrow> pstate p = s_message_done"

definition HTTP_PARSER_VERSION :: "nat \<times> nat \<times> nat" where
  "HTTP_PARSER_VERSION = (2, 9, 4)"

definition http_parser_version :: "64 word" where
  "http_parser_version =
     (case HTTP_PARSER_VERSION of (major, minor, patch) \<Rightarrow>
        of_nat major * 0x10000 OR of_nat minor * 0x00100 OR of_nat patch * 0x00001)"

text \<open>The new value of the static variable \<open>max_header_size\<close>.\<close>

definition http_parser_set_max_header_size :: "32 word \<Rightarrow> 32 word \<Rightarrow> 32 word" where
  "http_parser_set_max_header_size n old = n"


section \<open>Facts about the tables\<close>

lemma methods_all: "m \<in> set methods"
  by (cases m) (simp_all add: methods_def)

lemma errnos_all: "e \<in> set errnos"
  by (cases e) (simp_all add: errnos_def)

lemma PARSING_HEADER_iff:
  "PARSING_HEADER s \<longleftrightarrow>
     s \<notin> {s_chunk_data, s_chunk_data_almost_done, s_chunk_data_done, s_body_identity,
           s_body_identity_eof, s_message_done}"
proof -
  have "list_all (\<lambda>s. PARSING_HEADER s \<longleftrightarrow>
     s \<notin> {s_chunk_data, s_chunk_data_almost_done, s_chunk_data_done, s_body_identity,
           s_body_identity_eof, s_message_done}) states"
    by code_simp
  with states_all [of s] show ?thesis by (auto simp: list_all_iff)
qed

lemmas flag_defs = F_CHUNKED_def F_CONNECTION_KEEP_ALIVE_def F_CONNECTION_CLOSE_def
  F_CONNECTION_UPGRADE_def F_TRAILING_def F_UPGRADE_def F_SKIPBODY_def F_CONTENTLENGTH_def

lemma has_flag_set_flag:
  "has_flag f (set_flag g p) \<longleftrightarrow> (flags p AND f) OR (g AND f) \<noteq> 0"
  by (simp add: has_flag_def set_flag_def word_ao_dist)

lemma has_flag_other [simp]:
  "has_flag F_CHUNKED (set_flag F_CONNECTION_KEEP_ALIVE p) = has_flag F_CHUNKED p"
  "has_flag F_CHUNKED (set_flag F_CONNECTION_CLOSE p) = has_flag F_CHUNKED p"
  "has_flag F_CHUNKED (set_flag F_CONNECTION_UPGRADE p) = has_flag F_CHUNKED p"
  "has_flag F_CHUNKED (set_flag F_TRAILING p) = has_flag F_CHUNKED p"
  "has_flag F_CHUNKED (set_flag F_UPGRADE p) = has_flag F_CHUNKED p"
  "has_flag F_CHUNKED (set_flag F_SKIPBODY p) = has_flag F_CHUNKED p"
  "has_flag F_CHUNKED (set_flag F_CONTENTLENGTH p) = has_flag F_CHUNKED p"
  by (simp_all add: has_flag_def set_flag_def flag_defs word_ao_dist)

lemma has_flag_same [simp]:
  assumes "f \<noteq> 0" shows "has_flag f (set_flag f p)"
proof -
  have "(flags p OR f) AND f = f" by (rule bit_eqI) (auto simp: bit_simps)
  with assms show ?thesis by (simp add: has_flag_def set_flag_def)
qed

lemma nth_of_map:
  "xs = map f [0..<256] \<Longrightarrow> n < 256 \<Longrightarrow> xs ! n = f n"
  by simp

lemma tokens_table:
  "tokens = map (\<lambda>n.
     if 65 \<le> n \<and> n \<le> 90 then char_of (n + 32)
     else if (32 \<le> n \<and> n \<le> 39 \<and> n \<noteq> 34) \<or> n = 42 \<or> n = 43 \<or> n = 45 \<or> n = 46 \<or> n = 124 \<or> n = 126
       \<or> (48 \<le> n \<and> n \<le> 57) \<or> (94 \<le> n \<and> n \<le> 122) then char_of n
     else NUL) [0..<256]"
  by code_simp

lemma unhex_table:
  "unhex = map (\<lambda>n.
     if 48 \<le> n \<and> n \<le> 57 then int n - 48
     else if 65 \<le> n \<and> n \<le> 70 then int n - 55
     else if 97 \<le> n \<and> n \<le> 102 then int n - 87
     else if 128 \<le> n then 0 else - 1) [0..<256]"
  by code_simp

lemma tokens_nth:
  "tokens ! byte c =
     (if 65 \<le> byte c \<and> byte c \<le> 90 then char_of (byte c + 32)
      else if (32 \<le> byte c \<and> byte c \<le> 39 \<and> byte c \<noteq> 34) \<or> byte c = 42 \<or> byte c = 43
        \<or> byte c = 45 \<or> byte c = 46 \<or> byte c = 124 \<or> byte c = 126
        \<or> (48 \<le> byte c \<and> byte c \<le> 57) \<or> (94 \<le> byte c \<and> byte c \<le> 122) then c
      else NUL)"
  using nth_of_map [OF tokens_table byte_less, of c] by (simp only: char_of_byte)

lemma STRICT_TOKEN_eq:
  "STRICT_TOKEN c =
     (if 65 \<le> byte c \<and> byte c \<le> 90 then char_of (byte c + 32)
      else if (33 \<le> byte c \<and> byte c \<le> 39 \<and> byte c \<noteq> 34) \<or> byte c = 42 \<or> byte c = 43
        \<or> byte c = 45 \<or> byte c = 46 \<or> byte c = 124 \<or> byte c = 126
        \<or> (48 \<le> byte c \<and> byte c \<le> 57) \<or> (94 \<le> byte c \<and> byte c \<le> 122) then c
      else NUL)"
proof -
  have "c = CHR '' '' \<longleftrightarrow> byte c = 32"
    using byte_inj [of c "CHR '' ''"] by (simp add: byte_def del: byte_inj)
  then show ?thesis unfolding STRICT_TOKEN_def tokens_nth by auto
qed

lemma unhex_eq:
  "unhex ! byte c =
     (if 48 \<le> byte c \<and> byte c \<le> 57 then int (byte c) - 48
      else if 65 \<le> byte c \<and> byte c \<le> 70 then int (byte c) - 55
      else if 97 \<le> byte c \<and> byte c \<le> 102 then int (byte c) - 87
      else if 128 \<le> byte c then 0 else - 1)"
  by (simp add: nth_of_map [OF unhex_table byte_less])

lemma url_char_bytes:
  "normal_url_char = map (\<lambda>i.
     if i < 4 \<or> 16 \<le> i then 0 else if i = 4 then 246 else if i = 7 \<or> i = 15 then 127 else 255) [0..<32]"
  by code_simp

lemma bits_of_url_char:
  "bit (246::nat) k \<longleftrightarrow> k \<noteq> 0 \<and> k \<noteq> 3" "bit (255::nat) k" "bit (127::nat) k \<longleftrightarrow> k \<noteq> 7"
  if "k < 8" for k
proof -
  have "k = 0 \<or> k = 1 \<or> k = 2 \<or> k = 3 \<or> k = 4 \<or> k = 5 \<or> k = 6 \<or> k = 7" using that by linarith
  then show "bit (246::nat) k \<longleftrightarrow> k \<noteq> 0 \<and> k \<noteq> 3" "bit (255::nat) k" "bit (127::nat) k \<longleftrightarrow> k \<noteq> 7"
    by (elim disjE; simp add: bit_simps)+
qed

lemma IS_URL_CHAR_iff:
  "IS_URL_CHAR c \<longleftrightarrow> 33 \<le> byte c \<and> byte c \<le> 126 \<and> byte c \<noteq> 35 \<and> byte c \<noteq> 63"
proof -
  define i k where "i = byte c div 8" and "k = byte c mod 8"
  have c: "byte c = 8 * i + k" "k < 8" "i < 32"
    using byte_less [of c] by (auto simp: i_def k_def simp del: byte_less)
  have "byte c AND 7 = k"
    using take_bit_eq_mask [of 3 "byte c"] by (simp add: k_def take_bit_eq_mod mask_eq_exp_minus_1)
  moreover have "drop_bit 3 (byte c) = i" by (simp add: i_def drop_bit_eq_div)
  ultimately have "IS_URL_CHAR c \<longleftrightarrow> bit (normal_url_char ! i) k"
    by (simp add: IS_URL_CHAR_def BIT_AT_def)
  also have "normal_url_char ! i = (if i < 4 \<or> 16 \<le> i then 0 else if i = 4 then 246
      else if i = 7 \<or> i = 15 then 127 else 255)"
    using c(3) by (simp add: url_char_bytes)
  finally show ?thesis
    using c bits_of_url_char [OF c(2)] by (auto split: if_splits)
qed

lemma byte_LOWER: "byte (LOWER c) = byte c + (if odd (byte c div 32) then 0 else 32)"
proof -
  have "byte c OR 32 = byte c + of_bool (even (byte c div 32)) * 32"
    using set_bit_eq_or [of 5 "byte c"] set_bit_eq [of 5 "byte c"] by (simp add: bit_iff_odd)
  then have or: "byte c OR 32 = byte c + (if odd (byte c div 32) then 0 else 32)"
    by (cases "even (byte c div 32)") simp_all
  have "byte c + 32 < 256" if "even (byte c div 32)"
  proof -
    have "byte c div 32 \<noteq> 7" using that by auto
    moreover have "32 * (byte c div 32) \<le> byte c" "byte c < 32 * (byte c div 32) + 32" by simp_all
    ultimately show ?thesis using byte_less [of c] by linarith
  qed
  with or show ?thesis by (auto simp: LOWER_def)
qed

lemma LOWER_between:
  assumes "97 \<le> a" "b < 128"
  shows "a \<le> byte (LOWER c) \<and> byte (LOWER c) \<le> b
    \<longleftrightarrow> (a - 32 \<le> byte c \<and> byte c \<le> b - 32) \<or> (a \<le> byte c \<and> byte c \<le> b)"
proof -
  define q where "q = byte c div 32"
  have "q < 8" using byte_less [of c] unfolding q_def by linarith
  moreover have "32 * q \<le> byte c" "byte c < 32 * q + 32" by (simp_all add: q_def)
  ultimately consider "byte c < 64" "even q \<or> 32 \<le> byte c" | "q = 2" "64 \<le> byte c" "byte c < 96"
    | "q = 3" "96 \<le> byte c" "byte c < 128" | "128 \<le> byte c"
    by (cases "q = 0 \<or> q = 1 \<or> q = 2 \<or> q = 3") fastforce+
  then show ?thesis
    using assms by cases (auto simp: byte_LOWER q_def [symmetric] split: if_splits)
qed

lemma IS_ALPHA_iff: "IS_ALPHA c \<longleftrightarrow> (65 \<le> byte c \<and> byte c \<le> 90) \<or> (97 \<le> byte c \<and> byte c \<le> 122)"
  using LOWER_between [of 97 122 c] by (simp add: IS_ALPHA_def)

lemma IS_HEX_iff:
  "IS_HEX c \<longleftrightarrow> IS_NUM c \<or> (65 \<le> byte c \<and> byte c \<le> 70) \<or> (97 \<le> byte c \<and> byte c \<le> 102)"
  using LOWER_between [of 97 102 c] by (simp add: IS_HEX_def)

text \<open>The assertion of the error-name lookups never fails.\<close>

lemma http_errno_lookup:
  "http_errno_name e = Some (fst (http_strerror_tab ! enum_num errnos e))"
  "http_errno_description e = Some (snd (http_strerror_tab ! enum_num errnos e))"
proof -
  have "length http_strerror_tab = length errnos" by (simp add: http_strerror_tab_def errnos_def)
  then have "enum_num errnos e < length http_strerror_tab"
    using enum_num_less [OF errnos_all, of e] by simp
  then show "http_errno_name e = Some (fst (http_strerror_tab ! enum_num errnos e))"
    "http_errno_description e = Some (snd (http_strerror_tab ! enum_num errnos e))"
    by (simp_all add: http_errno_name_def http_errno_description_def)
qed

end
