(* ===== verification/Http_Url.thy ===== *)
theory Http_Url
  imports Http_Types
begin

text \<open>
  The URL parser of \<open>http_parser.c\<close>: the state machine \<open>parse_url_char\<close>, which the
  message parser uses to check the request target, and \<open>http_parser_parse_url\<close> with its
  host parser, which cut a URL into fields.
\<close>

section \<open>The URL state machine\<close>

definition parse_url_char :: "state \<Rightarrow> char \<Rightarrow> state" where
  "parse_url_char s ch =
     (if ch = CHR '' '' \<or> ch = CR \<or> ch = LF then s_dead
      else if ch = HT \<or> ch = FF then s_dead
      else case s of
        s_req_spaces_before_url \<Rightarrow>
          (if ch = CHR ''/'' \<or> ch = CHR ''*'' then s_req_path
           else if IS_ALPHA ch then s_req_schema
           else s_dead)
      | s_req_schema \<Rightarrow>
          (if IS_ALPHA ch then s else if ch = CHR '':'' then s_req_schema_slash else s_dead)
      | s_req_schema_slash \<Rightarrow> (if ch = CHR ''/'' then s_req_schema_slash_slash else s_dead)
      | s_req_schema_slash_slash \<Rightarrow> (if ch = CHR ''/'' then s_req_server_start else s_dead)
      | s_req_server_with_at \<Rightarrow>
          (if ch = CHR ''@'' then s_dead
           else if ch = CHR ''/'' then s_req_path
           else if ch = CHR ''?'' then s_req_query_string_start
           else if IS_USERINFO_CHAR ch \<or> ch = CHR ''['' \<or> ch = CHR '']'' then s_req_server
           else s_dead)
      | s_req_server_start \<Rightarrow>
          (if ch = CHR ''/'' then s_req_path
           else if ch = CHR ''?'' then s_req_query_string_start
           else if ch = CHR ''@'' then s_req_server_with_at
           else if IS_USERINFO_CHAR ch \<or> ch = CHR ''['' \<or> ch = CHR '']'' then s_req_server
           else s_dead)
      | s_req_server \<Rightarrow>
          (if ch = CHR ''/'' then s_req_path
           else if ch = CHR ''?'' then s_req_query_string_start
           else if ch = CHR ''@'' then s_req_server_with_at
           else if IS_USERINFO_CHAR ch \<or> ch = CHR ''['' \<or> ch = CHR '']'' then s_req_server
           else s_dead)
      | s_req_path \<Rightarrow>
          (if IS_URL_CHAR ch then s
           else if ch = CHR ''?'' then s_req_query_string_start
           else if ch = CHR ''#'' then s_req_fragment_start
           else s_dead)
      | s_req_query_string_start \<Rightarrow>
          (if IS_URL_CHAR ch then s_req_query_string
           else if ch = CHR ''?'' then s_req_query_string
           else if ch = CHR ''#'' then s_req_fragment_start
           else s_dead)
      | s_req_query_string \<Rightarrow>
          (if IS_URL_CHAR ch then s_req_query_string
           else if ch = CHR ''?'' then s_req_query_string
           else if ch = CHR ''#'' then s_req_fragment_start
           else s_dead)
      | s_req_fragment_start \<Rightarrow>
          (if IS_URL_CHAR ch then s_req_fragment
           else if ch = CHR ''?'' then s_req_fragment
           else if ch = CHR ''#'' then s
           else s_dead)
      | s_req_fragment \<Rightarrow>
          (if IS_URL_CHAR ch then s
           else if ch = CHR ''?'' \<or> ch = CHR ''#'' then s
           else s_dead)
      | _ \<Rightarrow> s_dead)"

section \<open>The host part\<close>

definition http_parse_host_char :: "http_host_state \<Rightarrow> char \<Rightarrow> http_host_state" where
  "http_parse_host_char s ch =
     (if s = s_http_userinfo \<or> s = s_http_userinfo_start then
        if ch = CHR ''@'' then s_http_host_start
        else if IS_USERINFO_CHAR ch then s_http_userinfo
        else s_http_host_dead
      else if s = s_http_host_start then
        if ch = CHR ''['' then s_http_host_v6_start
        else if IS_HOST_CHAR ch then s_http_host
        else s_http_host_dead
      else if s = s_http_host \<and> IS_HOST_CHAR ch then s_http_host
      else if s = s_http_host \<or> s = s_http_host_v6_end then
        if ch = CHR '':'' then s_http_host_port_start else s_http_host_dead
      else if s = s_http_host_v6 \<and> ch = CHR '']'' then s_http_host_v6_end
      else if s = s_http_host_v6 \<or> s = s_http_host_v6_start then
        if IS_HEX ch \<or> ch = CHR '':'' \<or> ch = CHR ''.'' then s_http_host_v6
        else if s = s_http_host_v6 \<and> ch = CHR ''%'' then s_http_host_v6_zone_start
        else s_http_host_dead
      else if s = s_http_host_v6_zone \<and> ch = CHR '']'' then s_http_host_v6_end
      else if s = s_http_host_v6_zone \<or> s = s_http_host_v6_zone_start then
        if IS_ALPHANUM ch \<or> ch \<in> set ''%.-_~'' then s_http_host_v6_zone
        else s_http_host_dead
      else if s = s_http_host_port \<or> s = s_http_host_port_start then
        if IS_NUM ch then s_http_host_port else s_http_host_dead
      else s_http_host_dead)"

text \<open>The fields of \<open>struct http_parser_url\<close>: sixteen-bit offsets and lengths.\<close>

datatype http_parser_url_fields =
    UF_SCHEMA | UF_HOST | UF_PORT | UF_PATH | UF_QUERY | UF_FRAGMENT | UF_USERINFO | UF_MAX

fun uf_num :: "http_parser_url_fields \<Rightarrow> nat" where
  "uf_num UF_SCHEMA = 0"
| "uf_num UF_HOST = 1"
| "uf_num UF_PORT = 2"
| "uf_num UF_PATH = 3"
| "uf_num UF_QUERY = 4"
| "uf_num UF_FRAGMENT = 5"
| "uf_num UF_USERINFO = 6"
| "uf_num UF_MAX = 7"

record http_parser_url =
  field_set :: "16 word"
  uf_port :: "16 word"
  uf_off :: "http_parser_url_fields \<Rightarrow> 16 word"
  uf_len :: "http_parser_url_fields \<Rightarrow> 16 word"

definition uf_bit :: "http_parser_url_fields \<Rightarrow> 16 word" where
  "uf_bit f = push_bit (uf_num f) 1"

definition has_field :: "http_parser_url_fields \<Rightarrow> http_parser_url \<Rightarrow> bool" where
  "has_field f u \<longleftrightarrow> field_set u AND uf_bit f \<noteq> 0"

definition set_field :: "http_parser_url_fields \<Rightarrow> http_parser_url \<Rightarrow> http_parser_url" where
  "set_field f u = u\<lparr>field_set := field_set u OR uf_bit f\<rparr>"

definition set_off :: "http_parser_url_fields \<Rightarrow> nat \<Rightarrow> http_parser_url \<Rightarrow> http_parser_url" where
  "set_off f n u = u\<lparr>uf_off := (uf_off u)(f := of_nat n)\<rparr>"

definition set_len :: "http_parser_url_fields \<Rightarrow> 16 word \<Rightarrow> http_parser_url \<Rightarrow> http_parser_url" where
  "set_len f n u = u\<lparr>uf_len := (uf_len u)(f := n)\<rparr>"

definition inc_len :: "http_parser_url_fields \<Rightarrow> http_parser_url \<Rightarrow> http_parser_url" where
  "inc_len f u = set_len f (uf_len u f + 1) u"

definition http_parser_url_init :: http_parser_url where
  "http_parser_url_init = \<lparr>field_set = 0, uf_port = 0, uf_off = (\<lambda>_. 0), uf_len = (\<lambda>_. 0)\<rparr>"

text \<open>One character of \<open>http_parse_host\<close>, at offset \<open>p\<close> of the buffer.\<close>

definition host_field_step ::
  "http_host_state \<Rightarrow> http_host_state \<Rightarrow> nat \<Rightarrow> http_parser_url \<Rightarrow> http_parser_url" where
  "host_field_step s new_s p u =
     (if new_s = s_http_host then
        inc_len UF_HOST (if s \<noteq> s_http_host then set_off UF_HOST p u else u)
      else if new_s = s_http_host_v6 then
        inc_len UF_HOST (if s \<noteq> s_http_host_v6 then set_off UF_HOST p u else u)
      else if new_s = s_http_host_v6_zone_start \<or> new_s = s_http_host_v6_zone then
        inc_len UF_HOST u
      else if new_s = s_http_host_port then
        inc_len UF_PORT
          (if s \<noteq> s_http_host_port
           then set_field UF_PORT (set_len UF_PORT 0 (set_off UF_PORT p u)) else u)
      else if new_s = s_http_userinfo then
        inc_len UF_USERINFO
          (if s \<noteq> s_http_userinfo
           then set_field UF_USERINFO (set_len UF_USERINFO 0 (set_off UF_USERINFO p u)) else u)
      else u)"

fun host_loop ::
  "bytes \<Rightarrow> nat \<Rightarrow> http_host_state \<Rightarrow> http_parser_url
     \<Rightarrow> http_host_state option \<times> http_parser_url" where
  "host_loop [] p s u = (Some s, u)"
| "host_loop (c # cs) p s u =
     (let new_s = http_parse_host_char s c
      in if new_s = s_http_host_dead then (None, u)
         else host_loop cs (Suc p) new_s (host_field_step s new_s p u))"

definition host_unfinished :: "http_host_state \<Rightarrow> bool" where
  "host_unfinished s \<longleftrightarrow>
     s \<in> {s_http_host_start, s_http_host_v6_start, s_http_host_v6, s_http_host_v6_zone_start,
          s_http_host_v6_zone, s_http_host_port_start, s_http_userinfo, s_http_userinfo_start}"

definition http_parse_host :: "bytes \<Rightarrow> http_parser_url \<Rightarrow> bool \<Rightarrow> (int \<times> http_parser_url) run" where
  "http_parse_host buf u found_at =
     (let o1 = unat (uf_off u UF_HOST); buflen = o1 + unat (uf_len u UF_HOST) in
      if \<not> has_field UF_HOST u \<or> length buf < buflen then None
      else
        let u = set_len UF_HOST 0 u;
            s = (if found_at then s_http_userinfo_start else s_http_host_start);
            (r, u) = host_loop (bslice buf o1 (buflen - o1)) o1 s u
        in case r of
             None \<Rightarrow> Some (1, u)
           | Some s \<Rightarrow> Some (if host_unfinished s then 1 else 0, u))"

section \<open>Splitting a URL\<close>

text \<open>
  The loop of \<open>http_parser_parse_url\<close>: a character in a delimiter state is skipped, one in
  a field state extends the current field or starts the next. \<open>Inl\<close> is the early return.
\<close>

definition url_field_of :: "state \<Rightarrow> http_parser_url_fields option" where
  "url_field_of s =
     (case s of
        s_req_schema \<Rightarrow> Some UF_SCHEMA
      | s_req_server_with_at \<Rightarrow> Some UF_HOST
      | s_req_server \<Rightarrow> Some UF_HOST
      | s_req_path \<Rightarrow> Some UF_PATH
      | s_req_query_string \<Rightarrow> Some UF_QUERY
      | s_req_fragment \<Rightarrow> Some UF_FRAGMENT
      | _ \<Rightarrow> None)"

definition url_delimiter :: "state \<Rightarrow> bool" where
  "url_delimiter s \<longleftrightarrow>
     s \<in> {s_req_schema_slash, s_req_schema_slash_slash, s_req_server_start,
          s_req_query_string_start, s_req_fragment_start}"

definition start_field :: "http_parser_url_fields \<Rightarrow> nat \<Rightarrow> http_parser_url \<Rightarrow> http_parser_url" where
  "start_field uf p u = set_field uf (set_len uf 1 (set_off uf p u))"

fun url_loop ::
  "bytes \<Rightarrow> nat \<Rightarrow> state \<Rightarrow> http_parser_url_fields \<Rightarrow> bool \<Rightarrow> http_parser_url
     \<Rightarrow> (http_parser_url + http_parser_url \<times> bool) run" where
  "url_loop [] p s old_uf found_at u = Some (Inr (u, found_at))"
| "url_loop (c # cs) p s old_uf found_at u =
     (let s = parse_url_char s c in
      if s = s_dead then Some (Inl u)
      else if url_delimiter s then url_loop cs (Suc p) s old_uf found_at u
      else
        let found_at = (found_at \<or> s = s_req_server_with_at)
        in case url_field_of s of
             None \<Rightarrow> None
           | Some uf \<Rightarrow>
               if uf = old_uf then url_loop cs (Suc p) s old_uf found_at (inc_len uf u)
               else url_loop cs (Suc p) s uf found_at (start_field uf p u))"

text \<open>The number in the port field, an \<open>unsigned long\<close>; \<open>None\<close> when it exceeds
  0xffff. A \<open>char\<close> is signed.\<close>

definition digit_value :: "char \<Rightarrow> 64 word" where
  "digit_value c = of_int (int (byte c) - (if byte c < 128 then 0 else 256) - 48)"

fun port_loop :: "bytes \<Rightarrow> 64 word \<Rightarrow> 64 word option" where
  "port_loop [] v = Some v"
| "port_loop (c # cs) v =
     (let v = v * 10 + digit_value c in if 65535 < v then None else port_loop cs v)"

definition url_port :: "bytes \<Rightarrow> http_parser_url \<Rightarrow> (int \<times> http_parser_url) run" where
  "url_port buf u =
     (if has_field UF_PORT u then
        let o1 = unat (uf_off u UF_PORT); n = unat (uf_len u UF_PORT) in
        if length buf < o1 + n then None
        else case port_loop (bslice buf o1 n) 0 of
               None \<Rightarrow> Some (1, u)
             | Some v \<Rightarrow> Some (0, u\<lparr>uf_port := ucast v\<rparr>)
      else Some (0, u))"

definition http_parser_parse_url ::
  "bytes \<Rightarrow> bool \<Rightarrow> http_parser_url \<Rightarrow> (int \<times> http_parser_url) run" where
  "http_parser_parse_url buf is_connect u =
     (if buf = [] then Some (1, u)
      else
        let u = u\<lparr>uf_port := 0, field_set := 0\<rparr>;
            s = (if is_connect then s_req_server_start else s_req_spaces_before_url)
        in do {
          r \<leftarrow> url_loop buf 0 s UF_MAX False u;
          case r of
            Inl u \<Rightarrow> Some (1, u)
          | Inr (u, found_at) \<Rightarrow>
              if has_field UF_SCHEMA u \<and> \<not> has_field UF_HOST u then Some (1, u)
              else do {
                (rc, u) \<leftarrow>
                  (if has_field UF_HOST u then http_parse_host buf u found_at else Some (0, u));
                if rc \<noteq> 0 then Some (1, u)
                else if is_connect \<and> field_set u \<noteq> uf_bit UF_HOST OR uf_bit UF_PORT
                then Some (1, u)
                else url_port buf u
              }
        })"

end
