(* ===== verification/Http_Exec.thy ===== *)
theory Http_Exec
  imports Http_Url
begin

text \<open>
  \<open>http_parser_execute\<close> of \<open>http_parser.c\<close>. The local variables are the record
  \<open>exec\<close>; every \<open>case\<close> of the big switch is a definition that maps it to an
  \<open>outcome\<close>: the \<open>break\<close> to the next byte, the jump to \<open>reexecute\<close>, the jump to
  \<open>error\<close>, a \<open>return\<close>, or undefined behaviour (a failed assertion or a read outside
  an array). The macros with their early returns take the rest of the case as a continuation.
\<close>

section \<open>Local state and macros\<close>

text \<open>The data callbacks with a mark, and the others (\<open>headers_complete\<close> is apart).\<close>

datatype data_cb = cb_header_field | cb_header_value | cb_url | cb_body | cb_status

datatype notify_cb = cb_message_begin | cb_message_complete | cb_chunk_header | cb_chunk_complete

fun on_data :: "data_cb \<Rightarrow> 'c http_parser_settings \<Rightarrow> 'c http_data_cb option" where
  "on_data cb_header_field = on_header_field"
| "on_data cb_header_value = on_header_value"
| "on_data cb_url = on_url"
| "on_data cb_body = on_body"
| "on_data cb_status = on_status"

fun data_errno :: "data_cb \<Rightarrow> http_errno" where
  "data_errno cb_header_field = HPE_CB_header_field"
| "data_errno cb_header_value = HPE_CB_header_value"
| "data_errno cb_url = HPE_CB_url"
| "data_errno cb_body = HPE_CB_body"
| "data_errno cb_status = HPE_CB_status"

fun on_notify :: "notify_cb \<Rightarrow> 'c http_parser_settings \<Rightarrow> 'c http_cb option" where
  "on_notify cb_message_begin = on_message_begin"
| "on_notify cb_message_complete = on_message_complete"
| "on_notify cb_chunk_header = on_chunk_header"
| "on_notify cb_chunk_complete = on_chunk_complete"

fun notify_errno :: "notify_cb \<Rightarrow> http_errno" where
  "notify_errno cb_message_begin = HPE_CB_message_begin"
| "notify_errno cb_message_complete = HPE_CB_message_complete"
| "notify_errno cb_chunk_header = HPE_CB_chunk_header"
| "notify_errno cb_chunk_complete = HPE_CB_chunk_complete"

text \<open>What a call of \<open>http_parser_execute\<close> fixes, and its local variables. \<open>pos\<close> is
  \<open>p - data\<close>, a mark the offset of the mark pointer.\<close>

record 'c env =
  settings :: "'c http_parser_settings"
  input :: bytes
  lenient :: bool
  max_header_size :: "32 word"

record 'c exec =
  par :: http_parser
  p_state :: state
  nread :: "32 word"
  pos :: nat
  ch :: char
  marks :: "data_cb \<Rightarrow> nat option"
  client :: 'c

datatype 'c outcome =
    Next "'c exec" | Again "'c exec" | Error "'c exec" | Return nat "'c exec" | Undefined

abbreviation upd_par :: "(http_parser \<Rightarrow> http_parser) \<Rightarrow> 'c exec \<Rightarrow> 'c exec" where
  "upd_par f x \<equiv> x\<lparr>par := f (par x)\<rparr>"

abbreviation UPDATE_STATE :: "state \<Rightarrow> 'c exec \<Rightarrow> 'c exec" where
  "UPDATE_STATE s x \<equiv> x\<lparr>p_state := s\<rparr>"

definition SET_ERRNO :: "http_errno \<Rightarrow> 'c exec \<Rightarrow> 'c exec" where
  "SET_ERRNO e x = upd_par (\<lambda>p. p\<lparr>pnread := nread x, http_errno := e\<rparr>) x"

definition fail :: "http_errno \<Rightarrow> 'c exec \<Rightarrow> 'c outcome" where
  "fail e x = Error (SET_ERRNO e x)"

definition RETURN :: "nat \<Rightarrow> 'c exec \<Rightarrow> 'c outcome" where
  "RETURN n x = Return n (upd_par (\<lambda>p. p\<lparr>pnread := nread x, pstate := p_state x\<rparr>) x)"

definition STRICT_CHECK :: "bool \<Rightarrow> 'c exec \<Rightarrow> ('c exec \<Rightarrow> 'c outcome) \<Rightarrow> 'c outcome" where
  "STRICT_CHECK cond x k = (if cond then fail HPE_STRICT x else k x)"

definition COUNT_HEADER_SIZE ::
  "'c env \<Rightarrow> nat \<Rightarrow> 'c exec \<Rightarrow> ('c exec \<Rightarrow> 'c outcome) \<Rightarrow> 'c outcome" where
  "COUNT_HEADER_SIZE env v x k =
     (let x = x\<lparr>nread := nread x + of_nat v\<rparr>
      in if max_header_size env < nread x then fail HPE_HEADER_OVERFLOW x else k x)"

definition MARK :: "data_cb \<Rightarrow> 'c exec \<Rightarrow> 'c exec" where
  "MARK f x = (if marks x f = None then x\<lparr>marks := (marks x)(f := Some (pos x))\<rparr> else x)"

text \<open>The part the two callback macros share: what follows the return of the callback.\<close>

definition after_callback ::
  "http_errno \<Rightarrow> nat \<Rightarrow> int \<times> http_parser \<times> 'c \<Rightarrow> 'c exec
     \<Rightarrow> ('c exec \<Rightarrow> 'c outcome) \<Rightarrow> 'c outcome" where
  "after_callback e er r x k =
     (let (rc, p, c) = r;
          x = x\<lparr>par := p, client := c\<rparr>;
          x = (if rc \<noteq> 0 then SET_ERRNO e x else x);
          x = UPDATE_STATE (pstate (par x)) x
      in if http_errno (par x) \<noteq> HPE_OK then Return er x else k x)"

definition CALLBACK_NOTIFY_at ::
  "'c env \<Rightarrow> notify_cb \<Rightarrow> nat \<Rightarrow> 'c exec \<Rightarrow> ('c exec \<Rightarrow> 'c outcome) \<Rightarrow> 'c outcome" where
  "CALLBACK_NOTIFY_at env f er x k =
     (if http_errno (par x) \<noteq> HPE_OK then Undefined
      else case on_notify f (settings env) of
          None \<Rightarrow> k x
        | Some cb \<Rightarrow>
            let x = upd_par (\<lambda>p. p\<lparr>pstate := p_state x\<rparr>) x
            in after_callback (notify_errno f) er (cb (par x) (client x)) x k)"

definition CALLBACK_NOTIFY ::
  "'c env \<Rightarrow> notify_cb \<Rightarrow> 'c exec \<Rightarrow> ('c exec \<Rightarrow> 'c outcome) \<Rightarrow> 'c outcome" where
  "CALLBACK_NOTIFY env f x k = CALLBACK_NOTIFY_at env f (pos x + 1) x k"

definition CALLBACK_NOTIFY_NOADVANCE ::
  "'c env \<Rightarrow> notify_cb \<Rightarrow> 'c exec \<Rightarrow> ('c exec \<Rightarrow> 'c outcome) \<Rightarrow> 'c outcome" where
  "CALLBACK_NOTIFY_NOADVANCE env f x k = CALLBACK_NOTIFY_at env f (pos x) x k"

text \<open>\<open>n\<close> is the number of bytes past \<open>p\<close> that the length counts; a span that does not
  lie inside the data is undefined behaviour.\<close>

definition CALLBACK_DATA_at ::
  "'c env \<Rightarrow> data_cb \<Rightarrow> nat \<Rightarrow> nat \<Rightarrow> 'c exec \<Rightarrow> ('c exec \<Rightarrow> 'c outcome) \<Rightarrow> 'c outcome" where
  "CALLBACK_DATA_at env f n er x k =
     (if http_errno (par x) \<noteq> HPE_OK then Undefined
      else case marks x f of
          None \<Rightarrow> k x
        | Some m \<Rightarrow>
            let clear = (\<lambda>x. x\<lparr>marks := (marks x)(f := None)\<rparr>) in
            case on_data f (settings env) of
              None \<Rightarrow> k (clear x)
            | Some cb \<Rightarrow>
                if pos x + n < m \<or> length (input env) < pos x + n then Undefined
                else
                  let x = upd_par (\<lambda>p. p\<lparr>pstate := p_state x\<rparr>) x;
                      span = bslice (input env) m (pos x + n - m)
                  in after_callback (data_errno f) er (cb (par x) span (client x)) x
                       (\<lambda>x. k (clear x)))"

definition CALLBACK_DATA ::
  "'c env \<Rightarrow> data_cb \<Rightarrow> 'c exec \<Rightarrow> ('c exec \<Rightarrow> 'c outcome) \<Rightarrow> 'c outcome" where
  "CALLBACK_DATA env f x k = CALLBACK_DATA_at env f 0 (pos x + 1) x k"

definition CALLBACK_DATA_NOADVANCE ::
  "'c env \<Rightarrow> data_cb \<Rightarrow> 'c exec \<Rightarrow> ('c exec \<Rightarrow> 'c outcome) \<Rightarrow> 'c outcome" where
  "CALLBACK_DATA_NOADVANCE env f x k = CALLBACK_DATA_at env f 0 (pos x) x k"

definition start_state :: "http_parser \<Rightarrow> state" where
  "start_state p = (if ptype p = HTTP_REQUEST then s_start_req else s_start_res)"

definition NEW_MESSAGE :: "http_parser \<Rightarrow> state" where
  "NEW_MESSAGE p = (if http_should_keep_alive p then start_state p else s_dead)"

definition reset_message :: "http_parser \<Rightarrow> http_parser" where
  "reset_message p = p\<lparr>flags := 0, extra_flags := 0, content_length := ULLONG_MAX\<rparr>"

end
