(* ===== verification/Http_Line.thy ===== *)
theory Http_Line
  imports Http_Exec
begin

text \<open>
  The cases of \<open>http_parser_execute\<close> up to the end of the request or status line, in the
  order of the switch. Cases with the same body share a definition.
\<close>

section \<open>The start of a message\<close>

definition ex_dead :: "'c exec \<Rightarrow> 'c outcome" where
  "ex_dead x =
     (if ch x = CR \<or> ch x = LF then Next x else fail HPE_CLOSED_CONNECTION x)"

definition ex_start_req_or_res :: "'c env \<Rightarrow> 'c exec \<Rightarrow> 'c outcome" where
  "ex_start_req_or_res env x =
     (if ch x = CR \<or> ch x = LF then Next x
      else
        let x = upd_par reset_message x in
        if ch x = CHR ''H'' then
          CALLBACK_NOTIFY env cb_message_begin (UPDATE_STATE s_res_or_resp_H x) Next
        else Again (UPDATE_STATE s_start_req (upd_par (\<lambda>p. p\<lparr>ptype := HTTP_REQUEST\<rparr>) x)))"

definition ex_res_or_resp_H :: "'c exec \<Rightarrow> 'c outcome" where
  "ex_res_or_resp_H x =
     (if ch x = CHR ''T'' then
        Next (UPDATE_STATE s_res_HT (upd_par (\<lambda>p. p\<lparr>ptype := HTTP_RESPONSE\<rparr>) x))
      else if ch x \<noteq> CHR ''E'' then fail HPE_INVALID_CONSTANT x
      else
        Next (UPDATE_STATE s_req_method
          (upd_par (\<lambda>p. p\<lparr>ptype := HTTP_REQUEST, meth := HTTP_HEAD, index := 2\<rparr>) x)))"

definition ex_start_res :: "'c env \<Rightarrow> 'c exec \<Rightarrow> 'c outcome" where
  "ex_start_res env x =
     (if ch x = CR \<or> ch x = LF then Next x
      else
        let x = upd_par reset_message x in
        if ch x = CHR ''H'' then
          CALLBACK_NOTIFY env cb_message_begin (UPDATE_STATE s_res_H x) Next
        else fail HPE_INVALID_CONSTANT x)"

text \<open>The states that expect one letter of a constant.\<close>

definition ex_letter :: "char \<Rightarrow> state \<Rightarrow> 'c exec \<Rightarrow> 'c outcome" where
  "ex_letter c next x = STRICT_CHECK (ch x \<noteq> c) x (\<lambda>x. Next (UPDATE_STATE next x))"

section \<open>The version number, in requests and responses\<close>

definition ex_http_major :: "state \<Rightarrow> 'c exec \<Rightarrow> 'c outcome" where
  "ex_http_major next x =
     (if \<not> IS_NUM (ch x) then fail HPE_INVALID_VERSION x
      else Next (UPDATE_STATE next
             (upd_par (\<lambda>p. p\<lparr>http_major := of_nat (digit (ch x))\<rparr>) x)))"

definition ex_http_dot :: "state \<Rightarrow> 'c exec \<Rightarrow> 'c outcome" where
  "ex_http_dot next x =
     (if ch x \<noteq> CHR ''.'' then fail HPE_INVALID_VERSION x else Next (UPDATE_STATE next x))"

definition ex_http_minor :: "state \<Rightarrow> 'c exec \<Rightarrow> 'c outcome" where
  "ex_http_minor next x =
     (if \<not> IS_NUM (ch x) then fail HPE_INVALID_VERSION x
      else Next (UPDATE_STATE next
             (upd_par (\<lambda>p. p\<lparr>http_minor := of_nat (digit (ch x))\<rparr>) x)))"

section \<open>The status line of a response\<close>

definition ex_res_http_end :: "'c exec \<Rightarrow> 'c outcome" where
  "ex_res_http_end x =
     (if ch x \<noteq> CHR '' '' then fail HPE_INVALID_VERSION x
      else Next (UPDATE_STATE s_res_first_status_code x))"

definition ex_res_first_status_code :: "'c exec \<Rightarrow> 'c outcome" where
  "ex_res_first_status_code x =
     (if \<not> IS_NUM (ch x) then
        if ch x = CHR '' '' then Next x else fail HPE_INVALID_STATUS x
      else
        Next (UPDATE_STATE s_res_status_code
          (upd_par (\<lambda>p. p\<lparr>status_code := of_nat (digit (ch x))\<rparr>) x)))"

definition ex_res_status_code :: "'c exec \<Rightarrow> 'c outcome" where
  "ex_res_status_code x =
     (if \<not> IS_NUM (ch x) then
        if ch x = CHR '' '' then Next (UPDATE_STATE s_res_status_start x)
        else if ch x = CR \<or> ch x = LF then Again (UPDATE_STATE s_res_status_start x)
        else fail HPE_INVALID_STATUS x
      else
        let x = upd_par (\<lambda>p. p\<lparr>status_code := status_code p * 10 + of_nat (digit (ch x))\<rparr>) x
        in if 999 < status_code (par x) then fail HPE_INVALID_STATUS x else Next x)"

definition ex_res_status_start :: "'c exec \<Rightarrow> 'c outcome" where
  "ex_res_status_start x =
     (let x = upd_par (\<lambda>p. p\<lparr>index := 0\<rparr>) (UPDATE_STATE s_res_status (MARK cb_status x))
      in if ch x = CR \<or> ch x = LF then Again x else Next x)"

definition ex_res_status :: "'c env \<Rightarrow> 'c exec \<Rightarrow> 'c outcome" where
  "ex_res_status env x =
     (if ch x = CR then
        CALLBACK_DATA env cb_status (UPDATE_STATE s_res_line_almost_done x) Next
      else if ch x = LF then
        CALLBACK_DATA env cb_status (UPDATE_STATE s_header_field_start x) Next
      else Next x)"

section \<open>The method\<close>

text \<open>The switch on the first letter of a request.\<close>

definition first_methods :: "(char \<times> http_method) list" where
  "first_methods =
     [(CHR ''A'', HTTP_ACL), (CHR ''B'', HTTP_BIND), (CHR ''C'', HTTP_CONNECT),
      (CHR ''D'', HTTP_DELETE), (CHR ''G'', HTTP_GET), (CHR ''H'', HTTP_HEAD),
      (CHR ''L'', HTTP_LOCK), (CHR ''M'', HTTP_MKCOL), (CHR ''N'', HTTP_NOTIFY),
      (CHR ''O'', HTTP_OPTIONS), (CHR ''P'', HTTP_POST), (CHR ''R'', HTTP_REPORT),
      (CHR ''S'', HTTP_SUBSCRIBE), (CHR ''T'', HTTP_TRACE), (CHR ''U'', HTTP_UNLOCK)]"

definition ex_start_req :: "'c env \<Rightarrow> 'c exec \<Rightarrow> 'c outcome" where
  "ex_start_req env x =
     (if ch x = CR \<or> ch x = LF then Next x
      else
        let x = upd_par reset_message x in
        if \<not> IS_ALPHA (ch x) then fail HPE_INVALID_METHOD x
        else
          let x = upd_par (\<lambda>p. p\<lparr>meth := HTTP_DELETE, index := 1\<rparr>) x in
          case map_of first_methods (ch x) of
            None \<Rightarrow> fail HPE_INVALID_METHOD x
          | Some m \<Rightarrow>
              CALLBACK_NOTIFY env cb_message_begin
                (UPDATE_STATE s_req_method (upd_par (\<lambda>p. p\<lparr>meth := m\<rparr>) x)) Next)"

text \<open>The \<open>XX\<close> table of \<open>s_req_method\<close>: method so far, position, letter, new method.\<close>

definition method_jumps :: "((http_method \<times> nat \<times> char) \<times> http_method) list" where
  "method_jumps =
     [((HTTP_POST, 1, CHR ''U''), HTTP_PUT), ((HTTP_POST, 1, CHR ''A''), HTTP_PATCH),
      ((HTTP_POST, 1, CHR ''R''), HTTP_PROPFIND), ((HTTP_PUT, 2, CHR ''R''), HTTP_PURGE),
      ((HTTP_CONNECT, 1, CHR ''H''), HTTP_CHECKOUT), ((HTTP_CONNECT, 2, CHR ''P''), HTTP_COPY),
      ((HTTP_MKCOL, 1, CHR ''O''), HTTP_MOVE), ((HTTP_MKCOL, 1, CHR ''E''), HTTP_MERGE),
      ((HTTP_MKCOL, 1, CHR ''-''), HTTP_MSEARCH), ((HTTP_MKCOL, 2, CHR ''A''), HTTP_MKACTIVITY),
      ((HTTP_MKCOL, 3, CHR ''A''), HTTP_MKCALENDAR), ((HTTP_SUBSCRIBE, 1, CHR ''E''), HTTP_SEARCH),
      ((HTTP_SUBSCRIBE, 1, CHR ''O''), HTTP_SOURCE), ((HTTP_REPORT, 2, CHR ''B''), HTTP_REBIND),
      ((HTTP_PROPFIND, 4, CHR ''P''), HTTP_PROPPATCH), ((HTTP_LOCK, 1, CHR ''I''), HTTP_LINK),
      ((HTTP_UNLOCK, 2, CHR ''S''), HTTP_UNSUBSCRIBE), ((HTTP_UNLOCK, 2, CHR ''B''), HTTP_UNBIND),
      ((HTTP_UNLOCK, 3, CHR ''I''), HTTP_UNLINK)]"

text \<open>One byte of the method token: the parser after it, \<open>Inl\<close> the invalid method,
  \<open>None\<close> a read past the terminator of the method string.\<close>

definition req_method_step :: "char \<Rightarrow> http_parser \<Rightarrow> (unit + state \<times> http_parser) run" where
  "req_method_step c p =
     (let i = unat (index p); next = p\<lparr>index := index p + 1\<rparr> in
      if c = NUL then Some (Inl ())
      else do {
        m \<leftarrow> rd (method_string (meth p) @ [NUL]) i;
        if c = CHR '' '' \<and> m = NUL then Some (Inr (s_req_spaces_before_url, next))
        else if c = m then Some (Inr (s_req_method, next))
        else if (65 \<le> byte c \<and> byte c \<le> 90) \<or> c = CHR ''-'' then
          (case map_of method_jumps (meth p, i, c) of
             None \<Rightarrow> Some (Inl ())
           | Some m' \<Rightarrow> Some (Inr (s_req_method, next\<lparr>meth := m'\<rparr>)))
        else Some (Inl ())
      })"

definition ex_req_method :: "'c exec \<Rightarrow> 'c outcome" where
  "ex_req_method x =
     (case req_method_step (ch x) (par x) of
        None \<Rightarrow> Undefined
      | Some (Inl _) \<Rightarrow> fail HPE_INVALID_METHOD x
      | Some (Inr (s, p)) \<Rightarrow> Next (x\<lparr>p_state := s, par := p\<rparr>))"

section \<open>The request target\<close>

text \<open>The lines that run \<open>parse_url_char\<close> on the current state.\<close>

definition url_step :: "'c exec \<Rightarrow> 'c outcome" where
  "url_step x =
     (let x = UPDATE_STATE (parse_url_char (p_state x) (ch x)) x
      in if p_state x = s_dead then fail HPE_INVALID_URL x else Next x)"

definition ex_req_spaces_before_url :: "'c exec \<Rightarrow> 'c outcome" where
  "ex_req_spaces_before_url x =
     (if ch x = CHR '' '' then Next x
      else
        let x = MARK cb_url x
        in url_step (if meth (par x) = HTTP_CONNECT then UPDATE_STATE s_req_server_start x else x))"

definition ex_req_schema :: "'c exec \<Rightarrow> 'c outcome" where
  "ex_req_schema x =
     (if ch x = CHR '' '' \<or> ch x = CR \<or> ch x = LF then fail HPE_INVALID_URL x else url_step x)"

definition ex_req_target :: "'c env \<Rightarrow> 'c exec \<Rightarrow> 'c outcome" where
  "ex_req_target env x =
     (if ch x = CHR '' '' then
        CALLBACK_DATA env cb_url (UPDATE_STATE s_req_http_start x) Next
      else if ch x = CR \<or> ch x = LF then
        let x = upd_par (\<lambda>p. p\<lparr>http_major := 0, http_minor := 9\<rparr>) x;
            s = (if ch x = CR then s_req_line_almost_done else s_header_field_start)
        in CALLBACK_DATA env cb_url (UPDATE_STATE s x) Next
      else url_step x)"

section \<open>The end of the request line\<close>

definition ex_req_http_start :: "'c exec \<Rightarrow> 'c outcome" where
  "ex_req_http_start x =
     (if ch x = CHR '' '' then Next x
      else if ch x = CHR ''H'' then Next (UPDATE_STATE s_req_http_H x)
      else if ch x = CHR ''I'' \<and> meth (par x) = HTTP_SOURCE then
        Next (UPDATE_STATE s_req_http_I x)
      else fail HPE_INVALID_CONSTANT x)"

definition ex_req_http_end :: "'c exec \<Rightarrow> 'c outcome" where
  "ex_req_http_end x =
     (if ch x = CR then Next (UPDATE_STATE s_req_line_almost_done x)
      else if ch x = LF then Next (UPDATE_STATE s_header_field_start x)
      else fail HPE_INVALID_VERSION x)"

definition ex_req_line_almost_done :: "'c exec \<Rightarrow> 'c outcome" where
  "ex_req_line_almost_done x =
     (if ch x \<noteq> LF then fail HPE_LF_EXPECTED x
      else Next (UPDATE_STATE s_header_field_start x))"

end
