(* ===== verification/Http_Header.thy ===== *)
theory Http_Header
  imports Http_Exec
begin

text \<open>
  The cases of \<open>http_parser_execute\<close> for the header lines, with the two inner loops that
  run over the bytes of a field name and of a value.
\<close>

section \<open>Header names\<close>

definition PROXY_CONNECTION :: bytes where "PROXY_CONNECTION = ''proxy-connection''"
definition CONNECTION :: bytes where "CONNECTION = ''connection''"
definition CONTENT_LENGTH :: bytes where "CONTENT_LENGTH = ''content-length''"
definition TRANSFER_ENCODING :: bytes where "TRANSFER_ENCODING = ''transfer-encoding''"
definition UPGRADE :: bytes where "UPGRADE = ''upgrade''"
definition CHUNKED :: bytes where "CHUNKED = ''chunked''"
definition KEEP_ALIVE :: bytes where "KEEP_ALIVE = ''keep-alive''"
definition CLOSE :: bytes where "CLOSE = ''close''"

definition ex_header_field_start :: "'c exec \<Rightarrow> 'c outcome" where
  "ex_header_field_start x =
     (if ch x = CR then Next (UPDATE_STATE s_headers_almost_done x)
      else if ch x = LF then Again (UPDATE_STATE s_headers_almost_done x)
      else
        let c = TOKEN (ch x) in
        if c = NUL then fail HPE_INVALID_HEADER_TOKEN x
        else
          let h = (if c = CHR ''c'' then h_C
                   else if c = CHR ''p'' then h_matching_proxy_connection
                   else if c = CHR ''t'' then h_matching_transfer_encoding
                   else if c = CHR ''u'' then h_matching_upgrade
                   else h_general)
          in Next (upd_par (\<lambda>p. p\<lparr>index := 0, header_state := h\<rparr>)
                (UPDATE_STATE s_header_field (MARK cb_header_field x))))"

text \<open>One step of a matcher: \<open>++index\<close>, then compare with the word (of which the
  terminating NUL can be read); at its last letter the matcher has \<open>found\<close>.\<close>

datatype match_result = mismatch | matching | found

definition match_step :: "bytes \<Rightarrow> 5 word \<Rightarrow> char \<Rightarrow> match_result" where
  "match_step w i c =
     (if length w < unat i \<or> c \<noteq> (w @ [NUL]) ! unat i then mismatch
      else if unat i = length w - 1 then found
      else matching)"

definition match_field :: "bytes \<Rightarrow> header_states \<Rightarrow> char \<Rightarrow> http_parser \<Rightarrow> http_parser" where
  "match_field w target c p =
     (let p = p\<lparr>index := index p + 1\<rparr> in
      case match_step w (index p) c of
        mismatch \<Rightarrow> p\<lparr>header_state := h_general\<rparr>
      | matching \<Rightarrow> p
      | found \<Rightarrow> p\<lparr>header_state := target\<rparr>)"

text \<open>The inner switch of \<open>s_header_field\<close>, except \<open>h_general\<close>. \<open>None\<close> is the
  assertion \<open>"Unknown header_state"\<close>.\<close>

definition header_field_step :: "char \<Rightarrow> char \<Rightarrow> http_parser \<Rightarrow> http_parser run" where
  "header_field_step c0 c p =
     (case header_state p of
        h_C \<Rightarrow>
          Some (p\<lparr>index := index p + 1,
                  header_state := if c = CHR ''o'' then h_CO else h_general\<rparr>)
      | h_CO \<Rightarrow>
          Some (p\<lparr>index := index p + 1,
                  header_state := if c = CHR ''n'' then h_CON else h_general\<rparr>)
      | h_CON \<Rightarrow>
          Some (p\<lparr>index := index p + 1,
                  header_state :=
                    if c = CHR ''n'' then h_matching_connection
                    else if c = CHR ''t'' then h_matching_content_length
                    else h_general\<rparr>)
      | h_matching_connection \<Rightarrow> Some (match_field CONNECTION h_connection c p)
      | h_matching_proxy_connection \<Rightarrow> Some (match_field PROXY_CONNECTION h_connection c p)
      | h_matching_content_length \<Rightarrow> Some (match_field CONTENT_LENGTH h_content_length c p)
      | h_matching_transfer_encoding \<Rightarrow>
          (let p' = match_field TRANSFER_ENCODING h_transfer_encoding c p in
           Some (if header_state p' = h_transfer_encoding
                 then p'\<lparr>extra_flags := extra_flags p' OR ucast (drop_bit 8 F_TRANSFER_ENCODING)\<rparr>
                 else p'))
      | h_matching_upgrade \<Rightarrow> Some (match_field UPGRADE h_upgrade c p)
      | h_connection \<Rightarrow> Some (if c0 \<noteq> CHR '' '' then p\<lparr>header_state := h_general\<rparr> else p)
      | h_content_length \<Rightarrow> Some (if c0 \<noteq> CHR '' '' then p\<lparr>header_state := h_general\<rparr> else p)
      | h_transfer_encoding \<Rightarrow> Some (if c0 \<noteq> CHR '' '' then p\<lparr>header_state := h_general\<rparr> else p)
      | h_upgrade \<Rightarrow> Some (if c0 \<noteq> CHR '' '' then p\<lparr>header_state := h_general\<rparr> else p)
      | _ \<Rightarrow> None)"

text \<open>The loop in the case \<open>h_general\<close>: \<open>while (p+1 < pe && TOKEN(p[1])) p++\<close>.\<close>

function skip_tokens :: "bytes \<Rightarrow> nat \<Rightarrow> nat \<Rightarrow> nat" where
  "skip_tokens data p pe =
     (if p + 1 < pe \<and> TOKEN (data ! (p + 1)) \<noteq> NUL then skip_tokens data (p + 1) pe else p)"
  by pat_completeness auto
termination by (relation "measure (\<lambda>(data, p, pe). pe - p)") auto

declare skip_tokens.simps [simp del]

definition jump_end :: "'c env \<Rightarrow> nat \<Rightarrow> nat" where
  "jump_end env p = p + min (length (input env) - p) (unat (max_header_size env))"

lemma skip_tokens_ge: "p \<le> skip_tokens data p pe"
  by (induction data p pe rule: skip_tokens.induct) (subst skip_tokens.simps, auto)

text \<open>The loop of \<open>s_header_field\<close>, up to where it breaks off.\<close>

function header_field_loop :: "'c env \<Rightarrow> 'c exec \<Rightarrow> 'c exec run" where
  "header_field_loop env x =
     (if pos x = length (input env) then Some x
      else case rd (input env) (pos x) of
          None \<Rightarrow> None
        | Some c0 \<Rightarrow>
            if TOKEN c0 = NUL then Some (x\<lparr>ch := c0\<rparr>)
            else if header_state (par x) = h_general then
              header_field_loop env
                (x\<lparr>ch := c0,
                   pos := Suc (skip_tokens (input env) (pos x) (jump_end env (pos x)))\<rparr>)
            else
              (case header_field_step c0 (TOKEN c0) (par x) of
                 None \<Rightarrow> None
               | Some p \<Rightarrow> header_field_loop env (x\<lparr>ch := c0, par := p, pos := Suc (pos x)\<rparr>)))"
  by pat_completeness auto
termination
proof (relation "measure (\<lambda>(env, x). length (input env) - pos x)", goal_cases)
  case (2 env x c0)
  then show ?case
    using skip_tokens_ge [of "pos x" "input env" "jump_end env (pos x)"]
    by (auto simp: rd_def split: if_splits)
qed (auto simp: rd_def split: if_splits)

declare header_field_loop.simps [simp del]

definition ex_header_field :: "'c env \<Rightarrow> 'c exec \<Rightarrow> 'c outcome" where
  "ex_header_field env x =
     (let start = pos x in
      case header_field_loop env x of
        None \<Rightarrow> Undefined
      | Some x \<Rightarrow>
          if pos x = length (input env) then
            let x = x\<lparr>pos := pos x - 1\<rparr> in COUNT_HEADER_SIZE env (pos x - start) x Next
          else
            COUNT_HEADER_SIZE env (pos x - start) x
              (\<lambda>x. if ch x = CHR '':'' then
                     CALLBACK_DATA env cb_header_field
                       (UPDATE_STATE s_header_value_discard_ws x) Next
                   else fail HPE_INVALID_HEADER_TOKEN x))"

section \<open>The start of a value\<close>

text \<open>The switch on \<open>header_state\<close> at the first byte of a value.\<close>

definition value_start :: "char \<Rightarrow> http_parser \<Rightarrow> http_errno + http_parser" where
  "value_start c0 p =
     (let c = LOWER c0 in
      case header_state p of
        h_upgrade \<Rightarrow> Inr (set_flag F_UPGRADE (p\<lparr>header_state := h_general\<rparr>))
      | h_transfer_encoding \<Rightarrow>
          Inr (p\<lparr>header_state :=
                   if c = CHR ''c'' then h_matching_transfer_encoding_chunked
                   else h_matching_transfer_encoding_token\<rparr>)
      | h_matching_transfer_encoding_token_start \<Rightarrow> Inr p
      | h_content_length \<Rightarrow>
          (if \<not> IS_NUM c0 then Inl HPE_INVALID_CONTENT_LENGTH
           else if has_flag F_CONTENTLENGTH p then Inl HPE_UNEXPECTED_CONTENT_LENGTH
           else
             Inr (set_flag F_CONTENTLENGTH
               (p\<lparr>content_length := of_nat (digit c0), header_state := h_content_length_num\<rparr>)))
      | h_content_length_ws \<Rightarrow> Inr p
      | h_connection \<Rightarrow>
          Inr (p\<lparr>header_state :=
                   if c = CHR ''k'' then h_matching_connection_keep_alive
                   else if c = CHR ''c'' then h_matching_connection_close
                   else if c = CHR ''u'' then h_matching_connection_upgrade
                   else h_matching_connection_token\<rparr>)
      | h_matching_connection_token_start \<Rightarrow> Inr p
      | _ \<Rightarrow> Inr (p\<lparr>header_state := h_general\<rparr>))"

definition ex_header_value_start :: "'c exec \<Rightarrow> 'c outcome" where
  "ex_header_value_start x =
     (let x = upd_par (\<lambda>p. p\<lparr>index := 0\<rparr>) (UPDATE_STATE s_header_value (MARK cb_header_value x))
      in case value_start (ch x) (par x) of
           Inl e \<Rightarrow> fail e x
         | Inr p \<Rightarrow> Next (x\<lparr>par := p\<rparr>))"

definition ex_header_value_discard_ws :: "'c exec \<Rightarrow> 'c outcome" where
  "ex_header_value_discard_ws x =
     (if ch x = CHR '' '' \<or> ch x = HT then Next x
      else if ch x = CR then Next (UPDATE_STATE s_header_value_discard_ws_almost_done x)
      else if ch x = LF then Next (UPDATE_STATE s_header_value_discard_lws x)
      else ex_header_value_start x)"

section \<open>The bytes of a value\<close>

text \<open>A matcher of the value: \<open>++index\<close>, compare, and the next \<open>h_state\<close>.\<close>

definition match_value ::
  "bytes \<Rightarrow> header_states \<Rightarrow> header_states \<Rightarrow> header_states \<Rightarrow> char \<Rightarrow> http_parser
     \<Rightarrow> header_states \<times> http_parser" where
  "match_value w h otherwise target c p =
     (let p = p\<lparr>index := index p + 1\<rparr> in
      case match_step w (index p) c of
        mismatch \<Rightarrow> (otherwise, p)
      | matching \<Rightarrow> (h, p)
      | found \<Rightarrow> (target, p))"

text \<open>A digit of the content length, with the conservative test for overflow.\<close>

definition content_length_num_step ::
  "char \<Rightarrow> http_parser \<Rightarrow> header_states + header_states \<times> http_parser" where
  "content_length_num_step c0 p =
     (if c0 = CHR '' '' then Inr (h_content_length_ws, p)
      else if \<not> IS_NUM c0 then Inl h_content_length_num
      else
        let t = content_length p * 10 + of_nat (digit c0) in
        if (ULLONG_MAX - 10) div 10 < content_length p then Inl h_content_length_num
        else Inr (h_content_length_num, p\<lparr>content_length := t\<rparr>))"

definition token_start_step :: "char \<Rightarrow> header_states" where
  "token_start_step c =
     (if c = CHR ''k'' then h_matching_connection_keep_alive
      else if c = CHR ''c'' then h_matching_connection_close
      else if c = CHR ''u'' then h_matching_connection_upgrade
      else if STRICT_TOKEN c \<noteq> NUL then h_matching_connection_token
      else if c = CHR '' '' \<or> c = HT then h_matching_connection_token_start
      else h_general)"

text \<open>The flag a finished \<open>Connection\<close> or \<open>Transfer-Encoding\<close> token sets.\<close>

definition connection_flag :: "header_states \<Rightarrow> http_parser \<Rightarrow> http_parser" where
  "connection_flag h p =
     (if h = h_connection_keep_alive then set_flag F_CONNECTION_KEEP_ALIVE p
      else if h = h_connection_close then set_flag F_CONNECTION_CLOSE p
      else if h = h_connection_upgrade then set_flag F_CONNECTION_UPGRADE p
      else p)"

definition connection_token_step ::
  "header_states \<Rightarrow> char \<Rightarrow> http_parser \<Rightarrow> header_states \<times> http_parser" where
  "connection_token_step h c0 p =
     (if c0 = CHR '','' then
        (h_matching_connection_token_start, (connection_flag h p)\<lparr>index := 0\<rparr>)
      else if c0 \<noteq> CHR '' '' then (h_matching_connection_token, p)
      else (h, p))"

definition finished_header :: "http_parser \<Rightarrow> http_parser" where
  "finished_header p =
     (if header_state p = h_transfer_encoding_chunked then set_flag F_CHUNKED p
      else connection_flag (header_state p) p)"

text \<open>
  The switch on \<open>h_state\<close> in \<open>s_header_value\<close>, except \<open>h_general\<close>: the next
  \<open>h_state\<close> and parser, or \<open>Inl\<close> the \<open>header_state\<close> with which the content length
  is invalid. \<open>None\<close> is the assertion \<open>"Shouldn't get here."\<close>. (The default also sets
  the state \<open>s_header_value\<close>, the one the parser is in.)
\<close>

definition header_value_step ::
  "header_states \<Rightarrow> char \<Rightarrow> http_parser \<Rightarrow> (header_states + header_states \<times> http_parser) run" where
  "header_value_step h c0 p =
     (let c = LOWER c0 in
      case h of
        h_connection \<Rightarrow> None
      | h_transfer_encoding \<Rightarrow> None
      | h_content_length \<Rightarrow>
          Some (if c0 = CHR '' '' then Inr (h, p) else content_length_num_step c0 p)
      | h_content_length_num \<Rightarrow> Some (content_length_num_step c0 p)
      | h_content_length_ws \<Rightarrow> Some (if c0 = CHR '' '' then Inr (h, p) else Inl h)
      | h_matching_transfer_encoding_token_start \<Rightarrow>
          Some (Inr
            (if c = CHR ''c'' then h_matching_transfer_encoding_chunked
             else if STRICT_TOKEN c \<noteq> NUL then h_matching_transfer_encoding_token
             else if c = CHR '' '' \<or> c = HT then h
             else h_general, p))
      | h_matching_transfer_encoding_chunked \<Rightarrow>
          Some (Inr (match_value CHUNKED h h_matching_transfer_encoding_token
                       h_transfer_encoding_chunked c p))
      | h_matching_transfer_encoding_token \<Rightarrow>
          Some (Inr (if c0 = CHR '','' then (h_matching_transfer_encoding_token_start, p\<lparr>index := 0\<rparr>)
                     else (h, p)))
      | h_matching_connection_token_start \<Rightarrow> Some (Inr (token_start_step c, p))
      | h_matching_connection_keep_alive \<Rightarrow>
          Some (Inr (match_value KEEP_ALIVE h h_matching_connection_token
                       h_connection_keep_alive c p))
      | h_matching_connection_close \<Rightarrow>
          Some (Inr (match_value CLOSE h h_matching_connection_token h_connection_close c p))
      | h_matching_connection_upgrade \<Rightarrow>
          Some (Inr (match_value UPGRADE h h_matching_connection_token h_connection_upgrade c p))
      | h_matching_connection_token \<Rightarrow>
          Some (Inr (if c0 = CHR '','' then (h_matching_connection_token_start, p\<lparr>index := 0\<rparr>)
                     else (h, p)))
      | h_transfer_encoding_chunked \<Rightarrow>
          Some (Inr (if c0 \<noteq> CHR '' '' then h_matching_transfer_encoding_token else h, p))
      | h_connection_keep_alive \<Rightarrow> Some (Inr (connection_token_step h c0 p))
      | h_connection_close \<Rightarrow> Some (Inr (connection_token_step h c0 p))
      | h_connection_upgrade \<Rightarrow> Some (Inr (connection_token_step h c0 p))
      | _ \<Rightarrow> Some (Inr (h_general, p)))"

text \<open>The loop in the case \<open>h_general\<close>: over plain bytes up to \<open>pe\<close>; it stops one
  byte before a CR or LF. The result is \<open>p\<close>, \<open>ch\<close> and whether a byte was invalid.\<close>

function skip_value :: "bool \<Rightarrow> bytes \<Rightarrow> nat \<Rightarrow> nat \<Rightarrow> char \<Rightarrow> nat \<times> char \<times> bool" where
  "skip_value len data p pe c0 =
     (if pe \<le> p then (p, c0, False)
      else
        let c = data ! p in
        if c = CR \<or> c = LF then (p - 1, c, False)
        else if \<not> len \<and> \<not> IS_HEADER_CHAR c then (p, c, True)
        else skip_value len data (p + 1) pe c)"
  by pat_completeness auto
termination by (relation "measure (\<lambda>(len, data, p, pe, c0). pe - p)") auto

declare skip_value.simps [simp del]

lemma skip_value_ge:
  "p < pe \<Longrightarrow> data ! p \<noteq> CR \<Longrightarrow> data ! p \<noteq> LF \<Longrightarrow> p \<le> fst (skip_value len data p pe c0)"
proof (induction len data p pe c0 rule: skip_value.induct)
  case (1 len data p pe c0)
  show ?case
  proof (cases "p + 1 < pe \<and> data ! (p + 1) \<noteq> CR \<and> data ! (p + 1) \<noteq> LF")
    case True
    with 1 show ?thesis by (subst skip_value.simps) (auto simp: Let_def)
  next
    case False
    then have "p \<le> fst (skip_value len data (p + 1) pe (data ! p))"
      by (subst skip_value.simps) (auto simp: Let_def)
    with 1 show ?thesis by (subst skip_value.simps) (auto simp: Let_def)
  qed
qed

text \<open>The end of the case \<open>s_header_value\<close>, after the loop.\<close>

definition header_value_end ::
  "'c env \<Rightarrow> nat \<Rightarrow> header_states \<Rightarrow> 'c exec \<Rightarrow> 'c outcome" where
  "header_value_end env start h x =
     (let x = upd_par (\<lambda>p. p\<lparr>header_state := h\<rparr>) x;
          x = (if pos x = length (input env) then x\<lparr>pos := pos x - 1\<rparr> else x)
      in COUNT_HEADER_SIZE env (pos x - start) x Next)"

function header_value_loop ::
  "'c env \<Rightarrow> nat \<Rightarrow> header_states \<Rightarrow> 'c exec \<Rightarrow> 'c outcome" where
  "header_value_loop env start h x =
     (if pos x = length (input env) then header_value_end env start h x
      else case rd (input env) (pos x) of
          None \<Rightarrow> Undefined
        | Some c0 \<Rightarrow>
            if c0 = CR then
              CALLBACK_DATA env cb_header_value
                (upd_par (\<lambda>p. p\<lparr>header_state := h\<rparr>)
                  (UPDATE_STATE s_header_almost_done (x\<lparr>ch := c0\<rparr>)))
                (header_value_end env start h)
            else if c0 = LF then
              COUNT_HEADER_SIZE env (pos x - start)
                (UPDATE_STATE s_header_almost_done (x\<lparr>ch := c0\<rparr>))
                (\<lambda>x. CALLBACK_DATA_NOADVANCE env cb_header_value
                       (upd_par (\<lambda>p. p\<lparr>header_state := h\<rparr>) x) Again)
            else if \<not> lenient env \<and> \<not> IS_HEADER_CHAR c0 then
              fail HPE_INVALID_HEADER_TOKEN (x\<lparr>ch := c0\<rparr>)
            else if h = h_general then
              (case skip_value (lenient env) (input env) (pos x) (jump_end env (pos x)) c0 of
                 (p, c, bad) \<Rightarrow>
                   if bad then fail HPE_INVALID_HEADER_TOKEN (x\<lparr>ch := c, pos := p\<rparr>)
                   else
                     header_value_loop env start h
                       (x\<lparr>ch := c,
                          pos := Suc (if p = length (input env) then p - 1 else p)\<rparr>))
            else
              (case header_value_step h c0 (par x) of
                 None \<Rightarrow> Undefined
               | Some (Inl h') \<Rightarrow>
                   fail HPE_INVALID_CONTENT_LENGTH
                     (upd_par (\<lambda>p. p\<lparr>header_state := h'\<rparr>) (x\<lparr>ch := c0\<rparr>))
               | Some (Inr (h', p)) \<Rightarrow>
                   header_value_loop env start h' (x\<lparr>ch := c0, par := p, pos := Suc (pos x)\<rparr>)))"
  by pat_completeness auto
termination
proof (relation "measure (\<lambda>(env, start, h, x). length (input env) - pos x)", goal_cases)
  case 1
  show ?case by simp
next
  case prems: (2 env start h x c0 p y)
  have le: "pos x \<le> fst (skip_value (lenient env) (input env) (pos x) (jump_end env (pos x)) c0)"
  proof (cases "pos x < jump_end env (pos x)")
    case True
    with prems show ?thesis by (intro skip_value_ge) (auto simp: rd_def split: if_splits)
  next
    case False
    then show ?thesis by (simp add: skip_value.simps [of _ _ _ "jump_end env (pos x)"])
  qed
  have "pos x < length (input env)" using prems(2) by (simp add: rd_def split: if_splits)
  moreover have "pos x \<le> p" using le by (simp flip: prems(7))
  ultimately show ?case by auto
next
  case 3
  then show ?case by (auto simp: rd_def split: if_splits)
qed

declare header_value_loop.simps [simp del]

definition ex_header_value :: "'c env \<Rightarrow> 'c exec \<Rightarrow> 'c outcome" where
  "ex_header_value env x = header_value_loop env (pos x) (header_state (par x)) x"

section \<open>The end of a header line\<close>

definition ex_header_almost_done :: "'c exec \<Rightarrow> 'c outcome" where
  "ex_header_almost_done x =
     (if ch x \<noteq> LF then fail HPE_LF_EXPECTED x else Next (UPDATE_STATE s_header_value_lws x))"

definition ex_header_value_lws :: "'c exec \<Rightarrow> 'c outcome" where
  "ex_header_value_lws x =
     (if ch x = CHR '' '' \<or> ch x = HT then
        Again (UPDATE_STATE s_header_value_start
          (upd_par (\<lambda>p. if header_state p = h_content_length_num
                         then p\<lparr>header_state := h_content_length_ws\<rparr> else p) x))
      else Again (UPDATE_STATE s_header_field_start (upd_par finished_header x)))"

definition ex_header_value_discard_lws :: "'c env \<Rightarrow> 'c exec \<Rightarrow> 'c outcome" where
  "ex_header_value_discard_lws env x =
     (if ch x = CHR '' '' \<or> ch x = HT then Next (UPDATE_STATE s_header_value_discard_ws x)
      else if header_state (par x) = h_content_length then fail HPE_INVALID_CONTENT_LENGTH x
      else
        CALLBACK_DATA_NOADVANCE env cb_header_value
          (UPDATE_STATE s_header_field_start (MARK cb_header_value (upd_par finished_header x)))
          Again)"

section \<open>The end of the headers\<close>

definition upgrade_of :: "http_parser \<Rightarrow> bool" where
  "upgrade_of p =
     (if has_flag F_UPGRADE p \<and> has_flag F_CONNECTION_UPGRADE p
      then ptype p = HTTP_REQUEST \<or> status_code p = 101
      else meth p = HTTP_CONNECT)"

text \<open>The call of \<open>on_headers_complete\<close>, which is not one of the macros: the results 1 and
  2 are not errors, and the state is not stored for the callback.\<close>

definition headers_complete :: "'c env \<Rightarrow> 'c exec \<Rightarrow> 'c outcome" where
  "headers_complete env x =
     (case on_headers_complete (settings env) of
        None \<Rightarrow>
          if http_errno (par x) \<noteq> HPE_OK then RETURN (pos x) x else Again x
      | Some cb \<Rightarrow>
          (let (rc, p, c) = cb (par x) (client x);
               x = x\<lparr>par := p, client := c\<rparr>
           in if rc \<noteq> 0 \<and> rc \<noteq> 1 \<and> rc \<noteq> 2
              then RETURN (pos x) (SET_ERRNO HPE_CB_headers_complete x)
              else
                let x = (if rc = 2 then upd_par (\<lambda>p. p\<lparr>upgrade := True\<rparr>) x else x);
                    x = (if rc \<noteq> 0 then upd_par (set_flag F_SKIPBODY) x else x)
                in if http_errno (par x) \<noteq> HPE_OK then RETURN (pos x) x else Again x))"

definition ex_headers_almost_done :: "'c env \<Rightarrow> 'c exec \<Rightarrow> 'c outcome" where
  "ex_headers_almost_done env x =
     STRICT_CHECK (ch x \<noteq> LF) x (\<lambda>x.
       if has_flag F_TRAILING (par x) then
         CALLBACK_NOTIFY_NOADVANCE env cb_chunk_complete (UPDATE_STATE s_message_done x) Again
       else if has_transfer_encoding (par x) \<and> has_flag F_CONTENTLENGTH (par x)
         \<and> (\<not> lenient env \<or> has_flag F_CHUNKED (par x))
       then fail HPE_UNEXPECTED_CONTENT_LENGTH x
       else
         headers_complete env
           (upd_par (\<lambda>p. p\<lparr>upgrade := upgrade_of p\<rparr>) (UPDATE_STATE s_headers_done x)))"

end
