(* ===== verification/Http_Body.thy ===== *)
theory Http_Body
  imports Http_Exec
begin

text \<open>The cases of \<open>http_parser_execute\<close> after the headers: the decision how the message
  ends, the bodies of known length, the bodies up to the end of the stream, and the chunks.\<close>

definition clear_nread :: "'c exec \<Rightarrow> 'c exec" where
  "clear_nread x = upd_par (\<lambda>p. p\<lparr>pnread := 0\<rparr>) x\<lparr>nread := 0\<rparr>"

definition new_message :: "'c env \<Rightarrow> 'c exec \<Rightarrow> ('c exec \<Rightarrow> 'c outcome) \<Rightarrow> 'c outcome" where
  "new_message env x k =
     CALLBACK_NOTIFY env cb_message_complete (UPDATE_STATE (NEW_MESSAGE (par x)) x) k"

definition ex_headers_done :: "'c env \<Rightarrow> 'c exec \<Rightarrow> 'c outcome" where
  "ex_headers_done env x =
     STRICT_CHECK (ch x \<noteq> LF) x (\<lambda>x.
       let x = clear_nread x; p = par x;
           hasBody = (has_flag F_CHUNKED p
             \<or> (0 < content_length p \<and> content_length p \<noteq> ULLONG_MAX))
       in if upgrade p \<and> (meth p = HTTP_CONNECT \<or> has_flag F_SKIPBODY p \<or> \<not> hasBody)
          then new_message env x (\<lambda>x. RETURN (pos x + 1) x)
          else if has_flag F_SKIPBODY p then new_message env x Next
          else if has_flag F_CHUNKED p then Next (UPDATE_STATE s_chunk_size_start x)
          else if has_transfer_encoding p then
            if ptype p = HTTP_REQUEST \<and> \<not> lenient env
            then RETURN (pos x) (SET_ERRNO HPE_INVALID_TRANSFER_ENCODING x)
            else Next (UPDATE_STATE s_body_identity_eof x)
          else if content_length p = 0 then new_message env x Next
          else if content_length p \<noteq> ULLONG_MAX then Next (UPDATE_STATE s_body_identity x)
          else if \<not> http_message_needs_eof p then new_message env x Next
          else Next (UPDATE_STATE s_body_identity_eof x))"

text \<open>The bytes of the body in this call: \<open>MIN(content_length, data + len - p)\<close>.\<close>

definition to_read :: "'c env \<Rightarrow> 'c exec \<Rightarrow> 64 word" where
  "to_read env x = min (content_length (par x)) (of_nat (length (input env) - pos x))"

definition consume_body :: "'c env \<Rightarrow> 'c exec \<Rightarrow> 'c exec" where
  "consume_body env x =
     (let n = to_read env x; x = MARK cb_body x
      in (upd_par (\<lambda>p. p\<lparr>content_length := content_length p - n\<rparr>) x)
           \<lparr>pos := pos x + unat n - 1\<rparr>)"

definition ex_body_identity :: "'c env \<Rightarrow> 'c exec \<Rightarrow> 'c outcome" where
  "ex_body_identity env x =
     (if content_length (par x) = 0 \<or> content_length (par x) = ULLONG_MAX then Undefined
      else
        let x = consume_body env x in
        if content_length (par x) = 0
        then CALLBACK_DATA_at env cb_body 1 (pos x) (UPDATE_STATE s_message_done x) Again
        else Next x)"

definition ex_body_identity_eof :: "'c env \<Rightarrow> 'c exec \<Rightarrow> 'c outcome" where
  "ex_body_identity_eof env x =
     Next ((MARK cb_body x)\<lparr>pos := length (input env) - 1\<rparr>)"

definition ex_message_done :: "'c env \<Rightarrow> 'c exec \<Rightarrow> 'c outcome" where
  "ex_message_done env x =
     new_message env x (\<lambda>x. if upgrade (par x) then RETURN (pos x + 1) x else Next x)"

section \<open>Chunks\<close>

definition ex_chunk_size_start :: "'c exec \<Rightarrow> 'c outcome" where
  "ex_chunk_size_start x =
     (if nread x \<noteq> 1 \<or> \<not> has_flag F_CHUNKED (par x) then Undefined
      else
        let v = unhex ! byte (ch x) in
        if v = - 1 then fail HPE_INVALID_CHUNK_SIZE x
        else Next (UPDATE_STATE s_chunk_size
               (upd_par (\<lambda>p. p\<lparr>content_length := of_int v\<rparr>) x)))"

definition ex_chunk_size :: "'c exec \<Rightarrow> 'c outcome" where
  "ex_chunk_size x =
     (if \<not> has_flag F_CHUNKED (par x) then Undefined
      else if ch x = CR then Next (UPDATE_STATE s_chunk_size_almost_done x)
      else
        let v = unhex ! byte (ch x) in
        if v = - 1 then
          if ch x = CHR '';'' \<or> ch x = CHR '' '' then Next (UPDATE_STATE s_chunk_parameters x)
          else fail HPE_INVALID_CHUNK_SIZE x
        else
          let t = content_length (par x) * 16 + of_int v in
          if (ULLONG_MAX - 16) div 16 < content_length (par x)
          then fail HPE_INVALID_CONTENT_LENGTH x
          else Next (upd_par (\<lambda>p. p\<lparr>content_length := t\<rparr>) x))"

definition ex_chunk_parameters :: "'c exec \<Rightarrow> 'c outcome" where
  "ex_chunk_parameters x =
     (if \<not> has_flag F_CHUNKED (par x) then Undefined
      else if ch x = CR then Next (UPDATE_STATE s_chunk_size_almost_done x)
      else Next x)"

definition ex_chunk_size_almost_done :: "'c env \<Rightarrow> 'c exec \<Rightarrow> 'c outcome" where
  "ex_chunk_size_almost_done env x =
     (if \<not> has_flag F_CHUNKED (par x) then Undefined
      else STRICT_CHECK (ch x \<noteq> LF) x (\<lambda>x.
        let x = clear_nread x;
            x = (if content_length (par x) = 0
                 then UPDATE_STATE s_header_field_start (upd_par (set_flag F_TRAILING) x)
                 else UPDATE_STATE s_chunk_data x)
        in CALLBACK_NOTIFY env cb_chunk_header x Next))"

definition ex_chunk_data :: "'c env \<Rightarrow> 'c exec \<Rightarrow> 'c outcome" where
  "ex_chunk_data env x =
     (if \<not> has_flag F_CHUNKED (par x) \<or> content_length (par x) = 0
        \<or> content_length (par x) = ULLONG_MAX
      then Undefined
      else
        let x = consume_body env x in
        if content_length (par x) = 0 then Next (UPDATE_STATE s_chunk_data_almost_done x)
        else Next x)"

definition ex_chunk_data_almost_done :: "'c env \<Rightarrow> 'c exec \<Rightarrow> 'c outcome" where
  "ex_chunk_data_almost_done env x =
     (if \<not> has_flag F_CHUNKED (par x) \<or> content_length (par x) \<noteq> 0 then Undefined
      else STRICT_CHECK (ch x \<noteq> CR) x (\<lambda>x.
        CALLBACK_DATA env cb_body (UPDATE_STATE s_chunk_data_done x) Next))"

definition ex_chunk_data_done :: "'c env \<Rightarrow> 'c exec \<Rightarrow> 'c outcome" where
  "ex_chunk_data_done env x =
     (if \<not> has_flag F_CHUNKED (par x) then Undefined
      else STRICT_CHECK (ch x \<noteq> LF) x (\<lambda>x.
        CALLBACK_NOTIFY env cb_chunk_complete
          (UPDATE_STATE s_chunk_size_start (clear_nread x)) Next))"

end
