(* ===== verification/Http_Run.thy ===== *)
theory Http_Run
  imports Http_Line Http_Header Http_Body
begin

text \<open>
  \<open>http_parser_execute\<close> itself: the switch, the loop over the data and what surrounds it.
  Whether the loop ends depends on the callbacks (they may change the state of the parser), so it
  is a partial function: \<open>None\<close> means that the call never returns.
\<close>

section \<open>The switch\<close>

definition ex_state :: "'c env \<Rightarrow> 'c exec \<Rightarrow> 'c outcome" where
  "ex_state env x =
     (case p_state x of
        s_dead \<Rightarrow> ex_dead x
      | s_start_req_or_res \<Rightarrow> ex_start_req_or_res env x
      | s_res_or_resp_H \<Rightarrow> ex_res_or_resp_H x
      | s_start_res \<Rightarrow> ex_start_res env x
      | s_res_H \<Rightarrow> ex_letter (CHR ''T'') s_res_HT x
      | s_res_HT \<Rightarrow> ex_letter (CHR ''T'') s_res_HTT x
      | s_res_HTT \<Rightarrow> ex_letter (CHR ''P'') s_res_HTTP x
      | s_res_HTTP \<Rightarrow> ex_letter (CHR ''/'') s_res_http_major x
      | s_res_http_major \<Rightarrow> ex_http_major s_res_http_dot x
      | s_res_http_dot \<Rightarrow> ex_http_dot s_res_http_minor x
      | s_res_http_minor \<Rightarrow> ex_http_minor s_res_http_end x
      | s_res_http_end \<Rightarrow> ex_res_http_end x
      | s_res_first_status_code \<Rightarrow> ex_res_first_status_code x
      | s_res_status_code \<Rightarrow> ex_res_status_code x
      | s_res_status_start \<Rightarrow> ex_res_status_start x
      | s_res_status \<Rightarrow> ex_res_status env x
      | s_res_line_almost_done \<Rightarrow> ex_letter LF s_header_field_start x
      | s_start_req \<Rightarrow> ex_start_req env x
      | s_req_method \<Rightarrow> ex_req_method x
      | s_req_spaces_before_url \<Rightarrow> ex_req_spaces_before_url x
      | s_req_schema \<Rightarrow> ex_req_schema x
      | s_req_schema_slash \<Rightarrow> ex_req_schema x
      | s_req_schema_slash_slash \<Rightarrow> ex_req_schema x
      | s_req_server_start \<Rightarrow> ex_req_schema x
      | s_req_server \<Rightarrow> ex_req_target env x
      | s_req_server_with_at \<Rightarrow> ex_req_target env x
      | s_req_path \<Rightarrow> ex_req_target env x
      | s_req_query_string_start \<Rightarrow> ex_req_target env x
      | s_req_query_string \<Rightarrow> ex_req_target env x
      | s_req_fragment_start \<Rightarrow> ex_req_target env x
      | s_req_fragment \<Rightarrow> ex_req_target env x
      | s_req_http_start \<Rightarrow> ex_req_http_start x
      | s_req_http_H \<Rightarrow> ex_letter (CHR ''T'') s_req_http_HT x
      | s_req_http_HT \<Rightarrow> ex_letter (CHR ''T'') s_req_http_HTT x
      | s_req_http_HTT \<Rightarrow> ex_letter (CHR ''P'') s_req_http_HTTP x
      | s_req_http_HTTP \<Rightarrow> ex_letter (CHR ''/'') s_req_http_major x
      | s_req_http_I \<Rightarrow> ex_letter (CHR ''C'') s_req_http_IC x
      | s_req_http_IC \<Rightarrow> ex_letter (CHR ''E'') s_req_http_HTTP x
      | s_req_http_major \<Rightarrow> ex_http_major s_req_http_dot x
      | s_req_http_dot \<Rightarrow> ex_http_dot s_req_http_minor x
      | s_req_http_minor \<Rightarrow> ex_http_minor s_req_http_end x
      | s_req_http_end \<Rightarrow> ex_req_http_end x
      | s_req_line_almost_done \<Rightarrow> ex_req_line_almost_done x
      | s_header_field_start \<Rightarrow> ex_header_field_start x
      | s_header_field \<Rightarrow> ex_header_field env x
      | s_header_value_discard_ws \<Rightarrow> ex_header_value_discard_ws x
      | s_header_value_discard_ws_almost_done \<Rightarrow> ex_letter LF s_header_value_discard_lws x
      | s_header_value_discard_lws \<Rightarrow> ex_header_value_discard_lws env x
      | s_header_value_start \<Rightarrow> ex_header_value_start x
      | s_header_value \<Rightarrow> ex_header_value env x
      | s_header_value_lws \<Rightarrow> ex_header_value_lws x
      | s_header_almost_done \<Rightarrow> ex_header_almost_done x
      | s_chunk_size_start \<Rightarrow> ex_chunk_size_start x
      | s_chunk_size \<Rightarrow> ex_chunk_size x
      | s_chunk_parameters \<Rightarrow> ex_chunk_parameters x
      | s_chunk_size_almost_done \<Rightarrow> ex_chunk_size_almost_done env x
      | s_headers_almost_done \<Rightarrow> ex_headers_almost_done env x
      | s_headers_done \<Rightarrow> ex_headers_done env x
      | s_chunk_data \<Rightarrow> ex_chunk_data env x
      | s_chunk_data_almost_done \<Rightarrow> ex_chunk_data_almost_done env x
      | s_chunk_data_done \<Rightarrow> ex_chunk_data_done env x
      | s_body_identity \<Rightarrow> ex_body_identity env x
      | s_body_identity_eof \<Rightarrow> ex_body_identity_eof env x
      | s_message_done \<Rightarrow> ex_message_done env x)"

section \<open>The loop\<close>

text \<open>After the last byte: the callbacks for the marks that are left.\<close>

definition set_marks :: "'c exec \<Rightarrow> nat" where
  "set_marks x =
     of_bool (marks x cb_header_field \<noteq> None) + of_bool (marks x cb_header_value \<noteq> None)
     + of_bool (marks x cb_url \<noteq> None) + of_bool (marks x cb_body \<noteq> None)
     + of_bool (marks x cb_status \<noteq> None)"

definition ex_finish :: "'c env \<Rightarrow> 'c exec \<Rightarrow> 'c outcome" where
  "ex_finish env x =
     (if 1 < set_marks x then Undefined
      else CALLBACK_DATA_NOADVANCE env cb_header_field x (\<lambda>x.
           CALLBACK_DATA_NOADVANCE env cb_header_value x (\<lambda>x.
           CALLBACK_DATA_NOADVANCE env cb_url x (\<lambda>x.
           CALLBACK_DATA_NOADVANCE env cb_body x (\<lambda>x.
           CALLBACK_DATA_NOADVANCE env cb_status x (RETURN (length (input env))))))))"

text \<open>The head of the loop, with \<open>p\<close> at the next byte.\<close>

definition loop_head :: "'c env \<Rightarrow> 'c exec \<Rightarrow> 'c outcome" where
  "loop_head env x =
     (if pos x = length (input env) then ex_finish env x
      else case rd (input env) (pos x) of
          None \<Rightarrow> Undefined
        | Some c \<Rightarrow>
            let x = x\<lparr>ch := c\<rparr> in
            if PARSING_HEADER (p_state x) then COUNT_HEADER_SIZE env 1 x Again else Again x)"

text \<open>One iteration; the error label, and \<open>None\<close> when the call is over.\<close>

definition ex_error :: "'c exec \<Rightarrow> 'c outcome" where
  "ex_error x =
     (let x = (if http_errno (par x) = HPE_OK then SET_ERRNO HPE_UNKNOWN x else x)
      in RETURN (pos x) x)"

definition ex_step :: "'c env \<Rightarrow> 'c outcome \<Rightarrow> 'c outcome option" where
  "ex_step env s =
     (case s of
        Again x \<Rightarrow> Some (ex_state env x)
      | Next x \<Rightarrow> Some (loop_head env (x\<lparr>pos := Suc (pos x)\<rparr>))
      | Error x \<Rightarrow> Some (ex_error x)
      | Return n x \<Rightarrow> None
      | Undefined \<Rightarrow> None)"

partial_function (option) ex_loop :: "'c env \<Rightarrow> 'c outcome \<Rightarrow> 'c outcome option" where
  "ex_loop env s = (case ex_step env s of None \<Rightarrow> Some s | Some s' \<Rightarrow> ex_loop env s')"

declare ex_loop.simps [code]

section \<open>The function\<close>

definition initial_marks :: "state \<Rightarrow> data_cb \<Rightarrow> nat option" where
  "initial_marks s f =
     (let here = (\<lambda>b. if b then Some 0 else None) in
      case f of
        cb_header_field \<Rightarrow> here (s = s_header_field)
      | cb_header_value \<Rightarrow> here (s = s_header_value)
      | cb_url \<Rightarrow>
          here (s \<in> {s_req_path, s_req_schema, s_req_schema_slash, s_req_schema_slash_slash,
                     s_req_server_start, s_req_server, s_req_server_with_at,
                     s_req_query_string_start, s_req_query_string, s_req_fragment_start,
                     s_req_fragment})
      | cb_body \<Rightarrow> None
      | cb_status \<Rightarrow> here (s = s_res_status))"

text \<open>The case of no data.\<close>

definition ex_eof :: "'c env \<Rightarrow> 'c exec \<Rightarrow> 'c outcome" where
  "ex_eof env x =
     (if p_state x = s_body_identity_eof
      then CALLBACK_NOTIFY_NOADVANCE env cb_message_complete x (Return 0)
      else if p_state x \<in> {s_dead, s_start_req_or_res, s_start_res, s_start_req} then Return 0 x
      else Return 1 (SET_ERRNO HPE_INVALID_EOF_STATE x))"

definition initial_exec :: "http_parser \<Rightarrow> 'c \<Rightarrow> 'c exec" where
  "initial_exec p c =
     \<lparr>par = p, p_state = pstate p, nread = pnread p, pos = 0, ch = NUL,
      marks = (\<lambda>_. None), client = c\<rparr>"

definition execute :: "'c env \<Rightarrow> 'c exec \<Rightarrow> 'c outcome option" where
  "execute env x =
     (if http_errno (par x) \<noteq> HPE_OK then Some (Return 0 x)
      else if input env = [] then Some (ex_eof env x)
      else ex_loop env (loop_head env (x\<lparr>marks := initial_marks (p_state x)\<rparr>)))"

text \<open>The results of the call: undefined behaviour, or the number of bytes parsed with the
  parser and the client state. The static \<open>max_header_size\<close> is the first argument.\<close>

datatype 'c result = Failed | Parsed nat http_parser 'c

definition http_parser_execute ::
  "32 word \<Rightarrow> http_parser \<Rightarrow> 'c http_parser_settings \<Rightarrow> bytes \<Rightarrow> 'c \<Rightarrow> 'c result option" where
  "http_parser_execute limit p cbs data c =
     map_option (\<lambda>r. case r of Return n x \<Rightarrow> Parsed n (par x) (client x) | _ \<Rightarrow> Failed)
       (execute \<lparr>settings = cbs, input = data, lenient = lenient_http_headers p,
                 max_header_size = limit\<rparr>
          (initial_exec p c))"

end
