(* ===== verification/Http_Safety.thy ===== *)
theory Http_Safety
  imports Http_Run
begin

unbundle bit_operations_syntax

text \<open>
  Memory safety and termination of \<open>http_parser_execute\<close>: an invariant of the parser between
  calls, an invariant of the local variables, one lemma per case of the switch, and the theorem
  that a call returns, reads inside its arrays only, fails no assertion and keeps the invariant,
  for all data and for all callbacks that leave the parser alone.
\<close>

section \<open>The contract of the callbacks\<close>

text \<open>A callback may look at the parser and change its own state; of the parser it changes at
  most the error code (to pause it).\<close>

definition leaves_parser :: "http_parser \<Rightarrow> int \<times> http_parser \<times> 'c \<Rightarrow> bool" where
  "leaves_parser p r \<longleftrightarrow> fst (snd r) = p\<lparr>http_errno := http_errno (fst (snd r))\<rparr>"

locale parser_callbacks =
  fixes cbs :: "'c http_parser_settings"
  assumes notify_leaves: "on_notify f cbs = Some cb \<Longrightarrow> leaves_parser p (cb p c)"
    and data_leaves: "on_data g cbs = Some dcb \<Longrightarrow> leaves_parser p (dcb p s c)"
    and headers_leaves: "on_headers_complete cbs = Some cb \<Longrightarrow> leaves_parser p (cb p c)"

section \<open>Invariants\<close>

definition field_states :: "header_states set" where
  "field_states =
     {h_general, h_C, h_CO, h_CON, h_matching_connection, h_matching_proxy_connection,
      h_matching_content_length, h_matching_transfer_encoding, h_matching_upgrade,
      h_connection, h_content_length, h_transfer_encoding, h_upgrade}"

definition state_ok :: "state \<Rightarrow> http_parser \<Rightarrow> 32 word \<Rightarrow> bool" where
  "state_ok s p n \<longleftrightarrow>
     (s = s_req_method \<longrightarrow> unat (index p) \<le> length (method_string (meth p)))
     \<and> (s = s_header_field \<longrightarrow> header_state p \<in> field_states)
     \<and> (s = s_header_value \<longrightarrow> header_state p \<notin> {h_connection, h_transfer_encoding})
     \<and> (s = s_chunk_size_start \<longrightarrow> n = 0)
     \<and> (s \<in> {s_chunk_size_start, s_chunk_size, s_chunk_parameters, s_chunk_size_almost_done,
             s_chunk_data, s_chunk_data_almost_done, s_chunk_data_done}
          \<longrightarrow> has_flag F_CHUNKED p)
     \<and> (s \<in> {s_chunk_size, s_chunk_parameters, s_chunk_size_almost_done, s_chunk_data,
             s_body_identity}
          \<longrightarrow> content_length p \<noteq> ULLONG_MAX)
     \<and> (s \<in> {s_chunk_data, s_body_identity} \<longrightarrow> content_length p \<noteq> 0)
     \<and> (s = s_chunk_data_almost_done \<longrightarrow> content_length p = 0)"

definition parser_ok :: "http_parser \<Rightarrow> bool" where
  "parser_ok p \<longleftrightarrow>
     (http_errno p = HPE_OK \<or> http_errno p = HPE_PAUSED \<longrightarrow> state_ok (pstate p) p (pnread p))"

fun mark_states :: "data_cb \<Rightarrow> state set" where
  "mark_states cb_header_field = {s_header_field}"
| "mark_states cb_header_value = {s_header_value}"
| "mark_states cb_url =
     {s_req_path, s_req_schema, s_req_schema_slash, s_req_schema_slash_slash,
      s_req_server_start, s_req_server, s_req_server_with_at, s_req_query_string_start,
      s_req_query_string, s_req_fragment_start, s_req_fragment}"
| "mark_states cb_body =
     {s_body_identity, s_body_identity_eof, s_chunk_data, s_chunk_data_almost_done}"
| "mark_states cb_status = {s_res_status}"

definition mark_ok :: "data_cb \<Rightarrow> 'c exec \<Rightarrow> bool" where
  "mark_ok f x \<longleftrightarrow> (\<forall>m. marks x f = Some m \<longrightarrow> m \<le> pos x \<and> p_state x \<in> mark_states f)"

definition exec_ok :: "'c env \<Rightarrow> 32 word \<Rightarrow> 'c exec \<Rightarrow> bool" where
  "exec_ok env n x \<longleftrightarrow>
     http_errno (par x) = HPE_OK \<and> state_ok (p_state x) (par x) n \<and> (\<forall>f. mark_ok f x)"

text \<open>At the label \<open>reexecute\<close> the current byte has been counted.\<close>

definition body_ok :: "'c env \<Rightarrow> 'c exec \<Rightarrow> bool" where
  "body_ok env x \<longleftrightarrow> exec_ok env (nread x - 1) x \<and> pos x < length (input env)"

definition next_ok :: "'c env \<Rightarrow> 'c exec \<Rightarrow> bool" where
  "next_ok env x \<longleftrightarrow> exec_ok env (nread x) x \<and> pos x < length (input env)"

text \<open>A jump to \<open>reexecute\<close> without progress in the data goes down in this order.\<close>

definition rank :: "state \<Rightarrow> nat" where
  "rank s =
     (if s \<in> {s_header_value_lws, s_header_value_discard_lws} then 4
      else if s \<in> {s_header_field_start, s_res_status_code} then 3
      else if s \<in> {s_headers_almost_done, s_res_status_start, s_start_req_or_res,
                   s_header_value, s_body_identity} then 2
      else 1)"

fun good :: "'c env \<Rightarrow> 'c exec \<Rightarrow> 'c outcome \<Rightarrow> bool" where
  "good env x (Next y) \<longleftrightarrow> next_ok env y \<and> pos x \<le> pos y"
| "good env x (Again y) \<longleftrightarrow>
     body_ok env y
     \<and> (pos x < pos y \<or> (pos x = pos y \<and> rank (p_state y) < rank (p_state x)))"
| "good env x (Error y) \<longleftrightarrow>
     http_errno (par y) \<notin> {HPE_OK, HPE_PAUSED} \<and> pos y \<le> length (input env)"
| "good env x (Return n y) \<longleftrightarrow> n \<le> length (input env) \<and> parser_ok (par y)"
| "good env x Undefined \<longleftrightarrow> False"

lemma all_data_cb:
  "(\<forall>f. P f) \<longleftrightarrow>
     P cb_header_field \<and> P cb_header_value \<and> P cb_url \<and> P cb_body \<and> P cb_status"
  by (metis data_cb.exhaust)

lemma state_ok_irrelevant [simp]:
  "state_ok s (p\<lparr>http_errno := e\<rparr>) n = state_ok s p n"
  "state_ok s (p\<lparr>pstate := t\<rparr>) n = state_ok s p n"
  "state_ok s (p\<lparr>pnread := k\<rparr>) n = state_ok s p n"
  by (simp_all add: state_ok_def has_flag_def)

section \<open>The macros\<close>

lemma good_fail [simp]:
  "good env x (fail e y) \<longleftrightarrow> e \<notin> {HPE_OK, HPE_PAUSED} \<and> pos y \<le> length (input env)"
  by (simp add: fail_def SET_ERRNO_def)

lemma good_RETURN_ok:
  "n \<le> length (input env) \<Longrightarrow> state_ok (p_state y) (par y) (nread y) \<Longrightarrow> good env x (RETURN n y)"
  by (simp add: RETURN_def parser_ok_def)

lemma good_RETURN_error:
  "n \<le> length (input env) \<Longrightarrow> http_errno (par y) \<notin> {HPE_OK, HPE_PAUSED} \<Longrightarrow> good env x (RETURN n y)"
  by (simp add: RETURN_def parser_ok_def)

lemma good_STRICT_CHECK:
  "pos y \<le> length (input env) \<Longrightarrow> (\<not> b \<Longrightarrow> good env x (k y)) \<Longrightarrow> good env x (STRICT_CHECK b y k)"
  by (simp add: STRICT_CHECK_def)

lemma good_COUNT:
  "pos y \<le> length (input env) \<Longrightarrow> good env x (k (y\<lparr>nread := nread y + of_nat v\<rparr>))
     \<Longrightarrow> good env x (COUNT_HEADER_SIZE env v y k)"
  by (simp add: COUNT_HEADER_SIZE_def Let_def)

lemma good_after_callback:
  assumes r: "leaves_parser (par y) r" "pstate (par y) = p_state y"
    and er: "er \<le> length (input env)" "state_ok (p_state y) (par y) (pnread (par y))"
    and e: "e \<notin> {HPE_OK, HPE_PAUSED}" "http_errno (par y) = HPE_OK"
    and k: "\<And>c. good env x (k (y\<lparr>client := c\<rparr>))"
  shows "good env x (after_callback e er r y k)"
proof -
  obtain rc p c where "r = (rc, p, c)" by (cases r)
  then obtain e' where rpc: "r = (rc, (par y)\<lparr>http_errno := e'\<rparr>, c)"
    using r(1) by (auto simp: leaves_parser_def)
  show ?thesis
  proof (cases "rc = 0 \<and> e' = HPE_OK")
    case True
    have "y\<lparr>par := (par y)\<lparr>http_errno := HPE_OK\<rparr>, client := c\<rparr> = y\<lparr>client := c\<rparr>"
      using e(2) by (cases y; cases "par y") simp
    moreover have "after_callback e er r y k
        = k (y\<lparr>par := (par y)\<lparr>http_errno := HPE_OK\<rparr>, client := c\<rparr>)"
      using True rpc r(2) by (simp add: after_callback_def Let_def)
    ultimately show ?thesis using k [of c] by simp
  next
    case False
    then show ?thesis
      using e er rpc r(2) by (auto simp: after_callback_def SET_ERRNO_def parser_ok_def Let_def)
  qed
qed

text \<open>What a callback may change of the local state.\<close>

definition after_cb :: "'c exec \<Rightarrow> 'c exec \<Rightarrow> bool" where
  "after_cb y z \<longleftrightarrow>
     (\<exists>s c. s \<in> {pstate (par y), p_state y} \<and> z = y\<lparr>par := (par y)\<lparr>pstate := s\<rparr>, client := c\<rparr>)"

lemma good_CALLBACK_NOTIFY:
  assumes "parser_callbacks (settings env)"
    and "er \<le> length (input env)" "http_errno (par y) = HPE_OK"
    and "state_ok (p_state y) (par y) (pnread (par y))"
    and k: "\<And>z. after_cb y z \<Longrightarrow> good env x (k z)"
  shows "good env x (CALLBACK_NOTIFY_at env f er y k)"
proof (cases "on_notify f (settings env)")
  case None
  moreover have "after_cb y y"
    unfolding after_cb_def by (intro exI [of _ "pstate (par y)"] exI [of _ "client y"]) simp
  ultimately show ?thesis using k [of y] assms(3) by (simp add: CALLBACK_NOTIFY_at_def)
next
  case (Some cb)
  let ?y = "y\<lparr>par := (par y)\<lparr>pstate := p_state y\<rparr>\<rparr>"
  have "good env x (after_callback (notify_errno f) er (cb (par ?y) (client y)) ?y k)"
  proof (rule good_after_callback)
    show "leaves_parser (par ?y) (cb (par ?y) (client y))"
      using parser_callbacks.notify_leaves [OF assms(1)] Some by blast
    show "notify_errno f \<notin> {HPE_OK, HPE_PAUSED}" by (cases f) simp_all
    show "good env x (k (?y\<lparr>client := c\<rparr>))" for c
      by (rule k) (auto simp: after_cb_def)
  qed (use assms in simp_all)
  then show ?thesis using Some assms(3) by (simp add: CALLBACK_NOTIFY_at_def Let_def)
qed

lemma good_CALLBACK_DATA:
  assumes "parser_callbacks (settings env)"
    and "er \<le> length (input env)" "http_errno (par y) = HPE_OK"
    and "\<And>m. marks y f = Some m \<Longrightarrow> state_ok (p_state y) (par y) (pnread (par y))"
    and m: "\<And>m. marks y f = Some m \<Longrightarrow> m \<le> pos y + n \<and> pos y + n \<le> length (input env)"
    and k: "\<And>z. after_cb (y\<lparr>marks := (marks y)(f := None)\<rparr>) z \<Longrightarrow> good env x (k z)"
  shows "good env x (CALLBACK_DATA_at env f n er y k)"
proof -
  have self: "after_cb w w" for w
    unfolding after_cb_def by (intro exI [of _ "pstate (par w)"] exI [of _ "client w"]) simp
  show ?thesis
  proof (cases "marks y f")
    case None
    then have "y\<lparr>marks := (marks y)(f := None)\<rparr> = y" by (simp add: fun_upd_idem)
    with k [of y] self [of y] None assms(3) show ?thesis by (simp add: CALLBACK_DATA_at_def)
  next
    case (Some m)
    note mark = this
    show ?thesis
    proof (cases "on_data f (settings env)")
      case None
      with k [OF self] mark assms(3) show ?thesis by (simp add: CALLBACK_DATA_at_def Let_def)
    next
      case (Some cb)
      let ?y = "y\<lparr>par := (par y)\<lparr>pstate := p_state y\<rparr>\<rparr>"
      let ?k = "\<lambda>z. k (z\<lparr>marks := (marks z)(f := None)\<rparr>)"
      let ?s = "bslice (input env) m (pos y + n - m)"
      have "good env x (after_callback (data_errno f) er (cb (par ?y) ?s (client y)) ?y ?k)"
      proof (rule good_after_callback)
        show "leaves_parser (par ?y) (cb (par ?y) ?s (client y))"
          using parser_callbacks.data_leaves [OF assms(1)] Some by blast
        show "data_errno f \<notin> {HPE_OK, HPE_PAUSED}" by (cases f) simp_all
        show "good env x (?k (?y\<lparr>client := c\<rparr>))" for c
          by (rule k) (cases y, auto simp: after_cb_def)
      qed (use assms mark in simp_all)
      then show ?thesis
        using mark Some assms(3) m [OF mark] by (simp add: CALLBACK_DATA_at_def Let_def)
    qed
  qed
qed

section \<open>One lemma per case\<close>

lemmas ok_defs = body_ok_def next_ok_def exec_ok_def state_ok_def mark_ok_def all_data_cb

lemma reset_message_simps [simp]:
  "http_errno (reset_message p) = http_errno p" "pstate (reset_message p) = pstate p"
  "meth (reset_message p) = meth p" "index (reset_message p) = index p"
  by (simp_all add: reset_message_def)

lemma good_dead:
  assumes "body_ok env x" "p_state x = s_dead"
  shows "good env x (ex_dead x)"
  using assms by (simp add: ex_dead_def ok_defs)

lemma good_start_req_or_res:
  assumes "parser_callbacks (settings env)" "body_ok env x" "p_state x = s_start_req_or_res"
  shows "good env x (ex_start_req_or_res env x)"
proof -
  let ?x = "upd_par reset_message x"
  have "good env x (CALLBACK_NOTIFY env cb_message_begin (UPDATE_STATE s_res_or_resp_H ?x) Next)"
    unfolding CALLBACK_NOTIFY_def using assms
    by (intro good_CALLBACK_NOTIFY) (auto simp: ok_defs after_cb_def)
  then show ?thesis using assms by (auto simp: ex_start_req_or_res_def ok_defs rank_def Let_def)
qed

lemma good_res_or_resp_H:
  assumes "body_ok env x" "p_state x = s_res_or_resp_H"
  shows "good env x (ex_res_or_resp_H x)"
proof -
  have "2 \<le> length (method_string HTTP_HEAD)" by code_simp
  with assms show ?thesis by (auto simp: ex_res_or_resp_H_def ok_defs)
qed

lemma good_start_res:
  assumes "parser_callbacks (settings env)" "body_ok env x" "p_state x = s_start_res"
  shows "good env x (ex_start_res env x)"
proof -
  let ?x = "upd_par reset_message x"
  have "good env x (CALLBACK_NOTIFY env cb_message_begin (UPDATE_STATE s_res_H ?x) Next)"
    unfolding CALLBACK_NOTIFY_def using assms
    by (intro good_CALLBACK_NOTIFY) (auto simp: ok_defs after_cb_def)
  then show ?thesis using assms by (auto simp: ex_start_res_def ok_defs Let_def)
qed

text \<open>States without conditions of their own and without a mark.\<close>

definition plain_state :: "state \<Rightarrow> bool" where
  "plain_state s \<longleftrightarrow> (\<forall>p n. state_ok s p n) \<and> (\<forall>f. s \<notin> mark_states f)"

lemma plain_states:
  "plain_state s_res_HT" "plain_state s_res_HTT" "plain_state s_res_HTTP"
  "plain_state s_res_http_major" "plain_state s_res_http_dot" "plain_state s_res_http_minor"
  "plain_state s_res_http_end" "plain_state s_header_field_start" "plain_state s_req_http_HT"
  "plain_state s_req_http_HTT" "plain_state s_req_http_HTTP" "plain_state s_req_http_IC"
  "plain_state s_req_http_major" "plain_state s_req_http_dot" "plain_state s_req_http_minor"
  "plain_state s_req_http_end" "plain_state s_header_value_discard_lws" "plain_state s_res_H"
  "plain_state s_res_line_almost_done" "plain_state s_req_http_H" "plain_state s_req_http_I"
  "plain_state s_header_value_discard_ws_almost_done" "plain_state s_req_http_start"
  "plain_state s_req_line_almost_done" "plain_state s_headers_almost_done"
  by (simp_all add: plain_state_def state_ok_def all_data_cb)

lemma body_ok_plain:
  assumes "plain_state (p_state x)"
  shows "body_ok env x \<longleftrightarrow> http_errno (par x) = HPE_OK \<and> (\<forall>f. marks x f = None)
     \<and> pos x < length (input env)"
  using assms by (auto simp: body_ok_def exec_ok_def plain_state_def mark_ok_def)

lemma next_ok_plain:
  assumes "plain_state (p_state x)"
  shows "next_ok env x \<longleftrightarrow> http_errno (par x) = HPE_OK \<and> (\<forall>f. marks x f = None)
     \<and> pos x < length (input env)"
  using assms by (auto simp: next_ok_def exec_ok_def plain_state_def mark_ok_def)

lemma good_letter:
  assumes "body_ok env x" "plain_state (p_state x)" "plain_state s"
  shows "good env x (ex_letter c s x)"
  using assms by (simp add: ex_letter_def STRICT_CHECK_def body_ok_plain next_ok_plain)

lemma good_version:
  assumes "body_ok env x" "plain_state (p_state x)" "plain_state s"
  shows "good env x (ex_http_major s x)" "good env x (ex_http_dot s x)"
    "good env x (ex_http_minor s x)"
  using assms
  by (simp_all add: ex_http_major_def ex_http_dot_def ex_http_minor_def body_ok_plain next_ok_plain)

lemma good_plain_lines:
  assumes "body_ok env x"
  shows "p_state x = s_res_http_end \<Longrightarrow> good env x (ex_res_http_end x)"
    "p_state x = s_res_first_status_code \<Longrightarrow> good env x (ex_res_first_status_code x)"
    "p_state x = s_req_http_start \<Longrightarrow> good env x (ex_req_http_start x)"
    "p_state x = s_req_http_end \<Longrightarrow> good env x (ex_req_http_end x)"
    "p_state x = s_req_line_almost_done \<Longrightarrow> good env x (ex_req_line_almost_done x)"
    "p_state x = s_header_almost_done \<Longrightarrow> good env x (ex_header_almost_done x)"
    "p_state x = s_chunk_parameters \<Longrightarrow> good env x (ex_chunk_parameters x)"
  using assms
  by (auto simp: ok_defs ex_res_http_end_def ex_res_first_status_code_def ex_req_http_start_def
      ex_req_http_end_def ex_req_line_almost_done_def ex_header_almost_done_def
      ex_chunk_parameters_def)

lemma good_res_status_code:
  assumes "body_ok env x" "p_state x = s_res_status_code"
  shows "good env x (ex_res_status_code x)"
  using assms by (auto simp: ex_res_status_code_def ok_defs rank_def Let_def)

lemma good_res_status_start:
  assumes "body_ok env x" "p_state x = s_res_status_start"
  shows "good env x (ex_res_status_start x)"
  using assms by (auto simp: ex_res_status_start_def ok_defs rank_def MARK_def Let_def)

lemma good_res_status:
  assumes "parser_callbacks (settings env)" "body_ok env x" "p_state x = s_res_status"
  shows "good env x (ex_res_status env x)"
proof -
  have "good env x (CALLBACK_DATA env cb_status (UPDATE_STATE s x) Next)"
    if "s = s_res_line_almost_done \<or> s = s_header_field_start" for s
    unfolding CALLBACK_DATA_def using assms that
    by (intro good_CALLBACK_DATA) (auto simp: ok_defs after_cb_def)
  then show ?thesis using assms by (auto simp: ex_res_status_def ok_defs)
qed

subsection \<open>The method\<close>

lemma method_string_simps:
  "method_string HTTP_DELETE = ''DELETE''" 
  "method_string HTTP_GET = ''GET''" 
  "method_string HTTP_HEAD = ''HEAD''" 
  "method_string HTTP_POST = ''POST''" 
  "method_string HTTP_PUT = ''PUT''" 
  "method_string HTTP_CONNECT = ''CONNECT''" 
  "method_string HTTP_OPTIONS = ''OPTIONS''" 
  "method_string HTTP_TRACE = ''TRACE''" 
  "method_string HTTP_COPY = ''COPY''" 
  "method_string HTTP_LOCK = ''LOCK''" 
  "method_string HTTP_MKCOL = ''MKCOL''" 
  "method_string HTTP_MOVE = ''MOVE''" 
  "method_string HTTP_PROPFIND = ''PROPFIND''" 
  "method_string HTTP_PROPPATCH = ''PROPPATCH''" 
  "method_string HTTP_SEARCH = ''SEARCH''" 
  "method_string HTTP_UNLOCK = ''UNLOCK''" 
  "method_string HTTP_BIND = ''BIND''" 
  "method_string HTTP_REBIND = ''REBIND''" 
  "method_string HTTP_UNBIND = ''UNBIND''" 
  "method_string HTTP_ACL = ''ACL''" 
  "method_string HTTP_REPORT = ''REPORT''" 
  "method_string HTTP_MKACTIVITY = ''MKACTIVITY''" 
  "method_string HTTP_CHECKOUT = ''CHECKOUT''" 
  "method_string HTTP_MERGE = ''MERGE''" 
  "method_string HTTP_MSEARCH = ''M-SEARCH''" 
  "method_string HTTP_NOTIFY = ''NOTIFY''" 
  "method_string HTTP_SUBSCRIBE = ''SUBSCRIBE''" 
  "method_string HTTP_UNSUBSCRIBE = ''UNSUBSCRIBE''" 
  "method_string HTTP_PATCH = ''PATCH''" 
  "method_string HTTP_PURGE = ''PURGE''" 
  "method_string HTTP_MKCALENDAR = ''MKCALENDAR''" 
  "method_string HTTP_LINK = ''LINK''" 
  "method_string HTTP_UNLINK = ''UNLINK''" 
  "method_string HTTP_SOURCE = ''SOURCE''"
  by (simp_all add: method_string_def methods_def method_strings_def enum_num_def)

text \<open>A jump goes to a method that has the same letters so far and the new one next.\<close>

lemma method_jumps_prefix:
  "list_all (\<lambda>((m, i, c), m').
     i < length (method_string m) \<and> i < length (method_string m')
     \<and> take i (method_string m') = take i (method_string m) \<and> method_string m' ! i = c) method_jumps"
  by (simp add: method_jumps_def method_string_simps)

lemma method_jumpD:
  assumes "map_of method_jumps (m, i, c) = Some m'"
  shows "i < length (method_string m')" "take i (method_string m') = take i (method_string m)"
    "method_string m' ! i = c"
  using method_jumps_prefix map_of_SomeD [OF assms] by (auto simp: list_all_iff)

lemma method_string_facts:
  "length (method_string m) \<le> 11" "1 \<le> length (method_string m)" "NUL \<notin> set (method_string m)"
  by (cases m; simp add: method_string_simps)+

lemma index_Suc:
  assumes "unat (i :: 5 word) < 31" shows "unat (i + 1) = Suc (unat i)"
  using assms by (simp add: unat_word_ariths)

text \<open>The part of the method read so far is a prefix of the method's string.\<close>

definition method_prefix :: "http_parser \<Rightarrow> bytes" where
  "method_prefix p = take (unat (index p)) (method_string (meth p))"

lemma req_method_step_cases:
  assumes "unat (index p) \<le> length (method_string (meth p))"
  obtains (bad) "req_method_step c p = Some (Inl ())"
  | (space) "req_method_step c p = Some (Inr (s_req_spaces_before_url, p\<lparr>index := index p + 1\<rparr>))"
      "c = CHR '' ''" "method_prefix p = method_string (meth p)"
  | (letter) q where "req_method_step c p = Some (Inr (s_req_method, q))"
      "unat (index q) = Suc (unat (index p))" "unat (index q) \<le> length (method_string (meth q))"
      "method_prefix q = method_prefix p @ [c]" "\<exists>m i. q = p\<lparr>meth := m, index := i\<rparr>" "c \<noteq> NUL"
proof -
  let ?i = "unat (index p)" and ?s = "method_string (meth p)"
  have i: "?i < 31" using assms method_string_facts(1) [of "meth p"] by simp
  note idx = index_Suc [OF i]
  have rd: "rd (?s @ [NUL]) ?i = Some ((?s @ [NUL]) ! ?i)" using assms by simp
  consider "c = NUL" | "c = CHR '' ''" "(?s @ [NUL]) ! ?i = NUL"
    | "c \<noteq> NUL" "c = (?s @ [NUL]) ! ?i"
    | m' where "c \<noteq> NUL" "map_of method_jumps (meth p, ?i, c) = Some m'"
        "req_method_step c p = Some (Inr (s_req_method, p\<lparr>index := index p + 1, meth := m'\<rparr>))"
    | "req_method_step c p = Some (Inl ())"
    using rd by (fastforce simp: req_method_step_def Let_def split: option.splits if_splits)
  then show thesis
  proof cases
    case 1
    then show thesis using bad by (simp add: req_method_step_def)
  next
    case 2
    have "?i = length ?s"
      using 2(2) assms method_string_facts(3) [of "meth p"] nth_mem [of ?i ?s]
      by (cases "?i < length ?s") (auto simp: nth_append)
    then show thesis using 2 rd by (intro space) (simp_all add: req_method_step_def method_prefix_def)
  next
    case 3
    then have lt: "?i < length ?s" using assms by (cases "?i = length ?s") auto
    with 3 have c: "c = ?s ! ?i" by (simp add: nth_append)
    have "c \<noteq> CHR '' '' \<or> (?s @ [NUL]) ! ?i \<noteq> NUL" using 3 by auto
    then show thesis
      using 3 rd lt c idx
      by (intro letter [of "p\<lparr>index := index p + 1\<rparr>"])
        (auto simp: req_method_step_def method_prefix_def take_Suc_conv_app_nth
          intro!: exI [of _ "meth p"] exI [of _ "index p + 1"])
  next
    case 4
    note jump = method_jumpD [OF 4(2)]
    show thesis
      using 4 jump idx
      by (intro letter [of "p\<lparr>index := index p + 1, meth := m'\<rparr>"])
        (auto simp: method_prefix_def take_Suc_conv_app_nth
          intro!: exI [of _ m'] exI [of _ "index p + 1"])
  qed (rule bad)
qed

lemma good_req_method:
  assumes "body_ok env x" "p_state x = s_req_method"
  shows "good env x (ex_req_method x)"
proof -
  have "unat (index (par x)) \<le> length (method_string (meth (par x)))"
    using assms by (simp add: ok_defs)
  then show ?thesis
    by (cases rule: req_method_step_cases [where c = "ch x"]) (use assms in \<open>auto simp: ex_req_method_def ok_defs\<close>)
qed

lemma good_start_req:
  assumes "parser_callbacks (settings env)" "body_ok env x" "p_state x = s_start_req"
  shows "good env x (ex_start_req env x)"
proof -
  have "good env x (CALLBACK_NOTIFY env cb_message_begin
      (UPDATE_STATE s_req_method (upd_par (\<lambda>p. (reset_message p)\<lparr>index := 1, meth := m\<rparr>) x)) Next)" for m
    unfolding CALLBACK_NOTIFY_def using assms method_string_facts(2) [of m]
    by (intro good_CALLBACK_NOTIFY) (auto simp: ok_defs after_cb_def)
  note this [simplified]
  then show ?thesis using assms
    by (auto simp: ex_start_req_def ok_defs Let_def split: option.splits)
qed

subsection \<open>The request target\<close>

lemma parse_url_char_range:
  "parse_url_char s c = s_dead \<or> parse_url_char s c \<in> mark_states cb_url"
  by (cases s) (simp_all add: parse_url_char_def)

lemma url_states_ok: "s \<in> mark_states cb_url \<Longrightarrow> state_ok s p n"
  by (auto simp: state_ok_def)

lemma good_url_step:
  assumes "http_errno (par y) = HPE_OK" "pos y < length (input env)" "pos y = pos x"
    "\<And>f. f \<noteq> cb_url \<Longrightarrow> marks y f = None" "\<And>m. marks y cb_url = Some m \<Longrightarrow> m \<le> pos y"
  shows "good env x (url_step y)"
proof (cases "parse_url_char (p_state y) (ch y) = s_dead")
  case True
  then show ?thesis using assms by (simp add: url_step_def)
next
  case False
  then have "parse_url_char (p_state y) (ch y) \<in> mark_states cb_url"
    using parse_url_char_range by blast
  then show ?thesis
    using assms False url_states_ok
    by (simp add: url_step_def next_ok_def exec_ok_def mark_ok_def all_data_cb)
qed

lemma good_req_spaces_before_url:
  assumes "body_ok env x" "p_state x = s_req_spaces_before_url"
  shows "good env x (ex_req_spaces_before_url x)"
proof -
  have none: "marks x f = None" for f using assms by (cases f) (auto simp: ok_defs)
  then have "good env x (url_step y)"
    if "y = MARK cb_url x \<or> y = UPDATE_STATE s_req_server_start (MARK cb_url x)" for y
    using that assms by (intro good_url_step) (auto simp: MARK_def body_ok_def exec_ok_def)
  then show ?thesis using assms by (auto simp: ex_req_spaces_before_url_def ok_defs Let_def)
qed

lemma mark_states_disjoint: "s \<in> mark_states f \<Longrightarrow> s \<in> mark_states g \<Longrightarrow> f = g"
  by (cases f; cases g) auto

lemma mark_unique:
  assumes "body_ok env x" "p_state x \<in> mark_states g"
  shows "f \<noteq> g \<Longrightarrow> marks x f = None" "marks x g = Some m \<Longrightarrow> m \<le> pos x"
    "http_errno (par x) = HPE_OK" "pos x < length (input env)"
proof -
  have ok: "mark_ok f x" for f using assms(1) by (simp add: body_ok_def exec_ok_def)
  show "marks x f = None" if "f \<noteq> g"
    using ok [of f] that mark_states_disjoint [OF assms(2)]
    by (cases "marks x f") (auto simp: mark_ok_def)
  show "m \<le> pos x" if "marks x g = Some m" using ok [of g] that by (simp add: mark_ok_def)
qed (use assms in \<open>simp_all add: body_ok_def exec_ok_def\<close>)

lemma good_req_schema:
  assumes "body_ok env x" "p_state x \<in> mark_states cb_url"
  shows "good env x (ex_req_schema x)"
proof -
  note m = mark_unique [OF assms]
  have "good env x (url_step x)" using m by (intro good_url_step) auto
  then show ?thesis using m by (simp add: ex_req_schema_def)
qed

lemma good_req_target:
  assumes "parser_callbacks (settings env)" "body_ok env x" "p_state x \<in> mark_states cb_url"
  shows "good env x (ex_req_target env x)"
proof -
  note m = mark_unique [OF assms(2,3)]
  have clear: "(marks x)(cb_url := None) = (\<lambda>_. None)" using m(1) by auto
  have step: "good env x (url_step x)" using m by (intro good_url_step) auto
  have call: "good env x (CALLBACK_DATA env cb_url y Next)"
    if "p_state y \<in> {s_req_http_start, s_req_line_almost_done, s_header_field_start}"
      "marks y = marks x" "http_errno (par y) = HPE_OK" "pos y = pos x" for y
    unfolding CALLBACK_DATA_def
  proof (rule good_CALLBACK_DATA)
    show "good env x (Next z)" if "after_cb (y\<lparr>marks := (marks y)(cb_url := None)\<rparr>) z" for z
      using that \<open>p_state y \<in> _\<close> \<open>marks y = marks x\<close> \<open>http_errno (par y) = HPE_OK\<close>
        \<open>pos y = pos x\<close> m(4) clear
      by (auto simp: next_ok_def exec_ok_def mark_ok_def state_ok_def after_cb_def)
    show "state_ok (p_state y) (par y) (pnread (par y))"
      using that(1) by (auto simp: state_ok_def)
    show "m \<le> pos y + 0 \<and> pos y + 0 \<le> length (input env)" if "marks y cb_url = Some m" for m
      using m(2) [of m] m(4) that \<open>marks y = marks x\<close> \<open>pos y = pos x\<close> by simp
  qed (use assms(1) m(4) that in simp_all)
  show ?thesis
  proof (cases "ch x = CHR '' '' \<or> ch x = CR \<or> ch x = LF")
    case True
    then show ?thesis using m(3) by (auto simp: ex_req_target_def Let_def intro!: call)
  next
    case False
    with step show ?thesis by (simp add: ex_req_target_def)
  qed
qed

subsection \<open>Header fields\<close>

lemma good_header_field_start:
  assumes "body_ok env x" "p_state x = s_header_field_start"
  shows "good env x (ex_header_field_start x)"
  using assms by (auto simp: ex_header_field_start_def ok_defs rank_def MARK_def field_states_def Let_def)

lemma match_field_ok:
  "http_errno (match_field w t c p) = http_errno p"
  "header_state (match_field w t c p) \<in> {h_general, t, header_state p}"
  by (auto simp: match_field_def Let_def split: match_result.splits)

lemma header_field_step_ok:
  assumes "header_state p \<in> field_states" "header_state p \<noteq> h_general"
  obtains q where "header_field_step c0 c p = Some q" "http_errno q = http_errno p"
    "header_state q \<in> field_states"
proof (cases "header_field_step c0 c p")
  case None
  then show thesis
    using assms by (auto simp: header_field_step_def field_states_def Let_def split: if_splits)
next
  case (Some q)
  have t: "header_state (match_field w t c p) \<in> field_states" if "t \<in> field_states" for w t
    using match_field_ok(2) [of w t c p] assms(1) that by (auto simp: field_states_def)
  have "http_errno q = http_errno p \<and> header_state q \<in> field_states"
    using Some assms t [of h_connection] t [of h_content_length] t [of h_transfer_encoding]
      t [of h_upgrade]
    by (cases "header_state p")
      (auto simp: header_field_step_def field_states_def match_field_ok(1) Let_def split: if_splits)
  with Some that show thesis by blast
qed

lemma skip_tokens_le: "p < n \<Longrightarrow> pe \<le> n \<Longrightarrow> skip_tokens data p pe < n"
  by (induction data p pe rule: skip_tokens.induct) (subst skip_tokens.simps, auto)

lemma jump_end_le: "p \<le> length (input env) \<Longrightarrow> jump_end env p \<le> length (input env)"
  by (simp add: jump_end_def)

lemma header_field_loop_ok:
  assumes "header_state (par x) \<in> field_states" "pos x \<le> length (input env)"
  shows "\<exists>y. header_field_loop env x = Some y \<and> header_state (par y) \<in> field_states
    \<and> http_errno (par y) = http_errno (par x) \<and> pos x \<le> pos y \<and> pos y \<le> length (input env)
    \<and> p_state y = p_state x \<and> marks y = marks x \<and> nread y = nread x"
  using assms
proof (induction env x rule: header_field_loop.induct)
  case (1 env x)
  show ?case
  proof (cases "pos x = length (input env)")
    case True
    with 1 show ?thesis by (subst header_field_loop.simps) simp
  next
    case False
    with "1.prems" have lt: "pos x < length (input env)" by simp
    let ?c = "input env ! pos x"
    have rd: "rd (input env) (pos x) = Some ?c" using lt by simp
    consider "TOKEN ?c = NUL" | "TOKEN ?c \<noteq> NUL" "header_state (par x) = h_general"
      | "TOKEN ?c \<noteq> NUL" "header_state (par x) \<noteq> h_general" by blast
    then show ?thesis
    proof cases
      case 1
      then show ?thesis
        using "1.prems" lt rd by (subst header_field_loop.simps) simp
    next
      case 2
      let ?p = "skip_tokens (input env) (pos x) (jump_end env (pos x))"
      have "pos x \<le> ?p" "?p < length (input env)"
        using skip_tokens_ge skip_tokens_le [OF lt jump_end_le] lt by auto
      then show ?thesis
        using "1.IH"(1) [OF False rd 2(1,2)] "1.prems" rd 2 False
        by (subst header_field_loop.simps) (auto simp: Suc_le_eq dest: less_imp_le)
    next
      case 3
      obtain q where q: "header_field_step ?c (TOKEN ?c) (par x) = Some q"
        "http_errno q = http_errno (par x)" "header_state q \<in> field_states"
        using header_field_step_ok [OF "1.prems"(1) 3(2)] by blast
      then show ?thesis
        using "1.IH"(2) [OF False rd 3 q(1)] rd 3 False lt
        by (subst header_field_loop.simps) auto
    qed
  qed
qed

lemma good_header_field:
  assumes "parser_callbacks (settings env)" "body_ok env x" "p_state x = s_header_field"
  shows "good env x (ex_header_field env x)"
proof -
  have "header_state (par x) \<in> field_states" "pos x < length (input env)"
    "http_errno (par x) = HPE_OK" "\<And>f. f \<noteq> cb_header_field \<Longrightarrow> marks x f = None"
    "\<And>m. marks x cb_header_field = Some m \<Longrightarrow> m \<le> pos x"
    using assms(2,3) mark_unique [OF assms(2), of cb_header_field]
    by (auto simp: body_ok_def exec_ok_def state_ok_def)
  note x = this
  obtain y where y: "header_field_loop env x = Some y" "header_state (par y) \<in> field_states"
    "http_errno (par y) = http_errno (par x)" "pos x \<le> pos y" "pos y \<le> length (input env)"
    "p_state y = p_state x" "marks y = marks x"
    using header_field_loop_ok [OF x(1)] x(2) by (metis less_imp_le)
  have mark: "mark_ok f z" if "marks z = marks x" "pos x \<le> pos z" "p_state z = s_header_field" for f z
    using that x(4) x(5) by (cases f) (auto simp: mark_ok_def intro: le_trans)
  show ?thesis
  proof (cases "pos y = length (input env)")
    case True
    let ?z = "y\<lparr>pos := pos y - 1\<rparr>"
    have "good env x (COUNT_HEADER_SIZE env (pos ?z - pos x) ?z Next)"
      using y x(2,3) True assms(3)
      by (intro good_COUNT) (auto simp: next_ok_def exec_ok_def state_ok_def intro!: mark)
    then show ?thesis using True y(1) by (simp add: ex_header_field_def)
  next
    case False
    have clear: "(marks x)(cb_header_field := None) = (\<lambda>_. None)" using x(4) by auto
    have "good env x (CALLBACK_DATA env cb_header_field (UPDATE_STATE s_header_value_discard_ws z) Next)"
      if "pos z = pos y" "marks z = marks x" "http_errno (par z) = HPE_OK" for z
      unfolding CALLBACK_DATA_def
      using assms(1) False y(4,5) that x(5) clear
      by (intro good_CALLBACK_DATA)
        (auto simp: next_ok_def exec_ok_def state_ok_def mark_ok_def after_cb_def intro: le_trans)
    then show ?thesis
      using False y x(3) by (auto simp: ex_header_field_def Let_def intro!: good_COUNT)
  qed
qed


subsection \<open>Header values\<close>

lemma good_header_value_start:
  assumes "body_ok env x" "p_state x \<in> {s_header_value_start, s_header_value_discard_ws}"
  shows "good env x (ex_header_value_start x)"
proof -
  have none: "marks x f = None" for f
    using assms by (cases f) (auto simp: body_ok_def exec_ok_def mark_ok_def all_data_cb)
  let ?x = "upd_par (\<lambda>p. p\<lparr>index := 0\<rparr>) (UPDATE_STATE s_header_value (MARK cb_header_value x))"
  have x: "pos x < length (input env)" "http_errno (par x) = HPE_OK"
    using assms(1) by (simp_all add: body_ok_def exec_ok_def)
  show ?thesis
  proof (cases "value_start (ch ?x) (par ?x)")
    case (Inl e)
    then have "e \<notin> {HPE_OK, HPE_PAUSED}"
      by (auto simp: value_start_def Let_def split: header_states.splits if_splits)
    with Inl x(1) show ?thesis by (simp add: ex_header_value_start_def Let_def MARK_def)
  next
    case (Inr q)
    then have "http_errno q = http_errno (par x)"
      "header_state q \<notin> {h_connection, h_transfer_encoding}"
      by (auto simp: value_start_def set_flag_def MARK_def Let_def split: header_states.splits if_splits)
    with Inr x none show ?thesis
      by (simp add: ex_header_value_start_def Let_def MARK_def next_ok_def exec_ok_def state_ok_def
          mark_ok_def)
  qed
qed

lemma good_header_value_discard_ws:
  assumes "body_ok env x" "p_state x = s_header_value_discard_ws"
  shows "good env x (ex_header_value_discard_ws x)"
  using good_header_value_start [OF assms(1)] assms
  by (auto simp: ex_header_value_discard_ws_def ok_defs)

lemma match_value_ok:
  "match_value w h t u c p = (h', q) \<Longrightarrow> h' \<in> {h, t, u} \<and> http_errno q = http_errno p"
  by (auto simp: match_value_def Let_def split: match_result.splits)

lemma content_length_num_step_ok:
  "content_length_num_step c0 p = Inr (h', q) \<Longrightarrow>
     h' \<in> {h_content_length_ws, h_content_length_num} \<and> http_errno q = http_errno p"
  by (auto simp: content_length_num_step_def Let_def split: if_splits)

lemma connection_token_step_ok:
  "connection_token_step h c0 p = (h', q) \<Longrightarrow>
     h' \<in> {h, h_matching_connection_token_start, h_matching_connection_token}
     \<and> http_errno q = http_errno p"
  by (auto simp: connection_token_step_def connection_flag_def set_flag_def split: if_splits)

lemma header_value_step_ok:
  assumes "h \<notin> {h_connection, h_transfer_encoding}"
  obtains h' where "header_value_step h c0 p = Some (Inl h')"
  | h' q where "header_value_step h c0 p = Some (Inr (h', q))"
    "h' \<notin> {h_connection, h_transfer_encoding}" "http_errno q = http_errno p"
proof (cases "header_value_step h c0 p")
  case None
  then show thesis using assms by (cases h) (simp_all add: header_value_step_def Let_def)
next
  case (Some r)
  show thesis
  proof (cases r)
    case (Inl h')
    with Some that(1) show thesis by blast
  next
    case (Inr hq)
    obtain h' q where hq: "hq = (h', q)" by (cases hq)
    have "h' \<notin> {h_connection, h_transfer_encoding} \<and> http_errno q = http_errno p"
      using Some assms Inr hq
      by (cases h)
        (auto simp: header_value_step_def token_start_step_def Let_def split: if_splits
          dest!: content_length_num_step_ok connection_token_step_ok match_value_ok)
    with Some Inr hq that(2) show thesis by blast
  qed
qed


lemma skip_value_le:
  "skip_value len data p pe c0 = (p', c, bad) \<Longrightarrow> p \<le> pe \<Longrightarrow> p' \<le> pe \<and> (bad \<longrightarrow> p' < pe)"
proof (induction len data p pe c0 rule: skip_value.induct)
  case (1 len data p pe c0)
  from "1.prems"(1) show ?case
    by (subst (asm) skip_value.simps) (use "1.IH" "1.prems"(2) in \<open>auto simp: Let_def split: if_splits\<close>)
qed

lemma skip_value_from:
  assumes "skip_value len data p pe c0 = (p', c, bad)" "p \<le> pe" "data ! p \<noteq> CR" "data ! p \<noteq> LF"
  shows "p \<le> p'"
proof (cases "p < pe")
  case True
  with skip_value_ge [OF True assms(3,4)] assms(1) show ?thesis by (metis fst_conv)
next
  case False
  with assms(1,2) show ?thesis by (simp add: skip_value.simps [of _ _ _ pe])
qed

text \<open>What holds of the local variables inside the loop over a value.\<close>

definition value_ok :: "'c env \<Rightarrow> nat \<Rightarrow> 'c exec \<Rightarrow> bool" where
  "value_ok env start x \<longleftrightarrow>
     start \<le> pos x \<and> pos x \<le> length (input env) \<and> start < length (input env)
     \<and> http_errno (par x) = HPE_OK \<and> p_state x = s_header_value
     \<and> (\<forall>f. f \<noteq> cb_header_value \<longrightarrow> marks x f = None)
     \<and> (\<forall>m. marks x cb_header_value = Some m \<longrightarrow> m \<le> start)"

lemma good_header_value_end:
  assumes "pos x0 = start" "start \<le> pos y" "pos y \<le> length (input env)" "start < length (input env)"
    "http_errno (par y) = HPE_OK"
    and st: "p_state y = s_header_almost_done \<and> marks y = (\<lambda>_. None)
      \<or> value_ok env start y \<and> h \<notin> {h_connection, h_transfer_encoding}"
  shows "good env x0 (header_value_end env start h y)"
proof -
  define z where "z = (let z = upd_par (\<lambda>p. p\<lparr>header_state := h\<rparr>) y in
    if pos z = length (input env) then z\<lparr>pos := pos z - 1\<rparr> else z)"
  have z: "start \<le> pos z" "pos z < length (input env)" "p_state z = p_state y" "marks z = marks y"
    "http_errno (par z) = HPE_OK" "header_state (par z) = h"
    using assms(2-5) by (auto simp: z_def Let_def)
  have "next_ok env (z\<lparr>nread := n\<rparr>)" for n
    using z st by (auto simp: next_ok_def exec_ok_def state_ok_def mark_ok_def value_ok_def all_data_cb)
  then have "good env x0 (COUNT_HEADER_SIZE env (pos z - start) z Next)"
    using z assms(1) by (intro good_COUNT) auto
  then show ?thesis by (simp add: header_value_end_def z_def Let_def)
qed

lemma good_header_value_loop:
  assumes "parser_callbacks (settings env)" "value_ok env start x"
    "h \<notin> {h_connection, h_transfer_encoding}" "pos x0 = start" "p_state x0 = s_header_value"
  shows "good env x0 (header_value_loop env start h x)"
  using assms
proof (induction env start h x rule: header_value_loop.induct)
  case (1 env start h x)
  note x = "1.prems"(2) [unfolded value_ok_def]
  show ?case
  proof (cases "pos x = length (input env)")
    case True
    have "good env x0 (header_value_end env start h x)"
      using "1.prems" x by (intro good_header_value_end) auto
    with True show ?thesis by (subst header_value_loop.simps) simp
  next
    case False
    with x have lt: "pos x < length (input env)" by simp
    let ?c = "input env ! pos x"
    have rd: "rd (input env) (pos x) = Some ?c" using lt by simp
    have clear: "(marks x)(cb_header_value := None) = (\<lambda>_. None)" using x by auto
    let ?y = "\<lambda>y. UPDATE_STATE s_header_almost_done (y\<lparr>ch := ?c\<rparr>)"
    consider "?c = CR" | "?c = LF" | "?c \<noteq> CR" "?c \<noteq> LF" "\<not> lenient env \<and> \<not> IS_HEADER_CHAR ?c"
      | "?c \<noteq> CR" "?c \<noteq> LF" "\<not> (\<not> lenient env \<and> \<not> IS_HEADER_CHAR ?c)" "h = h_general"
      | "?c \<noteq> CR" "?c \<noteq> LF" "\<not> (\<not> lenient env \<and> \<not> IS_HEADER_CHAR ?c)" "h \<noteq> h_general"
      by blast
    then show ?thesis
    proof cases
      case 1
      have "good env x0 (CALLBACK_DATA env cb_header_value
          (upd_par (\<lambda>p. p\<lparr>header_state := h\<rparr>) (?y x)) (header_value_end env start h))"
        unfolding CALLBACK_DATA_def using "1.prems"(1,4) x lt clear
        by (intro good_CALLBACK_DATA good_header_value_end)
          (auto simp: state_ok_def after_cb_def)
      then show ?thesis using 1 False rd by (subst header_value_loop.simps) simp
    next
      case 2
      have "good env x0 (CALLBACK_DATA_NOADVANCE env cb_header_value
          (upd_par (\<lambda>p. p\<lparr>header_state := h\<rparr>) ((?y x)\<lparr>nread := n\<rparr>)) Again)" for n
        unfolding CALLBACK_DATA_NOADVANCE_def using "1.prems"(1,4,5) x lt clear
        by (intro good_CALLBACK_DATA)
          (auto simp: state_ok_def body_ok_def exec_ok_def mark_ok_def rank_def after_cb_def)
      then have "good env x0 (COUNT_HEADER_SIZE env (pos x - start) (?y x)
          (\<lambda>x. CALLBACK_DATA_NOADVANCE env cb_header_value
                 (upd_par (\<lambda>p. p\<lparr>header_state := h\<rparr>) x) Again))"
        using lt by (intro good_COUNT) auto
      then show ?thesis using 2 False rd by (subst header_value_loop.simps) simp
    next
      case 3
      then show ?thesis using False rd lt by (subst header_value_loop.simps) simp
    next
      case 4
      obtain p c bad where skip: "skip_value (lenient env) (input env) (pos x) (jump_end env (pos x)) ?c = (p, c, bad)"
        by (cases "skip_value (lenient env) (input env) (pos x) (jump_end env (pos x)) ?c")
      have le: "pos x \<le> jump_end env (pos x)" "jump_end env (pos x) \<le> length (input env)"
        using lt by (simp_all add: jump_end_def)
      have p: "pos x \<le> p" "p \<le> length (input env)" "bad \<Longrightarrow> p < length (input env)"
        using skip_value_from [OF skip le(1) 4(1,2)] skip_value_le [OF skip le(1)] le(2) by auto
      show ?thesis
      proof (cases bad)
        case True
        then show ?thesis using 4 False rd skip p by (subst header_value_loop.simps) simp
      next
        case nb: False
        let ?z = "x\<lparr>ch := c, pos := Suc (if p = length (input env) then p - 1 else p)\<rparr>"
        have "value_ok env start ?z" using x lt p by (auto simp: value_ok_def)
        then have "good env x0 (header_value_loop env start h ?z)"
          using "1.IH"(1) [OF False rd 4 skip [symmetric] refl nb] "1.prems" by blast
        then show ?thesis using 4 False rd skip nb lt by (subst header_value_loop.simps) simp
      qed
    next
      case 5
      show ?thesis
      proof (cases rule: header_value_step_ok [OF "1.prems"(3), of ?c "par x"])
        case (1 h')
        then show ?thesis using 5 False rd lt by (subst header_value_loop.simps) simp
      next
        case (2 h' q)
        let ?z = "x\<lparr>ch := ?c, par := q, pos := Suc (pos x)\<rparr>"
        have "value_ok env start ?z" using x lt 2 by (auto simp: value_ok_def)
        then have "good env x0 (header_value_loop env start h' ?z)"
          using "1.IH"(2) [OF False rd 5(1-4) 2(1) refl refl] "1.prems" 2(2) by blast
        then show ?thesis using 5 False rd 2(1) lt by (subst header_value_loop.simps) simp
      qed
    qed
  qed
qed


lemma good_header_value:
  assumes "parser_callbacks (settings env)" "body_ok env x" "p_state x = s_header_value"
  shows "good env x (ex_header_value env x)"
proof -
  have "value_ok env (pos x) x"
    using mark_unique [OF assms(2), of cb_header_value] assms(3) by (auto simp: value_ok_def)
  moreover have "header_state (par x) \<notin> {h_connection, h_transfer_encoding}"
    using assms(2,3) by (simp add: body_ok_def exec_ok_def state_ok_def)
  ultimately show ?thesis
    unfolding ex_header_value_def using assms by (intro good_header_value_loop) auto
qed

lemma finished_header_errno [simp]: "http_errno (finished_header p) = http_errno p"
  by (simp add: finished_header_def connection_flag_def set_flag_def)

lemma no_mark_bodyI:
  assumes "\<And>f. marks y f = None" "http_errno (par y) = HPE_OK" "pos y < length (input env)"
    "state_ok (p_state y) (par y) (nread y - 1)"
  shows "body_ok env y"
  using assms by (simp add: body_ok_def exec_ok_def mark_ok_def)

lemma no_mark_nextI:
  assumes "\<And>f. marks y f = None" "http_errno (par y) = HPE_OK" "pos y < length (input env)"
    "state_ok (p_state y) (par y) (nread y)"
  shows "next_ok env y"
  using assms by (simp add: next_ok_def exec_ok_def mark_ok_def)

lemma unmarked_state:
  assumes "body_ok env x" "\<forall>f. p_state x \<notin> mark_states f"
  shows "marks x f = None" "http_errno (par x) = HPE_OK" "pos x < length (input env)"
  using assms by (auto simp: body_ok_def exec_ok_def mark_ok_def intro: not_None_eq [THEN iffD1, rotated])

lemma good_header_value_lws:
  assumes "body_ok env x" "p_state x = s_header_value_lws"
  shows "good env x (ex_header_value_lws x)"
proof -
  have "\<forall>f. p_state x \<notin> mark_states f" using assms(2) by (simp add: all_data_cb)
  note u = unmarked_state [OF assms(1) this]
  show ?thesis
    using u assms(2)
    by (auto simp: ex_header_value_lws_def rank_def state_ok_def intro!: no_mark_bodyI)
qed

lemma good_header_value_discard_lws:
  assumes "parser_callbacks (settings env)" "body_ok env x" "p_state x = s_header_value_discard_lws"
  shows "good env x (ex_header_value_discard_lws env x)"
proof -
  have "\<forall>f. p_state x \<notin> mark_states f" using assms(3) by (simp add: all_data_cb)
  note u = unmarked_state [OF assms(2) this]
  let ?y = "UPDATE_STATE s_header_field_start (MARK cb_header_value (upd_par finished_header x))"
  have "good env x (CALLBACK_DATA_NOADVANCE env cb_header_value ?y Again)"
    unfolding CALLBACK_DATA_NOADVANCE_def
    using assms(1,3) u
    by (intro good_CALLBACK_DATA)
      (auto simp: MARK_def state_ok_def rank_def after_cb_def intro!: no_mark_bodyI)
  moreover have "next_ok env (UPDATE_STATE s_header_value_discard_ws x)"
    using u by (intro no_mark_nextI) (auto simp: state_ok_def)
  ultimately show ?thesis using u by (auto simp: ex_header_value_discard_lws_def)
qed

lemma good_headers_complete:
  assumes "parser_callbacks (settings env)" "\<And>f. marks y f = None" "http_errno (par y) = HPE_OK"
    "pos y < length (input env)" "p_state y = s_headers_done" "pos y = pos x" "1 < rank (p_state x)"
  shows "good env x (headers_complete env y)"
proof -
  have ok: "state_ok s_headers_done p n" "rank s_headers_done = 1" for p n
    by (simp_all add: state_ok_def rank_def)
  have again: "good env x (Again z)"
    if "marks z = marks y" "http_errno (par z) = HPE_OK" "pos z = pos y" "p_state z = p_state y" for z
    using assms that ok by (auto intro!: no_mark_bodyI)
  show ?thesis
  proof (cases "on_headers_complete (settings env)")
    case None
    then show ?thesis using assms again [of y] by (simp add: headers_complete_def)
  next
    case (Some cb)
    obtain rc p c where r: "cb (par y) (client y) = (rc, p, c)" by (cases "cb (par y) (client y)")
    define z where "z = (let z = y\<lparr>par := p, client := c\<rparr>;
        z = (if rc = 2 then upd_par (\<lambda>p. p\<lparr>upgrade := True\<rparr>) z else z)
      in (if rc \<noteq> 0 then upd_par (set_flag F_SKIPBODY) z else z))"
    have z: "marks z = marks y" "pos z = pos y" "p_state z = p_state y"
      by (simp_all add: z_def Let_def)
    show ?thesis
    proof (cases "rc \<noteq> 0 \<and> rc \<noteq> 1 \<and> rc \<noteq> 2")
      case True
      then show ?thesis
        using Some r assms(4) good_RETURN_error [of "pos y" env "SET_ERRNO HPE_CB_headers_complete (y\<lparr>par := p, client := c\<rparr>)" x]
        by (simp add: headers_complete_def SET_ERRNO_def Let_def)
    next
      case False
      then have "headers_complete env y = (if http_errno (par z) \<noteq> HPE_OK then RETURN (pos z) z else Again z)"
        using Some r by (auto simp: headers_complete_def z_def Let_def)
      moreover have "good env x (RETURN (pos z) z)"
        using z assms(4,5) ok by (intro good_RETURN_ok) simp_all
      ultimately show ?thesis using again [of z] z by simp
    qed
  qed
qed

lemma good_headers_almost_done:
  assumes "parser_callbacks (settings env)" "body_ok env x" "p_state x = s_headers_almost_done"
  shows "good env x (ex_headers_almost_done env x)"
proof -
  have "\<forall>f. p_state x \<notin> mark_states f" using assms(3) by (simp add: all_data_cb)
  note u = unmarked_state [OF assms(2) this]
  have done_: "good env x (CALLBACK_NOTIFY_NOADVANCE env cb_chunk_complete
      (UPDATE_STATE s_message_done x) Again)"
    unfolding CALLBACK_NOTIFY_NOADVANCE_def using assms(1,3) u
    by (intro good_CALLBACK_NOTIFY) (auto simp: state_ok_def rank_def after_cb_def intro!: no_mark_bodyI)
  have "good env x (headers_complete env
      (upd_par (\<lambda>p. p\<lparr>upgrade := upgrade_of p\<rparr>) (UPDATE_STATE s_headers_done x)))"
    using assms(1,3) u by (intro good_headers_complete) (simp_all add: rank_def)
  with done_ u show ?thesis
    unfolding ex_headers_almost_done_def by (intro good_STRICT_CHECK) auto
qed

subsection \<open>Bodies\<close>

lemma has_flag_update [simp]:
  "has_flag f (p\<lparr>pstate := s\<rparr>) = has_flag f p"
  "has_flag f (p\<lparr>content_length := n\<rparr>) = has_flag f p"
  by (simp_all add: has_flag_def)

lemma uint_ULLONG_MAX: "uint ULLONG_MAX = 2 ^ 64 - 1"
  by (simp add: ULLONG_MAX_def unsigned_minus_1_eq_mask mask_eq_exp_minus_1)

lemma start_states_ok:
  "state_ok (NEW_MESSAGE p) q n" "NEW_MESSAGE p \<notin> mark_states f"
  by (cases f; simp add: NEW_MESSAGE_def start_state_def state_ok_def)+

lemma good_new_message:
  assumes "parser_callbacks (settings env)" "\<And>f. marks y f = None" "http_errno (par y) = HPE_OK"
    "pos y < length (input env)" "pos y = pos x"
    and k: "\<And>z. marks z = marks y \<Longrightarrow> http_errno (par z) = HPE_OK \<Longrightarrow> pos z = pos y
      \<Longrightarrow> p_state z = NEW_MESSAGE (par y) \<Longrightarrow> good env x (k z)"
  shows "good env x (new_message env y k)"
  unfolding new_message_def CALLBACK_NOTIFY_def using assms(1-5)
  by (intro good_CALLBACK_NOTIFY) (auto simp: start_states_ok after_cb_def intro!: k)

lemma good_new_next:
  assumes "parser_callbacks (settings env)" "\<And>f. marks y f = None" "http_errno (par y) = HPE_OK"
    "pos y < length (input env)" "pos y = pos x"
  shows "good env x (new_message env y Next)"
  using assms by (intro good_new_message) (auto simp: start_states_ok intro!: no_mark_nextI)

lemma good_new_return:
  assumes "parser_callbacks (settings env)" "\<And>f. marks y f = None" "http_errno (par y) = HPE_OK"
    "pos y < length (input env)" "pos y = pos x"
  shows "good env x (new_message env y (\<lambda>x. RETURN (pos x + 1) x))"
  using assms by (intro good_new_message good_RETURN_ok) (auto simp: start_states_ok)

lemma clear_nread_simps [simp]:
  "marks (clear_nread x) = marks x" "http_errno (par (clear_nread x)) = http_errno (par x)"
  "pos (clear_nread x) = pos x" "nread (clear_nread x) = 0" "p_state (clear_nread x) = p_state x"
  "pnread (par (clear_nread x)) = 0" "content_length (par (clear_nread x)) = content_length (par x)"
  "has_flag f (par (clear_nread x)) = has_flag f (par x)"
  by (simp_all add: clear_nread_def has_flag_def)

lemma good_headers_done:
  assumes "parser_callbacks (settings env)" "body_ok env x" "p_state x = s_headers_done"
  shows "good env x (ex_headers_done env x)"
proof -
  have "\<forall>f. p_state x \<notin> mark_states f" using assms(3) by (simp add: all_data_cb)
  note u = unmarked_state [OF assms(2) this]
  define y where "y = clear_nread x"
  have y: "\<And>f. marks y f = None" "http_errno (par y) = HPE_OK" "pos y < length (input env)"
    "pos y = pos x" "nread y = 0"
    using u by (simp_all add: y_def)
  have eof: "good env x (Next (UPDATE_STATE s_body_identity_eof y))"
    using y by (auto simp: state_ok_def intro!: no_mark_nextI)
  have identity: "good env x (Next (UPDATE_STATE s_body_identity y))"
    if "content_length (par y) \<noteq> 0" "content_length (par y) \<noteq> ULLONG_MAX"
    using y that by (auto simp: state_ok_def intro!: no_mark_nextI)
  have chunk: "good env x (Next (UPDATE_STATE s_chunk_size_start y))" if "has_flag F_CHUNKED (par y)"
    using y that by (auto simp: state_ok_def intro!: no_mark_nextI)
  have bad: "good env x (RETURN (pos y) (SET_ERRNO HPE_INVALID_TRANSFER_ENCODING y))"
    using y by (intro good_RETURN_error) (auto simp: SET_ERRNO_def)
  note parts = good_new_next [OF assms(1) y(1-4)] good_new_return [OF assms(1) y(1-4)]
    eof identity chunk bad
  show ?thesis
    unfolding ex_headers_done_def Let_def y_def [symmetric]
    by (rule good_STRICT_CHECK) (use u in simp, simp only: y_def [symmetric], use parts in simp)
qed

lemma good_message_done:
  assumes "parser_callbacks (settings env)" "body_ok env x" "p_state x = s_message_done"
  shows "good env x (ex_message_done env x)"
proof -
  have "\<forall>f. p_state x \<notin> mark_states f" using assms(3) by (simp add: all_data_cb)
  note u = unmarked_state [OF assms(2) this]
  show ?thesis
    unfolding ex_message_done_def
    using assms(1) u
    by (intro good_new_message)
      (auto simp: start_states_ok intro!: no_mark_nextI good_RETURN_ok)
qed

lemma to_read_bounds:
  assumes "length (input env) < 2 ^ 64" "pos x < length (input env)" "content_length (par x) \<noteq> 0"
  shows "0 < unat (to_read env x)" "pos x + unat (to_read env x) \<le> length (input env)"
    "to_read env x \<le> content_length (par x)"
proof -
  let ?n = "length (input env) - pos x"
  have n: "unat (of_nat ?n :: 64 word) = ?n"
    using assms(1) by (simp add: unat_of_nat take_bit_nat_eq_self)
  have "unat (to_read env x) = min (unat (content_length (par x))) ?n"
    unfolding to_read_def using n by (simp add: min_def word_le_nat_alt)
  moreover have "0 < unat (content_length (par x))" using assms(3) by (simp add: unat_gt_0)
  ultimately show "0 < unat (to_read env x)" "pos x + unat (to_read env x) \<le> length (input env)"
    using assms(2) by auto
  show "to_read env x \<le> content_length (par x)" by (simp add: to_read_def)
qed

lemma consume_body_ok:
  assumes "length (input env) < 2 ^ 64" "body_ok env x" "p_state x \<in> mark_states cb_body"
    "content_length (par x) \<noteq> 0" "content_length (par x) \<noteq> ULLONG_MAX"
  defines "y \<equiv> consume_body env x"
  shows "pos x \<le> pos y" "pos y < length (input env)" "http_errno (par y) = HPE_OK"
    "\<And>f. f \<noteq> cb_body \<Longrightarrow> marks y f = None" "\<And>m. marks y cb_body = Some m \<Longrightarrow> m \<le> pos y"
    "p_state y = p_state x" "content_length (par y) \<noteq> ULLONG_MAX"
    "has_flag F_CHUNKED (par y) = has_flag F_CHUNKED (par x)"
proof -
  note u = mark_unique [OF assms(2,3)]
  note r = to_read_bounds [OF assms(1) u(4) assms(4)]
  show "pos x \<le> pos y" "pos y < length (input env)"
    using r(1,2) by (auto simp: y_def consume_body_def Let_def MARK_def)
  show "http_errno (par y) = HPE_OK" "p_state y = p_state x"
    "has_flag F_CHUNKED (par y) = has_flag F_CHUNKED (par x)"
    using u by (simp_all add: y_def consume_body_def Let_def MARK_def has_flag_def)
  show "marks y f = None" if "f \<noteq> cb_body" for f
    using u that by (simp add: y_def consume_body_def Let_def MARK_def)
  show "m \<le> pos y" if "marks y cb_body = Some m" for m
    using u(2) [of m] that r by (auto simp: y_def consume_body_def Let_def MARK_def split: if_splits)
  have "content_length (par x) - to_read env x \<le> content_length (par x)"
    using r(3) by (rule word_sub_le)
  moreover have "content_length (par x) < ULLONG_MAX"
    using assms(5) by (simp add: ULLONG_MAX_def word_order.not_eq_extremum)
  ultimately show "content_length (par y) \<noteq> ULLONG_MAX"
    by (auto simp: y_def consume_body_def Let_def MARK_def)
qed


lemma good_body_identity:
  assumes "parser_callbacks (settings env)" "length (input env) < 2 ^ 64" "body_ok env x"
    "p_state x = s_body_identity"
  shows "good env x (ex_body_identity env x)"
proof -
  have c: "content_length (par x) \<noteq> 0" "content_length (par x) \<noteq> ULLONG_MAX"
    "p_state x \<in> mark_states cb_body"
    using assms(3,4) by (simp_all add: body_ok_def exec_ok_def state_ok_def)
  define y where "y = consume_body env x"
  note y = consume_body_ok [OF assms(2,3) c(3,1,2), folded y_def]
  have clear: "(marks y)(cb_body := None) = (\<lambda>_. None)" using y(4) by auto
  have "good env x (CALLBACK_DATA_at env cb_body 1 (pos y) (UPDATE_STATE s_message_done y) Again)"
    using assms(1,4) y(1-3,5) clear
    by (intro good_CALLBACK_DATA)
      (auto simp: state_ok_def rank_def after_cb_def less_Suc_eq_le intro!: no_mark_bodyI dest!: y(5))
  moreover have "good env x (Next y)" if "content_length (par y) \<noteq> 0"
    using that y assms(4)
    by (auto simp: next_ok_def exec_ok_def state_ok_def mark_ok_def all_data_cb)
  ultimately show ?thesis using c by (simp add: ex_body_identity_def y_def Let_def)
qed

lemma good_body_identity_eof:
  assumes "body_ok env x" "p_state x = s_body_identity_eof"
  shows "good env x (ex_body_identity_eof env x)"
proof -
  have "p_state x \<in> mark_states cb_body" using assms(2) by simp
  note u = mark_unique [OF assms(1) this]
  have "m \<le> length (input env) - Suc 0" if "marks x cb_body = Some m" for m
    using u(2) [OF that] u(4) by simp
  then show ?thesis
    using u assms(2)
    by (auto simp: ex_body_identity_eof_def next_ok_def exec_ok_def state_ok_def mark_ok_def
        all_data_cb MARK_def)
qed

subsection \<open>Chunks\<close>

lemma unhex_range: "- 1 \<le> unhex ! byte c \<and> unhex ! byte c \<le> 15"
  by (auto simp: unhex_eq)

text \<open>A hexadecimal digit as a word, and the conservative test for overflow.\<close>

lemma unhex_word:
  assumes "unhex ! byte c \<noteq> - 1"
  shows "uint (of_int (unhex ! byte c) :: 64 word) = unhex ! byte c" "0 \<le> unhex ! byte c"
    "unhex ! byte c \<le> 15"
proof -
  show b: "0 \<le> unhex ! byte c" "unhex ! byte c \<le> 15" using unhex_range [of c] assms by auto
  then show "uint (of_int (unhex ! byte c) :: 64 word) = unhex ! byte c"
    by (simp add: uint_word_of_int)
qed

lemma chunk_size_step:
  fixes n :: "64 word"
  assumes "\<not> (ULLONG_MAX - 16) div 16 < n" "unhex ! byte c \<noteq> - 1"
  shows "uint (n * 16 + of_int (unhex ! byte c)) = uint n * 16 + unhex ! byte c"
    "n * 16 + of_int (unhex ! byte c) \<noteq> ULLONG_MAX"
proof -
  have "uint ((ULLONG_MAX - 16) div 16) = (2 ^ 64 - 17) div 16"
    by (simp add: ULLONG_MAX_def uint_div)
  then have n: "uint n \<le> (2 ^ 64 - 17) div 16"
    using assms(1) by (simp add: word_less_def not_less)
  note d = unhex_word [OF assms(2)]
  have "uint n * 16 + unhex ! byte c < 2 ^ 64 - 1" using n d by simp
  then show eq: "uint (n * 16 + of_int (unhex ! byte c)) = uint n * 16 + unhex ! byte c"
    using d n by (simp add: uint_word_ariths)
  show "n * 16 + of_int (unhex ! byte c) \<noteq> ULLONG_MAX"
    using eq \<open>_ < 2 ^ 64 - 1\<close> uint_ULLONG_MAX by auto
qed

lemma good_chunk_size_start:
  assumes "body_ok env x" "p_state x = s_chunk_size_start"
  shows "good env x (ex_chunk_size_start x)"
proof -
  have "\<forall>f. p_state x \<notin> mark_states f" using assms(2) by (simp add: all_data_cb)
  note u = unmarked_state [OF assms(1) this]
  have c: "nread x = 1" "has_flag F_CHUNKED (par x)"
    using assms by (simp_all add: body_ok_def exec_ok_def state_ok_def)
  have "of_int (unhex ! byte (ch x)) \<noteq> ULLONG_MAX" if "unhex ! byte (ch x) \<noteq> - 1"
    using unhex_word [OF that] uint_ULLONG_MAX by auto
  then show ?thesis
    using u c by (auto simp: ex_chunk_size_start_def state_ok_def Let_def
        intro!: no_mark_nextI)
qed

lemma good_chunk_size:
  assumes "body_ok env x" "p_state x = s_chunk_size"
  shows "good env x (ex_chunk_size x)"
proof -
  have "\<forall>f. p_state x \<notin> mark_states f" using assms(2) by (simp add: all_data_cb)
  note u = unmarked_state [OF assms(1) this]
  have "has_flag F_CHUNKED (par x)" "content_length (par x) \<noteq> ULLONG_MAX"
    using assms by (simp_all add: body_ok_def exec_ok_def state_ok_def)
  then show ?thesis
    using u assms(2) chunk_size_step(2) [of "content_length (par x)" "ch x"]
    by (auto simp: ex_chunk_size_def state_ok_def Let_def intro!: no_mark_nextI)
qed

lemma good_chunk_size_almost_done:
  assumes "parser_callbacks (settings env)" "body_ok env x" "p_state x = s_chunk_size_almost_done"
  shows "good env x (ex_chunk_size_almost_done env x)"
proof -
  have "\<forall>f. p_state x \<notin> mark_states f" using assms(3) by (simp add: all_data_cb)
  note u = unmarked_state [OF assms(2) this]
  define y where "y = clear_nread x"
  have c: "has_flag F_CHUNKED (par x)" "content_length (par y) \<noteq> ULLONG_MAX"
    using assms by (simp_all add: body_ok_def exec_ok_def state_ok_def y_def)
  have y: "\<And>f. marks y f = None" "http_errno (par y) = HPE_OK" "pos y < length (input env)"
    "pos y = pos x" "has_flag F_CHUNKED (par y)"
    using u c by (simp_all add: y_def)
  have flags: "http_errno (set_flag F_TRAILING p) = http_errno p" for p
    by (simp add: set_flag_def)
  have "good env x (CALLBACK_NOTIFY env cb_chunk_header
      (UPDATE_STATE s_header_field_start (upd_par (set_flag F_TRAILING) y)) Next)"
    unfolding CALLBACK_NOTIFY_def using assms(1) y flags
    by (intro good_CALLBACK_NOTIFY) (auto simp: state_ok_def after_cb_def intro!: no_mark_nextI)
  moreover have "good env x (CALLBACK_NOTIFY env cb_chunk_header (UPDATE_STATE s_chunk_data y) Next)"
    if "content_length (par y) \<noteq> 0"
    unfolding CALLBACK_NOTIFY_def using assms(1) y that c(2)
    by (intro good_CALLBACK_NOTIFY)
      (auto simp: state_ok_def after_cb_def intro!: no_mark_nextI)
  moreover have "good env x (STRICT_CHECK (ch x \<noteq> LF) x k)" if "good env x (k x)" for k
    using u that by (intro good_STRICT_CHECK) auto
  ultimately show ?thesis
    using c(1) unfolding ex_chunk_size_almost_done_def Let_def y_def by simp
qed

lemma good_chunk_data:
  assumes "length (input env) < 2 ^ 64" "body_ok env x" "p_state x = s_chunk_data"
  shows "good env x (ex_chunk_data env x)"
proof -
  have c: "content_length (par x) \<noteq> 0" "content_length (par x) \<noteq> ULLONG_MAX"
    "p_state x \<in> mark_states cb_body" "has_flag F_CHUNKED (par x)"
    using assms(2,3) by (simp_all add: body_ok_def exec_ok_def state_ok_def)
  define y where "y = consume_body env x"
  note y = consume_body_ok [OF assms(1,2) c(3,1,2), folded y_def]
  have "good env x (Next y)" if "content_length (par y) \<noteq> 0"
    using that y assms(3) c(4)
    by (auto simp: next_ok_def exec_ok_def state_ok_def mark_ok_def all_data_cb)
  moreover have "good env x (Next (UPDATE_STATE s_chunk_data_almost_done y))"
    if "content_length (par y) = 0"
    using that y assms(3) c(4)
    by (auto simp: next_ok_def exec_ok_def state_ok_def mark_ok_def all_data_cb)
  ultimately show ?thesis using c by (simp add: ex_chunk_data_def y_def Let_def)
qed

lemma good_chunk_data_almost_done:
  assumes "parser_callbacks (settings env)" "body_ok env x" "p_state x = s_chunk_data_almost_done"
  shows "good env x (ex_chunk_data_almost_done env x)"
proof -
  have c: "p_state x \<in> mark_states cb_body" "has_flag F_CHUNKED (par x)" "content_length (par x) = 0"
    using assms(2,3) by (simp_all add: body_ok_def exec_ok_def state_ok_def)
  note u = mark_unique [OF assms(2) c(1)]
  have clear: "(marks x)(cb_body := None) = (\<lambda>_. None)" using u(1) by auto
  have "good env x (CALLBACK_DATA env cb_body (UPDATE_STATE s_chunk_data_done x) Next)"
    unfolding CALLBACK_DATA_def using assms(1) u(3,4) clear c
    by (intro good_CALLBACK_DATA)
      (auto simp: state_ok_def after_cb_def intro!: no_mark_nextI dest!: u(2))
  then have "good env x (STRICT_CHECK (ch x \<noteq> CR) x
      (\<lambda>x. CALLBACK_DATA env cb_body (UPDATE_STATE s_chunk_data_done x) Next))"
    using u by (intro good_STRICT_CHECK) auto
  then show ?thesis using c by (simp add: ex_chunk_data_almost_done_def)
qed

lemma good_chunk_data_done:
  assumes "parser_callbacks (settings env)" "body_ok env x" "p_state x = s_chunk_data_done"
  shows "good env x (ex_chunk_data_done env x)"
proof -
  have "\<forall>f. p_state x \<notin> mark_states f" using assms(3) by (simp add: all_data_cb)
  note u = unmarked_state [OF assms(2) this]
  have c: "has_flag F_CHUNKED (par x)"
    using assms by (simp add: body_ok_def exec_ok_def state_ok_def)
  have "good env x (CALLBACK_NOTIFY env cb_chunk_complete
      (UPDATE_STATE s_chunk_size_start (clear_nread x)) Next)"
    unfolding CALLBACK_NOTIFY_def using assms(1) u c
    by (intro good_CALLBACK_NOTIFY)
      (auto simp: state_ok_def after_cb_def intro!: no_mark_nextI)
  then have "good env x (STRICT_CHECK (ch x \<noteq> LF) x (\<lambda>x. CALLBACK_NOTIFY env cb_chunk_complete
      (UPDATE_STATE s_chunk_size_start (clear_nread x)) Next))"
    using u by (intro good_STRICT_CHECK) auto
  then show ?thesis using c by (simp add: ex_chunk_data_done_def)
qed

section \<open>The loop\<close>

lemma good_state:
  assumes "parser_callbacks (settings env)" "length (input env) < 2 ^ 64" "body_ok env x"
  shows "good env x (ex_state env x)"
  using assms
  by (cases "p_state x")
    (simp_all add: ex_state_def good_dead good_start_req_or_res good_res_or_resp_H good_start_res
      good_letter good_version good_plain_lines plain_states good_res_status_code
      good_res_status_start good_res_status good_start_req good_req_method
      good_req_spaces_before_url good_req_schema good_req_target good_header_field_start
      good_header_field good_header_value_discard_ws good_header_value_start
      good_header_value_discard_lws good_header_value good_header_value_lws
      good_headers_almost_done good_headers_done good_message_done good_body_identity
      good_body_identity_eof good_chunk_size_start good_chunk_size good_chunk_size_almost_done
      good_chunk_data good_chunk_data_almost_done good_chunk_data_done)

lemma state_ok_nread:
  "state_ok s p n \<Longrightarrow> s \<noteq> s_chunk_size_start \<or> k = n \<Longrightarrow> state_ok s p k"
  by (auto simp: state_ok_def)

lemma marked_state_ok:
  assumes "mark_ok f x" "marks x f = Some m" "state_ok (p_state x) p n"
  shows "state_ok (p_state x) p k"
proof -
  have "p_state x \<noteq> s_chunk_size_start" using assms(1,2) by (cases f) (auto simp: mark_ok_def)
  with assms(3) show ?thesis by (blast intro: state_ok_nread)
qed

lemma set_marks_le_1:
  assumes "\<forall>f. mark_ok f x"
  shows "set_marks x \<le> 1"
proof -
  have uniq: "f = g" if "marks x f \<noteq> None" "marks x g \<noteq> None" for f g
    using that assms mark_states_disjoint [of "p_state x" f g] by (auto simp: mark_ok_def)
  have "\<exists>g. \<forall>f. f \<noteq> g \<longrightarrow> marks x f = None"
  proof (cases "\<exists>g. marks x g \<noteq> None")
    case True
    then obtain g where "marks x g \<noteq> None" by blast
    with uniq show ?thesis by (intro exI [of _ g]) blast
  qed auto
  then obtain g where "\<And>f. f \<noteq> g \<Longrightarrow> marks x f = None" by blast
  then show ?thesis by (cases g) (simp_all add: set_marks_def)
qed

lemma good_finish:
  assumes cb: "parser_callbacks (settings env)" and ok: "exec_ok env (nread x) x"
    and at_end: "pos x = length (input env)"
  shows "good env x0 (ex_finish env x)"
proof -
  have step: "good env x0 (CALLBACK_DATA_NOADVANCE env f y k)"
    if "exec_ok env (nread y) y" "pos y = length (input env)"
      "\<And>z. exec_ok env (nread z) z \<Longrightarrow> pos z = length (input env) \<Longrightarrow> good env x0 (k z)" for f y k
    unfolding CALLBACK_DATA_NOADVANCE_def
  proof (rule good_CALLBACK_DATA)
    show "good env x0 (k z)" if "after_cb (y\<lparr>marks := (marks y)(f := None)\<rparr>) z" for z
      using that \<open>exec_ok env (nread y) y\<close> \<open>pos y = _\<close>
      by (intro \<open>\<And>z. _ \<Longrightarrow> _ \<Longrightarrow> good env x0 (k z)\<close>)
        (auto simp: exec_ok_def after_cb_def mark_ok_def split: if_splits)
    show "state_ok (p_state y) (par y) (pnread (par y))" if "marks y f = Some m" for m
      by (rule marked_state_ok [where n = "nread y", OF _ that])
        (use \<open>exec_ok env (nread y) y\<close> in \<open>simp_all add: exec_ok_def\<close>)
  qed (use that cb in \<open>auto simp: exec_ok_def mark_ok_def\<close>)
  have ret: "good env x0 (RETURN (length (input env)) z)" if "exec_ok env (nread z) z" for z
    using that by (intro good_RETURN_ok) (auto simp: exec_ok_def)
  have "set_marks x \<le> 1" using ok by (intro set_marks_le_1) (simp add: exec_ok_def)
  moreover have "good env x0 (CALLBACK_DATA_NOADVANCE env cb_header_field x (\<lambda>x.
           CALLBACK_DATA_NOADVANCE env cb_header_value x (\<lambda>x.
           CALLBACK_DATA_NOADVANCE env cb_url x (\<lambda>x.
           CALLBACK_DATA_NOADVANCE env cb_body x (\<lambda>x.
           CALLBACK_DATA_NOADVANCE env cb_status x (RETURN (length (input env))))))))"
    using ok at_end by (intro step ret)
  ultimately show ?thesis by (simp add: ex_finish_def)
qed

text \<open>The outcomes that occur, and what decreases from one to the next.\<close>

fun outcome_ok :: "'c env \<Rightarrow> 'c outcome \<Rightarrow> bool" where
  "outcome_ok env (Next y) \<longleftrightarrow> next_ok env y"
| "outcome_ok env (Again y) \<longleftrightarrow> body_ok env y"
| "outcome_ok env (Error y) \<longleftrightarrow>
     http_errno (par y) \<notin> {HPE_OK, HPE_PAUSED} \<and> pos y \<le> length (input env)"
| "outcome_ok env (Return n y) \<longleftrightarrow> n \<le> length (input env) \<and> parser_ok (par y)"
| "outcome_ok env Undefined \<longleftrightarrow> False"

fun weight :: "'c env \<Rightarrow> 'c outcome \<Rightarrow> nat" where
  "weight env (Next y) = 8 * (length (input env) - Suc (pos y)) + 6"
| "weight env (Again y) = 8 * (length (input env) - pos y) + rank (p_state y)"
| "weight env (Error y) = 1"
| "weight env _ = 0"

lemma rank_range: "1 \<le> rank s" "rank s \<le> 4"
  by (simp_all add: rank_def)

lemma good_outcome:
  assumes "good env x out" "body_ok env x"
  shows "outcome_ok env out \<and> weight env out < weight env (Again x)"
proof -
  have lt: "pos x < length (input env)" using assms(2) by (simp add: body_ok_def)
  show ?thesis
  proof (cases out)
    case (Next y)
    with assms lt show ?thesis by (auto simp: next_ok_def)
  next
    case (Again y)
    have "8 * (length (input env) - pos y) + rank (p_state y)
        < 8 * (length (input env) - pos x) + rank (p_state x)"
      if "pos x < pos y" "pos y < length (input env)"
      using that rank_range [of "p_state x"] rank_range [of "p_state y"] by linarith
    with assms Again show ?thesis by (auto simp: body_ok_def)
  qed (use assms(1) lt rank_range [of "p_state x"] in auto)
qed

lemma loop_head_ok:
  assumes "parser_callbacks (settings env)" "exec_ok env (nread x) x" "pos x \<le> length (input env)"
  shows "outcome_ok env (loop_head env x)
    \<and> weight env (loop_head env x) \<le> 8 * (length (input env) - pos x) + 4"
proof (cases "pos x = length (input env)")
  case True
  have "good env x (ex_finish env x)"
    using good_finish assms(1,2) True by blast
  then have "outcome_ok env (ex_finish env x) \<and> weight env (ex_finish env x) \<le> 4"
    using True by (cases "ex_finish env x") (auto simp: next_ok_def body_ok_def)
  then show ?thesis using True by (simp add: loop_head_def)
next
  case False
  with assms(3) have lt: "pos x < length (input env)" by simp
  let ?c = "input env ! pos x"
  have body: "body_ok env (x\<lparr>ch := ?c, nread := n\<rparr>)"
    if "n = nread x + 1 \<or> n = nread x \<and> \<not> PARSING_HEADER (p_state x)" for n
  proof -
    have "p_state x \<noteq> s_chunk_size_start \<or> n - 1 = nread x"
      using that by (auto simp: PARSING_HEADER_iff)
    then have "state_ok (p_state x) (par x) (n - 1)"
      using assms(2) by (auto simp: exec_ok_def intro: state_ok_nread)
    then show ?thesis
      using assms(2) lt by (simp add: body_ok_def exec_ok_def mark_ok_def)
  qed
  show ?thesis
  proof (cases "PARSING_HEADER (p_state x)")
    case True
    then show ?thesis
      using body [of "nread x + 1"] lt rank_range [of "p_state x"]
      by (auto simp: loop_head_def COUNT_HEADER_SIZE_def fail_def SET_ERRNO_def Let_def)
  next
    case nohead: False
    then show ?thesis
      using body [of "nread x"] lt rank_range [of "p_state x"] by (simp add: loop_head_def Let_def)
  qed
qed


lemma ex_step_ok:
  assumes "parser_callbacks (settings env)" "length (input env) < 2 ^ 64" "outcome_ok env s"
  shows "(\<exists>s'. ex_step env s = Some s' \<and> outcome_ok env s' \<and> weight env s' < weight env s)
    \<or> (\<exists>n y. s = Return n y \<and> ex_step env s = None)"
proof (cases s)
  case (Next y)
  have "exec_ok env (nread y) (y\<lparr>pos := Suc (pos y)\<rparr>)" "pos y < length (input env)"
    using assms(3) Next by (auto simp: next_ok_def exec_ok_def mark_ok_def intro: le_SucI)
  then have "outcome_ok env (loop_head env (y\<lparr>pos := Suc (pos y)\<rparr>))
    \<and> weight env (loop_head env (y\<lparr>pos := Suc (pos y)\<rparr>)) \<le> 8 * (length (input env) - Suc (pos y)) + 4"
    using loop_head_ok [of env "y\<lparr>pos := Suc (pos y)\<rparr>"] assms(1) by simp
  with Next show ?thesis by (auto simp: ex_step_def)
next
  case (Again x)
  then have "body_ok env x" using assms(3) by simp
  from good_outcome [OF good_state [OF assms(1,2) this] this] Again
  show ?thesis by (simp add: ex_step_def)
next
  case (Error x)
  with assms(3) show ?thesis by (auto simp: ex_step_def ex_error_def RETURN_def parser_ok_def Let_def)
next
  case (Return n y)
  then show ?thesis by (simp add: ex_step_def)
next
  case Undefined
  with assms(3) show ?thesis by simp
qed

lemma ex_loop_ok:
  assumes "parser_callbacks (settings env)" "length (input env) < 2 ^ 64" "outcome_ok env s"
  shows "\<exists>n y. ex_loop env s = Some (Return n y) \<and> n \<le> length (input env) \<and> parser_ok (par y)"
  using assms(3)
proof (induction "weight env s" arbitrary: s rule: less_induct)
  case less
  consider s' where "ex_step env s = Some s'" "outcome_ok env s'" "weight env s' < weight env s"
    | n y where "s = Return n y" "ex_step env s = None"
    using ex_step_ok [OF assms(1,2) less.prems] by blast
  then show ?case
  proof cases
    case 1
    with less.hyps [OF 1(3,2)] show ?thesis by (subst ex_loop.simps) simp
  next
    case 2
    with less.prems show ?thesis by (subst ex_loop.simps) simp
  qed
qed

section \<open>The theorems\<close>

lemma initial_marks_ok:
  "p_state x = s \<Longrightarrow> mark_ok f (x\<lparr>marks := initial_marks s\<rparr>)"
  by (cases f) (auto simp: mark_ok_def initial_marks_def Let_def split: if_splits)

lemma eof_ok:
  assumes "parser_callbacks (settings env)" "http_errno (par x) = HPE_OK" "pos x = 0"
    "state_ok (p_state x) (par x) (pnread (par x))" "pstate (par x) = p_state x"
  shows "\<exists>n y. ex_eof env x = Return n y \<and> n \<le> 1 \<and> parser_ok (par y)"
proof (cases "p_state x = s_body_identity_eof")
  case True
  have "parser_ok (par z)" if "after_cb x z" for z
    using that assms True by (auto simp: after_cb_def parser_ok_def state_ok_def)
  then have "good env (x\<lparr>pos := length (input env)\<rparr>)
      (CALLBACK_NOTIFY_NOADVANCE env cb_message_complete x (Return 0))"
    unfolding CALLBACK_NOTIFY_NOADVANCE_def using assms
    by (intro good_CALLBACK_NOTIFY) auto
  moreover have "\<exists>y. CALLBACK_NOTIFY_NOADVANCE env cb_message_complete x (Return 0) = Return 0 y"
    using assms(2,3)
    by (auto simp: CALLBACK_NOTIFY_NOADVANCE_def CALLBACK_NOTIFY_at_def after_callback_def Let_def
        split: option.split prod.split)
  ultimately show ?thesis using True by (auto simp: ex_eof_def)
next
  case False
  with assms show ?thesis by (auto simp: ex_eof_def SET_ERRNO_def parser_ok_def)
qed

text \<open>C2: One call of the parser on any data is safe and returns. Starting from a parser that
  satisfies the invariant (which a freshly initialised parser does), with callbacks that change at
  most the error code of the parser, \<open>http_parser_execute\<close> terminates, fails no assertion,
  reads only inside the data and the matcher strings, hands only spans of the data to the
  callbacks, returns at most the number of bytes it was given (one for the end of the stream at an
  unexpected time), and leaves a parser that satisfies the invariant, so the next call is safe
  too.\<close>

theorem http_parser_execute_safe:
  assumes "parser_callbacks cbs" "parser_ok p" "length data < 2 ^ 64"
  shows "\<exists>n q c'. http_parser_execute limit p cbs data c = Some (Parsed n q c')
    \<and> n \<le> max 1 (length data) \<and> parser_ok q"
proof -
  define env where "env = \<lparr>settings = cbs, input = data, lenient = lenient_http_headers p,
    max_header_size = limit\<rparr>"
  let ?x = "initial_exec p c"
  have env: "settings env = cbs" "input env = data" by (simp_all add: env_def)
  have x: "par ?x = p" "p_state ?x = pstate p" "pos ?x = 0" "nread ?x = pnread p"
    by (simp_all add: initial_exec_def)
  have "\<exists>n y. execute env ?x = Some (Return n y) \<and> n \<le> max 1 (length data) \<and> parser_ok (par y)"
  proof (cases "http_errno p = HPE_OK")
    case False
    with assms(2) x show ?thesis by (simp add: execute_def)
  next
    case True
    with assms(2) have ok: "state_ok (pstate p) p (pnread p)" by (simp add: parser_ok_def)
    show ?thesis
    proof (cases "data = []")
      case empty: True
      have "\<exists>n y. ex_eof env ?x = Return n y \<and> n \<le> 1 \<and> parser_ok (par y)"
        using eof_ok [of env ?x] assms(1) True ok x env(1) by auto
      with True empty x env show ?thesis by (auto simp: execute_def)
    next
      case False
      let ?y = "?x\<lparr>marks := initial_marks (pstate p)\<rparr>"
      have "exec_ok env (nread ?y) ?y"
        using True ok x initial_marks_ok [of ?x "pstate p"] by (auto simp: exec_ok_def)
      then have "outcome_ok env (loop_head env ?y)"
        using loop_head_ok [of env ?y] assms(1) env x by simp
      from ex_loop_ok [OF _ _ this] assms(1,3) env True False x
      show ?thesis by (auto simp: execute_def)
    qed
  qed
  then show ?thesis by (auto simp: http_parser_execute_def env_def)
qed

end
