(* ===== verification/Http_Trace.thy ===== *)
theory Http_Trace
  imports Http_Safety
begin

unbundle bit_operations_syntax

text \<open>
  What the parser computes: callbacks that log what they are called with, the recognition of the
  method token, the numbers in \<open>Content-Length\<close> and in chunk sizes, and the bodies handed to
  \<open>on_body\<close>.
\<close>

section \<open>Logging callbacks\<close>

datatype event = Notify notify_cb | Headers_complete | Data data_cb bytes

definition log_notify :: "notify_cb \<Rightarrow> event list http_cb" where
  "log_notify f p c = (0, p, c @ [Notify f])"

definition log_data :: "data_cb \<Rightarrow> event list http_data_cb" where
  "log_data f p s c = (0, p, c @ [Data f s])"

definition log_callbacks :: "event list http_parser_settings" where
  "log_callbacks =
     \<lparr>on_message_begin = Some (log_notify cb_message_begin),
      on_url = Some (log_data cb_url),
      on_status = Some (log_data cb_status),
      on_header_field = Some (log_data cb_header_field),
      on_header_value = Some (log_data cb_header_value),
      on_headers_complete = Some (\<lambda>p c. (0, p, c @ [Headers_complete])),
      on_body = Some (log_data cb_body),
      on_message_complete = Some (log_notify cb_message_complete),
      on_chunk_header = Some (log_notify cb_chunk_header),
      on_chunk_complete = Some (log_notify cb_chunk_complete)\<rparr>"

lemma log_callbacks_simps [simp]:
  "on_message_begin log_callbacks = Some (log_notify cb_message_begin)"
  "on_url log_callbacks = Some (log_data cb_url)"
  "on_status log_callbacks = Some (log_data cb_status)"
  "on_header_field log_callbacks = Some (log_data cb_header_field)"
  "on_header_value log_callbacks = Some (log_data cb_header_value)"
  "on_headers_complete log_callbacks = Some (\<lambda>p c. (0, p, c @ [Headers_complete]))"
  "on_body log_callbacks = Some (log_data cb_body)"
  "on_message_complete log_callbacks = Some (log_notify cb_message_complete)"
  "on_chunk_header log_callbacks = Some (log_notify cb_chunk_header)"
  "on_chunk_complete log_callbacks = Some (log_notify cb_chunk_complete)"
  by (simp_all add: log_callbacks_def)

lemma log_callbacks_all:
  "on_notify f log_callbacks = Some (log_notify f)" "on_data g log_callbacks = Some (log_data g)"
  by (cases f; simp) (cases g; simp)

interpretation log: parser_callbacks log_callbacks
  by unfold_locales
    (auto simp: leaves_parser_def log_notify_def log_data_def log_callbacks_all)

lemma http_parser_init_ok: "parser_ok (http_parser_init t)"
  by (cases t) (simp_all add: parser_ok_def http_parser_init_def state_ok_def)

theorem http_parser_execute_safe_witness:
  "\<exists>n q c'. http_parser_execute 64 (http_parser_init HTTP_BOTH) log_callbacks ''GET / HTTP'' []
      = Some (Parsed n q c') \<and> n \<le> max 1 (length ''GET / HTTP'') \<and> parser_ok q"
  by (rule http_parser_execute_safe [OF log.parser_callbacks_axioms http_parser_init_ok]) simp

section \<open>Running the loop\<close>

lemma ex_loop_simps [simp]:
  "ex_loop env (Again x) = ex_loop env (ex_state env x)"
  "ex_loop env (Next x) = ex_loop env (loop_head env (x\<lparr>pos := Suc (pos x)\<rparr>))"
  "ex_loop env (Error x) = Some (ex_error x)"
  "ex_loop env (Return n x) = Some (Return n x)"
  "ex_loop env Undefined = Some Undefined"
proof -
  have "ex_loop env (ex_error x) = Some (ex_error x)"
    unfolding ex_error_def RETURN_def Let_def by (subst ex_loop.simps) (simp add: ex_step_def)
  then show "ex_loop env (Error x) = Some (ex_error x)"
    by (subst ex_loop.simps) (simp add: ex_step_def)
qed (subst ex_loop.simps; simp add: ex_step_def)+

text \<open>All definitions of the model, to run it on a concrete input.\<close>

lemmas run_simps =
  SET_ERRNO_def fail_def RETURN_def STRICT_CHECK_def COUNT_HEADER_SIZE_def MARK_def
  after_callback_def CALLBACK_NOTIFY_at_def CALLBACK_NOTIFY_def CALLBACK_NOTIFY_NOADVANCE_def
  CALLBACK_DATA_at_def CALLBACK_DATA_def CALLBACK_DATA_NOADVANCE_def start_state_def
  NEW_MESSAGE_def reset_message_def ex_dead_def ex_start_req_or_res_def ex_res_or_resp_H_def
  ex_start_res_def ex_letter_def ex_http_major_def ex_http_dot_def ex_http_minor_def
  ex_res_http_end_def ex_res_first_status_code_def ex_res_status_code_def ex_res_status_start_def
  ex_res_status_def first_methods_def ex_start_req_def method_jumps_def req_method_step_def
  ex_req_method_def url_step_def ex_req_spaces_before_url_def ex_req_schema_def ex_req_target_def
  ex_req_http_start_def ex_req_http_end_def ex_req_line_almost_done_def PROXY_CONNECTION_def
  CONNECTION_def CONTENT_LENGTH_def TRANSFER_ENCODING_def UPGRADE_def CHUNKED_def KEEP_ALIVE_def
  CLOSE_def ex_header_field_start_def match_step_def match_field_def header_field_step_def
  jump_end_def ex_header_field_def value_start_def ex_header_value_start_def
  ex_header_value_discard_ws_def match_value_def content_length_num_step_def token_start_step_def
  connection_flag_def connection_token_step_def finished_header_def header_value_step_def
  header_value_end_def ex_header_value_def ex_header_almost_done_def ex_header_value_lws_def
  ex_header_value_discard_lws_def upgrade_of_def headers_complete_def ex_headers_almost_done_def
  clear_nread_def new_message_def ex_headers_done_def to_read_def consume_body_def
  ex_body_identity_def ex_body_identity_eof_def ex_message_done_def ex_chunk_size_start_def
  ex_chunk_size_def ex_chunk_parameters_def ex_chunk_size_almost_done_def ex_chunk_data_def
  ex_chunk_data_almost_done_def ex_chunk_data_done_def ex_state_def set_marks_def ex_finish_def
  loop_head_def ex_error_def ex_step_def initial_marks_def ex_eof_def initial_exec_def execute_def
  http_parser_execute_def IS_ALPHA_def LOWER_def byte_def IS_NUM_def IS_HEADER_CHAR_def
  STRICT_TOKEN_eq digit_def CRLF_def IS_URL_CHAR_iff normal_url_char_def
  IS_ALPHANUM_def http_should_keep_alive_def http_message_needs_eof_def has_flag_def set_flag_def
  has_transfer_encoding_def F_TRANSFER_ENCODING_def ULLONG_MAX_def HTTP_MAX_HEADER_SIZE_def
  http_parser_init_def parse_url_char_def log_notify_def log_data_def unhex_eq
  PARSING_HEADER_iff char_of_def method_string_simps flag_defs
  header_field_loop.simps header_value_loop.simps skip_tokens.simps skip_value.simps

section \<open>The method token\<close>

lemma head_step:
  assumes "pos x < length (input env)" "PARSING_HEADER (p_state x)"
    "nread x + 1 \<le> max_header_size env"
  shows "ex_loop env (loop_head env x) =
    ex_loop env (ex_state env (x\<lparr>ch := input env ! pos x, nread := nread x + 1\<rparr>))"
  using assms leD [OF assms(3)] by (simp add: loop_head_def COUNT_HEADER_SIZE_def Let_def)

text \<open>The bytes of the token, one after the other.\<close>

fun method_steps :: "bytes \<Rightarrow> http_parser \<Rightarrow> http_parser option" where
  "method_steps [] p = Some p"
| "method_steps (c # cs) p =
     (case req_method_step c p of
        Some (Inr (s, q)) \<Rightarrow> if s = s_req_method then method_steps cs q else None
      | _ \<Rightarrow> None)"

definition index_ok :: "http_parser \<Rightarrow> bool" where
  "index_ok p \<longleftrightarrow> unat (index p) \<le> length (method_string (meth p))"

lemma method_string_no_space: "CHR '' '' \<notin> set (method_string m)"
  by (cases m; simp add: method_string_simps)

lemma method_steps_sound:
  "method_steps cs p = Some q \<Longrightarrow> index_ok p \<Longrightarrow>
     method_prefix q = method_prefix p @ cs \<and> index_ok q
     \<and> unat (index q) = unat (index p) + length cs \<and> NUL \<notin> set cs"
proof (induction cs arbitrary: p)
  case (Cons c cs)
  have "unat (index p) \<le> length (method_string (meth p))"
    using Cons.prems(2) by (simp add: index_ok_def)
  then show ?case
  proof (cases rule: req_method_step_cases [where c = c])
    case (letter r)
    then have "method_steps cs r = Some q" "index_ok r"
      using Cons.prems by (simp_all add: index_ok_def)
    from Cons.IH [OF this] letter show ?thesis by simp
  qed (use Cons.prems in simp_all)
qed simp

lemma method_space:
  assumes "index_ok q"
  shows "req_method_step (CHR '' '') q =
    (if method_prefix q = method_string (meth q)
     then Some (Inr (s_req_spaces_before_url, q\<lparr>index := index q + 1\<rparr>)) else Some (Inl ()))"
proof -
  have "unat (index q) \<le> length (method_string (meth q))" using assms by (simp add: index_ok_def)
  then show ?thesis
  proof (cases rule: req_method_step_cases [where c = "CHR '' ''"])
    case bad
    have "rd (method_string (meth q) @ [NUL]) (length (method_string (meth q))) = Some NUL"
      by (simp add: rd_def)
    then have "unat (index q) \<noteq> length (method_string (meth q))"
      using bad by (auto simp: req_method_step_def)
    then have "method_prefix q \<noteq> method_string (meth q)"
      using assms unfolding method_prefix_def index_ok_def
      by (metis length_take min.absorb2)
    with bad show ?thesis by simp
  next
    case space
    then show ?thesis by simp
  next
    case (letter r)
    have "CHR '' '' \<in> set (method_prefix r)" using letter(4) by simp
    then have "CHR '' '' \<in> set (method_string (meth r))"
      unfolding method_prefix_def by (rule in_set_takeD)
    then show ?thesis using method_string_no_space by blast
  qed
qed

text \<open>Every method string is accepted.\<close>

lemma method_complete:
  "\<exists>m0 q. map_of first_methods (hd (method_string m)) = Some m0
    \<and> method_steps (tl (method_string m)) (p\<lparr>index := 1, meth := m0\<rparr>) = Some q \<and> meth q = m"
  by (cases m)
    (simp_all add: method_string_simps first_methods_def req_method_step_def method_jumps_def byte_def)

text \<open>The token a fresh request parser has read, with the space after it.\<close>

definition token_parser :: "bytes \<Rightarrow> http_parser \<Rightarrow> http_parser option" where
  "token_parser s p =
     (case map_of first_methods (hd s) of
        None \<Rightarrow> None
      | Some m \<Rightarrow>
          (case method_steps (tl s) (p\<lparr>index := 1, meth := m\<rparr>) of
             None \<Rightarrow> None
           | Some q \<Rightarrow> if method_prefix q = method_string (meth q) then Some q else None))"

lemma first_methods_letter:
  assumes "map_of first_methods c = Some m"
  shows "take 1 (method_string m) = [c]" "IS_ALPHA c" "c \<noteq> CR" "c \<noteq> LF"
  using map_of_SomeD [OF assms]
  by (auto simp: first_methods_def method_string_simps IS_ALPHA_def LOWER_def byte_def char_of_def bit_simps)

lemma first_steps_sound:
  assumes "map_of first_methods c = Some m" "method_steps cs (p\<lparr>index := 1, meth := m\<rparr>) = Some q"
  shows "method_prefix q = c # cs" "index_ok q" "unat (index q) = Suc (length cs)"
proof -
  let ?p = "p\<lparr>index := 1, meth := m\<rparr>"
  have "index_ok ?p" using method_string_facts(2) [of m] by (simp add: index_ok_def)
  moreover have "method_prefix ?p = [c]"
    using first_methods_letter(1) [OF assms(1)] by (simp add: method_prefix_def)
  moreover have "unat (index ?p) = 1" by simp
  ultimately show "method_prefix q = c # cs" "index_ok q" "unat (index q) = Suc (length cs)"
    using method_steps_sound [OF assms(2)] by simp_all
qed

lemma token_parser_sound:
  assumes "token_parser s p = Some q" "s \<noteq> []"
  shows "s = method_string (meth q)"
proof -
  obtain m where m: "map_of first_methods (hd s) = Some m"
    "method_steps (tl s) (p\<lparr>index := 1, meth := m\<rparr>) = Some q" "method_prefix q = method_string (meth q)"
    using assms(1) by (auto simp: token_parser_def split: option.splits if_splits)
  with first_steps_sound(1) [OF m(1,2)] assms(2) show ?thesis by simp
qed

lemma token_parser_complete: "\<exists>q. token_parser (method_string m) p = Some q \<and> meth q = m"
proof -
  obtain m0 q where m: "map_of first_methods (hd (method_string m)) = Some m0"
    "method_steps (tl (method_string m)) (p\<lparr>index := 1, meth := m0\<rparr>) = Some q" "meth q = m"
    using method_complete by blast
  have "method_string m \<noteq> []" using method_string_facts(2) [of m] by auto
  then have "method_prefix q = method_string m" using first_steps_sound(1) [OF m(1,2)] by simp
  with m show ?thesis by (simp add: token_parser_def)
qed

lemma word_inc:
  fixes n limit :: "'a::len word"
  assumes "unat n + k < unat limit"
  shows "unat (n + 1) = Suc (unat n)" "n + 1 \<le> limit"
proof -
  have "unat limit < 2 ^ LENGTH('a)" by (rule unsigned_less)
  with assms have "Suc (unat n) < 2 ^ LENGTH('a)" by linarith
  then show "unat (n + 1) = Suc (unat n)"
    by (simp add: unat_word_ariths)
  with assms show "n + 1 \<le> limit" by (simp add: word_le_nat_alt)
qed

text \<open>The loop over the token.\<close>

lemma method_loop:
  assumes "input env = pre @ cs @ '' ''" "pos x = length pre" "p_state x = s_req_method"
    "index_ok (par x)" "\<And>f. marks x f = None" "http_errno (par x) = HPE_OK"
    "unat (nread x) + length cs < unat (max_header_size env)" "CHR '' '' \<notin> set cs"
  shows "\<exists>n y. ex_loop env (loop_head env x) = Some (Return n y) \<and>
    (case method_steps cs (par x) of
       Some q \<Rightarrow>
         if method_prefix q = method_string (meth q)
         then http_errno (par y) = HPE_OK \<and> pstate (par y) = s_req_spaces_before_url
           \<and> meth (par y) = meth q \<and> n = length (input env)
         else http_errno (par y) = HPE_INVALID_METHOD
     | None \<Rightarrow> http_errno (par y) = HPE_INVALID_METHOD)"
  using assms
proof (induction cs arbitrary: pre x)
  case (Cons c cs)
  note inc = word_inc [OF Cons.prems(7)]
  let ?x = "x\<lparr>ch := c, nread := nread x + 1\<rparr>"
  have "input env ! pos x = c" "pos x < length (input env)"
    using Cons.prems(1,2) by (simp_all add: nth_append)
  then have head: "ex_loop env (loop_head env x) = ex_loop env (ex_req_method ?x)"
    using head_step [of x env] inc(2) Cons.prems(3) by (simp add: PARSING_HEADER_iff ex_state_def)
  have "unat (index (par x)) \<le> length (method_string (meth (par x)))"
    using Cons.prems(4) by (simp add: index_ok_def)
  then show ?case
  proof (cases rule: req_method_step_cases [where c = c])
    case bad
    then show ?thesis
      unfolding head by (simp add: ex_req_method_def fail_def SET_ERRNO_def ex_error_def RETURN_def)
  next
    case space
    with Cons.prems(8) show ?thesis by simp
  next
    case (letter r)
    let ?y = "?x\<lparr>p_state := s_req_method, par := r, pos := Suc (pos x)\<rparr>"
    have "http_errno r = http_errno (par x)" using letter(5) by auto
    then have "\<exists>n y. ex_loop env (loop_head env ?y) = Some (Return n y) \<and>
      (case method_steps cs (par ?y) of
         Some q \<Rightarrow>
           if method_prefix q = method_string (meth q)
           then http_errno (par y) = HPE_OK \<and> pstate (par y) = s_req_spaces_before_url
             \<and> meth (par y) = meth q \<and> n = length (input env)
           else http_errno (par y) = HPE_INVALID_METHOD
       | None \<Rightarrow> http_errno (par y) = HPE_INVALID_METHOD)"
      using Cons.prems letter inc(1) by (intro Cons.IH [of "pre @ [c]"]) (simp_all add: index_ok_def)
    moreover have "ex_loop env (ex_req_method ?x) = ex_loop env (loop_head env ?y)"
      using letter(1) by (simp add: ex_req_method_def)
    ultimately show ?thesis unfolding head using letter(1) by simp
  qed
next
  case Nil
  note inc = word_inc [OF Nil(7)]
  let ?x = "x\<lparr>ch := CHR '' '', nread := nread x + 1\<rparr>"
  have "input env ! pos x = CHR '' ''" "pos x < length (input env)"
    using Nil(1,2) by (simp_all add: nth_append)
  then have head: "ex_loop env (loop_head env x) = ex_loop env (ex_req_method ?x)"
    using head_step [of x env] inc(2) Nil(3) by (simp add: PARSING_HEADER_iff ex_state_def)
  show ?case
  proof (cases "method_prefix (par x) = method_string (meth (par x))")
    case False
    then show ?thesis
      unfolding head using method_space [OF Nil(4)]
      by (simp add: ex_req_method_def fail_def SET_ERRNO_def ex_error_def RETURN_def)
  next
    case True
    let ?y = "?x\<lparr>p_state := s_req_spaces_before_url,
      par := (par x)\<lparr>index := index (par x) + 1\<rparr>, pos := Suc (pos x)\<rparr>"
    have "ex_loop env (ex_req_method ?x) = ex_loop env (loop_head env ?y)"
      using method_space [OF Nil(4)] True by (simp add: ex_req_method_def)
    also have "loop_head env ?y = RETURN (length (input env)) ?y"
      using Nil by (simp add: loop_head_def ex_finish_def set_marks_def CALLBACK_DATA_NOADVANCE_def
          CALLBACK_DATA_at_def)
    finally show ?thesis
      unfolding head using True Nil(6) by (simp add: RETURN_def)
  qed
qed

text \<open>C17: The method token: a fresh request parser that is given a token without spaces and
  a space after it accepts it exactly when the token is the string of one of the 34 methods; it
  then has consumed everything, waits for the request target, and has recorded that method. On any
  other token it stops with \<open>HPE_INVALID_METHOD\<close>. (The parser keeps only a method and an index
  and jumps between methods that share a prefix.)\<close>

theorem http_method_recognised:
  assumes "s \<noteq> []" "CHR '' '' \<notin> set s" "hd s \<noteq> CR" "hd s \<noteq> LF"
    "length s < unat (limit :: 32 word)"
  shows "\<exists>n q c'. http_parser_execute limit (http_parser_init HTTP_REQUEST) log_callbacks
      (s @ '' '') [] = Some (Parsed n q c') \<and>
    (if \<exists>m. s = method_string m
     then http_errno q = HPE_OK \<and> pstate q = s_req_spaces_before_url \<and> s = method_string (meth q)
       \<and> n = length s + 1
     else http_errno q = HPE_INVALID_METHOD)"
proof -
  obtain c cs where s: "s = c # cs" using assms(1) by (cases s) auto
  define p where "p = http_parser_init HTTP_REQUEST"
  define env where "env = \<lparr>settings = log_callbacks, input = s @ '' '',
    lenient = lenient_http_headers p, max_header_size = limit\<rparr>"
  define x where "x = (initial_exec p [] :: event list exec)\<lparr>marks := initial_marks s_start_req\<rparr>"
  let ?x = "x\<lparr>ch := c, nread := nread x + 1\<rparr>"
  have p: "pstate p = s_start_req" "http_errno p = HPE_OK" "pnread p = 0"
    by (simp_all add: p_def http_parser_init_def)
  have marks: "initial_marks s_start_req f = None" for f
    by (cases f) (simp_all add: initial_marks_def)
  have x: "pos x = 0" "p_state x = s_start_req" "nread x = 0" "par x = p"
    using p by (simp_all add: x_def initial_exec_def)
  have one: "unat (0 :: 32 word) + length cs < unat limit" using assms(5) s by simp
  note inc = word_inc [OF one]
  have exec: "execute env (initial_exec p []) = ex_loop env (loop_head env x)"
    using p by (simp add: execute_def env_def s x_def initial_exec_def)
  also have "\<dots> = ex_loop env (ex_start_req env ?x)"
    using head_step [of x env] inc(2) x by (simp add: PARSING_HEADER_iff ex_state_def env_def s)
  finally have run: "execute env (initial_exec p []) = ex_loop env (ex_start_req env ?x)" .
  let ?tok = "token_parser s ((reset_message p)\<lparr>pstate := s_req_method\<rparr>)"
  have "\<exists>n y. execute env (initial_exec p []) = Some (Return n y) \<and>
    (case ?tok of
       Some q \<Rightarrow> http_errno (par y) = HPE_OK \<and> pstate (par y) = s_req_spaces_before_url
           \<and> meth (par y) = meth q \<and> n = length s + 1
     | None \<Rightarrow> http_errno (par y) = HPE_INVALID_METHOD)"
  proof (cases "map_of first_methods c")
    case None
    then show ?thesis
      using assms(3,4) s
      unfolding run
      by (simp add: ex_start_req_def Let_def fail_def SET_ERRNO_def ex_error_def RETURN_def token_parser_def)
  next
    case (Some m)
    let ?p = "(reset_message p)\<lparr>index := 1, meth := m, pstate := s_req_method\<rparr>"
    let ?y = "?x\<lparr>p_state := s_req_method, par := ?p, client := [Notify cb_message_begin], pos := 1\<rparr>"
    have "ex_loop env (ex_start_req env ?x) = ex_loop env (loop_head env ?y)"
      using Some assms(3,4) s p first_methods_letter(2) [OF Some]
      by (simp add: ex_start_req_def Let_def CALLBACK_NOTIFY_def CALLBACK_NOTIFY_at_def
          after_callback_def env_def log_notify_def x_def initial_exec_def)
    with run have run': "execute env (initial_exec p []) = ex_loop env (loop_head env ?y)" by simp
    obtain n y where ny: "ex_loop env (loop_head env ?y) = Some (Return n y)"
      "case method_steps cs ?p of
         Some q \<Rightarrow>
           if method_prefix q = method_string (meth q)
           then http_errno (par y) = HPE_OK \<and> pstate (par y) = s_req_spaces_before_url
             \<and> meth (par y) = meth q \<and> n = length (input env)
           else http_errno (par y) = HPE_INVALID_METHOD
       | None \<Rightarrow> http_errno (par y) = HPE_INVALID_METHOD"
    proof -
      have "\<exists>n y. ex_loop env (loop_head env ?y) = Some (Return n y) \<and>
        (case method_steps cs (par ?y) of
           Some q \<Rightarrow>
             if method_prefix q = method_string (meth q)
             then http_errno (par y) = HPE_OK \<and> pstate (par y) = s_req_spaces_before_url
               \<and> meth (par y) = meth q \<and> n = length (input env)
             else http_errno (par y) = HPE_INVALID_METHOD
         | None \<Rightarrow> http_errno (par y) = HPE_INVALID_METHOD)"
      proof (rule method_loop [where pre = "[c]"])
      show "unat (nread ?y) + length cs < unat (max_header_size env)"
        using assms(5) s x inc(1) by (simp add: env_def)
      show "index_ok (par ?y)"
        using method_string_facts(2) [of m] by (simp add: index_ok_def)
      show "marks ?y f = None" for f using marks by (simp add: x_def)
      qed (use s p assms(2) in \<open>simp_all add: env_def\<close>)
      then show thesis using that by auto
    qed
    have eq: "?p = ((reset_message p)\<lparr>pstate := s_req_method\<rparr>)\<lparr>index := 1, meth := m\<rparr>"
      by (cases "reset_message p") simp
    have tok: "?tok = (case method_steps cs ?p of None \<Rightarrow> None
        | Some q \<Rightarrow> if method_prefix q = method_string (meth q) then Some q else None)"
      unfolding token_parser_def s list.sel Some option.case eq ..
    have "length (input env) = length s + 1" by (simp add: env_def)
    with ny show ?thesis
      unfolding run' tok by (cases "method_steps cs ?p") (simp_all split: if_splits)
  qed
  then obtain n y where ny: "execute env (initial_exec p []) = Some (Return n y)"
    "case ?tok of
       Some q \<Rightarrow> http_errno (par y) = HPE_OK \<and> pstate (par y) = s_req_spaces_before_url
           \<and> meth (par y) = meth q \<and> n = length s + 1
     | None \<Rightarrow> http_errno (par y) = HPE_INVALID_METHOD" by blast
  have "http_parser_execute limit p log_callbacks (s @ '' '') [] = Some (Parsed n (par y) (client y))"
    using ny(1) by (simp add: http_parser_execute_def env_def)
  moreover have "if \<exists>m. s = method_string m
     then http_errno (par y) = HPE_OK \<and> pstate (par y) = s_req_spaces_before_url
       \<and> s = method_string (meth (par y)) \<and> n = length s + 1
     else http_errno (par y) = HPE_INVALID_METHOD"
  proof (cases ?tok)
    case None
    then have "s \<noteq> method_string m" for m
      using token_parser_complete [of m "(reset_message p)\<lparr>pstate := s_req_method\<rparr>"] by auto
    with None ny(2) show ?thesis by simp
  next
    case (Some q)
    with token_parser_sound [OF Some assms(1)] ny(2) show ?thesis by auto
  qed
  ultimately show ?thesis unfolding p_def by blast
qed

theorem http_method_recognised_witness:
  "\<exists>n q c'. http_parser_execute 64 (http_parser_init HTTP_REQUEST) log_callbacks
      (''PUT'' @ '' '') [] = Some (Parsed n q c') \<and> http_errno q = HPE_OK"
proof -
  have "\<exists>m. ''PUT'' = method_string m" by (rule exI [of _ HTTP_PUT]) (simp add: method_string_simps)
  with http_method_recognised [of "''PUT''" 64] show ?thesis by auto
qed

section \<open>Lengths\<close>

text \<open>C16: The accumulation of \<open>Content-Length\<close> never wraps: a further digit either gives
  exactly ten times the old value plus the digit, as integers, or, when the old value is above
  (2^64 - 11) / 10, ends in \<open>HPE_INVALID_CONTENT_LENGTH\<close>. So a length that overflows 64 bits
  is never taken for a smaller one.\<close>

theorem content_length_exact:
  assumes "IS_NUM c"
  shows "header_value_step h_content_length_num c p =
     (if uint (content_length p) \<le> (2 ^ 64 - 11) div 10
      then Some (Inr (h_content_length_num, p\<lparr>content_length := content_length p * 10 + of_nat (digit c)\<rparr>))
      else Some (Inl h_content_length_num))
   \<and> (uint (content_length p) \<le> (2 ^ 64 - 11) div 10 \<longrightarrow>
        uint (content_length p * 10 + of_nat (digit c)) = uint (content_length p) * 10 + int (digit c))"
proof -
  have d: "digit c \<le> 9" "c \<noteq> CHR '' ''"
    using assms by (auto simp: IS_NUM_def digit_def byte_def)
  have lim: "uint ((ULLONG_MAX - 10) div 10) = (2 ^ 64 - 11) div 10"
    by (simp add: ULLONG_MAX_def uint_div)
  then have test: "(ULLONG_MAX - 10) div 10 < content_length p \<longleftrightarrow>
      \<not> uint (content_length p) \<le> (2 ^ 64 - 11) div 10"
    by (simp add: word_less_def not_le)
  have "uint (of_nat (digit c) :: 64 word) = int (digit c)"
    using d by (simp add: unsigned_of_nat take_bit_nat_eq_self)
  then have "uint (content_length p * 10 + of_nat (digit c)) = uint (content_length p) * 10 + int (digit c)"
    if "uint (content_length p) \<le> (2 ^ 64 - 11) div 10"
    using that d by (simp add: uint_word_ariths)
  then show ?thesis
    using assms d test by (simp add: header_value_step_def content_length_num_step_def Let_def)
qed

theorem content_length_exact_witness:
  "header_value_step h_content_length_num (CHR ''7'') (http_parser_init HTTP_REQUEST) =
     Some (Inr (h_content_length_num, (http_parser_init HTTP_REQUEST)\<lparr>content_length := 7\<rparr>))"
  using content_length_exact [of "CHR ''7''" "http_parser_init HTTP_REQUEST"]
  by (simp add: IS_NUM_def byte_def digit_def http_parser_init_def)

text \<open>The chunk size: the first byte is accepted exactly when it is a hexadecimal digit or any
  byte from 0x80 up, which counts as the digit zero (the initialiser of \<open>unhex\<close> leaves the upper
  half of the table zero instead of -1); the size then is the value of that digit. A request can
  thus carry a chunk size that no other implementation accepts.\<close>

theorem chunk_size_first_byte:
  assumes "nread x = 1" "has_flag F_CHUNKED (par x)"
  shows "ex_chunk_size_start x =
     (if IS_HEX (ch x) \<or> 128 \<le> byte (ch x)
      then Next (x\<lparr>p_state := s_chunk_size,
                   par := (par x)\<lparr>content_length :=
                     (if 128 \<le> byte (ch x) then 0 else of_int (unhex ! byte (ch x)))\<rparr>\<rparr>)
      else fail HPE_INVALID_CHUNK_SIZE x)"
  using assms
  by (cases x) (auto simp: ex_chunk_size_start_def Let_def unhex_eq IS_HEX_iff IS_NUM_def)

theorem chunk_size_first_byte_witness:
  "ex_chunk_size_start
     ((initial_exec (set_flag F_CHUNKED (http_parser_init HTTP_REQUEST)) ())\<lparr>nread := 1, ch := CHR 0x80\<rparr>)
   \<noteq> fail HPE_INVALID_CHUNK_SIZE
     ((initial_exec (set_flag F_CHUNKED (http_parser_init HTTP_REQUEST)) ())\<lparr>nread := 1, ch := CHR 0x80\<rparr>)"
  using chunk_size_first_byte
    [of "(initial_exec (set_flag F_CHUNKED (http_parser_init HTTP_REQUEST)) ())\<lparr>nread := 1, ch := CHR 0x80\<rparr>"]
  by (simp add: byte_def fail_def initial_exec_def flag_defs)

end
