(* ===== verification/Http_Url_Fields.thy ===== *)
theory Http_Url_Fields
  imports Http_Url
begin

text \<open>
  What \<open>http_parser_parse_url\<close> promises: for a buffer that the sixteen-bit offsets can
  address it fails no assertion, and every field it reports lies inside the buffer; the number of
  the port is the decimal value of the port field.
\<close>

section \<open>Updates of the fields\<close>

lemma has_field_set [simp]: "has_field f (set_field g u) \<longleftrightarrow> f = g \<or> has_field f u"
proof -
  have "uf_bit g AND uf_bit f \<noteq> 0 \<longleftrightarrow> f = g"
    by (cases f; cases g; simp add: uf_bit_def)
  then show ?thesis by (auto simp: has_field_def set_field_def word_ao_dist or_eq_0_iff)
qed

lemma field_simps_url [simp]:
  "has_field f (set_off g n u) = has_field f u" "has_field f (set_len g k u) = has_field f u"
  "has_field f (inc_len g u) = has_field f u"
  "uf_off (set_field g u) = uf_off u" "uf_len (set_field g u) = uf_len u"
  "uf_off (set_len g k u) = uf_off u" "uf_len (set_off g n u) = uf_len u"
  "uf_off (inc_len g u) = uf_off u"
  "uf_off (set_off g n u) = (uf_off u)(g := of_nat n)" "uf_len (set_len g k u) = (uf_len u)(g := k)"
  "uf_len (inc_len g u) = (uf_len u)(g := uf_len u g + 1)"
  by (simp_all add: has_field_def set_field_def set_off_def set_len_def inc_len_def)

lemma parse_url_char_field:
  "parse_url_char s c = s_dead \<or> url_delimiter (parse_url_char s c)
     \<or> url_field_of (parse_url_char s c) \<noteq> None"
  by (cases s) (simp_all add: parse_url_char_def url_delimiter_def url_field_of_def)

text \<open>All reported fields end at or before \<open>p\<close>.\<close>

definition fields_end :: "nat \<Rightarrow> http_parser_url \<Rightarrow> bool" where
  "fields_end p u \<longleftrightarrow> (\<forall>f. has_field f u \<longrightarrow> unat (uf_off u f) + unat (uf_len u f) \<le> p)"

lemma fields_end_mono: "fields_end p u \<Longrightarrow> p \<le> q \<Longrightarrow> fields_end q u"
  by (auto simp: fields_end_def intro: le_trans)

lemma unat_of_nat_16: "n < 2 ^ 16 \<Longrightarrow> unat (of_nat n :: 16 word) = n"
  by (simp add: unsigned_of_nat take_bit_nat_eq_self)

lemma unat_inc_16: "unat (k :: 16 word) < 2 ^ 16 - 1 \<Longrightarrow> unat (k + 1) = Suc (unat k)"
  by (simp add: unat_word_ariths)

lemma fields_end_start:
  assumes "fields_end p u" "p < 2 ^ 16 - 1"
  shows "fields_end (Suc p) (start_field f p u)"
  using assms by (auto simp: fields_end_def start_field_def unat_of_nat_16 intro: le_SucI)

lemma fields_end_inc:
  assumes "fields_end p u" "p < 2 ^ 16 - 1" "has_field f u"
  shows "fields_end (Suc p) (inc_len f u)"
proof -
  have "unat (uf_off u f) + unat (uf_len u f) \<le> p" using assms(1,3) by (simp add: fields_end_def)
  then have "unat (uf_len u f + 1) = Suc (unat (uf_len u f))"
    using assms(2) by (intro unat_inc_16) simp
  with assms show ?thesis by (auto simp: fields_end_def intro: le_SucI)
qed

lemma url_loop_ok:
  assumes "fields_end p u" "p + length cs < 2 ^ 16" "uf = UF_MAX \<or> has_field uf u"
  shows "\<exists>r. url_loop cs p s uf at u = Some r
    \<and> (\<forall>u' at'. r = Inr (u', at') \<longrightarrow> fields_end (p + length cs) u')"
  using assms
proof (induction cs arbitrary: p s uf at u)
  case (Cons c cs)
  let ?s = "parse_url_char s c"
  have p: "p < 2 ^ 16 - 1" "Suc p + length cs < 2 ^ 16" using Cons.prems(2) by simp_all
  consider "?s = s_dead" | "?s \<noteq> s_dead" "url_delimiter ?s"
    | f where "?s \<noteq> s_dead" "\<not> url_delimiter ?s" "url_field_of ?s = Some f"
    using parse_url_char_field [of s c] by blast
  then show ?case
  proof cases
    case 1
    then show ?thesis by (simp add: Let_def)
  next
    case 2
    then show ?thesis
      using Cons.IH [OF fields_end_mono [OF Cons.prems(1)] p(2) Cons.prems(3), of ?s at]
      by (simp add: Let_def)
  next
    case 3
    show ?thesis
    proof (cases "f = uf")
      case True
      have "has_field uf u"
        using 3(3) True Cons.prems(3) by (auto simp: url_field_of_def split: state.splits)
      then show ?thesis
        using 3 True Cons.IH [OF fields_end_inc [OF Cons.prems(1) p(1)] p(2), of uf uf]
        by (simp add: Let_def)
    next
      case False
      then show ?thesis
        using 3 Cons.IH [OF fields_end_start [OF Cons.prems(1) p(1)] p(2), of f f]
        by (simp add: Let_def start_field_def)
    qed
  qed
qed simp

section \<open>The host\<close>

text \<open>Before the host begins its length is zero, and the port field holds digits only.\<close>

definition before_host :: "http_host_state set" where
  "before_host = {s_http_userinfo_start, s_http_userinfo, s_http_host_start, s_http_host_v6_start}"

definition port_digits :: "bytes \<Rightarrow> http_parser_url \<Rightarrow> bool" where
  "port_digits buf u \<longleftrightarrow>
     (has_field UF_PORT u \<longrightarrow>
        (\<forall>i < unat (uf_len u UF_PORT). IS_NUM (buf ! (unat (uf_off u UF_PORT) + i))))"

definition host_inv :: "bytes \<Rightarrow> nat \<Rightarrow> http_host_state \<Rightarrow> http_parser_url \<Rightarrow> bool" where
  "host_inv buf p s u \<longleftrightarrow>
     (\<forall>f \<in> {UF_HOST, UF_PORT, UF_USERINFO}. has_field f u \<longrightarrow>
        unat (uf_off u f) + unat (uf_len u f) \<le> p)
     \<and> (s \<in> before_host \<longrightarrow> uf_len u UF_HOST = 0)
     \<and> (s = s_http_host_port \<longrightarrow> has_field UF_PORT u
          \<and> unat (uf_off u UF_PORT) + unat (uf_len u UF_PORT) = p)
     \<and> (s = s_http_userinfo \<longrightarrow> has_field UF_USERINFO u)
     \<and> has_field UF_HOST u \<and> port_digits buf u"

lemma host_transitions:
  assumes "http_parse_host_char s c = t" "t \<noteq> s_http_host_dead"
  shows "t = s_http_host \<Longrightarrow> s \<in> before_host \<or> s = s_http_host"
    "t = s_http_host_v6 \<Longrightarrow> s \<in> before_host \<or> s = s_http_host_v6"
    "t = s_http_host_port \<Longrightarrow> IS_NUM c"
    "t \<in> before_host \<Longrightarrow> s \<in> before_host"
  using assms
  by (auto simp: http_parse_host_char_def before_host_def split: if_splits)

lemma unat_off_p: "p < 2 ^ 16 - 1 \<Longrightarrow> unat (of_nat p :: 16 word) = p"
  by (rule unat_of_nat_16) simp

lemma inc_bound:
  fixes o1 l :: "16 word"
  assumes "unat o1 + unat l \<le> p" "p < 2 ^ 16 - 1"
  shows "unat (l + 1) = Suc (unat l)"
  using assms by (intro unat_inc_16) linarith

text \<open>One character extends the host, the port or the user information, or starts it.\<close>

lemma host_inv_HOST:
  assumes inv: "host_inv buf p s u" "p < 2 ^ 16 - 1" and t: "t \<notin> before_host"
    "t \<noteq> s_http_host_port" "t \<noteq> s_http_userinfo"
  shows "host_inv buf (Suc p) t (inc_len UF_HOST u)"
    "s \<in> before_host \<Longrightarrow> host_inv buf (Suc p) t (inc_len UF_HOST (set_off UF_HOST p u))"
proof -
  have b: "unat (uf_off u UF_HOST) + unat (uf_len u UF_HOST) \<le> p"
    using inv by (simp add: host_inv_def)
  show "host_inv buf (Suc p) t (inc_len UF_HOST u)"
    using inv(1) t inc_bound [OF b inv(2)] b by (auto simp: host_inv_def port_digits_def)
  show "host_inv buf (Suc p) t (inc_len UF_HOST (set_off UF_HOST p u))" if "s \<in> before_host"
    using inv(1) t that unat_off_p [OF inv(2)] by (auto simp: host_inv_def port_digits_def)
qed

lemma host_inv_PORT:
  assumes inv: "host_inv buf p s u" "p < 2 ^ 16 - 1" and c: "IS_NUM (buf ! p)"
  shows "s = s_http_host_port \<Longrightarrow> host_inv buf (Suc p) s_http_host_port (inc_len UF_PORT u)"
    "host_inv buf (Suc p) s_http_host_port
       (inc_len UF_PORT (set_field UF_PORT (set_len UF_PORT 0 (set_off UF_PORT p u))))"
proof -
  show "host_inv buf (Suc p) s_http_host_port (inc_len UF_PORT u)" if "s = s_http_host_port"
  proof -
    have b: "unat (uf_off u UF_PORT) + unat (uf_len u UF_PORT) = p" "has_field UF_PORT u"
      using inv that by (simp_all add: host_inv_def)
    then have inc: "unat (uf_len u UF_PORT + 1) = Suc (unat (uf_len u UF_PORT))"
      using inv(2) by (intro inc_bound [of "uf_off u UF_PORT" _ p]) simp_all
    have "IS_NUM (buf ! (unat (uf_off u UF_PORT) + i))" if "i < Suc (unat (uf_len u UF_PORT))" for i
      using that inv(1) b c by (cases "i = unat (uf_len u UF_PORT)") (auto simp: host_inv_def port_digits_def)
    with inv(1) b inc show ?thesis by (auto simp: host_inv_def port_digits_def before_host_def)
  qed
  show "host_inv buf (Suc p) s_http_host_port
       (inc_len UF_PORT (set_field UF_PORT (set_len UF_PORT 0 (set_off UF_PORT p u))))"
    using inv(1) c unat_off_p [OF inv(2)] by (auto simp: host_inv_def port_digits_def before_host_def)
qed

lemma host_inv_USERINFO:
  assumes inv: "host_inv buf p s u" "p < 2 ^ 16 - 1" and s: "s \<in> before_host"
  shows "s = s_http_userinfo \<Longrightarrow> host_inv buf (Suc p) s_http_userinfo (inc_len UF_USERINFO u)"
    "host_inv buf (Suc p) s_http_userinfo
       (inc_len UF_USERINFO (set_field UF_USERINFO (set_len UF_USERINFO 0 (set_off UF_USERINFO p u))))"
proof -
  show "host_inv buf (Suc p) s_http_userinfo (inc_len UF_USERINFO u)" if "s = s_http_userinfo"
  proof -
    have b: "unat (uf_off u UF_USERINFO) + unat (uf_len u UF_USERINFO) \<le> p" "has_field UF_USERINFO u"
      using inv that by (simp_all add: host_inv_def)
    with inv(1) s inc_bound [OF b(1) inv(2)] show ?thesis by (auto simp: host_inv_def port_digits_def)
  qed
  show "host_inv buf (Suc p) s_http_userinfo
       (inc_len UF_USERINFO (set_field UF_USERINFO (set_len UF_USERINFO 0 (set_off UF_USERINFO p u))))"
    using inv(1) s unat_off_p [OF inv(2)] by (auto simp: host_inv_def port_digits_def)
qed

lemma host_inv_skip:
  assumes "host_inv buf p s u" "t \<in> before_host \<Longrightarrow> s \<in> before_host" "t \<noteq> s_http_host_port"
    "t \<noteq> s_http_userinfo"
  shows "host_inv buf (Suc p) t u"
  using assms by (auto simp: host_inv_def intro: le_SucI)

lemma host_step_ok:
  assumes inv: "host_inv buf p s u" "p < 2 ^ 16 - 1" "buf ! p = c"
    and t: "http_parse_host_char s c = t" "t \<noteq> s_http_host_dead"
  shows "host_inv buf (Suc p) t (host_field_step s t p u)"
proof -
  note tr = host_transitions [OF t]
  consider "t = s_http_host" | "t = s_http_host_v6"
    | "t = s_http_host_v6_zone_start \<or> t = s_http_host_v6_zone" | "t = s_http_host_port"
    | "t = s_http_userinfo"
    | "t \<notin> {s_http_host, s_http_host_v6, s_http_host_v6_zone_start, s_http_host_v6_zone,
             s_http_host_port, s_http_userinfo}" by blast
  then show ?thesis
  proof cases
    case 1
    then show ?thesis
      using host_inv_HOST [OF inv(1,2), of t] tr(1) by (auto simp: host_field_step_def before_host_def)
  next
    case 2
    then show ?thesis
      using host_inv_HOST [OF inv(1,2), of t] tr(2) by (auto simp: host_field_step_def before_host_def)
  next
    case 3
    then show ?thesis
      using host_inv_HOST(1) [OF inv(1,2), of t] by (auto simp: host_field_step_def before_host_def)
  next
    case 4
    then show ?thesis
      using host_inv_PORT [OF inv(1,2)] tr(3) inv(3) by (simp add: host_field_step_def)
  next
    case 5
    then show ?thesis
      using host_inv_USERINFO [OF inv(1,2)] tr(4) by (simp add: host_field_step_def before_host_def)
  next
    case 6
    then show ?thesis
      using host_inv_skip [OF inv(1), of t] tr(4) by (auto simp: host_field_step_def)
  qed
qed

lemma host_loop_ok:
  assumes "host_inv buf p s u" "p + length cs < 2 ^ 16"
    "\<And>i. i < length cs \<Longrightarrow> buf ! (p + i) = cs ! i"
    "host_loop cs p s u = (Some t, u')"
  shows "host_inv buf (p + length cs) t u'"
  using assms
proof (induction cs arbitrary: p s u)
  case (Cons c cs)
  have c: "buf ! p = c" using Cons.prems(3) [of 0] by simp
  have cs: "buf ! (Suc p + i) = cs ! i" if "i < length cs" for i
    using Cons.prems(3) [of "Suc i"] that by simp
  have t: "http_parse_host_char s c \<noteq> s_http_host_dead"
    using Cons.prems(4) by (auto simp: Let_def split: if_splits)
  have "host_inv buf (Suc p) (http_parse_host_char s c) (host_field_step s (http_parse_host_char s c) p u)"
    using Cons.prems(1,2) c t by (intro host_step_ok) auto
  from Cons.IH [OF this _ cs] Cons.prems(2,4) t show ?case by (simp add: Let_def)
qed simp

lemma host_field_step_others:
  assumes "f \<notin> {UF_HOST, UF_PORT, UF_USERINFO}"
  shows "has_field f (host_field_step s t p u) = has_field f u"
    "uf_off (host_field_step s t p u) f = uf_off u f"
    "uf_len (host_field_step s t p u) f = uf_len u f"
  using assms by (auto simp: host_field_step_def)

lemma host_loop_others:
  assumes "f \<notin> {UF_HOST, UF_PORT, UF_USERINFO}" "host_loop cs p s u = (r, u')"
  shows "has_field f u' = has_field f u \<and> uf_off u' f = uf_off u f \<and> uf_len u' f = uf_len u f"
  using assms(2)
  by (induction cs arbitrary: p s u)
    (auto simp: host_field_step_others [OF assms(1)] Let_def split: if_splits)

text \<open>The host parser starts from a host field that the URL loop left in the buffer.\<close>

lemma http_parse_host_ok:
  assumes u: "fields_end (length buf) u" "has_field UF_HOST u" "\<not> has_field UF_PORT u"
    "\<not> has_field UF_USERINFO u" and buf: "length buf < 2 ^ 16"
  shows "\<exists>rc u'. http_parse_host buf u found_at = Some (rc, u')
    \<and> (rc = 0 \<longrightarrow> fields_end (length buf) u' \<and> port_digits buf u')"
proof -
  define o1 where "o1 = unat (uf_off u UF_HOST)"
  define n where "n = unat (uf_len u UF_HOST)"
  have fits: "o1 + n \<le> length buf" using u(1,2) by (simp add: fields_end_def o1_def n_def)
  define s where "s = (if found_at then s_http_userinfo_start else s_http_host_start)"
  obtain r u' where r: "host_loop (bslice buf o1 n) o1 s (set_len UF_HOST 0 u) = (r, u')"
    by (cases "host_loop (bslice buf o1 n) o1 s (set_len UF_HOST 0 u)")
  have "host_inv buf o1 s (set_len UF_HOST 0 u)"
    using u by (simp add: host_inv_def port_digits_def s_def o1_def)
  then have inv: "host_inv buf (o1 + n) t u'" if "r = Some t" for t
    using host_loop_ok [of buf o1 s "set_len UF_HOST 0 u" "bslice buf o1 n" t u'] fits buf r that
    by (simp add: nth_bslice min_absorb1)
  have "fields_end (length buf) u'" if "r = Some t" for t
    unfolding fields_end_def
  proof (intro allI impI)
    fix f assume f: "has_field f u'"
    show "unat (uf_off u' f) + unat (uf_len u' f) \<le> length buf"
    proof (cases "f \<in> {UF_HOST, UF_PORT, UF_USERINFO}")
      case True
      then show ?thesis using inv [OF that] f fits unfolding host_inv_def by (blast intro: le_trans)
    next
      case False
      then show ?thesis using host_loop_others [OF False r] f u(1) by (auto simp: fields_end_def)
    qed
  qed
  moreover have "port_digits buf u'" if "r = Some t" for t
    using inv [OF that] by (simp add: host_inv_def)
  ultimately show ?thesis
    using r fits u(2) by (auto simp: http_parse_host_def Let_def o1_def n_def s_def split: option.splits)
qed

section \<open>The port\<close>

definition decimal :: "bytes \<Rightarrow> nat" where
  "decimal cs = foldl (\<lambda>v c. v * 10 + (byte c - 48)) 0 cs"

lemma digit_value_unat: "IS_NUM c \<Longrightarrow> digit_value c = of_nat (byte c - 48)"
  by (auto simp: digit_value_def IS_NUM_def of_nat_diff)

lemma foldl_decimal_mono: "v \<le> foldl (\<lambda>v c. v * 10 + (byte c - 48)) v cs"
proof (induction cs arbitrary: v)
  case (Cons c cs)
  then have "v * 10 + (byte c - 48) \<le> foldl (\<lambda>v c. v * 10 + (byte c - 48)) v (c # cs)" by simp
  then show ?case by (rule le_trans [rotated]) simp
qed simp

lemma port_loop_decimal:
  assumes "\<forall>c \<in> set cs. IS_NUM c" "v \<le> 65535"
  shows "port_loop cs (of_nat v) =
    (let d = foldl (\<lambda>v c. v * 10 + (byte c - 48)) v cs in
     if 65535 < d then None else Some (of_nat d))"
  using assms
proof (induction cs arbitrary: v)
  case Nil
  then show ?case by simp
next
  case (Cons c cs)
  let ?v = "v * 10 + (byte c - 48)"
  have dig: "byte c - 48 < 10" using Cons.prems(1) by (auto simp: IS_NUM_def)
  have "?v < 2 ^ 64" using dig Cons.prems(2) by simp
  then have u: "unat (of_nat ?v :: 64 word) = ?v"
    using take_bit_nat_eq_self [of ?v 64] unfolding unsigned_of_nat by simp
  have step: "of_nat v * 10 + digit_value c = (of_nat ?v :: 64 word)"
    using Cons.prems(1) by (simp add: digit_value_unat)
  have gt: "(65535 :: 64 word) < of_nat ?v \<longleftrightarrow> 65535 < ?v"
    using u by (simp only: word_less_nat_alt) simp
  show ?case
  proof (cases "65535 < ?v")
    case True
    then have "65535 < foldl (\<lambda>v c. v * 10 + (byte c - 48)) ?v cs"
      using foldl_decimal_mono [of ?v cs] by linarith
    then show ?thesis using True step gt by (simp add: Let_def)
  next
    case False
    then show ?thesis using Cons.IH [of ?v] Cons.prems(1) step gt by (simp add: Let_def)
  qed
qed

section \<open>The result\<close>

lemma url_loop_fields:
  assumes "url_loop cs p s uf at u = Some (Inr (u', at'))" "f \<in> {UF_PORT, UF_USERINFO}"
    "\<not> has_field f u"
  shows "\<not> has_field f u'"
  using assms(1,3)
proof (induction cs arbitrary: p s uf at u)
  case (Cons c cs)
  have "\<not> has_field f (start_field g p u)" if "url_field_of t = Some g" for g t
    using that assms(2) Cons.prems(2)
    by (auto simp: start_field_def url_field_of_def split: state.splits)
  with Cons show ?case by (auto simp: Let_def split: if_splits option.splits)
qed simp

lemma url_port_ok:
  assumes "fields_end (length buf) u" "port_digits buf u"
  shows "\<exists>rc u'. url_port buf u = Some (rc, u') \<and> (rc = 0 \<longrightarrow> fields_end (length buf) u'
    \<and> (has_field UF_PORT u' \<longrightarrow> unat (uf_port u')
         = decimal (bslice buf (unat (uf_off u' UF_PORT)) (unat (uf_len u' UF_PORT)))))"
proof (cases "has_field UF_PORT u")
  case True
  define o1 where "o1 = unat (uf_off u UF_PORT)"
  define n where "n = unat (uf_len u UF_PORT)"
  let ?cs = "bslice buf o1 n"
  have fits: "o1 + n \<le> length buf" using assms(1) True by (simp add: fields_end_def o1_def n_def)
  have "IS_NUM c" if "c \<in> set ?cs" for c
    using that assms(2) True fits
    by (auto simp: in_set_conv_nth nth_bslice port_digits_def o1_def n_def)
  then have loop: "port_loop ?cs 0 = (if 65535 < decimal ?cs then None else Some (of_nat (decimal ?cs)))"
    using port_loop_decimal [of ?cs 0] by (simp add: decimal_def Let_def)
  have "unat (ucast (of_nat (decimal ?cs) :: 64 word) :: 16 word) = decimal ?cs"
    if "\<not> 65535 < decimal ?cs"
    using that by (simp add: unsigned_ucast_eq unsigned_of_nat take_bit_nat_eq_self)
  then show ?thesis
    using True fits loop assms(1)
    by (auto simp: url_port_def Let_def o1_def [symmetric] n_def [symmetric] fields_end_def has_field_def)
next
  case False
  then show ?thesis using assms(1) by (auto simp: url_port_def)
qed

text \<open>C15: On a buffer shorter than 65536 bytes \<open>http_parser_parse_url\<close> fails none of its
  assertions and returns; when it returns zero, every field it reports lies inside the buffer and
  the number of the port is the decimal value of the port field.\<close>

theorem http_parser_parse_url_fields:
  assumes "length buf < 2 ^ 16"
  shows "\<exists>rc u'. http_parser_parse_url buf is_connect u = Some (rc, u')
    \<and> (rc = 0 \<longrightarrow>
         (\<forall>f. has_field f u' \<longrightarrow> unat (uf_off u' f) + unat (uf_len u' f) \<le> length buf)
         \<and> (has_field UF_PORT u' \<longrightarrow> unat (uf_port u')
              = decimal (bslice buf (unat (uf_off u' UF_PORT)) (unat (uf_len u' UF_PORT)))))"
proof (cases "buf = []")
  case False
  let ?s = "if is_connect then s_req_server_start else s_req_spaces_before_url"
  let ?u = "u\<lparr>uf_port := 0, field_set := 0\<rparr>"
  have none: "\<not> has_field f ?u" for f by (simp add: has_field_def)
  obtain r where r: "url_loop buf 0 ?s UF_MAX False ?u = Some r"
    "\<And>u' at'. r = Inr (u', at') \<Longrightarrow> fields_end (length buf) u'"
    using url_loop_ok [of 0 ?u buf UF_MAX ?s False] assms none by (auto simp: fields_end_def)
  show ?thesis
  proof (cases r)
    case (Inl u1)
    then show ?thesis using False r(1) by (simp add: http_parser_parse_url_def Let_def)
  next
    case (Inr ua)
    obtain u1 at1 where u1: "r = Inr (u1, at1)" using Inr by (cases ua) simp
    have ends: "fields_end (length buf) u1" by (rule r(2) [OF u1])
    have no: "\<not> has_field UF_PORT u1" "\<not> has_field UF_USERINFO u1"
      using url_loop_fields [OF r(1) [unfolded u1]] none by simp_all
    obtain rc u2 where host: "(if has_field UF_HOST u1 then http_parse_host buf u1 at1 else Some (0, u1))
        = Some (rc, u2)" "rc = 0 \<Longrightarrow> fields_end (length buf) u2 \<and> port_digits buf u2"
      using http_parse_host_ok [OF ends _ no assms, of at1] ends no
      by (cases "has_field UF_HOST u1") (auto simp: port_digits_def)
    then show ?thesis
      using False r(1) u1 url_port_ok [of buf u2]
      by (auto simp: http_parser_parse_url_def Let_def fields_end_def)
  qed
qed (simp add: http_parser_parse_url_def)

lemma http_parser_parse_url_fields_witness:
  "\<exists>rc u'. http_parser_parse_url ''http://a:80/?q'' False http_parser_url_init = Some (rc, u')
    \<and> (rc = 0 \<longrightarrow>
         (\<forall>f. has_field f u' \<longrightarrow> unat (uf_off u' f) + unat (uf_len u' f) \<le> length ''http://a:80/?q'')
         \<and> (has_field UF_PORT u' \<longrightarrow> unat (uf_port u')
              = decimal (bslice ''http://a:80/?q'' (unat (uf_off u' UF_PORT)) (unat (uf_len u' UF_PORT)))))"
  by (rule http_parser_parse_url_fields) simp

end
