(* ===== verification/Sds_Memory.thy ===== *)
theory Sds_Memory
  imports Cweb_Prelude
begin

text \<open>
  The memory layer of the dynamic strings (\<open>sds.h\<close> and the first half of \<open>sds.c\<close>): the
  five header formats, the accessors of the header, and the operations that allocate, grow,
  shrink and fill the buffer behind a string.

  A string is the record of its header and the cells of its allocation behind the header. The
  fields \<open>len\<close> and \<open>alloc\<close> are naturals, and every store into them is reduced to the width
  of the header type; \<open>size_t\<close> sums are reduced modulo \<open>2 ^ 64\<close>. The allocator of the C
  library is the parameter \<open>al\<close>: the sizes for which it has memory. A pointer result is an
  option, \<open>None\<close> the NULL pointer, inside \<open>run\<close>, whose \<open>None\<close> is undefined behaviour.
  Freeing and aliasing are not modelled: a function that gives a new pointer back returns the new
  string, and the old one is not used any more.
\<close>

section \<open>Memory\<close>

definition size_t :: "nat \<Rightarrow> nat" where
  "size_t n = n mod 2 ^ 64"

text \<open>\<open>memcpy\<close> into a buffer at an offset, and the bytes it reads.\<close>

definition blit :: "'a list \<Rightarrow> nat \<Rightarrow> 'a list \<Rightarrow> 'a list run" where
  "blit dst i src =
     (if i + length src \<le> length dst
      then Some (take i dst @ src @ drop (i + length src) dst) else None)"

definition fetch :: "'a list \<Rightarrow> nat \<Rightarrow> nat \<Rightarrow> 'a list run" where
  "fetch xs i n = (if i + n \<le> length xs then Some (bslice xs i n) else None)"

text \<open>Bytes the code compares or prints: all of them have to be initialised.\<close>

definition loads :: "cell list \<Rightarrow> nat \<Rightarrow> nat \<Rightarrow> bytes run" where
  "loads xs i n = do {
     cs \<leftarrow> fetch xs i n;
     if None \<in> set cs then None else Some (map the cs)
   }"

text \<open>Go on with a pointer unless it is NULL.\<close>

definition unless_NULL :: "'a option run \<Rightarrow> ('a \<Rightarrow> 'b option run) \<Rightarrow> 'b option run" where
  "unless_NULL m f = do { p \<leftarrow> m; case p of None \<Rightarrow> Some None | Some x \<Rightarrow> f x }"

section \<open>The header\<close>

definition SDS_MAX_PREALLOC :: nat where "SDS_MAX_PREALLOC = 1024 * 1024"

definition SDS_TYPE_5 :: "8 word" where "SDS_TYPE_5 = 0"
definition SDS_TYPE_8 :: "8 word" where "SDS_TYPE_8 = 1"
definition SDS_TYPE_16 :: "8 word" where "SDS_TYPE_16 = 2"
definition SDS_TYPE_32 :: "8 word" where "SDS_TYPE_32 = 3"
definition SDS_TYPE_64 :: "8 word" where "SDS_TYPE_64 = 4"
definition SDS_TYPE_MASK :: "8 word" where "SDS_TYPE_MASK = 7"
definition SDS_TYPE_BITS :: nat where "SDS_TYPE_BITS = 3"

lemmas sds_types = SDS_TYPE_5_def SDS_TYPE_8_def SDS_TYPE_16_def SDS_TYPE_32_def SDS_TYPE_64_def

record sds =
  hdr_flags :: "8 word"
  hdr_len :: nat
  hdr_alloc :: nat
  sbuf :: "cell list"

definition sds_type :: "sds \<Rightarrow> 8 word" where
  "sds_type s = hdr_flags s AND SDS_TYPE_MASK"

text \<open>The width of the fields \<open>len\<close> and \<open>alloc\<close> in the packed structures, if the type is
  one of those that have them.\<close>

definition hdr_bits :: "8 word \<Rightarrow> nat option" where
  "hdr_bits t =
     (if t = SDS_TYPE_8 then Some 8
      else if t = SDS_TYPE_16 then Some 16
      else if t = SDS_TYPE_32 then Some 32
      else if t = SDS_TYPE_64 then Some 64
      else None)"

definition sdsHdrSize :: "8 word \<Rightarrow> nat" where
  "sdsHdrSize t =
     (let t = t AND SDS_TYPE_MASK in
      if t = SDS_TYPE_5 then 1
      else if t = SDS_TYPE_8 then 3
      else if t = SDS_TYPE_16 then 5
      else if t = SDS_TYPE_32 then 9
      else if t = SDS_TYPE_64 then 17
      else 0)"

definition sdsReqType :: "nat \<Rightarrow> 8 word" where
  "sdsReqType string_size =
     (if string_size < 2 ^ 5 then SDS_TYPE_5
      else if string_size < 2 ^ 8 then SDS_TYPE_8
      else if string_size < 2 ^ 16 then SDS_TYPE_16
      else if string_size < 2 ^ 32 then SDS_TYPE_32
      else SDS_TYPE_64)"

definition SDS_TYPE_5_LEN :: "8 word \<Rightarrow> nat" where
  "SDS_TYPE_5_LEN f = unat (drop_bit SDS_TYPE_BITS f)"

definition sdslen :: "sds \<Rightarrow> nat" where
  "sdslen s =
     (if sds_type s = SDS_TYPE_5 then SDS_TYPE_5_LEN (hdr_flags s)
      else case hdr_bits (sds_type s) of Some b \<Rightarrow> hdr_len s | None \<Rightarrow> 0)"

text \<open>The difference is an \<open>int\<close> for the two small types, and unsigned for the others.\<close>

definition sdsavail :: "sds \<Rightarrow> nat" where
  "sdsavail s =
     (if sds_type s = SDS_TYPE_5 then 0
      else case hdr_bits (sds_type s) of
          Some b \<Rightarrow>
            nat ((int (hdr_alloc s) - int (hdr_len s))
                   mod 2 ^ (if sds_type s = SDS_TYPE_32 then 32 else 64))
        | None \<Rightarrow> 0)"

definition sdssetlen :: "sds \<Rightarrow> nat \<Rightarrow> sds" where
  "sdssetlen s newlen =
     (if sds_type s = SDS_TYPE_5
      then s\<lparr>hdr_flags := SDS_TYPE_5 OR push_bit SDS_TYPE_BITS (of_nat newlen)\<rparr>
      else case hdr_bits (sds_type s) of
          Some b \<Rightarrow> s\<lparr>hdr_len := newlen mod 2 ^ b\<rparr>
        | None \<Rightarrow> s)"

definition sdsinclen :: "sds \<Rightarrow> nat \<Rightarrow> sds" where
  "sdsinclen s inc =
     (if sds_type s = SDS_TYPE_5
      then
        let newlen = (SDS_TYPE_5_LEN (hdr_flags s) + inc) mod 2 ^ 8
        in s\<lparr>hdr_flags := SDS_TYPE_5 OR push_bit SDS_TYPE_BITS (of_nat newlen)\<rparr>
      else case hdr_bits (sds_type s) of
          Some b \<Rightarrow> s\<lparr>hdr_len := (hdr_len s + inc) mod 2 ^ b\<rparr>
        | None \<Rightarrow> s)"

definition sdsalloc :: "sds \<Rightarrow> nat" where
  "sdsalloc s =
     (if sds_type s = SDS_TYPE_5 then SDS_TYPE_5_LEN (hdr_flags s)
      else case hdr_bits (sds_type s) of Some b \<Rightarrow> hdr_alloc s | None \<Rightarrow> 0)"

definition sdssetalloc :: "sds \<Rightarrow> nat \<Rightarrow> sds" where
  "sdssetalloc s newlen =
     (case hdr_bits (sds_type s) of
        Some b \<Rightarrow> s\<lparr>hdr_alloc := newlen mod 2 ^ b\<rparr>
      | None \<Rightarrow> s)"

section \<open>Creation\<close>

text \<open>The argument \<open>init\<close>: NULL, the marker \<open>SDS_NOINIT\<close>, or bytes to copy from.\<close>

datatype sds_init = Init_NULL | SDS_NOINIT | Init bytes

definition new_header :: "8 word \<Rightarrow> nat \<Rightarrow> cell list \<Rightarrow> sds" where
  "new_header t initlen cells =
     (if t = SDS_TYPE_5
      then \<lparr>hdr_flags = t OR push_bit SDS_TYPE_BITS (of_nat initlen), hdr_len = 0, hdr_alloc = 0,
            sbuf = cells\<rparr>
      else case hdr_bits t of
          Some b \<Rightarrow>
            \<lparr>hdr_flags = t, hdr_len = initlen mod 2 ^ b, hdr_alloc = initlen mod 2 ^ b,
             sbuf = cells\<rparr>
        | None \<Rightarrow> \<lparr>hdr_flags = t, hdr_len = 0, hdr_alloc = 0, sbuf = cells\<rparr>)"

text \<open>A block of \<open>size\<close> bytes, with the header in front: the cells behind the header. A block
  too small for its header is overrun at once.\<close>

definition s_malloc :: "(nat \<Rightarrow> bool) \<Rightarrow> nat \<Rightarrow> nat \<Rightarrow> cell list option run" where
  "s_malloc al hdrlen n =
     (let total = size_t (hdrlen + n + 1) in
      if \<not> al total then Some None
      else if total < hdrlen then None
      else Some (Some (replicate (total - hdrlen) None)))"

definition s_realloc :: "(nat \<Rightarrow> bool) \<Rightarrow> cell list \<Rightarrow> nat \<Rightarrow> nat \<Rightarrow> cell list option run" where
  "s_realloc al old hdrlen n =
     unless_NULL (s_malloc al hdrlen n)
       (\<lambda>fresh. Some (Some (take (length fresh) old @ drop (length old) fresh)))"

definition initial_type :: "nat \<Rightarrow> 8 word" where
  "initial_type initlen =
     (let t = sdsReqType initlen in
      if t = SDS_TYPE_5 \<and> initlen = 0 then SDS_TYPE_8 else t)"

text \<open>What happens to the fresh block: the zeroing, the header, the bytes, the terminator.\<close>

definition init_string :: "sds_init \<Rightarrow> nat \<Rightarrow> cell list \<Rightarrow> sds option run" where
  "init_string init initlen cells = do {
     let s = new_header (initial_type initlen) initlen
               (if init = Init_NULL then map (\<lambda>_. Some NUL) cells else cells);
     cells \<leftarrow> (case init of
                Init bs \<Rightarrow>
                  if initlen \<noteq> 0
                  then do { src \<leftarrow> fetch bs 0 initlen; blit (sbuf s) 0 (map Some src) }
                  else Some (sbuf s)
              | _ \<Rightarrow> Some (sbuf s));
     cells \<leftarrow> put cells initlen NUL;
     Some (Some (s\<lparr>sbuf := cells\<rparr>))
   }"

definition sdsnewlen :: "(nat \<Rightarrow> bool) \<Rightarrow> sds_init \<Rightarrow> nat \<Rightarrow> sds option run" where
  "sdsnewlen al init initlen =
     unless_NULL (s_malloc al (sdsHdrSize (initial_type initlen)) initlen)
       (init_string init initlen)"

definition sdsempty :: "(nat \<Rightarrow> bool) \<Rightarrow> sds option run" where
  "sdsempty al = sdsnewlen al (Init '''') 0"

definition sdsnew :: "(nat \<Rightarrow> bool) \<Rightarrow> bytes option \<Rightarrow> sds option run" where
  "sdsnew al init =
     (case init of
        None \<Rightarrow> sdsnewlen al Init_NULL 0
      | Some bs \<Rightarrow> sdsnewlen al (Init (cstr bs)) (length (cstr bs)))"

definition sdsdup :: "(nat \<Rightarrow> bool) \<Rightarrow> sds \<Rightarrow> sds option run" where
  "sdsdup al s = do {
     bs \<leftarrow> loads (sbuf s) 0 (sdslen s);
     sdsnewlen al (Init bs) (sdslen s)
   }"

section \<open>Length and room\<close>

text \<open>\<open>strlen\<close> of the buffer: the first NUL in it, reading initialised cells only.\<close>

fun cell_strlen :: "cell list \<Rightarrow> nat run" where
  "cell_strlen [] = None"
| "cell_strlen (None # cs) = None"
| "cell_strlen (Some c # cs) = (if c = NUL then Some 0 else map_option Suc (cell_strlen cs))"

definition sdsupdatelen :: "sds \<Rightarrow> sds run" where
  "sdsupdatelen s = do { n \<leftarrow> cell_strlen (sbuf s); Some (sdssetlen s n) }"

definition sdsclear :: "sds \<Rightarrow> sds run" where
  "sdsclear s = do {
     let s = sdssetlen s 0;
     cells \<leftarrow> put (sbuf s) 0 NUL;
     Some (s\<lparr>sbuf := cells\<rparr>)
   }"

text \<open>Move the string of length \<open>n\<close> behind a header of another type.\<close>

definition move_string :: "(nat \<Rightarrow> bool) \<Rightarrow> sds \<Rightarrow> 8 word \<Rightarrow> nat \<Rightarrow> nat \<Rightarrow> sds option run" where
  "move_string al s t n newlen =
     unless_NULL (s_malloc al (sdsHdrSize t) newlen) (\<lambda>fresh. do {
       src \<leftarrow> fetch (sbuf s) 0 (n + 1);
       cells \<leftarrow> blit fresh 0 src;
       Some (Some (sdssetlen \<lparr>hdr_flags = t, hdr_len = 0, hdr_alloc = 0, sbuf = cells\<rparr> n))
     })"

definition sdsMakeRoomFor :: "(nat \<Rightarrow> bool) \<Rightarrow> sds \<Rightarrow> nat \<Rightarrow> sds option run" where
  "sdsMakeRoomFor al s addlen =
     (if addlen \<le> sdsavail s then Some (Some s)
      else
        let n = sdslen s;
            newlen = size_t (n + addlen);
            newlen = (if newlen < SDS_MAX_PREALLOC then newlen * 2
                      else size_t (newlen + SDS_MAX_PREALLOC));
            t = sdsReqType newlen;
            t = (if t = SDS_TYPE_5 then SDS_TYPE_8 else t)
        in unless_NULL
             (if sds_type s = t
              then unless_NULL (s_realloc al (sbuf s) (sdsHdrSize t) newlen)
                     (\<lambda>cells. Some (Some (s\<lparr>sbuf := cells\<rparr>)))
              else move_string al s t n newlen)
             (\<lambda>s. Some (Some (sdssetalloc s newlen))))"

definition sdsRemoveFreeSpace :: "(nat \<Rightarrow> bool) \<Rightarrow> sds \<Rightarrow> sds option run" where
  "sdsRemoveFreeSpace al s =
     (let n = sdslen s; t = sdsReqType n in
      if sdsavail s = 0 then Some (Some s)
      else unless_NULL
             (if sds_type s = t \<or> SDS_TYPE_8 < t
              then unless_NULL (s_realloc al (sbuf s) (sdsHdrSize (sds_type s)) n)
                     (\<lambda>cells. Some (Some (s\<lparr>sbuf := cells\<rparr>)))
              else move_string al s t n n)
             (\<lambda>s. Some (Some (sdssetalloc s n))))"

definition sdsAllocSize :: "sds \<Rightarrow> nat" where
  "sdsAllocSize s = size_t (sdsHdrSize (hdr_flags s) + sdsalloc s + 1)"

text \<open>The assertions of \<open>sdsIncrLen\<close>, with the conversions to \<open>unsigned int\<close> of the code.\<close>

definition uint32 :: "int \<Rightarrow> int" where "uint32 i = i mod 2 ^ 32"
definition uint64 :: "int \<Rightarrow> int" where "uint64 i = i mod 2 ^ 64"

definition incr_ok :: "sds \<Rightarrow> int \<Rightarrow> bool" where
  "incr_ok s incr =
     (let len = int (sdslen s); free = int (hdr_alloc s) - int (hdr_len s); t = sds_type s in
      if t = SDS_TYPE_5 then
        0 < incr \<and> len + incr < 32 \<or> incr < 0 \<and> uint32 (- incr) \<le> len
      else if t = SDS_TYPE_8 \<or> t = SDS_TYPE_16 then
        0 \<le> incr \<and> incr \<le> free \<or> incr < 0 \<and> uint32 (- incr) \<le> len
      else if t = SDS_TYPE_32 then
        0 \<le> incr \<and> uint32 incr \<le> uint32 free \<or> incr < 0 \<and> uint32 (- incr) \<le> len
      else if t = SDS_TYPE_64 then
        0 \<le> incr \<and> uint64 incr \<le> uint64 free \<or> incr < 0 \<and> uint64 (- incr) \<le> len
      else True)"

definition sdsIncrLen :: "sds \<Rightarrow> int \<Rightarrow> sds run" where
  "sdsIncrLen s incr =
     (if \<not> incr_ok s incr then None
      else if sds_type s = SDS_TYPE_5 \<and> int (sdslen s) + incr < 0 then None
      else do {
        let s = (if sds_type s = SDS_TYPE_5
                 then s\<lparr>hdr_flags := SDS_TYPE_5
                          OR push_bit SDS_TYPE_BITS (of_int (int (sdslen s) + incr))\<rparr>
                 else case hdr_bits (sds_type s) of
                     Some b \<Rightarrow> s\<lparr>hdr_len := nat ((int (hdr_len s) + incr) mod 2 ^ b)\<rparr>
                   | None \<Rightarrow> s);
        cells \<leftarrow> put (sbuf s) (sdslen s) NUL;
        Some (s\<lparr>sbuf := cells\<rparr>)
      })"

section \<open>Filling the buffer\<close>

definition sdsgrowzero :: "(nat \<Rightarrow> bool) \<Rightarrow> sds \<Rightarrow> nat \<Rightarrow> sds option run" where
  "sdsgrowzero al s n =
     (let curlen = sdslen s in
      if n \<le> curlen then Some (Some s)
      else unless_NULL (sdsMakeRoomFor al s (n - curlen)) (\<lambda>s. do {
             cells \<leftarrow> blit (sbuf s) curlen (replicate (n - curlen + 1) (Some NUL));
             Some (Some (sdssetlen (s\<lparr>sbuf := cells\<rparr>) n))
           }))"

definition sdscatlen :: "(nat \<Rightarrow> bool) \<Rightarrow> sds \<Rightarrow> bytes \<Rightarrow> nat \<Rightarrow> sds option run" where
  "sdscatlen al s t n =
     (let curlen = sdslen s in
      unless_NULL (sdsMakeRoomFor al s n) (\<lambda>s. do {
        src \<leftarrow> fetch t 0 n;
        cells \<leftarrow> blit (sbuf s) curlen (map Some src);
        let s = sdssetlen s (size_t (curlen + n));
        cells \<leftarrow> put cells (curlen + n) NUL;
        Some (Some (s\<lparr>sbuf := cells\<rparr>))
      }))"

definition sdscat :: "(nat \<Rightarrow> bool) \<Rightarrow> sds \<Rightarrow> bytes \<Rightarrow> sds option run" where
  "sdscat al s t = sdscatlen al s (cstr t) (length (cstr t))"

definition sdscatsds :: "(nat \<Rightarrow> bool) \<Rightarrow> sds \<Rightarrow> sds \<Rightarrow> sds option run" where
  "sdscatsds al s t = do {
     bs \<leftarrow> loads (sbuf t) 0 (sdslen t);
     sdscatlen al s bs (sdslen t)
   }"

definition sdscpylen :: "(nat \<Rightarrow> bool) \<Rightarrow> sds \<Rightarrow> bytes \<Rightarrow> nat \<Rightarrow> sds option run" where
  "sdscpylen al s t n =
     unless_NULL (if sdsalloc s < n then sdsMakeRoomFor al s (n - sdslen s) else Some (Some s))
       (\<lambda>s. do {
          src \<leftarrow> fetch t 0 n;
          cells \<leftarrow> blit (sbuf s) 0 (map Some src);
          cells \<leftarrow> put cells n NUL;
          Some (Some (sdssetlen (s\<lparr>sbuf := cells\<rparr>) n))
        })"

definition sdscpy :: "(nat \<Rightarrow> bool) \<Rightarrow> sds \<Rightarrow> bytes \<Rightarrow> sds option run" where
  "sdscpy al s t = sdscpylen al s (cstr t) (length (cstr t))"

end
