(* ===== verification/Sds_Text.thy ===== *)
theory Sds_Text
  imports Sds_Memory
begin

text \<open>
  The second half of \<open>sds.c\<close>: numbers, formatted text, trimming, ranges, comparison,
  splitting and joining, and the quoted form of a string with its parser. The functions of the C
  library that depend on the locale are those of the C locale; the text that \<open>vsnprintf\<close>
  produces for a format and its arguments is a parameter.
\<close>

text \<open>A pointer that the code uses without asking whether it is NULL.\<close>

definition non_null :: "'a option run \<Rightarrow> 'a run" where
  "non_null m = do { p \<leftarrow> m; p }"

definition isspace :: "char \<Rightarrow> bool" where
  "isspace c \<longleftrightarrow> 9 \<le> byte c \<and> byte c \<le> 13 \<or> byte c = 32"

definition isprint :: "char \<Rightarrow> bool" where
  "isprint c \<longleftrightarrow> 32 \<le> byte c \<and> byte c \<le> 126"

definition tolower :: "char \<Rightarrow> char" where
  "tolower c = (if 65 \<le> byte c \<and> byte c \<le> 90 then char_of (byte c + 32) else c)"

definition toupper :: "char \<Rightarrow> char" where
  "toupper c = (if 97 \<le> byte c \<and> byte c \<le> 122 then char_of (byte c - 32) else c)"

section \<open>Numbers\<close>

definition SDS_LLSTR_SIZE :: nat where "SDS_LLSTR_SIZE = 21"

definition digit_char :: "nat \<Rightarrow> char" where "digit_char d = char_of (48 + d)"

text \<open>The \<open>do\<close> loop that stores the digits, the least first.\<close>

function put_digits :: "cell list \<Rightarrow> nat \<Rightarrow> nat \<Rightarrow> (cell list \<times> nat) run" where
  "put_digits s p v = do {
     s \<leftarrow> put s p (digit_char (v mod 10));
     if v div 10 \<noteq> 0 then put_digits s (p + 1) (v div 10) else Some (s, p + 1)
   }"
  by pat_completeness auto
termination by (relation "measure (\<lambda>(s, p, v). v)") auto

declare put_digits.simps [simp del]

text \<open>The loop that swaps the ends.\<close>

function swap_ends :: "cell list \<Rightarrow> nat \<Rightarrow> nat \<Rightarrow> cell list run" where
  "swap_ends s i j =
     (if i < j then do {
        a \<leftarrow> rd s i;
        b \<leftarrow> rd s j;
        swap_ends (s[i := b, j := a]) (i + 1) (j - 1)
      }
      else Some s)"
  by pat_completeness auto
termination by (relation "measure (\<lambda>(s, i, j). j - i)") auto

declare swap_ends.simps [simp del]

text \<open>The negation of the least \<open>long long\<close> overflows.\<close>

definition sdsll2str :: "cell list \<Rightarrow> int \<Rightarrow> (cell list \<times> nat) run" where
  "sdsll2str s value =
     (if value = - (2 ^ 63) then None
      else do {
        (s, p) \<leftarrow> put_digits s 0 (nat (if value < 0 then - value else value));
        (s, p) \<leftarrow> (if value < 0 then do { s \<leftarrow> put s p (CHR ''-''); Some (s, p + 1) }
                    else Some (s, p));
        s \<leftarrow> put s p NUL;
        s \<leftarrow> swap_ends s 0 (p - 1);
        Some (s, p)
      })"

definition sdsull2str :: "cell list \<Rightarrow> nat \<Rightarrow> (cell list \<times> nat) run" where
  "sdsull2str s v = do {
     (s, p) \<leftarrow> put_digits s 0 v;
     s \<leftarrow> put s p NUL;
     s \<leftarrow> swap_ends s 0 (p - 1);
     Some (s, p)
   }"

definition number_text :: "(cell list \<Rightarrow> (cell list \<times> nat) run) \<Rightarrow> bytes run" where
  "number_text conv = do {
     (buf, n) \<leftarrow> conv (replicate SDS_LLSTR_SIZE None);
     loads buf 0 n
   }"

definition sdsfromlonglong :: "(nat \<Rightarrow> bool) \<Rightarrow> int \<Rightarrow> sds option run" where
  "sdsfromlonglong al value = do {
     bs \<leftarrow> number_text (\<lambda>buf. sdsll2str buf value);
     sdsnewlen al (Init bs) (length bs)
   }"

section \<open>Formatted text\<close>

text \<open>\<open>vsnprintf\<close> with room for \<open>n\<close> bytes; \<open>out\<close> is the whole text.\<close>

definition vsnprintf :: "cell list \<Rightarrow> nat \<Rightarrow> bytes \<Rightarrow> cell list run" where
  "vsnprintf buf n out = blit buf 0 (map Some (take (n - 1) out) @ [Some NUL])"

text \<open>The buffer is doubled as long as its last byte but one is overwritten.\<close>

function print_loop :: "(nat \<Rightarrow> bool) \<Rightarrow> bytes \<Rightarrow> nat \<Rightarrow> cell list option run" where
  "print_loop al out buflen =
     (if buflen < 2 then None
      else do {
        buf \<leftarrow> put (replicate buflen None) (buflen - 2) NUL;
        buf \<leftarrow> vsnprintf buf buflen out;
        if buf ! (buflen - 2) \<noteq> Some NUL then
          (if al (buflen * 2) then print_loop al out (buflen * 2) else Some None)
        else Some (Some buf)
      })"
  by pat_completeness auto
termination
proof (relation "measure (\<lambda>(al, out, n). length out + 2 - n)", goal_cases)
  case prems: (2 al out n x y)
  have "n - 2 < length out"
  proof (rule ccontr)
    assume "\<not> n - 2 < length out"
    then have out: "length out \<le> n - 2" "take (n - 1) out = out" "2 \<le> n" using prems(1) by auto
    have x: "x = (replicate n None)[n - 2 := Some NUL]" using prems(2) out(3) by (simp add: put_def)
    have y: "y = map Some out @ Some NUL # drop (length out + 1) x"
      using prems(3) out x by (simp add: vsnprintf_def blit_def split: if_splits)
    have "y ! (n - 2) = Some NUL"
    proof (cases "length out = n - 2")
      case True
      then show ?thesis by (simp add: y nth_append)
    next
      case False
      then have "Suc (n - 3) = n - 2" using out by simp
      with False out show ?thesis by (simp add: y nth_append nth_Cons' x)
    qed
    with prems(4) show False by simp
  qed
  with prems(1) show ?case by simp
qed simp

declare print_loop.simps [simp del]

definition sdscatvprintf :: "(nat \<Rightarrow> bool) \<Rightarrow> sds \<Rightarrow> bytes \<Rightarrow> bytes \<Rightarrow> sds option run" where
  "sdscatvprintf al s fmt out =
     (let buflen = length (cstr fmt) * 2 in
      if 1024 < buflen \<and> \<not> al buflen then Some None
      else unless_NULL (print_loop al out (if 1024 < buflen then buflen else 1024)) (\<lambda>buf. do {
             n \<leftarrow> cell_strlen buf;
             t \<leftarrow> loads buf 0 n;
             sdscat al s t
           }))"

definition sdscatprintf :: "(nat \<Rightarrow> bool) \<Rightarrow> sds \<Rightarrow> bytes \<Rightarrow> bytes \<Rightarrow> sds option run" where
  "sdscatprintf al s fmt out = sdscatvprintf al s fmt out"

text \<open>The arguments of \<open>sdscatfmt\<close>; one of another type than the directive asks for is
  undefined behaviour.\<close>

datatype fmt_arg =
    A_str bytes | A_sds sds | A_int "32 word" | A_longlong "64 word"
  | A_uint "32 word" | A_ulonglong "64 word"

definition fmt_put :: "(nat \<Rightarrow> bool) \<Rightarrow> sds \<Rightarrow> nat \<Rightarrow> bytes \<Rightarrow> (sds \<times> nat) run" where
  "fmt_put al s i bs = do {
     s \<leftarrow> (if sdsavail s < length bs then non_null (sdsMakeRoomFor al s (length bs)) else Some s);
     cells \<leftarrow> blit (sbuf s) i (map Some bs);
     Some (sdsinclen (s\<lparr>sbuf := cells\<rparr>) (length bs), i + length bs)
   }"

definition fmt_char :: "sds \<Rightarrow> nat \<Rightarrow> char \<Rightarrow> (sds \<times> nat) run" where
  "fmt_char s i c = do {
     cells \<leftarrow> put (sbuf s) i c;
     Some (sdsinclen (s\<lparr>sbuf := cells\<rparr>) 1, i + 1)
   }"

text \<open>One directive: the bytes to put, and the arguments that are left.\<close>

definition fmt_arg_text :: "char \<Rightarrow> fmt_arg list \<Rightarrow> (bytes \<times> fmt_arg list) run" where
  "fmt_arg_text next args =
     (case args of
        [] \<Rightarrow> None
      | a # rest \<Rightarrow> do {
          bs \<leftarrow> (case a of
                    A_str str \<Rightarrow> if next = CHR ''s'' then Some (cstr str) else None
                  | A_sds str \<Rightarrow>
                      if next = CHR ''S'' then loads (sbuf str) 0 (sdslen str) else None
                  | A_int w \<Rightarrow>
                      if next = CHR ''i'' then number_text (\<lambda>buf. sdsll2str buf (sint w)) else None
                  | A_longlong w \<Rightarrow>
                      if next = CHR ''I'' then number_text (\<lambda>buf. sdsll2str buf (sint w)) else None
                  | A_uint w \<Rightarrow>
                      if next = CHR ''u'' then number_text (\<lambda>buf. sdsull2str buf (unat w)) else None
                  | A_ulonglong w \<Rightarrow>
                      if next = CHR ''U'' then number_text (\<lambda>buf. sdsull2str buf (unat w)) else None);
          Some (bs, rest)
        })"

function catfmt_loop ::
  "(nat \<Rightarrow> bool) \<Rightarrow> bytes \<Rightarrow> nat \<Rightarrow> fmt_arg list \<Rightarrow> sds \<Rightarrow> nat \<Rightarrow> (sds \<times> nat) run" where
  "catfmt_loop al fmt f args s i =
     (if length fmt \<le> f then None
      else if fmt ! f = NUL then Some (s, i)
      else do {
        s \<leftarrow> (if sdsavail s = 0 then non_null (sdsMakeRoomFor al s 1) else Some s);
        if fmt ! f = CHR ''%'' then do {
          next \<leftarrow> rd fmt (f + 1);
          if next \<in> set ''sSiIuU'' then do {
            (bs, args) \<leftarrow> fmt_arg_text next args;
            (s, i) \<leftarrow> fmt_put al s i bs;
            catfmt_loop al fmt (f + 2) args s i
          }
          else do {
            (s, i) \<leftarrow> fmt_char s i next;
            catfmt_loop al fmt (f + 2) args s i
          }
        }
        else do {
          (s, i) \<leftarrow> fmt_char s i (fmt ! f);
          catfmt_loop al fmt (f + 1) args s i
        }
      })"
  by pat_completeness auto
termination by (relation "measure (\<lambda>(al, fmt, f, args, s, i). length fmt - f)") auto

declare catfmt_loop.simps [simp del]

text \<open>\<open>fmt\<close> is the whole buffer with the format, the terminator and what lies behind it.\<close>

definition sdscatfmt :: "(nat \<Rightarrow> bool) \<Rightarrow> sds \<Rightarrow> bytes \<Rightarrow> fmt_arg list \<Rightarrow> sds run" where
  "sdscatfmt al s fmt args =
     (let initlen = sdslen s in do {
        s \<leftarrow> non_null (sdsMakeRoomFor al s (size_t (initlen + length (cstr fmt) * 2)));
        (s, i) \<leftarrow> catfmt_loop al fmt 0 args s initlen;
        cells \<leftarrow> put (sbuf s) i NUL;
        Some (s\<lparr>sbuf := cells\<rparr>)
      })"

section \<open>Changing a string in place\<close>

text \<open>\<open>strchr\<close> finds the terminator too.\<close>

definition in_cset :: "bytes \<Rightarrow> char \<Rightarrow> bool" where
  "in_cset cset c \<longleftrightarrow> c \<in> set (cstr cset) \<or> c = NUL"

function trim_left :: "bytes \<Rightarrow> bytes \<Rightarrow> nat \<Rightarrow> nat" where
  "trim_left cset t sp =
     (if sp < length t \<and> in_cset cset (t ! sp) then trim_left cset t (sp + 1) else sp)"
  by pat_completeness auto
termination by (relation "measure (\<lambda>(cset, t, sp). length t - sp)") auto

declare trim_left.simps [simp del]

text \<open>\<open>past\<close> is the position after \<open>ep\<close>.\<close>

fun trim_right :: "bytes \<Rightarrow> bytes \<Rightarrow> nat \<Rightarrow> nat \<Rightarrow> nat" where
  "trim_right cset t sp 0 = 0"
| "trim_right cset t sp (Suc past) =
     (if sp < past \<and> in_cset cset (t ! past) then trim_right cset t sp past else Suc past)"

definition sdstrim :: "sds \<Rightarrow> bytes \<Rightarrow> sds run" where
  "sdstrim s cset = do {
     t \<leftarrow> loads (sbuf s) 0 (sdslen s);
     let sp = trim_left cset t 0;
     let past = trim_right cset t sp (length t);
     let n = past - sp;
     cells \<leftarrow> (if sp \<noteq> 0 then do { src \<leftarrow> fetch (sbuf s) sp n; blit (sbuf s) 0 src }
               else Some (sbuf s));
     cells \<leftarrow> put cells n NUL;
     Some (sdssetlen (s\<lparr>sbuf := cells\<rparr>) n)
   }"

text \<open>The sum of a \<open>size_t\<close> and an \<open>ssize_t\<close>, converted back.\<close>

definition ssize_t :: "int \<Rightarrow> int" where
  "ssize_t n = (n + 2 ^ 63) mod 2 ^ 64 - 2 ^ 63"

text \<open>The number of bytes from \<open>start\<close> to \<open>stop\<close>; the subtraction may overflow.\<close>

definition span_length :: "int \<Rightarrow> int \<Rightarrow> int run" where
  "span_length start stop =
     (if stop < start then Some 0
      else if 2 ^ 63 \<le> stop - start + 1 then None
      else Some (stop - start + 1))"

definition sdsrange :: "sds \<Rightarrow> int \<Rightarrow> int \<Rightarrow> sds run" where
  "sdsrange s start stop =
     (let n = int (sdslen s) in
      if n = 0 then Some s
      else do {
        let start = (if start < 0 then max 0 (ssize_t (n + start)) else start);
        let stop = (if stop < 0 then max 0 (ssize_t (n + stop)) else stop);
        newlen \<leftarrow> span_length start stop;
        (start, newlen) \<leftarrow>
          (if newlen \<noteq> 0 then
             if ssize_t n \<le> start then Some (start, 0)
             else if ssize_t n \<le> stop then do {
               m \<leftarrow> span_length start (ssize_t (n - 1));
               Some (start, m)
             }
             else Some (start, newlen)
           else Some (0, newlen));
        cells \<leftarrow>
          (if start \<noteq> 0 \<and> newlen \<noteq> 0
           then do { src \<leftarrow> fetch (sbuf s) (nat start) (nat newlen); blit (sbuf s) 0 src }
           else Some (sbuf s));
        cells \<leftarrow> put cells (nat newlen) NUL;
        Some (sdssetlen (s\<lparr>sbuf := cells\<rparr>) (nat newlen))
      })"

definition map_string :: "(char \<Rightarrow> char) \<Rightarrow> sds \<Rightarrow> sds run" where
  "map_string f s = do {
     t \<leftarrow> loads (sbuf s) 0 (sdslen s);
     cells \<leftarrow> blit (sbuf s) 0 (map (Some \<circ> f) t);
     Some (s\<lparr>sbuf := cells\<rparr>)
   }"

definition sdstolower :: "sds \<Rightarrow> sds run" where "sdstolower s = map_string tolower s"

definition sdstoupper :: "sds \<Rightarrow> sds run" where "sdstoupper s = map_string toupper s"

text \<open>The inner loop of \<open>sdsmapchars\<close>: the first position in \<open>from\<close> counts.\<close>

fun map_char :: "bytes \<Rightarrow> bytes \<Rightarrow> nat \<Rightarrow> char \<Rightarrow> char run" where
  "map_char src dst 0 c = Some c"
| "map_char [] dst (Suc n) c = None"
| "map_char (a # src) dst (Suc n) c =
     (if c = a then rd dst 0 else map_char src (tl dst) n c)"

fun map_chars :: "bytes \<Rightarrow> bytes \<Rightarrow> nat \<Rightarrow> bytes \<Rightarrow> bytes run" where
  "map_chars src dst n [] = Some []"
| "map_chars src dst n (c # cs) = do {
     d \<leftarrow> map_char src dst n c;
     ds \<leftarrow> map_chars src dst n cs;
     Some (d # ds)
   }"

definition sdsmapchars :: "sds \<Rightarrow> bytes \<Rightarrow> bytes \<Rightarrow> nat \<Rightarrow> sds run" where
  "sdsmapchars s src dst setlen = do {
     t \<leftarrow> loads (sbuf s) 0 (sdslen s);
     u \<leftarrow> map_chars src dst setlen t;
     cells \<leftarrow> blit (sbuf s) 0 (map Some u);
     Some (s\<lparr>sbuf := cells\<rparr>)
   }"

section \<open>Comparison\<close>

text \<open>The sign of \<open>memcmp\<close> on strings of one length.\<close>

fun memcmp :: "bytes \<Rightarrow> bytes \<Rightarrow> int" where
  "memcmp (a # as) (b # bs) =
     (if byte a < byte b then - 1 else if byte b < byte a then 1 else memcmp as bs)"
| "memcmp _ _ = 0"

definition sdscmp :: "sds \<Rightarrow> sds \<Rightarrow> int run" where
  "sdscmp s1 s2 =
     (let l1 = sdslen s1; l2 = sdslen s2; minlen = (if l1 < l2 then l1 else l2) in do {
        a \<leftarrow> loads (sbuf s1) 0 minlen;
        b \<leftarrow> loads (sbuf s2) 0 minlen;
        let cmp = memcmp a b;
        Some (if cmp = 0 then (if l2 < l1 then 1 else if l1 < l2 then - 1 else 0) else cmp)
      })"

section \<open>Splitting and joining\<close>

text \<open>The result of a split: the token array or NULL, and what is stored in \<open>count\<close>, if
  anything.\<close>

type_synonym split_result = "sds list option \<times> nat option"

text \<open>Store a token in the array of \<open>slots\<close> pointers; on failure the cleanup.\<close>

definition add_token ::
  "(nat \<Rightarrow> bool) \<Rightarrow> bytes \<Rightarrow> nat \<Rightarrow> nat \<Rightarrow> nat \<Rightarrow> sds list \<Rightarrow> sds list option run" where
  "add_token al s start n slots tokens =
     (if slots \<le> length tokens then None
      else do {
        src \<leftarrow> fetch s start n;
        unless_NULL (sdsnewlen al (Init src) n) (\<lambda>tok. Some (Some (tokens @ [tok])))
      })"

definition split_cleanup :: split_result where "split_cleanup = (None, Some 0)"

function split_loop ::
  "(nat \<Rightarrow> bool) \<Rightarrow> bytes \<Rightarrow> nat \<Rightarrow> bytes \<Rightarrow> nat \<Rightarrow> nat \<Rightarrow> nat \<Rightarrow> sds list \<Rightarrow> nat
     \<Rightarrow> split_result run" where
  "split_loop al s n sep seplen start slots tokens j =
     (if seplen = 0 then None
      else if j + (seplen - 1) < n then
        (let grow = slots < length tokens + 2; slots' = (if grow then slots * 2 else slots) in
         if grow \<and> \<not> al (size_t (8 * slots')) then Some split_cleanup
         else do {
           here \<leftarrow> fetch s j seplen;
           pat \<leftarrow> fetch sep 0 seplen;
           if here = pat then do {
             r \<leftarrow> add_token al s start (j - start) slots' tokens;
             case r of
               None \<Rightarrow> Some split_cleanup
             | Some tokens' \<Rightarrow>
                 split_loop al s n sep seplen (j + seplen) slots' tokens' (j + seplen)
           }
           else split_loop al s n sep seplen start slots' tokens (j + 1)
         })
      else do {
        r \<leftarrow> add_token al s start (n - start) slots tokens;
        case r of
          None \<Rightarrow> Some split_cleanup
        | Some tokens' \<Rightarrow> Some (Some tokens', Some (length tokens'))
      })"
  by pat_completeness auto
termination
  by (relation "measure (\<lambda>(al, s, n, sep, seplen, start, slots, tokens, j). n - j)") auto

declare split_loop.simps [simp del]

definition sdssplitlen :: "(nat \<Rightarrow> bool) \<Rightarrow> bytes \<Rightarrow> int \<Rightarrow> bytes \<Rightarrow> int \<Rightarrow> split_result run" where
  "sdssplitlen al s n sep seplen =
     (if seplen < 1 \<or> n < 0 then Some (None, None)
      else if \<not> al (8 * 5) then Some (None, None)
      else if n = 0 then Some (Some [], Some 0)
      else split_loop al s (nat n) sep (nat seplen) 0 5 [] 0)"

fun join_loop :: "(sds \<Rightarrow> 'a \<Rightarrow> sds option run) \<Rightarrow> (sds \<Rightarrow> sds option run) \<Rightarrow> sds option \<Rightarrow> 'a list
    \<Rightarrow> sds option run" where
  "join_loop cat sep join [] = Some join"
| "join_loop cat sep join (a # as) = do {
     s \<leftarrow> join;
     s' \<leftarrow> cat s a;
     s'' \<leftarrow> (if as \<noteq> [] then do { t \<leftarrow> s'; sep t } else Some s');
     join_loop cat sep s'' as
   }"

definition sdsjoin :: "(nat \<Rightarrow> bool) \<Rightarrow> bytes list \<Rightarrow> bytes \<Rightarrow> sds option run" where
  "sdsjoin al argv sep = do {
     join \<leftarrow> sdsempty al;
     join_loop (sdscat al) (\<lambda>s. sdscat al s sep) join argv
   }"

definition sdsjoinsds :: "(nat \<Rightarrow> bool) \<Rightarrow> sds list \<Rightarrow> bytes \<Rightarrow> nat \<Rightarrow> sds option run" where
  "sdsjoinsds al argv sep seplen = do {
     join \<leftarrow> sdsempty al;
     join_loop (sdscatsds al) (\<lambda>s. sdscatlen al s sep seplen) join argv
   }"

end
