(* ===== verification/Sds_Args.thy ===== *)
theory Sds_Args
  imports Sds_Text
begin

text \<open>
  The quoted form of a string (\<open>sdscatrepr\<close>) and the parser of command lines
  (\<open>sdssplitargs\<close>), which is meant to read it back.
\<close>

abbreviation BACKSLASH :: char where "BACKSLASH \<equiv> CHR 0x5C"
abbreviation DQUOTE :: char where "DQUOTE \<equiv> CHR 0x22"
abbreviation SQUOTE :: char where "SQUOTE \<equiv> CHR 0x27"
abbreviation BEL :: char where "BEL \<equiv> CHR 0x07"
abbreviation BS :: char where "BS \<equiv> CHR 0x08"

section \<open>The quoted form\<close>

text \<open>What \<open>%02x\<close> prints for an \<open>unsigned char\<close>.\<close>

definition hex_char :: "nat \<Rightarrow> char" where
  "hex_char d = (if d < 10 then char_of (48 + d) else char_of (87 + d))"

definition print_02x :: "char \<Rightarrow> bytes" where
  "print_02x c = [hex_char (byte c div 16), hex_char (byte c mod 16)]"

text \<open>The body of the loop. The strings given to \<open>sdscatprintf\<close> are what its format prints.\<close>

definition repr_step :: "(nat \<Rightarrow> bool) \<Rightarrow> sds \<Rightarrow> char \<Rightarrow> sds option run" where
  "repr_step al s c =
     (if c = BACKSLASH \<or> c = DQUOTE then
        sdscatprintf al s [BACKSLASH, CHR ''%'', CHR ''c''] [BACKSLASH, c]
      else if c = LF then sdscatlen al s [BACKSLASH, CHR ''n''] 2
      else if c = CR then sdscatlen al s [BACKSLASH, CHR ''r''] 2
      else if c = HT then sdscatlen al s [BACKSLASH, CHR ''t''] 2
      else if c = BEL then sdscatlen al s [BACKSLASH, CHR ''a''] 2
      else if c = BS then sdscatlen al s [BACKSLASH, CHR ''b''] 2
      else if isprint c then sdscatprintf al s ''%c'' [c]
      else sdscatprintf al s (BACKSLASH # ''x%02x'') ([BACKSLASH, CHR ''x''] @ print_02x c))"

fun repr_loop :: "(nat \<Rightarrow> bool) \<Rightarrow> sds option \<Rightarrow> bytes \<Rightarrow> nat \<Rightarrow> sds option run" where
  "repr_loop al s p 0 = Some s"
| "repr_loop al s [] (Suc n) = None"
| "repr_loop al s (c # p) (Suc n) = do {
     t \<leftarrow> s;
     s' \<leftarrow> repr_step al t c;
     repr_loop al s' p n
   }"

definition sdscatrepr :: "(nat \<Rightarrow> bool) \<Rightarrow> sds \<Rightarrow> bytes \<Rightarrow> nat \<Rightarrow> sds option run" where
  "sdscatrepr al s p n = do {
     s \<leftarrow> sdscatlen al s [DQUOTE] 1;
     s \<leftarrow> repr_loop al s p n;
     t \<leftarrow> s;
     sdscatlen al t [DQUOTE] 1
   }"

section \<open>The parser\<close>

definition is_hex_digit :: "char \<Rightarrow> bool" where
  "is_hex_digit c \<longleftrightarrow>
     48 \<le> byte c \<and> byte c \<le> 57 \<or> 97 \<le> byte c \<and> byte c \<le> 102 \<or> 65 \<le> byte c \<and> byte c \<le> 70"

definition hex_digit_to_int :: "char \<Rightarrow> nat" where
  "hex_digit_to_int c =
     (if 48 \<le> byte c \<and> byte c \<le> 57 then byte c - 48
      else if 97 \<le> byte c \<and> byte c \<le> 102 then byte c - 87
      else if 65 \<le> byte c \<and> byte c \<le> 70 then byte c - 55
      else 0)"

definition escape_char :: "char \<Rightarrow> char" where
  "escape_char c =
     (if c = CHR ''n'' then LF else if c = CHR ''r'' then CR else if c = CHR ''t'' then HT
      else if c = CHR ''b'' then BS else if c = CHR ''a'' then BEL else c)"

text \<open>One turn of the inner loop: the append to the token, if any, the number of bytes consumed
  before the final \<open>if (*p) p++\<close>, and the new \<open>inq\<close>, \<open>insq\<close>, \<open>done\<close>. \<open>Inl\<close> is
  \<open>goto err\<close>. The line is its buffer with the terminator; the tests read it byte by byte, up to
  the first one that fails.\<close>

record arg_turn =
  turn_char :: "char option"
  turn_skip :: nat
  turn_inq :: bool
  turn_insq :: bool
  turn_done :: bool

definition reads_hex :: "bytes \<Rightarrow> nat \<Rightarrow> bool run" where
  "reads_hex line p = do {
     a \<leftarrow> rd line (p + 1);
     if a \<noteq> CHR ''x'' then Some False
     else do {
       b \<leftarrow> rd line (p + 2);
       if \<not> is_hex_digit b then Some False
       else do { c \<leftarrow> rd line (p + 3); Some (is_hex_digit c) }
     }
   }"

text \<open>A closing quote must be followed by a space or the end.\<close>

definition close_quote :: "bytes \<Rightarrow> nat \<Rightarrow> arg_turn \<Rightarrow> (unit + arg_turn) run" where
  "close_quote line p t = do {
     a \<leftarrow> rd line (p + 1);
     Some (if a \<noteq> NUL \<and> \<not> isspace a then Inl () else Inr (t\<lparr>turn_done := True\<rparr>))
   }"

definition turn_in_quotes :: "bytes \<Rightarrow> nat \<Rightarrow> (unit + arg_turn) run" where
  "turn_in_quotes line p = do {
     c \<leftarrow> rd line p;
     let t = \<lparr>turn_char = None, turn_skip = 0, turn_inq = True, turn_insq = False, turn_done = False\<rparr>;
     hex \<leftarrow> (if c = BACKSLASH then reads_hex line p else Some False);
     if hex then
       Some (Inr (t\<lparr>turn_char := Some (char_of (hex_digit_to_int (line ! (p + 2)) * 16
                                              + hex_digit_to_int (line ! (p + 3)))),
                    turn_skip := 3\<rparr>))
     else do {
       a \<leftarrow> (if c = BACKSLASH then rd line (p + 1) else Some NUL);
       if a \<noteq> NUL then Some (Inr (t\<lparr>turn_char := Some (escape_char a), turn_skip := 1\<rparr>))
       else if c = DQUOTE then close_quote line p t
       else if c = NUL then Some (Inl ())
       else Some (Inr (t\<lparr>turn_char := Some c\<rparr>))
     }
   }"

definition turn_in_single_quotes :: "bytes \<Rightarrow> nat \<Rightarrow> (unit + arg_turn) run" where
  "turn_in_single_quotes line p = do {
     c \<leftarrow> rd line p;
     let t = \<lparr>turn_char = None, turn_skip = 0, turn_inq = False, turn_insq = True, turn_done = False\<rparr>;
     a \<leftarrow> (if c = BACKSLASH then rd line (p + 1) else Some NUL);
     if a = SQUOTE then Some (Inr (t\<lparr>turn_char := Some SQUOTE, turn_skip := 1\<rparr>))
     else if c = SQUOTE then close_quote line p t
     else if c = NUL then Some (Inl ())
     else Some (Inr (t\<lparr>turn_char := Some c\<rparr>))
   }"

definition turn_plain :: "bytes \<Rightarrow> nat \<Rightarrow> (unit + arg_turn) run" where
  "turn_plain line p = do {
     c \<leftarrow> rd line p;
     let t = \<lparr>turn_char = None, turn_skip = 0, turn_inq = False, turn_insq = False, turn_done = False\<rparr>;
     Some (Inr (if c \<in> {CHR '' '', LF, CR, HT, NUL} then t\<lparr>turn_done := True\<rparr>
                else if c = DQUOTE then t\<lparr>turn_inq := True\<rparr>
                else if c = SQUOTE then t\<lparr>turn_insq := True\<rparr>
                else t\<lparr>turn_char := Some c\<rparr>))
   }"

lemma turn_advances:
  assumes "turn_in_quotes line p = Some (Inr t) \<or> turn_in_single_quotes line p = Some (Inr t)
      \<or> turn_plain line p = Some (Inr t)"
    "\<not> turn_done t" "rd line (p + turn_skip t) = Some c"
  shows "c \<noteq> NUL"
  using assms
  by (auto simp: turn_in_quotes_def turn_in_single_quotes_def turn_plain_def close_quote_def
      reads_hex_def is_hex_digit_def rd_def byte_def Let_def eval_nat_numeral
      split: if_splits Option.bind_splits)

text \<open>The loop \<open>while(!done)\<close>; the token is a pointer that may be NULL.\<close>

function arg_loop ::
  "(nat \<Rightarrow> bool) \<Rightarrow> bytes \<Rightarrow> nat \<Rightarrow> bool \<Rightarrow> bool \<Rightarrow> sds option \<Rightarrow> (unit + sds option \<times> nat) run" where
  "arg_loop al line p inq insq current = do {
     r \<leftarrow> (if inq then turn_in_quotes line p
           else if insq then turn_in_single_quotes line p
           else turn_plain line p);
     case r of
       Inl _ \<Rightarrow> Some (Inl ())
     | Inr t \<Rightarrow> do {
         current \<leftarrow> (case turn_char t of
                       None \<Rightarrow> Some current
                     | Some c \<Rightarrow> do { s \<leftarrow> current; sdscatlen al s [c] 1 });
         let p = p + turn_skip t;
         here \<leftarrow> rd line p;
         let q = (if here \<noteq> NUL then p + 1 else p);
         if turn_done t then Some (Inr (current, q))
         else arg_loop al line q (turn_inq t) (turn_insq t) current
       }
   }"
  by pat_completeness auto
termination
proof (relation "measure (\<lambda>(al, line, p, inq, insq, current). length line - p)", goal_cases)
  case prems: (2 al line p inq insq current r t cur' p' here q)
  have "here \<noteq> NUL"
    using turn_advances [of line p t here] prems by (auto split: if_splits)
  moreover have "p + turn_skip t < length line" using prems by (simp add: rd_def split: if_splits)
  ultimately show ?case using prems by simp
qed simp

declare arg_loop.simps [simp del]

function skip_blanks :: "bytes \<Rightarrow> nat \<Rightarrow> nat run" where
  "skip_blanks line p = do {
     c \<leftarrow> rd line p;
     if c \<noteq> NUL \<and> isspace c then skip_blanks line (p + 1) else Some p
   }"
  by pat_completeness auto
termination
  by (relation "measure (\<lambda>(line, p). length line - p)") (auto simp: rd_def split: if_splits)

declare skip_blanks.simps [simp del]

text \<open>The outer loop, with the tokens so far, which \<open>realloc\<close> makes room for one by one; every
  token takes at least one byte. The code does not ask whether \<open>realloc\<close> failed.\<close>

fun args_loop ::
  "nat \<Rightarrow> (nat \<Rightarrow> bool) \<Rightarrow> bytes \<Rightarrow> nat \<Rightarrow> sds option list \<Rightarrow> (unit + sds option list) run" where
  "args_loop 0 al line p vector = None"
| "args_loop (Suc fuel) al line p vector = do {
     p \<leftarrow> skip_blanks line p;
     c \<leftarrow> rd line p;
     if c = NUL then Some (if vector = [] \<and> \<not> al 8 then Inl () else Inr vector)
     else do {
       current \<leftarrow> sdsempty al;
       r \<leftarrow> arg_loop al line p False False current;
       case r of
         Inl _ \<Rightarrow> Some (Inl ())
       | Inr (current, p) \<Rightarrow>
           if al (8 * (length vector + 1)) then args_loop fuel al line p (vector @ [current])
           else None
     }
   }"

text \<open>The result: the tokens, or NULL; \<open>argc\<close> is their number, zero on an error.\<close>

definition sdssplitargs :: "(nat \<Rightarrow> bool) \<Rightarrow> bytes \<Rightarrow> sds option list option run" where
  "sdssplitargs al line = do {
     r \<leftarrow> args_loop (length line + 1) al line 0 [];
     Some (case r of Inl _ \<Rightarrow> None | Inr vector \<Rightarrow> Some vector)
   }"

end
