(* ===== verification/Sds_Refine.thy ===== *)
theory Sds_Refine
  imports Sds_Memory
begin

text \<open>
  The contract of the dynamic strings. \<open>sds_rep s t\<close> says that \<open>s\<close> is a well-formed string
  with the contents \<open>t\<close>: a header of a known type whose fields fit their width, a length at most
  the capacity, a buffer with room for the terminator, and in the buffer \<open>t\<close> followed by a NUL.
  Every operation of the memory layer is shown to refine its counterpart on byte strings, with the
  only other result NULL, and that only when the allocator refuses.
\<close>

section \<open>Well-formed strings\<close>

definition hdr_ok :: "sds \<Rightarrow> bool" where
  "hdr_ok s \<longleftrightarrow>
     sds_type s = SDS_TYPE_5
     \<or> (\<exists>b. hdr_bits (sds_type s) = Some b \<and> hdr_len s \<le> hdr_alloc s \<and> hdr_alloc s < 2 ^ b)"

definition sds_cells :: "sds \<Rightarrow> bytes \<Rightarrow> cell \<Rightarrow> bool" where
  "sds_cells s t c \<longleftrightarrow>
     hdr_ok s \<and> sdslen s = length t \<and> sdsalloc s < length (sbuf s)
     \<and> take (length t + 1) (sbuf s) = map Some t @ [c]"

abbreviation sds_rep :: "sds \<Rightarrow> bytes \<Rightarrow> bool" where
  "sds_rep s t \<equiv> sds_cells s t (Some NUL)"

lemmas sds_rep_def = sds_cells_def

text \<open>The largest sum of lengths for which no \<open>size_t\<close> computation wraps.\<close>

definition sds_limit :: nat where "sds_limit = 2 ^ 63"

section \<open>Memory lemmas\<close>

lemma size_t_id [simp]: "n < 2 ^ 64 \<Longrightarrow> size_t n = n"
  by (simp add: size_t_def)

lemma blit_Some [simp]:
  "i + length src \<le> length dst \<Longrightarrow>
     blit dst i src = Some (take i dst @ src @ drop (i + length src) dst)"
  by (simp add: blit_def)

lemma fetch_Some [simp]: "i + n \<le> length xs \<Longrightarrow> fetch xs i n = Some (bslice xs i n)"
  by (simp add: fetch_def)

lemma unless_NULL_simps [simp]:
  "unless_NULL (Some None) f = Some None"
  "unless_NULL (Some (Some x)) f = f x"
  "unless_NULL None f = None"
  by (simp_all add: unless_NULL_def)

lemma put_Some [simp]: "i < length buf \<Longrightarrow> put buf i c = Some (buf[i := Some c])"
  by (simp add: put_def)

lemma loads_Some:
  assumes "i + n \<le> length xs" "bslice xs i n = map Some bs"
  shows "loads xs i n = Some bs"
  using assms by (auto simp: loads_def comp_def)

section \<open>The header\<close>

lemma type_masks [simp]:
  "SDS_TYPE_5 AND SDS_TYPE_MASK = SDS_TYPE_5" "SDS_TYPE_8 AND SDS_TYPE_MASK = SDS_TYPE_8"
  "SDS_TYPE_16 AND SDS_TYPE_MASK = SDS_TYPE_16" "SDS_TYPE_32 AND SDS_TYPE_MASK = SDS_TYPE_32"
  "SDS_TYPE_64 AND SDS_TYPE_MASK = SDS_TYPE_64"
  by (simp_all add: sds_types SDS_TYPE_MASK_def)

lemma types_distinct [simp]:
  "SDS_TYPE_8 \<noteq> SDS_TYPE_5" "SDS_TYPE_16 \<noteq> SDS_TYPE_5" "SDS_TYPE_32 \<noteq> SDS_TYPE_5"
  "SDS_TYPE_64 \<noteq> SDS_TYPE_5" "SDS_TYPE_8 \<noteq> SDS_TYPE_32" "SDS_TYPE_16 \<noteq> SDS_TYPE_32"
  "SDS_TYPE_64 \<noteq> SDS_TYPE_32"
  by (simp_all add: sds_types)

lemma hdr_bits_simps [simp]:
  "hdr_bits SDS_TYPE_5 = None" "hdr_bits SDS_TYPE_8 = Some 8" "hdr_bits SDS_TYPE_16 = Some 16"
  "hdr_bits SDS_TYPE_32 = Some 32" "hdr_bits SDS_TYPE_64 = Some 64"
  by (simp_all add: hdr_bits_def sds_types)

lemma hdr_bits_cases:
  assumes "hdr_bits t = Some b"
  obtains "t = SDS_TYPE_8" "b = 8" | "t = SDS_TYPE_16" "b = 16"
    | "t = SDS_TYPE_32" "b = 32" | "t = SDS_TYPE_64" "b = 64"
  using assms by (auto simp: hdr_bits_def split: if_splits)

lemma hdr_bits_not_5: "hdr_bits t = Some b \<Longrightarrow> t \<noteq> SDS_TYPE_5"
  by auto

lemma hdr_bits_le: "hdr_bits t = Some b \<Longrightarrow> b \<le> 64"
  by (auto elim!: hdr_bits_cases)

lemma type5_len: "n < 32 \<Longrightarrow> SDS_TYPE_5_LEN (SDS_TYPE_5 OR push_bit SDS_TYPE_BITS (of_nat n)) = n"
proof -
  assume n: "n < 32"
  then have u: "unat (of_nat n :: 8 word) = n" by (simp add: unsigned_of_nat take_bit_nat_eq_self)
  have "unat (push_bit 3 (of_nat n :: 8 word)) = n * 8"
    using n u by (simp add: push_bit_eq_mult unat_word_ariths)
  then show ?thesis
    by (simp add: SDS_TYPE_5_LEN_def SDS_TYPE_BITS_def SDS_TYPE_5_def drop_bit_eq_div unat_div)
qed

lemma type5_type: "(SDS_TYPE_5 OR push_bit SDS_TYPE_BITS w) AND SDS_TYPE_MASK = SDS_TYPE_5"
proof -
  have "push_bit 3 w AND mask 3 = (0 :: 8 word)" by (simp add: take_bit_push_bit flip: take_bit_eq_mask)
  then show ?thesis by (simp add: SDS_TYPE_5_def SDS_TYPE_MASK_def SDS_TYPE_BITS_def mask_eq_exp_minus_1)
qed

lemma type5_len_less: "SDS_TYPE_5_LEN f < 32"
proof -
  have "unat f < 2 ^ 8" using unsigned_less [of f] by simp
  then show ?thesis by (simp add: SDS_TYPE_5_LEN_def SDS_TYPE_BITS_def drop_bit_eq_div unat_div)
qed

lemma ReqType_small: "n < 2 ^ 5 \<Longrightarrow> sdsReqType n = SDS_TYPE_5"
  by (simp add: sdsReqType_def)

lemma ReqType_wide:
  assumes "\<not> n < 2 ^ 5" "n < 2 ^ 64"
  shows "\<exists>b. hdr_bits (sdsReqType n) = Some b \<and> n < 2 ^ b"
proof (cases "n < 2 ^ 32")
  case True
  then show ?thesis using assms(1) by (cases "n < 2 ^ 16") (auto simp: sdsReqType_def)
next
  case False
  then have "\<not> n < 2 ^ 16" "\<not> n < 2 ^ 8" "\<not> n < 2 ^ 5" by simp_all
  with False assms(2) show ?thesis by (simp add: sdsReqType_def)
qed

lemma HdrSize_le: "sdsHdrSize t \<le> 17"
  by (simp add: sdsHdrSize_def Let_def)

text \<open>The accessors of a well-formed header.\<close>

lemma hdr_ok_cases [consumes 1, case_names small wide]:
  assumes "hdr_ok s"
  obtains "sds_type s = SDS_TYPE_5" "sdslen s = SDS_TYPE_5_LEN (hdr_flags s)"
      "sdsalloc s = sdslen s" "sdsavail s = 0" "sdslen s < 32"
    | b where "hdr_bits (sds_type s) = Some b" "sds_type s \<noteq> SDS_TYPE_5" "sdslen s = hdr_len s"
      "sdsalloc s = hdr_alloc s" "sdsavail s = hdr_alloc s - hdr_len s"
      "hdr_len s \<le> hdr_alloc s" "hdr_alloc s < 2 ^ b"
proof (cases "sds_type s = SDS_TYPE_5")
  case True
  then show thesis
    by (intro that(1)) (simp_all add: sdslen_def sdsalloc_def sdsavail_def type5_len_less)
next
  case False
  then obtain b where b: "hdr_bits (sds_type s) = Some b" "hdr_len s \<le> hdr_alloc s" "hdr_alloc s < 2 ^ b"
    using assms by (auto simp: hdr_ok_def)
  let ?k = "if sds_type s = SDS_TYPE_32 then 32 else 64 :: nat"
  have "b \<le> ?k"
    using b(1) by (auto elim!: hdr_bits_cases)
  then have "(2::nat) ^ b \<le> 2 ^ ?k" by (intro power_increasing) simp_all
  then have "hdr_alloc s - hdr_len s < 2 ^ ?k" using b(3) by linarith
  then have "int (hdr_alloc s - hdr_len s) < 2 ^ ?k" by (metis of_nat_less_iff of_nat_numeral of_nat_power)
  then have "sdsavail s = hdr_alloc s - hdr_len s"
    using b False by (simp add: sdsavail_def of_nat_diff)
  with False b show thesis by (intro that(2)) (auto simp: sdslen_def sdsalloc_def)
qed

lemma avail_eq: "hdr_ok s \<Longrightarrow> sdsavail s = sdsalloc s - sdslen s"
  by (cases rule: hdr_ok_cases) auto

lemma len_le_alloc: "hdr_ok s \<Longrightarrow> sdslen s \<le> sdsalloc s"
  by (cases rule: hdr_ok_cases) auto

lemma sds_type_simps [simp]:
  "sds_type (s\<lparr>sbuf := b\<rparr>) = sds_type s" "sds_type (s\<lparr>hdr_len := n\<rparr>) = sds_type s"
  "sds_type (s\<lparr>hdr_alloc := n\<rparr>) = sds_type s"
  by (simp_all add: sds_type_def)

lemma sbuf_simps [simp]:
  "sdslen (s\<lparr>sbuf := b\<rparr>) = sdslen s" "sdsalloc (s\<lparr>sbuf := b\<rparr>) = sdsalloc s"
  "sdsavail (s\<lparr>sbuf := b\<rparr>) = sdsavail s" "hdr_ok (s\<lparr>sbuf := b\<rparr>) = hdr_ok s"
  "sbuf (sdssetlen s n) = sbuf s" "sbuf (sdssetalloc s n) = sbuf s"
  "(sdssetlen (s\<lparr>sbuf := b\<rparr>) n) = (sdssetlen s n)\<lparr>sbuf := b\<rparr>"
  "(sdssetalloc (s\<lparr>sbuf := b\<rparr>) n) = (sdssetalloc s n)\<lparr>sbuf := b\<rparr>"
  by (simp_all add: sdslen_def sdsalloc_def sdsavail_def hdr_ok_def sdssetlen_def sdssetalloc_def
      split: option.split)

text \<open>Setting a length within the capacity; for type 5 the capacity is the length.\<close>

lemma setlen_ok:
  assumes "hdr_ok s" "n \<le> sdsalloc s"
  shows "hdr_ok (sdssetlen s n)" "sdslen (sdssetlen s n) = n" "sdsalloc (sdssetlen s n) \<le> sdsalloc s"
    "sds_type (sdssetlen s n) = sds_type s"
proof -
  have "hdr_ok (sdssetlen s n) \<and> sdslen (sdssetlen s n) = n
      \<and> sdsalloc (sdssetlen s n) \<le> sdsalloc s \<and> sds_type (sdssetlen s n) = sds_type s"
    using assms(1)
  proof (cases rule: hdr_ok_cases)
  case small
  then have "n < 32" using assms(2) by simp
  with small assms(2) show "hdr_ok (sdssetlen s n) \<and> sdslen (sdssetlen s n) = n
      \<and> sdsalloc (sdssetlen s n) \<le> sdsalloc s \<and> sds_type (sdssetlen s n) = sds_type s"
    by (simp add: hdr_ok_def sdslen_def sdsalloc_def sdssetlen_def sds_type_def type5_type type5_len)
next
  case (wide b)
  then show "hdr_ok (sdssetlen s n) \<and> sdslen (sdssetlen s n) = n
      \<and> sdsalloc (sdssetlen s n) \<le> sdsalloc s \<and> sds_type (sdssetlen s n) = sds_type s"
    using assms(2) by (simp add: hdr_ok_def sdslen_def sdsalloc_def sdssetlen_def)
  qed
  then show "hdr_ok (sdssetlen s n)" "sdslen (sdssetlen s n) = n"
    "sdsalloc (sdssetlen s n) \<le> sdsalloc s" "sds_type (sdssetlen s n) = sds_type s" by simp_all
qed

section \<open>Representations\<close>

lemma sds_repD:
  assumes "sds_cells s t c"
  shows "hdr_ok s" "sdslen s = length t" "sdsalloc s < length (sbuf s)" "length t \<le> sdsalloc s"
    "length t < length (sbuf s)" "take (length t) (sbuf s) = map Some t" "sbuf s ! length t = c"
    "bslice (sbuf s) 0 (length t + 1) = map Some t @ [c]"
    "bslice (sbuf s) 0 (length t) = map Some t"
proof -
  show ok: "hdr_ok s" and n: "sdslen s = length t" and a: "sdsalloc s < length (sbuf s)"
    using assms by (simp_all add: sds_rep_def)
  show le: "length t \<le> sdsalloc s" using len_le_alloc [OF ok] n by simp
  then show lt: "length t < length (sbuf s)" using a by simp
  have tk: "take (length t + 1) (sbuf s) = map Some t @ [c]" using assms by (simp add: sds_rep_def)
  then have "take (length t) (sbuf s) @ [sbuf s ! length t] = map Some t @ [c]"
    using lt by (simp add: take_Suc_conv_app_nth)
  then show "take (length t) (sbuf s) = map Some t" "sbuf s ! length t = c" by simp_all
  then show "bslice (sbuf s) 0 (length t) = map Some t" by (simp add: bslice_def)
  show "bslice (sbuf s) 0 (length t + 1) = map Some t @ [c]" using tk by (simp add: bslice_def)
qed

lemma sds_rep_loads: "sds_rep s t \<Longrightarrow> loads (sbuf s) 0 (length t) = Some t"
  by (intro loads_Some) (use sds_repD [of s t] in \<open>simp_all add: less_imp_le\<close>)

lemma sds_rep_loads_prefix:
  assumes "sds_rep s t" "n \<le> length t"
  shows "loads (sbuf s) 0 n = Some (take n t)"
proof (rule loads_Some)
  have "take n (take (length t) (sbuf s)) = map Some (take n t)"
    using sds_repD(6) [OF assms(1)] by (simp add: take_map)
  with assms(2) show "bslice (sbuf s) 0 n = map Some (take n t)"
    by (simp add: bslice_def min_absorb1)
qed (use sds_repD(5) [OF assms(1)] assms(2) in simp)

lemma sds_rep_unique: "sds_rep s t \<Longrightarrow> sds_rep s u \<Longrightarrow> t = u"
  by (metis sds_rep_loads sds_repD(2) option.inject)

text \<open>Write new contents of a length that fits, then set it.\<close>

lemma sds_rep_setlen:
  assumes "hdr_ok s" "length t \<le> sdsalloc s" "sdsalloc s < length b"
    "take (length t + 1) b = map Some t @ [Some NUL]"
  shows "sds_rep ((sdssetlen s (length t))\<lparr>sbuf := b\<rparr>) t"
  using setlen_ok [OF assms(1,2)] assms(3,4) by (auto simp: sds_rep_def)

lemma setlen_rep:
  assumes "hdr_ok s" "length t \<le> sdsalloc s" "sdsalloc s < length (sbuf s)"
    "take (length t + 1) (sbuf s) = map Some t @ [Some NUL]"
  shows "sds_rep (sdssetlen s (length t)) t"
  using setlen_ok [OF assms(1,2)] assms(3,4) by (auto simp: sds_rep_def)

section \<open>The operations\<close>

text \<open>A call returns an object with property \<open>P\<close>, or NULL because the allocator refused.\<close>

definition returns :: "(nat \<Rightarrow> bool) \<Rightarrow> ('a \<Rightarrow> bool) \<Rightarrow> 'a option run \<Rightarrow> bool" where
  "returns al P r \<longleftrightarrow>
     (case r of None \<Rightarrow> False | Some None \<Rightarrow> \<exists>n. \<not> al n | Some (Some x) \<Rightarrow> P x)"

lemma returns_simps [simp]:
  "\<not> returns al P None" "returns al P (Some (Some x)) = P x"
  "returns al P (Some None) = (\<exists>n. \<not> al n)"
  by (simp_all add: returns_def)

lemma returns_bind:
  assumes "returns al P m" "\<And>x. P x \<Longrightarrow> returns al Q (f x)"
  shows "returns al Q (unless_NULL m f)"
proof (cases m)
  case None
  with assms(1) show ?thesis by simp
next
  case (Some p)
  with assms show ?thesis by (cases p) simp_all
qed

lemma returns_mono: "returns al P r \<Longrightarrow> (\<And>x. P x \<Longrightarrow> Q x) \<Longrightarrow> returns al Q r"
  by (auto simp: returns_def split: option.splits)

lemma returns_total:
  assumes "returns al P r" "\<And>n. al n"
  obtains x where "r = Some (Some x)" "P x"
  using assms by (auto simp: returns_def split: option.splits)

lemma malloc_returns:
  assumes "h \<le> 17" "n < 2 ^ 63 + 2 ^ 21"
  shows "returns al (\<lambda>cells. cells = replicate (n + 1) None) (s_malloc al h n)"
proof -
  have "h + n + 1 < 2 ^ 64" using assms by simp
  then show ?thesis by (auto simp: s_malloc_def Let_def)
qed

lemma realloc_returns:
  assumes "h \<le> 17" "n < 2 ^ 63 + 2 ^ 21"
  shows "returns al (\<lambda>cells. cells = take (n + 1) old @ replicate (n + 1 - length old) None)
    (s_realloc al old h n)"
  unfolding s_realloc_def
  by (rule returns_bind [OF malloc_returns [OF assms]]) (simp del: replicate.simps)

lemma put_at_length: "put (xs @ y # ys) (length xs) c = Some (xs @ Some c # ys)"
  by simp

lemma new_header_ok:
  assumes "t = SDS_TYPE_5 \<and> n < 32 \<or> (\<exists>b. hdr_bits t = Some b \<and> n < 2 ^ b)"
  shows "hdr_ok (new_header t n cells)" "sdslen (new_header t n cells) = n"
    "sdsalloc (new_header t n cells) = n" "sbuf (new_header t n cells) = cells"
proof -
  consider "t = SDS_TYPE_5" "n < 32" | b where "hdr_bits t = Some b" "n < 2 ^ b" "t \<noteq> SDS_TYPE_5"
    using assms hdr_bits_not_5 by blast
  then have "hdr_ok (new_header t n cells) \<and> sdslen (new_header t n cells) = n
      \<and> sdsalloc (new_header t n cells) = n \<and> sbuf (new_header t n cells) = cells"
  proof cases
    case 1
    then show ?thesis
      by (simp add: new_header_def hdr_ok_def sds_type_def sdslen_def sdsalloc_def type5_type type5_len)
  next
    case 2
    then have "t AND SDS_TYPE_MASK = t" by (auto elim!: hdr_bits_cases)
    with 2 show ?thesis
      by (simp add: new_header_def hdr_ok_def sds_type_def sdslen_def sdsalloc_def)
  qed
  then show "hdr_ok (new_header t n cells)" "sdslen (new_header t n cells) = n"
    "sdsalloc (new_header t n cells) = n" "sbuf (new_header t n cells) = cells" by simp_all
qed

text \<open>Which contents \<open>sdsnewlen\<close> gives; \<open>None\<close> stands for uninitialised bytes.\<close>

lemma initial_type_fits:
  assumes "n < 2 ^ 64"
  shows "initial_type n = SDS_TYPE_5 \<and> n < 32 \<or> (\<exists>b. hdr_bits (initial_type n) = Some b \<and> n < 2 ^ b)"
proof (cases "n < 2 ^ 5")
  case True
  then show ?thesis by (simp add: initial_type_def ReqType_small)
next
  case False
  with ReqType_wide [OF False assms] show ?thesis by (auto simp: initial_type_def)
qed

lemma sdsnewlen_returns:
  assumes n: "n < sds_limit"
    and init: "init = Init bs \<and> n \<le> length bs \<and> t = take n bs \<or> init = Init_NULL \<and> t = replicate n NUL"
  shows "returns al (\<lambda>s. sds_rep s t \<and> sdsalloc s = n) (sdsnewlen al init n)"
  unfolding sdsnewlen_def
proof (rule returns_bind [OF malloc_returns])
  fix cells :: "cell list" assume "cells = replicate (n + 1) None"
  then have cells: "cells = replicate n None @ [None]" by (simp add: replicate_append_same)
  have "n < 2 ^ 64" using n by (simp add: sds_limit_def)
  note hdr = new_header_ok [OF initial_type_fits [OF this]]
  show "returns al (\<lambda>s. sds_rep s t \<and> sdsalloc s = n) (init_string init n cells)"
    using init
  proof
    assume "init = Init bs \<and> n \<le> length bs \<and> t = take n bs"
    then show ?thesis
      using hdr
      by (cases "n = 0") (simp_all add: init_string_def Let_def cells sds_rep_def bslice_def
          list_update_append take_map)
  next
    assume "init = Init_NULL \<and> t = replicate n NUL"
    then show ?thesis
      using hdr
      by (simp add: init_string_def Let_def cells sds_rep_def list_update_append)
  qed
qed (use n HdrSize_le in \<open>simp_all add: sds_limit_def\<close>)

lemma move_string_returns:
  assumes s: "sds_cells s t c" and room: "length t \<le> n" "n < 2 ^ 63 + 2 ^ 21"
    and ty: "ty = SDS_TYPE_5 \<and> n < 32 \<or> (\<exists>b. hdr_bits ty = Some b \<and> n < 2 ^ b)"
  shows "returns al (\<lambda>s'. sdslen s' = length t \<and> length (sbuf s') = n + 1
      \<and> take (length t + 1) (sbuf s') = map Some t @ [c] \<and> sds_type s' = ty
      \<and> (ty = SDS_TYPE_5 \<longrightarrow> sdsalloc s' = length t) \<and> (ty \<noteq> SDS_TYPE_5 \<longrightarrow> hdr_len s' = length t))
    (move_string al s ty (length t) n)"
  unfolding move_string_def
proof (rule returns_bind [OF malloc_returns])
  fix fresh :: "cell list" assume fresh: "fresh = replicate (n + 1) None"
  let ?h = "\<lparr>hdr_flags = ty, hdr_len = 0, hdr_alloc = 0,
    sbuf = map Some t @ c # replicate (n - length t) None\<rparr>"
  have mask: "ty AND SDS_TYPE_MASK = ty" using ty by (auto elim!: hdr_bits_cases)
  have "sdslen (sdssetlen ?h (length t)) = length t \<and> sds_type (sdssetlen ?h (length t)) = ty
    \<and> (ty = SDS_TYPE_5 \<longrightarrow> sdsalloc (sdssetlen ?h (length t)) = length t)
    \<and> (ty \<noteq> SDS_TYPE_5 \<longrightarrow> hdr_len (sdssetlen ?h (length t)) = length t)"
  proof (cases "ty = SDS_TYPE_5")
    case True
    then show ?thesis
      using ty room mask
      by (simp add: sdssetlen_def sds_type_def sdslen_def sdsalloc_def type5_type type5_len)
  next
    case False
    then show ?thesis using ty room mask by (auto simp: sdssetlen_def sds_type_def sdslen_def)
  qed
  then show "returns al (\<lambda>s'. sdslen s' = length t \<and> length (sbuf s') = n + 1
      \<and> take (length t + 1) (sbuf s') = map Some t @ [c] \<and> sds_type s' = ty
      \<and> (ty = SDS_TYPE_5 \<longrightarrow> sdsalloc s' = length t) \<and> (ty \<noteq> SDS_TYPE_5 \<longrightarrow> hdr_len s' = length t))
    (do {
       src \<leftarrow> fetch (sbuf s) 0 (length t + 1);
       cells \<leftarrow> blit fresh 0 src;
       Some (Some (sdssetlen \<lparr>hdr_flags = ty, hdr_len = 0, hdr_alloc = 0, sbuf = cells\<rparr> (length t)))
     })"
    using sds_repD [OF s] room by (simp add: fresh)
qed (use room HdrSize_le in \<open>simp_all\<close>)

lemma setalloc_rep:
  assumes "hdr_bits (sds_type s) = Some b" "n < 2 ^ b" "hdr_len s = length t" "length t \<le> n"
    "length (sbuf s) = n + 1" "take (length t + 1) (sbuf s) = map Some t @ [c]"
  shows "sds_cells (sdssetalloc s n) t c" "sdsavail (sdssetalloc s n) = n - length t"
proof -
  have "sds_type s \<noteq> SDS_TYPE_5" using assms(1) by auto
  with assms show rep: "sds_cells (sdssetalloc s n) t c"
    by (simp add: sds_rep_def hdr_ok_def sdssetalloc_def sdslen_def sdsalloc_def)
  show "sdsavail (sdssetalloc s n) = n - length t"
    using avail_eq [OF sds_repD(1) [OF rep]] sds_repD(2) [OF rep] assms(1,2) \<open>sds_type s \<noteq> SDS_TYPE_5\<close>
    by (simp add: sdssetalloc_def sdsalloc_def)
qed

lemma resized:
  assumes "sds_cells s t c" "length t \<le> n" "h \<le> 17" "n < 2 ^ 63 + 2 ^ 21"
  shows "returns al (\<lambda>cells. length cells = n + 1 \<and> take (length t + 1) cells = map Some t @ [c])
    (s_realloc al (sbuf s) h n)"
proof (rule returns_mono [OF realloc_returns [OF assms(3,4)]])
  fix cells assume cells: "cells = take (n + 1) (sbuf s) @ replicate (n + 1 - length (sbuf s)) None"
  have "take (length t + 1) cells = take (length t + 1) (sbuf s)"
    using sds_repD(5) [OF assms(1)] assms(2) by (simp add: cells)
  then show "length cells = n + 1 \<and> take (length t + 1) cells = map Some t @ [c]"
    using assms(1) by (auto simp: cells sds_rep_def)
qed

lemma sdsMakeRoomFor_returns:
  assumes s: "sds_cells s t c" and k: "length t + k < sds_limit"
  shows "returns al (\<lambda>s'. sds_cells s' t c \<and> k \<le> sdsavail s') (sdsMakeRoomFor al s k)"
proof (cases "k \<le> sdsavail s")
  case True
  with s show ?thesis by (simp add: sdsMakeRoomFor_def)
next
  case False
  define m where "m = length t + k"
  define n where "n = (if m < SDS_MAX_PREALLOC then m * 2 else m + SDS_MAX_PREALLOC)"
  define ty where "ty = (if sdsReqType n = SDS_TYPE_5 then SDS_TYPE_8 else sdsReqType n)"
  have m: "m < 2 ^ 63" using k by (simp add: m_def sds_limit_def)
  then have n: "n < 2 ^ 63 + 2 ^ 21" "m \<le> n" by (simp_all add: n_def SDS_MAX_PREALLOC_def)
  then have n64: "n < 2 ^ 64" by simp
  have sz: "size_t m = m" "size_t (m + SDS_MAX_PREALLOC) = m + SDS_MAX_PREALLOC"
    using m by (simp_all add: SDS_MAX_PREALLOC_def)
  have "\<exists>b. hdr_bits ty = Some b \<and> n < 2 ^ b"
  proof (cases "n < 2 ^ 5")
    case True
    then show ?thesis by (simp add: ty_def ReqType_small)
  next
    case False
    with ReqType_wide [OF False n64] show ?thesis by (auto simp: ty_def)
  qed
  then obtain b where b: "hdr_bits ty = Some b" "n < 2 ^ b" by blast
  have tn: "length t \<le> n" using n(2) by (simp add: m_def)
  have len: "sdslen s = length t" using s by (rule sds_repD)
  have eq: "sdsMakeRoomFor al s k =
    unless_NULL
      (if sds_type s = ty
       then unless_NULL (s_realloc al (sbuf s) (sdsHdrSize ty) n) (\<lambda>cells. Some (Some (s\<lparr>sbuf := cells\<rparr>)))
       else move_string al s ty (length t) n)
      (\<lambda>s. Some (Some (sdssetalloc s n)))"
    using False sz by (simp add: sdsMakeRoomFor_def Let_def len m_def n_def ty_def)
  let ?P = "\<lambda>s'. sds_type s' = ty \<and> hdr_len s' = length t \<and> length (sbuf s') = n + 1
    \<and> take (length t + 1) (sbuf s') = map Some t @ [c]"
  have "returns al ?P
      (if sds_type s = ty
       then unless_NULL (s_realloc al (sbuf s) (sdsHdrSize ty) n) (\<lambda>cells. Some (Some (s\<lparr>sbuf := cells\<rparr>)))
       else move_string al s ty (length t) n)"
  proof (cases "sds_type s = ty")
    case True
    have "hdr_len s = length t"
      using hdr_bits_not_5 [OF b(1)] True b(1) len by (simp add: sdslen_def)
    then have "returns al ?P (unless_NULL (s_realloc al (sbuf s) (sdsHdrSize ty) n)
        (\<lambda>cells. Some (Some (s\<lparr>sbuf := cells\<rparr>))))"
      using True by (intro returns_bind [OF resized [OF s tn HdrSize_le n(1)]]) simp
    with True show ?thesis by simp
  next
    case False
    have "ty \<noteq> SDS_TYPE_5" using b(1) by auto
    with move_string_returns [OF s tn n(1), of ty al] b False show ?thesis
      by (auto elim!: returns_mono)
  qed
  then show ?thesis
    unfolding eq
  proof (rule returns_bind)
    fix s' assume P: "?P s'"
    then show "returns al (\<lambda>s'. sds_cells s' t c \<and> k \<le> sdsavail s') (Some (Some (sdssetalloc s' n)))"
      using setalloc_rep [of s' b n t] b tn n(2) by (simp add: m_def)
  qed
qed

lemma sdsRemoveFreeSpace_returns:
  assumes s: "sds_rep s t" and k: "length t < sds_limit"
  shows "returns al (\<lambda>s'. sds_rep s' t \<and> sdsavail s' = 0) (sdsRemoveFreeSpace al s)"
proof (cases "sdsavail s = 0")
  case True
  with s show ?thesis by (simp add: sdsRemoveFreeSpace_def Let_def)
next
  case False
  let ?n = "length t"
  define ty where "ty = sdsReqType ?n"
  have n: "?n < 2 ^ 63 + 2 ^ 21" "?n < 2 ^ 64" using k by (simp_all add: sds_limit_def)
  note len = sds_repD(2) [OF s]
  obtain b where b: "hdr_bits (sds_type s) = Some b" "hdr_len s = ?n" "?n < 2 ^ b"
    using sds_repD(1) [OF s] False len by (cases rule: hdr_ok_cases) auto
  have eq: "sdsRemoveFreeSpace al s =
    unless_NULL
      (if sds_type s = ty \<or> SDS_TYPE_8 < ty
       then unless_NULL (s_realloc al (sbuf s) (sdsHdrSize (sds_type s)) ?n)
              (\<lambda>cells. Some (Some (s\<lparr>sbuf := cells\<rparr>)))
       else move_string al s ty ?n ?n)
      (\<lambda>s. Some (Some (sdssetalloc s ?n)))"
    using False by (simp add: sdsRemoveFreeSpace_def Let_def len ty_def)
  let ?P = "\<lambda>s'. sds_rep (sdssetalloc s' ?n) t \<and> sdsavail (sdssetalloc s' ?n) = 0"
  show ?thesis
  proof (cases "sds_type s = ty \<or> SDS_TYPE_8 < ty")
    case True
    have "returns al ?P (unless_NULL (s_realloc al (sbuf s) (sdsHdrSize (sds_type s)) ?n)
              (\<lambda>cells. Some (Some (s\<lparr>sbuf := cells\<rparr>))))"
    proof (rule returns_bind [OF resized [OF s order_refl HdrSize_le n(1)]], elim conjE)
      fix cells assume "length cells = ?n + 1" "take (?n + 1) cells = map Some t @ [Some NUL]"
      then show "returns al ?P (Some (Some (s\<lparr>sbuf := cells\<rparr>)))"
        using setalloc_rep [of "s\<lparr>sbuf := cells\<rparr>" b ?n t] b by simp
    qed
    then show ?thesis unfolding eq using True by (auto elim!: returns_bind)
  next
    case False
    have ty: "ty = SDS_TYPE_5 \<and> ?n < 32 \<or> (\<exists>b. hdr_bits ty = Some b \<and> ?n < 2 ^ b)"
      using ReqType_wide [of ?n] n(2) ReqType_small [of ?n] unfolding ty_def
      by (cases "?n < 2 ^ 5") auto
    have "returns al ?P (move_string al s ty ?n ?n)"
    proof (rule returns_mono [OF move_string_returns [OF s order_refl n(1) ty]], elim conjE)
      fix s' assume s': "sdslen s' = ?n" "length (sbuf s') = ?n + 1"
        "take (?n + 1) (sbuf s') = map Some t @ [Some NUL]" "sds_type s' = ty"
        "ty = SDS_TYPE_5 \<longrightarrow> sdsalloc s' = ?n" "ty \<noteq> SDS_TYPE_5 \<longrightarrow> hdr_len s' = ?n"
      show "?P s'"
      proof (cases "ty = SDS_TYPE_5")
        case True
        with s' show ?thesis by (simp add: sds_rep_def hdr_ok_def sdssetalloc_def sdsavail_def)
      next
        case False
        with ty obtain b where "hdr_bits ty = Some b" "?n < 2 ^ b" by blast
        with s' False show ?thesis using setalloc_rep [of s' b ?n t] by simp
      qed
    qed
    then show ?thesis unfolding eq using False by (auto elim!: returns_bind)
  qed
qed

text \<open>Writing behind the string: the buffer, then the length.\<close>

lemma write_behind:
  assumes s: "sds_rep s t" and room: "length u \<le> sdsavail s"
  shows "sds_rep ((sdssetlen s (length t + length u))\<lparr>sbuf :=
    take (length t) (sbuf s) @ map Some u @ Some NUL # drop (length t + length u + 1) (sbuf s)\<rparr>) (t @ u)"
    "length t + length u < length (sbuf s)"
proof -
  note rep = sds_repD [OF s]
  have le: "length t + length u \<le> sdsalloc s"
    using room avail_eq [OF rep(1)] rep(2,4) by simp
  then show lt: "length t + length u < length (sbuf s)" using rep(3) by simp
  show "sds_rep ((sdssetlen s (length t + length u))\<lparr>sbuf :=
    take (length t) (sbuf s) @ map Some u @ Some NUL # drop (length t + length u + 1) (sbuf s)\<rparr>) (t @ u)"
    using sds_rep_setlen [of s "t @ u"
        "take (length t) (sbuf s) @ map Some u @ Some NUL # drop (length t + length u + 1) (sbuf s)"]
      rep(1,3,6) le lt by simp
qed

lemma drop_update_first: "n < length xs \<Longrightarrow> (drop n xs)[0 := y] = y # drop (Suc n) xs"
  by (metis Cons_nth_drop_Suc list_update_code(2))

lemma sdscatlen_returns:
  assumes s: "sds_rep s t" and n: "n \<le> length u" "length t + n < sds_limit"
  shows "returns al (\<lambda>s'. sds_rep s' (t @ take n u)) (sdscatlen al s u n)"
proof -
  have len: "sdslen s = length t" using s by (rule sds_repD)
  show ?thesis
    unfolding sdscatlen_def Let_def len
  proof (rule returns_bind [OF sdsMakeRoomFor_returns [OF s n(2)]], elim conjE)
    fix s' assume s': "sds_rep s' t" "n \<le> sdsavail s'"
    have sz: "size_t (length t + n) = length t + n" using n(2) by (simp add: sds_limit_def)
    have lu: "length (take n u) = n" using n(1) by simp
    note w = write_behind [OF s'(1), of "take n u", unfolded lu, OF s'(2)]
    show "returns al (\<lambda>s'. sds_rep s' (t @ take n u)) (do {
        src \<leftarrow> fetch u 0 n;
        cells \<leftarrow> blit (sbuf s') (length t) (map Some src);
        cells \<leftarrow> put cells (length t + n) NUL;
        Some (Some ((sdssetlen s' (size_t (length t + n)))\<lparr>sbuf := cells\<rparr>)) })"
      using w n(1) sds_repD(5) [OF s'(1)]
      by (simp add: sz Let_def bslice_def list_update_append drop_update_first)
  qed
qed

lemma sdscat_returns:
  assumes "sds_rep s t" "length t + length (cstr u) < sds_limit"
  shows "returns al (\<lambda>s'. sds_rep s' (t @ cstr u)) (sdscat al s u)"
  using sdscatlen_returns [OF assms(1) order_refl assms(2), of al] by (simp add: sdscat_def)

lemma sdscatsds_returns:
  assumes "sds_rep s t" "sds_rep s2 u" "length t + length u < sds_limit"
  shows "returns al (\<lambda>s'. sds_rep s' (t @ u)) (sdscatsds al s s2)"
  using sdscatlen_returns [OF assms(1) order_refl assms(3), of al]
  by (simp add: sdscatsds_def sds_rep_loads [OF assms(2)] sds_repD [OF assms(2)])

lemma sdsempty_returns: "returns al (\<lambda>s. sds_rep s '''') (sdsempty al)"
  unfolding sdsempty_def
  by (rule returns_mono [OF sdsnewlen_returns [of 0 "Init ''''" "''''" "''''"]]) (simp_all add: sds_limit_def)

lemma sdsnew_returns:
  assumes "length (cstr u) < sds_limit"
  shows "returns al (\<lambda>s. sds_rep s (cstr u)) (sdsnew al (Some u))"
    "returns al (\<lambda>s. sds_rep s '''') (sdsnew al None)"
proof -
  show "returns al (\<lambda>s. sds_rep s (cstr u)) (sdsnew al (Some u))"
    unfolding sdsnew_def option.case
    by (rule returns_mono [OF sdsnewlen_returns [of _ _ "cstr u" "cstr u"]]) (simp_all add: assms)
  show "returns al (\<lambda>s. sds_rep s '''') (sdsnew al None)"
    unfolding sdsnew_def option.case
    by (rule returns_mono [OF sdsnewlen_returns [of 0 Init_NULL _ "''''"]]) (simp_all add: sds_limit_def)
qed

lemma sdsdup_returns:
  assumes "sds_rep s t" "length t < sds_limit"
  shows "returns al (\<lambda>s'. sds_rep s' t) (sdsdup al s)"
proof -
  have "sdsdup al s = sdsnewlen al (Init t) (length t)"
    by (simp add: sdsdup_def sds_rep_loads [OF assms(1)] sds_repD [OF assms(1)])
  moreover have "returns al (\<lambda>s. sds_rep s t \<and> sdsalloc s = length t) (sdsnewlen al (Init t) (length t))"
    using assms(2) by (intro sdsnewlen_returns [of _ _ t]) simp_all
  ultimately show ?thesis by (auto elim: returns_mono)
qed

lemma sdsclear_rep:
  assumes "sds_rep s t"
  shows "\<exists>s'. sdsclear s = Some s' \<and> sds_rep s' ''''"
proof -
  note rep = sds_repD [OF assms]
  have "0 < length (sbuf s)" using rep(5) by linarith
  moreover have "sds_rep ((sdssetlen s 0)\<lparr>sbuf := (sbuf s)[0 := Some NUL]\<rparr>) ''''"
    using sds_rep_setlen [of s "''''" "(sbuf s)[0 := Some NUL]"] rep(1,3) calculation
    by (cases "sbuf s") simp_all
  ultimately show ?thesis by (simp add: sdsclear_def)
qed

lemma cell_strlen_prefix: "NUL \<notin> set t \<Longrightarrow> cell_strlen (map Some t @ Some NUL # cs) = Some (length t)"
  by (induction t) auto

text \<open>\<open>sdsupdatelen\<close> after a NUL was stored by hand inside the string.\<close>

lemma sdsupdatelen_rep:
  assumes "sds_rep s t"
  shows "\<exists>s'. sdsupdatelen s = Some s' \<and> sds_rep s' (cstr t)"
proof -
  note rep = sds_repD [OF assms]
  let ?n = "length (cstr t)"
  have t: "take ?n t = cstr t" "?n < length t \<Longrightarrow> t ! ?n = NUL"
    unfolding cstr_def
    by (metis takeWhile_eq_take) (use nth_length_takeWhile [of "\<lambda>c. c \<noteq> NUL" t] in blast)
  have pre: "take (?n + 1) (sbuf s) = map Some (cstr t) @ [Some NUL]"
  proof (cases "?n < length t")
    case True
    have "take (?n + 1) (sbuf s) = take (?n + 1) (take (length t) (sbuf s))" using True by simp
    also have "\<dots> = map Some (take ?n t) @ [Some (t ! ?n)]"
      using rep(6) True by (simp add: take_map take_Suc_conv_app_nth)
    finally show ?thesis using t True by simp
  next
    case False
    then have "?n = length t" using length_cstr_le [of t] by linarith
    then have "cstr t = t" using t(1) by simp
    with assms show ?thesis by (simp add: sds_rep_def)
  qed
  then have "sbuf s = (map Some (cstr t) @ [Some NUL]) @ drop (?n + 1) (sbuf s)"
    by (metis append_take_drop_id)
  then have "cell_strlen (sbuf s) = Some ?n"
    using cell_strlen_prefix [of "cstr t" "drop (?n + 1) (sbuf s)"] by simp
  moreover have "sds_rep (sdssetlen s ?n) (cstr t)"
    using setlen_rep [OF rep(1) _ rep(3) pre] length_cstr_le [of t] rep(4) by linarith
  ultimately show ?thesis by (simp add: sdsupdatelen_def)
qed

lemma sdsgrowzero_returns:
  assumes s: "sds_rep s t" and n: "n < sds_limit"
  shows "returns al (\<lambda>s'. sds_rep s' (t @ replicate (n - length t) NUL)) (sdsgrowzero al s n)"
proof (cases "n \<le> length t")
  case True
  then show ?thesis using s by (simp add: sdsgrowzero_def sds_repD [OF s])
next
  case False
  let ?k = "n - length t"
  have len: "sdslen s = length t" using s by (rule sds_repD)
  have "returns al (\<lambda>s'. sds_rep s' t \<and> ?k \<le> sdsavail s') (sdsMakeRoomFor al s ?k)"
    using False n by (intro sdsMakeRoomFor_returns [OF s]) simp
  then have "returns al (\<lambda>s'. sds_rep s' (t @ replicate ?k NUL))
    (unless_NULL (sdsMakeRoomFor al s ?k) (\<lambda>s. do {
             cells \<leftarrow> blit (sbuf s) (length t) (replicate (?k + 1) (Some NUL));
             Some (Some (sdssetlen (s\<lparr>sbuf := cells\<rparr>) n)) }))"
  proof (rule returns_bind, elim conjE)
    fix s' assume s': "sds_rep s' t" "?k \<le> sdsavail s'"
    have rep: "replicate (?k + 1) (Some NUL) = map Some (replicate ?k NUL) @ [Some NUL]"
      by (simp add: replicate_append_same)
    show "returns al (\<lambda>s'. sds_rep s' (t @ replicate ?k NUL))
      (do { cells \<leftarrow> blit (sbuf s') (length t) (replicate (?k + 1) (Some NUL));
            Some (Some (sdssetlen (s'\<lparr>sbuf := cells\<rparr>) n)) })"
      using write_behind [OF s'(1), of "replicate ?k NUL"] s'(2) False
      unfolding rep by simp
  qed
  with False show ?thesis by (simp add: sdsgrowzero_def len Let_def)
qed

lemma sdscpylen_returns:
  assumes s: "sds_rep s t" and n: "n \<le> length u" "n < sds_limit"
  shows "returns al (\<lambda>s'. sds_rep s' (take n u)) (sdscpylen al s u n)"
proof -
  have len: "sdslen s = length t" using s by (rule sds_repD)
  have "returns al (\<lambda>s'. sds_rep s' t \<and> n \<le> sdsalloc s')
    (if sdsalloc s < n then sdsMakeRoomFor al s (n - length t) else Some (Some s))"
  proof (cases "sdsalloc s < n")
    case True
    have "length t + (n - length t) < sds_limit" using n(2) True sds_repD(4) [OF s] by simp
    then have "returns al (\<lambda>s'. sds_rep s' t \<and> n \<le> sdsalloc s') (sdsMakeRoomFor al s (n - length t))"
    proof (rule returns_mono [OF sdsMakeRoomFor_returns [OF s]], elim conjE)
      fix s' assume s': "sds_rep s' t" "n - length t \<le> sdsavail s'"
      then show "sds_rep s' t \<and> n \<le> sdsalloc s'"
        using avail_eq [OF sds_repD(1) [OF s'(1)]] sds_repD(2,4) [OF s'(1)] by simp
    qed
    with True show ?thesis by simp
  next
    case False
    with s show ?thesis by simp
  qed
  then show ?thesis
    unfolding sdscpylen_def len
  proof (rule returns_bind, elim conjE)
    fix s' assume s': "sds_rep s' t" "n \<le> sdsalloc s'"
    have lt: "n < length (sbuf s')" using s' sds_repD(3) by fastforce
    have "sds_rep ((sdssetlen s' n)\<lparr>sbuf := map Some (take n u) @ Some NUL # drop (n + 1) (sbuf s')\<rparr>)
        (take n u)"
      using sds_rep_setlen [of s' "take n u" "map Some (take n u) @ Some NUL # drop (n + 1) (sbuf s')"]
        sds_repD(1,3) [OF s'(1)] s'(2) n(1) lt by (simp add: min_absorb2)
    then show "returns al (\<lambda>s'. sds_rep s' (take n u))
      (do { src \<leftarrow> fetch u 0 n;
            cells \<leftarrow> blit (sbuf s') 0 (map Some src);
            cells \<leftarrow> put cells n NUL;
            Some (Some (sdssetlen (s'\<lparr>sbuf := cells\<rparr>) n)) })"
      using lt n(1) by (simp add: bslice_def list_update_append drop_update_first min_absorb2)
  qed
qed

section \<open>Adjusting the length by hand\<close>

lemma sdsIncrLen_grow:
  assumes s: "sds_rep s t" and u: "u \<noteq> []" "length u \<le> sdsavail s"
    and cells: "blit (sbuf s) (length t) (map Some u) = Some cells"
  shows "\<exists>s'. sdsIncrLen (s\<lparr>sbuf := cells\<rparr>) (int (length u)) = Some s' \<and> sds_rep s' (t @ u)"
proof -
  note rep = sds_repD [OF s]
  note w = write_behind [OF s u(2)]
  obtain b where b: "hdr_bits (sds_type s) = Some b" "sds_type s \<noteq> SDS_TYPE_5" "sdslen s = hdr_len s"
    "sdsavail s = hdr_alloc s - hdr_len s" "hdr_len s \<le> hdr_alloc s" "hdr_alloc s < 2 ^ b"
    using rep(1) u by (cases rule: hdr_ok_cases) auto
  let ?s = "s\<lparr>sbuf := cells\<rparr>"
  have c: "cells = take (length t) (sbuf s) @ map Some u @ drop (length t + length u) (sbuf s)"
    using cells w(2) by simp
  have ul: "length u \<le> hdr_alloc s - hdr_len s" using u(2) b(4) by simp
  have sub: "uint32 (int (length u)) \<le> uint32 (int (hdr_alloc s) - int (hdr_len s))"
    if "sds_type s = SDS_TYPE_32"
  proof -
    have "hdr_alloc s < 2 ^ 32" using b(1,6) that by simp
    then have "int (hdr_alloc s) - int (hdr_len s) < 2 ^ 32" by simp
    then show ?thesis using ul b(5) by (simp add: uint32_def)
  qed
  have sub64: "uint64 (int (length u)) \<le> uint64 (int (hdr_alloc s) - int (hdr_len s))"
    if "sds_type s = SDS_TYPE_64"
  proof -
    have "hdr_alloc s < 2 ^ 64" using b(1,6) that by simp
    then have "int (hdr_alloc s) - int (hdr_len s) < 2 ^ 64" by simp
    then show ?thesis using ul b(5) by (simp add: uint64_def)
  qed
  have ok: "incr_ok ?s (int (length u))"
    using ul b(1-3,5) sub sub64
    by (auto simp: incr_ok_def Let_def elim!: hdr_bits_cases)
  have len: "int (hdr_len s) + int (length u) < 2 ^ b"
    using ul b(5,6) by (metis le_diff_conv2 add.commute le_less_trans of_nat_add of_nat_less_numeral_power_cancel_iff)
  then have l2: "nat ((int (hdr_len s) + int (length u)) mod 2 ^ b) = length t + length u"
    using b(3) rep(2) by simp
  have "sdssetlen s (length t + length u) = s\<lparr>hdr_len := length t + length u\<rparr>"
  proof -
    have "(length t + length u) mod 2 ^ b = length t + length u"
      using l2 len b(3) rep(2) by (simp flip: nat_mod_distrib of_nat_add)
    then show ?thesis using b(1,2) by (simp add: sdssetlen_def)
  qed
  moreover have "cells[length t + length u := Some NUL]
    = take (length t) (sbuf s) @ map Some u @ Some NUL # drop (length t + length u + 1) (sbuf s)"
    using w(2) by (simp add: c list_update_append drop_update_first)
  ultimately show ?thesis
    using w ok l2 b(1,2) rep(2)
    by (simp add: sdsIncrLen_def Let_def c sdslen_def)
qed

lemma sdsIncrLen_shrink:
  assumes s: "sds_rep s t" and k: "0 < k" "k \<le> length t"
  shows "\<exists>s'. sdsIncrLen s (- int k) = Some s' \<and> sds_rep s' (take (length t - k) t)"
proof -
  note rep = sds_repD [OF s]
  let ?n = "length t - k"
  have n: "?n \<le> sdsalloc s" "?n < length (sbuf s)" "int (length t) - int k = int ?n"
    using k rep(4,5) by auto
  have "uint32 (int k) \<le> int k" "uint64 (int k) \<le> int k"
    unfolding uint32_def uint64_def by (rule zmod_le_nonneg_dividend; simp)+
  then have le: "uint32 (int k) \<le> int (length t)" "uint64 (int k) \<le> int (length t)"
    using k(2) by linarith+
  have ok: "incr_ok s (- int k)"
    using k(1) le rep(2) by (simp add: incr_ok_def Let_def)
  have sum: "int (sdslen s) + - int k = int ?n" unfolding rep(2) using n(3) by linarith
  have body: "sdsIncrLen s (- int k) = do {
        let s = sdssetlen s ?n;
        cells \<leftarrow> put (sbuf s) (sdslen s) NUL;
        Some (s\<lparr>sbuf := cells\<rparr>) }"
    using rep(1)
  proof (cases rule: hdr_ok_cases)
    case small
    then show ?thesis
      unfolding sdsIncrLen_def sum using ok by (simp add: sdssetlen_def)
  next
    case (wide b)
    then have "nat ((int (hdr_len s) + - int k) mod 2 ^ b) = ?n mod 2 ^ b"
      using sum by (simp add: nat_mod_distrib nat_power_eq)
    with wide ok show ?thesis
      by (simp add: sdsIncrLen_def sdssetlen_def)
  qed
  have "take (?n + 1) ((sbuf s)[?n := Some NUL]) = map Some (take ?n t) @ [Some NUL]"
  proof -
    have "take ?n (sbuf s) = take ?n (take (length t) (sbuf s))" by simp
    also have "\<dots> = map Some (take ?n t)" unfolding rep(6) by (simp add: take_map)
    finally show ?thesis using n(2) by (simp add: take_Suc_conv_app_nth)
  qed
  then have "sds_rep ((sdssetlen s ?n)\<lparr>sbuf := (sbuf s)[?n := Some NUL]\<rparr>) (take ?n t)"
    using sds_rep_setlen [of s "take ?n t" "(sbuf s)[?n := Some NUL]"] rep(1,3) n(1) by simp
  then show ?thesis
    using setlen_ok(2) [OF rep(1) n(1)] n(2) by (simp add: body)
qed

end
