(* ===== verification/Sds_Strings.thy ===== *)
theory Sds_Strings
  imports Sds_Text Sds_Refine
begin

text \<open>
  The text functions of \<open>sds.c\<close> against reference functions on byte strings: the decimal
  form of a number, the formatted append, trimming, ranges, the order, splitting and joining.
\<close>

section \<open>Numbers\<close>

fun dec :: "nat \<Rightarrow> bytes" where
  "dec v = (if v < 10 then [digit_char v] else dec (v div 10) @ [digit_char (v mod 10)])"

declare dec.simps [simp del]

lemma dec_ne [simp]: "dec v \<noteq> []"
  by (subst dec.simps) simp

lemma length_dec: "v < 10 ^ Suc k \<Longrightarrow> length (dec v) \<le> Suc k"
proof (induction k arbitrary: v)
  case 0
  then show ?case by (subst dec.simps) simp
next
  case (Suc k)
  then have "v div 10 < 10 ^ Suc k" by (simp add: less_mult_imp_div_less)
  with Suc.IH show ?case by (subst dec.simps) simp
qed

lemma length_dec_64:
  assumes "v < 2 ^ 64"
  shows "length (dec v) \<le> 20"
proof -
  have "v < 10 ^ Suc 19" using assms by simp
  then show ?thesis using length_dec [of v 19] by simp
qed

lemma length_dec_63:
  assumes "v < 2 ^ 63"
  shows "length (dec v) \<le> 19"
proof -
  have "v < 10 ^ Suc 18" using assms by simp
  then show ?thesis using length_dec [of v 18] by simp
qed

lemma put_digits_dec:
  "p + length (dec v) \<le> length s \<Longrightarrow>
     put_digits s p v = Some (overwrite s p (rev (dec v)), p + length (dec v))"
proof (induction s p v rule: put_digits.induct)
  case (1 s p v)
  show ?case
  proof (cases "v < 10")
    case True
    then have "dec v = [digit_char v]" by (subst dec.simps) simp
    with 1 True show ?thesis
      by (subst put_digits.simps) (simp add: overwrite_def upd_conv_take_nth_drop)
  next
    case False
    then have d: "dec v = dec (v div 10) @ [digit_char (v mod 10)]" by (subst dec.simps) simp
    let ?s = "s[p := Some (digit_char (v mod 10))]"
    have fits: "Suc p + length (dec (v div 10)) \<le> length s" using 1 d by simp
    have "overwrite ?s (Suc p) cs = overwrite s p (digit_char (v mod 10) # cs)"
      if "Suc p + length cs \<le> length s" for cs
      using that by (simp add: overwrite_def take_Suc_conv_app_nth)
    with 1 False d fits show ?thesis
      by (subst put_digits.simps) simp
  qed
qed

lemma swap_ends_rev:
  "ys \<noteq> [] \<Longrightarrow>
     swap_ends (xs @ ys @ zs) (length xs) (length xs + length ys - 1) = Some (xs @ rev ys @ zs)"
proof (induction "length ys" arbitrary: xs ys zs rule: less_induct)
  case less
  show ?case
  proof (cases "length ys \<le> 1")
    case True
    with less(2) obtain y where "ys = [y]" by (cases ys) auto
    then show ?thesis by (subst swap_ends.simps) simp
  next
    case False
    then obtain y ms z where ys: "ys = y # ms @ [z]"
      by (metis One_nat_def Suc_le_mono append_butlast_last_id length_Cons le0 list.size(3) neq_Nil_conv)
    have one: "swap_ends (xs @ ys @ zs) (length xs) (length xs + length ys - 1)
      = swap_ends ((xs @ [z]) @ ms @ ([y] @ zs)) (length (xs @ [z])) (length xs + length ms)"
      by (subst swap_ends.simps) (simp add: ys nth_append list_update_append)
    show ?thesis
    proof (cases "ms = []")
      case True
      then show ?thesis unfolding one by (subst swap_ends.simps) (simp add: ys)
    next
      case False
      then have "swap_ends ((xs @ [z]) @ ms @ ([y] @ zs)) (length (xs @ [z]))
          (length (xs @ [z]) + length ms - 1) = Some ((xs @ [z]) @ rev ms @ ([y] @ zs))"
        by (intro less) (simp_all add: ys)
      then show ?thesis unfolding one by (simp add: ys)
    qed
  qed
qed

lemma swap_prefix:
  "cs \<noteq> [] \<Longrightarrow> swap_ends (map Some cs @ zs) 0 (length cs - 1) = Some (map Some (rev cs) @ zs)"
  using swap_ends_rev [of "map Some cs" "[]" zs] by (simp add: rev_map)

text \<open>The decimal form with its sign.\<close>

definition decimal_text :: "int \<Rightarrow> bytes" where
  "decimal_text i = (if i < 0 then CHR ''-'' # dec (nat (- i)) else dec (nat i))"

lemma decimal_buffer:
  "length cs < SDS_LLSTR_SIZE \<Longrightarrow>
     overwrite (replicate SDS_LLSTR_SIZE None) 0 cs
       = map Some cs @ replicate (SDS_LLSTR_SIZE - length cs) None"
  by (simp add: overwrite_0_fresh)

lemma update_first_free:
  "n < m \<Longrightarrow> length xs = n \<Longrightarrow>
     (xs @ replicate (m - n) z)[n := y] = xs @ y # replicate (m - Suc n) z"
  by (simp add: list_update_append Suc_diff_Suc flip: replicate_Suc)
    (metis Suc_diff_Suc list_update_code(2) replicate_Suc)

lemma sdsull2str_dec:
  assumes "v < 2 ^ 64"
  shows "number_text (\<lambda>buf. sdsull2str buf v) = Some (dec v)"
proof -
  have n: "length (dec v) < SDS_LLSTR_SIZE" using length_dec_64 [OF assms] by (simp add: SDS_LLSTR_SIZE_def)
  let ?r = "rev (dec v)"
  have "put_digits (replicate SDS_LLSTR_SIZE None) 0 v
      = Some (map Some ?r @ replicate (SDS_LLSTR_SIZE - length ?r) None, length ?r)"
    using put_digits_dec [of 0 v "replicate SDS_LLSTR_SIZE None"] n decimal_buffer [of ?r] by simp
  moreover have "swap_ends (map Some ?r @ Some NUL # replicate (SDS_LLSTR_SIZE - Suc (length ?r)) None)
      0 (length ?r - 1) = Some (map Some (dec v) @ Some NUL # replicate (SDS_LLSTR_SIZE - Suc (length ?r)) None)"
    using swap_prefix [of ?r] by simp
  ultimately show ?thesis
    using n update_first_free [of "length (dec v)" SDS_LLSTR_SIZE "map Some ?r" None "Some NUL"]
    by (simp add: number_text_def sdsull2str_def loads_Some bslice_def)
qed

lemma sdsll2str_decimal:
  assumes "- (2 ^ 63) < value" "value < 2 ^ 63"
  shows "number_text (\<lambda>buf. sdsll2str buf value) = Some (decimal_text value)"
proof -
  define v where "v = nat (if value < 0 then - value else value)"
  define r where "r = rev (dec v)"
  define cs where "cs = (if value < 0 then r @ ''-'' else r)"
  let ?m = SDS_LLSTR_SIZE
  have v: "v < 2 ^ 63" using assms by (auto simp: v_def)
  have n: "Suc (length r) < ?m" using length_dec_63 [OF v] by (simp add: SDS_LLSTR_SIZE_def r_def)
  have put: "put_digits (replicate ?m None) 0 v
      = Some (map Some r @ replicate (?m - length r) None, length r)"
    using put_digits_dec [of 0 v "replicate ?m None"] n decimal_buffer [of r] by (simp add: r_def)
  have sign: "(if value < 0 then do { s \<leftarrow> put (map Some r @ replicate (?m - length r) None)
        (length r) (CHR ''-''); Some (s, length r + 1) }
      else Some (map Some r @ replicate (?m - length r) None, length r))
    = Some (map Some cs @ replicate (?m - length cs) None, length cs)"
    using n update_first_free [of "length r" ?m "map Some r" None "Some (CHR ''-'')"]
    by (simp add: cs_def)
  have len: "length cs < ?m" "cs \<noteq> []" "rev cs = decimal_text value"
    using n by (auto simp: decimal_text_def cs_def r_def v_def)
  have nul: "put (map Some cs @ replicate (?m - length cs) None) (length cs) NUL
    = Some (map Some cs @ Some NUL # replicate (?m - Suc (length cs)) None)"
    using len(1) update_first_free [of "length cs" ?m "map Some cs" None "Some NUL"] by simp
  have "sdsll2str (replicate ?m None) value
      = Some (map Some (decimal_text value) @ Some NUL # replicate (?m - Suc (length cs)) None, length cs)"
    unfolding sdsll2str_def v_def [symmetric] put using assms(1) sign nul
      swap_prefix [OF len(2), of "Some NUL # replicate (?m - Suc (length cs)) None"]
    by (simp add: len(3) del: if_split)
  moreover have "length cs = length (decimal_text value)" using len(3) length_rev by metis
  ultimately show ?thesis by (simp add: number_text_def loads_Some bslice_def)
qed

section \<open>Formatted text\<close>

lemma cell_strlen_text:
  "NUL \<notin> set t \<Longrightarrow> cell_strlen (map Some t @ Some NUL # cs) = Some (length t)"
  by (rule cell_strlen_prefix)

lemma print_loop_text:
  assumes "2 \<le> n" "NUL \<notin> set out"
  shows "returns al (\<lambda>buf. \<exists>cs. buf = map Some out @ Some NUL # cs) (print_loop al out n)"
  using assms
proof (induction al out n rule: print_loop.induct)
  case (1 al out n)
  let ?x = "(replicate n None)[n - 2 := Some NUL]"
  let ?w = "map Some (take (n - 1) out) @ [Some NUL]"
  let ?y = "?w @ drop (length ?w) ?x"
  have x: "put (replicate n None) (n - 2) NUL = Some ?x" using 1(2) by simp
  have y: "vsnprintf ?x n out = Some ?y" using 1(2) by (simp add: vsnprintf_def)
  show ?case
  proof (cases "n - 2 < length out")
    case True
    moreover have "n - 2 < n - 1" using 1(2) by simp
    ultimately have "?y ! (n - 2) = Some (out ! (n - 2))" by (simp add: nth_append)
    moreover have "out ! (n - 2) \<noteq> NUL" using True 1(3) by (metis nth_mem)
    ultimately have "print_loop al out n = (if al (n * 2) then print_loop al out (n * 2) else Some None)"
      using 1(2) x y by (subst print_loop.simps) simp
    moreover have "returns al (\<lambda>buf. \<exists>cs. buf = map Some out @ Some NUL # cs) (print_loop al out (n * 2))"
      if "al (n * 2)"
      using 1(1) [OF _ x y] \<open>?y ! (n - 2) = _\<close> \<open>out ! (n - 2) \<noteq> NUL\<close> that 1(2,3) by simp
    ultimately show ?thesis by auto
  next
    case False
    then have tk: "take (n - 1) out = out" by simp
    have "?y ! (n - 2) = Some NUL"
    proof (cases "length out = n - 2")
      case True
      then show ?thesis using tk by (simp add: nth_append)
    next
      case neq: False
      then have "Suc (n - 3) = n - 2" using False 1(2) by simp
      with neq False tk 1(2) show ?thesis by (simp add: nth_append nth_Cons')
    qed
    then have "print_loop al out n = Some (Some ?y)" using 1(2) x y by (subst print_loop.simps) simp
    then show ?thesis using tk by (auto simp del: One_nat_def)
  qed
qed

lemma sdscatprintf_returns:
  assumes s: "sds_rep s t" and out: "NUL \<notin> set out" and n: "length t + length out < sds_limit"
  shows "returns al (\<lambda>s'. sds_rep s' (t @ out)) (sdscatprintf al s fmt out)"
proof -
  let ?n = "if 1024 < length (cstr fmt) * 2 then length (cstr fmt) * 2 else 1024"
  have "returns al (\<lambda>s'. sds_rep s' (t @ out)) (unless_NULL (print_loop al out ?n) (\<lambda>buf. do {
             n \<leftarrow> cell_strlen buf;
             t \<leftarrow> loads buf 0 n;
             sdscat al s t }))"
  proof (rule returns_bind [OF print_loop_text])
    fix buf assume "\<exists>cs. buf = map Some out @ Some NUL # cs"
    then obtain cs where buf: "buf = map Some out @ Some NUL # cs" by blast
    have "loads buf 0 (length out) = Some out" by (rule loads_Some) (simp_all add: buf bslice_def)
    then show "returns al (\<lambda>s'. sds_rep s' (t @ out))
        (do { n \<leftarrow> cell_strlen buf; t \<leftarrow> loads buf 0 n; sdscat al s t })"
      using sdscat_returns [OF s, of out al] n cell_strlen_text [OF out] cstr_id [OF out] buf by simp
  qed (use out in auto)
  then show ?thesis by (auto simp: sdscatprintf_def sdscatvprintf_def Let_def)
qed

section \<open>Changing a string in place\<close>

lemma trim_left_dropWhile:
  "sp \<le> length t \<Longrightarrow>
     trim_left cset t sp = sp + length (takeWhile (in_cset cset) (drop sp t))"
proof (induction cset t sp rule: trim_left.induct)
  case (1 cset t sp)
  then show ?case
    by (cases "sp < length t") (subst trim_left.simps, simp add: Cons_nth_drop_Suc [symmetric])+
qed

lemma trim_right_past:
  "past \<le> length t \<Longrightarrow> sp < past \<Longrightarrow> \<not> in_cset cset (t ! sp) \<Longrightarrow>
     sp < trim_right cset t sp past \<and>
     bslice t sp (trim_right cset t sp past - sp)
       = rev (dropWhile (in_cset cset) (rev (bslice t sp (past - sp))))"
proof (induction past)
  case (Suc past)
  have snoc: "bslice t sp (Suc past - sp) = bslice t sp (past - sp) @ [t ! past]"
    using Suc.prems bslice_Suc_snoc [of sp "past - sp" t] by (simp add: Suc_diff_le)
  show ?case
  proof (cases "sp < past \<and> in_cset cset (t ! past)")
    case True
    with Suc snoc show ?thesis by simp
  next
    case False
    then have "\<not> in_cset cset (t ! past)" using Suc.prems by (metis less_antisym)
    with False Suc.prems snoc show ?thesis by auto
  qed
qed simp

lemma trim_right_none: "trim_right cset t n n = n"
  by (cases n) simp_all

definition strip :: "('a \<Rightarrow> bool) \<Rightarrow> 'a list \<Rightarrow> 'a list" where
  "strip P t = rev (dropWhile P (rev (dropWhile P t)))"

text \<open>A shorter string moved to the front of the buffer.\<close>

lemma move_front_rep:
  assumes s: "sds_rep s t" and n: "i + n \<le> length t"
    and cells: "cells = (if i = 0 then sbuf s else bslice (sbuf s) i n @ drop n (sbuf s))"
  shows "sds_rep (sdssetlen (s\<lparr>sbuf := cells[n := Some NUL]\<rparr>) n) (bslice t i n)"
    "n < length cells"
proof -
  note rep = sds_repD [OF s]
  have lc: "length cells = length (sbuf s)"
    using n rep(5) by (simp add: cells)
  then show nc: "n < length cells" using n rep(5) by simp
  have ln: "length (bslice t i n) = n" using n by simp
  have "bslice (sbuf s) i n = bslice (take (length t) (sbuf s)) i n"
    using n by (simp add: bslice_def drop_take)
  then have "bslice (sbuf s) i n = map Some (bslice t i n)"
    using rep(6) by (simp add: bslice_def take_map drop_map)
  then have "take n cells = map Some (bslice t i n)"
    using n by (cases "i = 0") (simp_all add: cells bslice_def)
  then have "take (n + 1) (cells[n := Some NUL]) = map Some (bslice t i n) @ [Some NUL]"
    using nc by (simp add: take_Suc_conv_app_nth)
  moreover have "length (bslice t i n) \<le> sdsalloc s" using rep(4) ln n by simp
  ultimately show "sds_rep (sdssetlen (s\<lparr>sbuf := cells[n := Some NUL]\<rparr>) n) (bslice t i n)"
    using sds_rep_setlen [OF rep(1), of "bslice t i n" "cells[n := Some NUL]"] rep(3) lc ln by simp
qed

lemma sdstrim_strip:
  assumes s: "sds_rep s t"
  shows "\<exists>s'. sdstrim s cset = Some s' \<and> sds_rep s' (strip (in_cset cset) t)"
proof -
  note rep = sds_repD [OF s]
  define sp where "sp = trim_left cset t 0"
  define past where "past = trim_right cset t sp (length t)"
  have sp: "sp = length (takeWhile (in_cset cset) t)" "sp \<le> length t"
    using trim_left_dropWhile [of 0 t cset] by (simp_all add: sp_def length_takeWhile_le)
  have "past \<le> length t \<and> bslice t sp (past - sp) = strip (in_cset cset) t"
  proof (cases "sp = length t")
    case True
    then have "dropWhile (in_cset cset) t = []"
      using sp(1) by (simp add: dropWhile_eq_drop)
    then have "strip (in_cset cset) t = []"
      unfolding strip_def by (simp only: rev.simps dropWhile.simps)
    with True show ?thesis by (simp add: past_def trim_right_none)
  next
    case False
    then have lt: "sp < length t" using sp(2) by simp
    have "\<not> in_cset cset (t ! sp)" using nth_length_takeWhile [of "in_cset cset" t] lt sp(1) by simp
    note tr = trim_right_past [OF order_refl lt this]
    have "bslice t sp (length t - sp) = dropWhile (in_cset cset) t"
      by (simp add: bslice_def sp(1) dropWhile_eq_drop)
    moreover have "trim_right c u k n \<le> n" for c u k n by (induction n) (auto simp: le_SucI)
    ultimately show ?thesis using tr by (simp add: past_def strip_def)
  qed
  moreover define n where "n = past - sp"
  ultimately have n: "sp + n \<le> length t" "bslice t sp n = strip (in_cset cset) t"
    using sp(2) by auto
  define cells where "cells = (if sp = 0 then sbuf s else bslice (sbuf s) sp n @ drop n (sbuf s))"
  note m = move_front_rep [OF s n(1) cells_def]
  have fits: "sp + n \<le> length (sbuf s)" using n(1) rep(5) by linarith
  have "sdstrim s cset = Some (sdssetlen (s\<lparr>sbuf := cells[n := Some NUL]\<rparr>) n)"
    using m(2) sds_rep_loads [OF s] rep(2) fits
    by (simp add: sdstrim_def Let_def sp_def [symmetric] past_def [symmetric] n_def [symmetric]
        cells_def min_absorb1 del: sbuf_simps split: if_splits)
  with m(1) n(2) show ?thesis by simp
qed

lemma ssize_t_id [simp]: "- (2 ^ 63) \<le> i \<Longrightarrow> i < 2 ^ 63 \<Longrightarrow> ssize_t i = i"
  by (simp add: ssize_t_def)

text \<open>The range from \<open>a\<close> to \<open>b\<close>, both counted from the end when negative.\<close>

definition from_end :: "int \<Rightarrow> int \<Rightarrow> int" where
  "from_end n i = (if i < 0 then max 0 (n + i) else i)"

definition range_of :: "'a list \<Rightarrow> int \<Rightarrow> int \<Rightarrow> 'a list" where
  "range_of t a b =
     (let n = int (length t); a = from_end n a; b = min (from_end n b) (n - 1) in
      if b < a then [] else bslice t (nat a) (nat (b - a + 1)))"

lemma sdsrange_range_of:
  assumes s: "sds_rep s t" and n: "length t < 2 ^ 63"
    and a: "- (2 ^ 63) \<le> a" "a < 2 ^ 63" and b: "- (2 ^ 63) \<le> b" "b < 2 ^ 63 - 1"
  shows "\<exists>s'. sdsrange s a b = Some s' \<and> sds_rep s' (range_of t a b)"
proof (cases "t = []")
  case True
  then show ?thesis using s by (simp add: sdsrange_def sds_repD [OF s] range_of_def Let_def)
next
  case False
  note rep = sds_repD [OF s]
  define m where "m = int (length t)"
  define a' where "a' = from_end m a"
  define b' where "b' = from_end m b"
  define k where "k = (if min b' (m - 1) < a' then 0 else nat (min b' (m - 1) - a' + 1))"
  have m: "0 < m" "m < 2 ^ 63" using False n by (simp_all add: m_def)
  have ends: "(if a < 0 then max 0 (ssize_t (m + a)) else a) = a'"
    "(if b < 0 then max 0 (ssize_t (m + b)) else b) = b'"
    using a b m by (simp_all add: a'_def b'_def from_end_def)
  have a': "0 \<le> a'" "a' < 2 ^ 63" and b': "0 \<le> b'" "b' < 2 ^ 63 - 1"
    using a b m by (auto simp: a'_def b'_def from_end_def)
  define i where "i = (if k = 0 then 0 else nat a')"
  have ik: "i + k \<le> length t" using a' by (auto simp: i_def k_def m_def nat_le_iff split: if_splits)
  have val: "range_of t a b = bslice t i k"
    by (simp add: range_of_def Let_def k_def i_def a'_def b'_def m_def)
  define cells where "cells = (if i = 0 then sbuf s else bslice (sbuf s) i k @ drop k (sbuf s))"
  note mf = move_front_rep [OF s ik cells_def]
  have step: "(do { newlen \<leftarrow> span_length a' b';
        (start, newlen) \<leftarrow>
          (if newlen \<noteq> 0 then
             if ssize_t m \<le> a' then Some (a', 0)
             else if ssize_t m \<le> b' then do {
               l \<leftarrow> span_length a' (ssize_t (m - 1));
               Some (a', l)
             }
             else Some (a', newlen)
           else Some (0, newlen));
        Some (start, newlen) }) = Some (if k = 0 then (if a' \<le> b' then a' else 0) else a', int k)"
    using a' b' m by (auto simp: span_length_def k_def)
  have "sdsrange s a b = Some (sdssetlen (s\<lparr>sbuf := cells[k := Some NUL]\<rparr>) k)"
  proof -
    have "sdsrange s a b = (do { (start, newlen) \<leftarrow> (do { newlen \<leftarrow> span_length a' b';
        (start, newlen) \<leftarrow>
          (if newlen \<noteq> 0 then
             if ssize_t m \<le> a' then Some (a', 0)
             else if ssize_t m \<le> b' then do {
               l \<leftarrow> span_length a' (ssize_t (m - 1));
               Some (a', l)
             }
             else Some (a', newlen)
           else Some (0, newlen));
        Some (start, newlen) });
        cells \<leftarrow> (if start \<noteq> 0 \<and> newlen \<noteq> 0
           then do { src \<leftarrow> fetch (sbuf s) (nat start) (nat newlen); blit (sbuf s) 0 src }
           else Some (sbuf s));
        cells \<leftarrow> put cells (nat newlen) NUL;
        Some (sdssetlen (s\<lparr>sbuf := cells\<rparr>) (nat newlen)) })"
      using False unfolding sdsrange_def rep(2) m_def [symmetric] Let_def ends
      by (simp add: m_def bind_assoc split_def)
    also have "\<dots> = Some (sdssetlen (s\<lparr>sbuf := cells[k := Some NUL]\<rparr>) k)"
      unfolding step using mf(2) ik rep(5) a'(1)
      by (auto simp: cells_def i_def min_absorb1 simp del: sbuf_simps split: if_splits)
    finally show ?thesis .
  qed
  with mf(1) val show ?thesis by simp
qed

lemma map_string_rep:
  assumes s: "sds_rep s t"
  shows "\<exists>s'. map_string f s = Some s' \<and> sds_rep s' (map f t)"
proof -
  note rep = sds_repD [OF s]
  let ?b = "map (Some \<circ> f) t @ drop (length t) (sbuf s)"
  have "take (length t + 1) ?b = map Some (map f t) @ [Some NUL]"
    using rep(5,7) by (simp add: take_Suc_conv_app_nth hd_drop_conv_nth take_Suc)
  then have "sds_rep (s\<lparr>sbuf := ?b\<rparr>) (map f t)"
    using rep by (simp add: sds_rep_def)
  then show ?thesis using rep(2,5) sds_rep_loads [OF s] by (simp add: map_string_def)
qed

definition substitute :: "bytes \<Rightarrow> bytes \<Rightarrow> char \<Rightarrow> char" where
  "substitute src dst c = (case map_of (zip src dst) c of None \<Rightarrow> c | Some d \<Rightarrow> d)"

lemma map_char_substitute:
  "n \<le> length src \<Longrightarrow> n \<le> length dst \<Longrightarrow>
     map_char src dst n c = Some (substitute (take n src) (take n dst) c)"
proof (induction src dst n c rule: map_char.induct)
  case (3 a src dst n c)
  then show ?case by (cases dst) (auto simp: substitute_def)
qed (simp_all add: substitute_def)

lemma sdsmapchars_rep:
  assumes s: "sds_rep s t" and n: "n \<le> length src" "n \<le> length dst"
  shows "\<exists>s'. sdsmapchars s src dst n = Some s'
    \<and> sds_rep s' (map (substitute (take n src) (take n dst)) t)"
proof -
  have "map_chars src dst n u = Some (map (substitute (take n src) (take n dst)) u)" for u
    by (induction u) (simp_all add: map_char_substitute [OF n])
  then have "sdsmapchars s src dst n = map_string (substitute (take n src) (take n dst)) s"
    using sds_rep_loads [OF s] by (simp add: sdsmapchars_def map_string_def sds_repD [OF s])
  with map_string_rep [OF s] show ?thesis by simp
qed

section \<open>The order of strings\<close>

definition byte_less :: "(char \<times> char) set" where
  "byte_less = {(a, b). byte a < byte b}"

lemma cmp_lexord:
  fixes t u defines "n \<equiv> min (length t) (length u)"
  defines "r \<equiv> (let c = memcmp (take n t) (take n u) in
      if c = 0 then (if length u < length t then 1 else if length t < length u then - 1 else 0) else c)"
  shows "(r = 0 \<longleftrightarrow> t = u) \<and> (r < 0 \<longleftrightarrow> (t, u) \<in> lexord byte_less)"
  unfolding r_def n_def
proof (induction t u rule: memcmp.induct, goal_cases)
  case (1 a as b bs)
  then show ?case
    by (cases "byte a" "byte b" rule: linorder_cases) (auto simp: byte_less_def Let_def split: if_splits)
next
  case (2 u)
  then show ?case by (cases u) (simp_all add: Let_def)
next
  case (3 t)
  then show ?case by (cases t) (simp_all add: Let_def)
qed

lemma sdscmp_lexord:
  assumes s: "sds_rep s t" and s2: "sds_rep s2 u"
  shows "\<exists>r. sdscmp s s2 = Some r \<and> (r = 0 \<longleftrightarrow> t = u) \<and> (r < 0 \<longleftrightarrow> (t, u) \<in> lexord byte_less)"
proof -
  let ?n = "min (length t) (length u)"
  have l: "loads (sbuf s) 0 ?n = Some (take ?n t)" "loads (sbuf s2) 0 ?n = Some (take ?n u)"
    using sds_rep_loads_prefix [OF s, of ?n] sds_rep_loads_prefix [OF s2, of ?n] by simp_all
  have "(if length t < length u then length t else length u) = ?n" by simp
  then have r: "sdscmp s s2 = Some (let c = memcmp (take ?n t) (take ?n u) in
      if c = 0 then (if length u < length t then 1 else if length t < length u then - 1 else 0) else c)"
    using l by (simp add: sdscmp_def Let_def sds_repD [OF s] sds_repD [OF s2])
  with cmp_lexord [of t u] show ?thesis by simp
qed

section \<open>Splitting\<close>

text \<open>The reference: cut at the first separator, and go on behind it.\<close>

function split_on :: "'a list \<Rightarrow> 'a list \<Rightarrow> 'a list list" where
  "split_on sep s =
     (if sep = [] then [s]
      else case memmem s sep of
          None \<Rightarrow> [s]
        | Some i \<Rightarrow> take i s # split_on sep (drop (i + length sep) s))"
  by pat_completeness auto
termination
proof (relation "measure (\<lambda>(sep, s). length s)", goal_cases)
  case (2 sep s i)
  then have "0 < length sep" "i + length sep \<le> length s" using memmem_SomeD [of s sep i] by simp_all
  then have "length s - (i + length sep) < length s" by linarith
  then show ?case by simp
qed simp

declare split_on.simps [simp del]

fun intercalate :: "'a list \<Rightarrow> 'a list list \<Rightarrow> 'a list" where
  "intercalate sep [] = []"
| "intercalate sep [x] = x"
| "intercalate sep (x # xs) = x @ sep @ intercalate sep xs"

lemma split_on_ne [simp]: "split_on sep s \<noteq> []"
  by (subst split_on.simps) (simp split: option.split)

lemma intercalate_Cons: "xs \<noteq> [] \<Longrightarrow> intercalate sep (x # xs) = x @ sep @ intercalate sep xs"
  by (cases xs) simp_all

lemma intercalate_split_on: "intercalate sep (split_on sep s) = s"
proof (induction sep s rule: split_on.induct)
  case (1 sep s)
  show ?case
  proof (cases "sep = [] \<or> memmem s sep = None")
    case True
    then show ?thesis by (subst split_on.simps) auto
  next
    case False
    then obtain i where i: "sep \<noteq> []" "memmem s sep = Some i" by auto
    have "s = take i s @ take (length sep) (drop i s) @ drop (length sep) (drop i s)"
      by (simp only: append_take_drop_id)
    then have "s = take i s @ bslice s i (length sep) @ drop (i + length sep) s"
      by (simp add: bslice_def add.commute)
    also have "\<dots> = take i s @ sep @ drop (i + length sep) s"
      using memmem_SomeD [OF i(2)] by simp
    finally show ?thesis
      using 1 i by (subst split_on.simps) (simp add: intercalate_Cons)
  qed
qed

lemma sublist_bsliceD:
  assumes "sublist xs ys"
  shows "\<exists>i. i + length xs \<le> length ys \<and> bslice ys i (length xs) = xs"
proof -
  obtain ps ss where "ys = ps @ xs @ ss" using assms by (auto simp: sublist_def)
  then show ?thesis by (intro exI [of _ "length ps"]) (simp add: bslice_def)
qed

lemma split_on_pieces:
  assumes "sep \<noteq> []" "p \<in> set (split_on sep s)"
  shows "\<not> sublist sep p"
  using assms
proof (induction sep s rule: split_on.induct)
  case (1 sep s)
  show ?case
  proof (cases "memmem s sep")
    case None
    with 1(2,3) have "p = s" by (subst (asm) split_on.simps) simp
    with None show ?thesis by (simp add: memmem_None_iff)
  next
    case (Some i)
    note i = memmem_SomeD [OF Some]
    from 1(2,3) Some consider "p = take i s" | "p \<in> set (split_on sep (drop (i + length sep) s))"
      by (subst (asm) split_on.simps) auto
    then show ?thesis
    proof cases
      case 1
      show ?thesis
      proof
        assume "sublist sep p"
        then obtain j where j: "j + length sep \<le> length p" "bslice p j (length sep) = sep"
          using sublist_bsliceD by blast
        then have "bslice s j (length sep) = sep" using 1 i by (simp add: bslice_def drop_take)
        moreover have "j < i" using j(1) 1 \<open>sep \<noteq> []\<close> i by (cases sep) simp_all
        ultimately show False using i by blast
      qed
    next
      case 2
      with 1 Some show ?thesis by simp
    qed
  qed
qed

text \<open>The result of a split, or the cleanup because the allocator refused.\<close>

definition splits :: "(nat \<Rightarrow> bool) \<Rightarrow> bytes list \<Rightarrow> split_result run \<Rightarrow> bool" where
  "splits al ts r \<longleftrightarrow>
     (case r of
        None \<Rightarrow> False
      | Some (None, count) \<Rightarrow> count = Some 0 \<and> (\<exists>n. \<not> al n)
      | Some (Some tokens, count) \<Rightarrow> list_all2 sds_rep tokens ts \<and> count = Some (length ts))"

lemma splits_cleanup: "\<not> al n \<Longrightarrow> splits al ts (Some split_cleanup)"
  by (auto simp: splits_def split_cleanup_def)

lemma add_token_returns:
  assumes "list_all2 sds_rep tokens ts" "length tokens < slots" "start + n \<le> length s" "length s < sds_limit"
  shows "returns al (\<lambda>tokens'. list_all2 sds_rep tokens' (ts @ [bslice s start n]))
    (add_token al s start n slots tokens)"
proof -
  have "returns al (\<lambda>x. sds_rep x (bslice s start n) \<and> sdsalloc x = n) (sdsnewlen al (Init (bslice s start n)) n)"
    by (rule sdsnewlen_returns [of _ _ "bslice s start n"])
      (use assms(3,4) in \<open>simp_all add: min_absorb1\<close>)
  then have "returns al (\<lambda>tokens'. list_all2 sds_rep tokens' (ts @ [bslice s start n]))
      (unless_NULL (sdsnewlen al (Init (bslice s start n)) n) (\<lambda>tok. Some (Some (tokens @ [tok]))))"
    by (rule returns_bind) (use assms(1) in \<open>simp add: list_all2_appendI\<close>)
  then show ?thesis using assms(2,3) by (simp add: add_token_def)
qed

lemma split_loop_splits:
  assumes "sep \<noteq> []" "length s < sds_limit" "list_all2 sds_rep tokens ts" "length tokens < slots"
    "start \<le> j" "j \<le> length s"
    "\<And>i. start \<le> i \<Longrightarrow> i < j \<Longrightarrow> bslice s i (length sep) \<noteq> sep"
  shows "splits al (ts @ split_on sep (drop start s))
    (split_loop al s (length s) sep (length sep) start slots tokens j)"
  using assms(3-)
proof (induction "length s - j" arbitrary: start slots tokens ts j rule: less_induct)
  case less
  let ?k = "length sep" and ?n = "length s"
  have k: "0 < ?k" using assms(1) by simp
  show ?case
  proof (cases "j + (?k - 1) < ?n")
    case False
    have "bslice (drop start s) i ?k \<noteq> sep" if "i + ?k \<le> length (drop start s)" for i
    proof -
      have "start + i < j" using that [unfolded length_drop] False k less.prems(3,4) by linarith
      then show ?thesis using less.prems(5) [of "start + i"] by (simp add: bslice_drop)
    qed
    then have "split_on sep (drop start s) = [drop start s]"
      using assms(1) memmem_eq_None [of sep "drop start s"] by (subst split_on.simps) simp
    moreover have "returns al (\<lambda>tokens'. list_all2 sds_rep tokens' (ts @ [bslice s start (?n - start)]))
        (add_token al s start (?n - start) slots tokens)"
      using less.prems assms(2) by (intro add_token_returns) simp_all
    moreover have "bslice s start (?n - start) = drop start s" by (simp add: bslice_def)
    ultimately show ?thesis
      using False k
      by (subst split_loop.simps)
        (auto simp: splits_def returns_def split_cleanup_def dest: list_all2_lengthD split: option.splits)
  next
    case True
    define slots' where "slots' = (if slots < length tokens + 2 then slots * 2 else slots)"
    have slots': "length tokens + 2 \<le> slots'" using less.prems(2) by (auto simp: slots'_def)
    have fits: "j + ?k \<le> ?n" "j < ?n" using True k by linarith+
    let ?here = "bslice s j ?k"
    have eq: "split_loop al s ?n sep ?k start slots tokens j =
      (if slots < length tokens + 2 \<and> \<not> al (size_t (8 * slots')) then Some split_cleanup
       else if ?here = sep then do {
         r \<leftarrow> add_token al s start (j - start) slots' tokens;
         case r of
           None \<Rightarrow> Some split_cleanup
         | Some tokens' \<Rightarrow> split_loop al s ?n sep ?k (j + ?k) slots' tokens' (j + ?k)
       }
       else split_loop al s ?n sep ?k start slots' tokens (j + 1))"
      using fits by (subst split_loop.simps)
        (simp only: True k [THEN less_not_refl2 [THEN not_sym]] if_True if_False Let_def
          slots'_def [symmetric] fetch_Some bind.bind_lunit, simp add: bslice_all assms(1))
    show ?thesis
    proof (cases "?here = sep")
      case here: True
      have "memmem (drop start s) sep = Some (j - start)"
        using less.prems(3,5) fits here
        by (intro memmem_eq_Some) (simp_all add: bslice_drop)
      then have "split_on sep (drop start s) = bslice s start (j - start) # split_on sep (drop (j + ?k) s)"
        using assms(1) less.prems(3) by (subst split_on.simps) (simp add: bslice_def add.commute)
      moreover have "returns al (\<lambda>tokens'. list_all2 sds_rep tokens' (ts @ [bslice s start (j - start)]))
          (add_token al s start (j - start) slots' tokens)"
        using less.prems(1,3) slots' fits assms(2) by (intro add_token_returns) simp_all
      moreover have "splits al ((ts @ [bslice s start (j - start)]) @ split_on sep (drop (j + ?k) s))
          (split_loop al s ?n sep ?k (j + ?k) slots' tokens' (j + ?k))"
        if "list_all2 sds_rep tokens' (ts @ [bslice s start (j - start)])" for tokens'
      proof (rule less.hyps)
        show "?n - (j + ?k) < ?n - j" using fits k by linarith
      qed (use that fits slots' list_all2_lengthD [OF that] list_all2_lengthD [OF less.prems(1)]
        in simp_all)
      ultimately show ?thesis
        unfolding eq using here splits_cleanup
        by (auto simp: returns_def split: option.splits)
    next
      case here: False
      have "splits al (ts @ split_on sep (drop start s)) (split_loop al s ?n sep ?k start slots' tokens (j + 1))"
        using less.prems fits slots' here
        by (intro less.hyps) (auto simp: less_Suc_eq)
      then show ?thesis unfolding eq using here splits_cleanup by auto
    qed
  qed
qed

lemma sdssplitlen_splits:
  assumes "sep \<noteq> []" "s \<noteq> []" "length s < sds_limit" "al 40"
  shows "splits al (split_on sep s) (sdssplitlen al s (int (length s)) sep (int (length sep)))"
  using split_loop_splits [of sep s "[]" "[]" 5 0 0 al] assms
  by (simp add: sdssplitlen_def)

section \<open>The interface: appending\<close>

text \<open>What the code that builds texts relies on: an append that succeeds as long as the text stays
  below a limit. The clients below do not ask whether an append returned NULL, so their contract is
  the one of an allocator that has memory.\<close>

locale appendable =
  fixes rep :: "'s \<Rightarrow> bytes \<Rightarrow> bool"
    and limit :: nat
    and append_text :: "'s \<Rightarrow> bytes \<Rightarrow> 's option run"
  assumes append_text:
    "rep s t \<Longrightarrow> length t + length u < limit \<Longrightarrow> \<exists>s'. append_text s u = Some (Some s') \<and> rep s' (t @ u)"
begin

text \<open>A function that may be used where an append of \<open>f a\<close> is wanted.\<close>

definition appends :: "('s \<Rightarrow> 'a \<Rightarrow> 's option run) \<Rightarrow> ('a \<Rightarrow> bytes) \<Rightarrow> 'a set \<Rightarrow> bool" where
  "appends app f A \<longleftrightarrow>
     (\<forall>s t. \<forall>a \<in> A. rep s t \<longrightarrow> length t + length (f a) < limit \<longrightarrow>
        (\<exists>s'. app s a = Some (Some s') \<and> rep s' (t @ f a)))"

lemma appendsD:
  "appends app f A \<Longrightarrow> a \<in> A \<Longrightarrow> rep s t \<Longrightarrow> length t + length (f a) < limit \<Longrightarrow>
     \<exists>s'. app s a = Some (Some s') \<and> rep s' (t @ f a)"
  by (auto simp: appends_def)

lemma appends_text: "appends append_text (\<lambda>u. u) UNIV"
  by (auto simp: appends_def intro: append_text)

text \<open>A sequence of appends, each dereferencing the result of the one before.\<close>

primrec append_list :: "('s \<Rightarrow> 'a \<Rightarrow> 's option run) \<Rightarrow> 's option \<Rightarrow> 'a list \<Rightarrow> 's option run" where
  "append_list app s [] = Some s"
| "append_list app s (a # as) = do { t \<leftarrow> s; s' \<leftarrow> app t a; append_list app s' as }"

lemma append_list:
  assumes "appends app f A" "set as \<subseteq> A" "rep s t" "length t + length (concat (map f as)) < limit"
  shows "\<exists>s'. append_list app (Some s) as = Some (Some s') \<and> rep s' (t @ concat (map f as))"
  using assms(2-)
proof (induction as arbitrary: s t)
  case (Cons a as)
  obtain s1 where s1: "app s a = Some (Some s1)" "rep s1 (t @ f a)"
    using appendsD [OF assms(1), of a s t] Cons.prems by auto
  with Cons.IH [of s1 "t @ f a"] Cons.prems show ?case by auto
qed simp

end

interpretation sds: appendable sds_rep sds_limit "\<lambda>s u. sdscatlen (\<lambda>_. True) s u (length u)"
proof
  fix s t and u :: bytes assume "sds_rep s t" "length t + length u < sds_limit"
  from sdscatlen_returns [OF this(1) order_refl this(2), of "\<lambda>_. True"]
  show "\<exists>s'. sdscatlen (\<lambda>_. True) s u (length u) = Some (Some s') \<and> sds_rep s' (t @ u)"
    by (auto elim!: returns_total)
qed

section \<open>Joining\<close>

lemma join_loop_intercalate:
  assumes cat: "sds.appends cat f A" and sep: "sds.appends (\<lambda>s _. sep s) (\<lambda>_. sp) {()}"
    and "set as \<subseteq> A" "sds_rep s t" "length t + length (intercalate sp (map f as)) < sds_limit"
  shows "\<exists>s'. join_loop cat sep (Some s) as = Some (Some s') \<and> sds_rep s' (t @ intercalate sp (map f as))"
  using assms(3-)
proof (induction as arbitrary: s t)
  case (Cons a as)
  have l: "length t + length (f a) < sds_limit"
    using Cons.prems(3) by (cases as) auto
  obtain s1 where s1: "cat s a = Some (Some s1)" "sds_rep s1 (t @ f a)"
    using sds.appendsD [OF cat _ Cons.prems(2) l] Cons.prems(1) by auto
  show ?case
  proof (cases "as = []")
    case True
    with s1 show ?thesis by simp
  next
    case False
    with Cons.prems(3) have l2: "length (t @ f a) + length sp < sds_limit"
      "length ((t @ f a) @ sp) + length (intercalate sp (map f as)) < sds_limit"
      by (simp_all add: intercalate_Cons)
    obtain s2 where s2: "sep s1 = Some (Some s2)" "sds_rep s2 ((t @ f a) @ sp)"
      using sds.appendsD [OF sep _ s1(2) l2(1)] by auto
    obtain s3 where "join_loop cat sep (Some s2) as = Some (Some s3)"
      "sds_rep s3 (((t @ f a) @ sp) @ intercalate sp (map f as))"
      using Cons.IH [OF _ s2(2) l2(2)] Cons.prems(1) by auto
    with s1 s2 False show ?thesis by (simp add: intercalate_Cons)
  qed
qed simp

lemma appends_cat:
  "sds.appends (sdscat (\<lambda>_. True)) cstr UNIV"
  "sds.appends (\<lambda>s _. sdscat (\<lambda>_. True) s u) (\<lambda>_. cstr u) X"
  "sds.appends (\<lambda>s _. sdscatlen (\<lambda>_. True) s v (length v)) (\<lambda>_. v) X"
  by (auto simp: sds.appends_def sdscat_def intro: sds.append_text)

lemma appends_catsds:
  assumes "\<And>a. a \<in> A \<Longrightarrow> sds_rep a (f a)"
  shows "sds.appends (sdscatsds (\<lambda>_. True)) f A"
  unfolding sds.appends_def
proof (intro allI ballI impI)
  fix s t a assume a: "a \<in> A" "sds_rep s t" "length t + length (f a) < sds_limit"
  from sdscatsds_returns [OF a(2) assms [OF a(1)] a(3), of "\<lambda>_. True"]
  show "\<exists>s'. sdscatsds (\<lambda>_. True) s a = Some (Some s') \<and> sds_rep s' (t @ f a)"
    by (auto elim!: returns_total)
qed

lemma sdsempty_ok: "\<exists>s. sdsempty (\<lambda>_. True) = Some (Some s) \<and> sds_rep s ''''"
  using sdsempty_returns [of "\<lambda>_. True"] by (auto elim!: returns_total)

lemma sdsjoin_rep:
  assumes "length (intercalate (cstr sep) (map cstr argv)) < sds_limit"
  shows "\<exists>s. sdsjoin (\<lambda>_. True) argv sep = Some (Some s)
    \<and> sds_rep s (intercalate (cstr sep) (map cstr argv))"
proof -
  obtain s where s: "sdsempty (\<lambda>_. True) = Some (Some s)" "sds_rep s ''''" using sdsempty_ok by blast
  from join_loop_intercalate [OF appends_cat(1) appends_cat(2) subset_UNIV s(2), of sep argv] assms
  show ?thesis by (auto simp: sdsjoin_def s(1))
qed

lemma sdsjoinsds_rep:
  assumes "list_all2 sds_rep argv ts" "length (intercalate sep ts) < sds_limit"
  shows "\<exists>s. sdsjoinsds (\<lambda>_. True) argv sep (length sep) = Some (Some s)
    \<and> sds_rep s (intercalate sep ts)"
proof -
  define f where "f a = (SOME t. sds_rep a t)" for a
  have f: "sds_rep a t \<Longrightarrow> f a = t" for a t
    unfolding f_def by (rule some_equality) (auto dest: sds_rep_unique)
  have ts: "map f argv = ts" using assms(1) by (induction rule: list_all2_induct) (simp_all add: f)
  have A: "sds_rep a (f a)" if "a \<in> {a. \<exists>t. sds_rep a t}" for a
    using that f by auto
  have sub: "set argv \<subseteq> {a. \<exists>t. sds_rep a t}"
    using assms(1) by (fastforce simp: list_all2_conv_all_nth in_set_conv_nth)
  obtain s where s: "sdsempty (\<lambda>_. True) = Some (Some s)" "sds_rep s ''''" using sdsempty_ok by blast
  from join_loop_intercalate [OF appends_catsds [OF A] appends_cat(3) sub s(2), of sep] assms(2)
  show ?thesis by (auto simp: sdsjoinsds_def s(1) ts)
qed

end
