(* ===== verification/Sds_Roundtrip.thy ===== *)
theory Sds_Roundtrip
  imports Sds_Args Sds_Strings
begin

text \<open>
  \<open>sdscatrepr\<close> and \<open>sdssplitargs\<close>: the quoted form that is appended, the proof that the parser
  reads it back, and the proof that the parser returns on every terminated line without leaving it.
\<close>

section \<open>The quoted form\<close>

definition repr_char :: "char \<Rightarrow> bytes" where
  "repr_char c =
     (if c = BACKSLASH \<or> c = DQUOTE then [BACKSLASH, c]
      else if c = LF then [BACKSLASH, CHR ''n'']
      else if c = CR then [BACKSLASH, CHR ''r'']
      else if c = HT then [BACKSLASH, CHR ''t'']
      else if c = BEL then [BACKSLASH, CHR ''a'']
      else if c = BS then [BACKSLASH, CHR ''b'']
      else if isprint c then [c]
      else [BACKSLASH, CHR ''x''] @ print_02x c)"

definition quoted :: "bytes \<Rightarrow> bytes" where
  "quoted p = [DQUOTE] @ concat (map repr_char p) @ [DQUOTE]"


lemma hex_char_facts:
  assumes "d < 16"
  shows "is_hex_digit (hex_char d)" "hex_digit_to_int (hex_char d) = d" "hex_char d \<noteq> NUL"
proof -
  have "byte (hex_char d) = (if d < 10 then 48 + d else 87 + d)"
    using assms by (simp add: hex_char_def)
  then show "is_hex_digit (hex_char d)" "hex_digit_to_int (hex_char d) = d"
    using assms by (auto simp: is_hex_digit_def hex_digit_to_int_def)
  then show "hex_char d \<noteq> NUL"
    by (auto simp: is_hex_digit_def byte_def)
qed

lemma print_02x_facts:
  "NUL \<notin> set (print_02x c)"
  "print_02x c = [a, b] \<Longrightarrow> is_hex_digit a \<and> is_hex_digit b
     \<and> char_of (hex_digit_to_int a * 16 + hex_digit_to_int b) = c"
proof -
  have d: "byte c div 16 < 16" "byte c mod 16 < 16"
    using less_mult_imp_div_less [of "byte c" 16 16] byte_less [of c] by simp_all
  then show "NUL \<notin> set (print_02x c)" by (auto simp: print_02x_def hex_char_facts dest: sym)
  assume "print_02x c = [a, b]"
  with d show "is_hex_digit a \<and> is_hex_digit b \<and> char_of (hex_digit_to_int a * 16 + hex_digit_to_int b) = c"
    by (auto simp: print_02x_def hex_char_facts byte_def)
qed

lemma isprint_not_NUL: "isprint c \<Longrightarrow> c \<noteq> NUL"
  by (auto simp: isprint_def byte_def)

lemma repr_step_cases:
  obtains fmt where "repr_step al s c = sdscatprintf al s fmt (repr_char c)"
  | "repr_step al s c = sdscatlen al s (repr_char c) (length (repr_char c))"
proof -
  consider "c = BACKSLASH \<or> c = DQUOTE" | "c \<in> {LF, CR, HT, BEL, BS}"
    | "isprint c" "c \<notin> {BACKSLASH, DQUOTE, LF, CR, HT, BEL, BS}"
    | "\<not> isprint c" "c \<notin> {BACKSLASH, DQUOTE, LF, CR, HT, BEL, BS}" by blast
  then show thesis
  proof cases
    case 2
    then have "repr_step al s c = sdscatlen al s (repr_char c) (length (repr_char c))"
      by (auto simp: repr_step_def repr_char_def numeral_2_eq_2)
    then show thesis by (rule that)
  qed (rule that(1), auto simp: repr_step_def repr_char_def)+
qed

lemma repr_char_no_NUL: "NUL \<notin> set (repr_char c)"
  using print_02x_facts(1) [of c] isprint_not_NUL [of c] by (auto simp: repr_char_def)

lemma repr_step_appends: "sds.appends (repr_step (\<lambda>_. True)) repr_char UNIV"
  unfolding sds.appends_def
proof (intro allI ballI impI)
  fix s t c assume s: "sds_rep s t" and n: "length t + length (repr_char c) < sds_limit"
  show "\<exists>s'. repr_step (\<lambda>_. True) s c = Some (Some s') \<and> sds_rep s' (t @ repr_char c)"
  proof (cases rule: repr_step_cases [of "\<lambda>_. True" s c])
    case (1 fmt)
    then show ?thesis
      using sdscatprintf_returns [OF s repr_char_no_NUL n, of "\<lambda>_. True" fmt]
      by (auto elim!: returns_total)
  next
    case 2
    then show ?thesis using sds.append_text [OF s n] by simp
  qed
qed

lemma repr_loop_append_list:
  "n \<le> length p \<Longrightarrow> repr_loop al s p n = sds.append_list (repr_step al) s (take n p)"
proof (induction al s p n rule: repr_loop.induct)
  case (3 al s c p n)
  then show ?case by (auto intro!: Option.bind_cong)
qed simp_all

lemma sdscatrepr_quoted:
  assumes s: "sds_rep s t" and n: "n \<le> length p" "length t + length (quoted (take n p)) < sds_limit"
  shows "\<exists>s'. sdscatrepr (\<lambda>_. True) s p n = Some (Some s') \<and> sds_rep s' (t @ quoted (take n p))"
proof -
  let ?body = "concat (map repr_char (take n p))"
  have l: "length t + length [DQUOTE] < sds_limit"
    "length (t @ [DQUOTE]) + length ?body < sds_limit"
    "length ((t @ [DQUOTE]) @ ?body) + length [DQUOTE] < sds_limit"
    using n(2) by (simp_all add: quoted_def)
  obtain s1 where s1: "sdscatlen (\<lambda>_. True) s [DQUOTE] 1 = Some (Some s1)" "sds_rep s1 (t @ [DQUOTE])"
    using sds.append_text [OF s l(1)] by auto
  obtain s2 where s2: "repr_loop (\<lambda>_. True) (Some s1) p n = Some (Some s2)"
    "sds_rep s2 ((t @ [DQUOTE]) @ ?body)"
    using sds.append_list [OF repr_step_appends subset_UNIV s1(2) l(2)] repr_loop_append_list [OF n(1)]
    by auto
  obtain s3 where "sdscatlen (\<lambda>_. True) s2 [DQUOTE] 1 = Some (Some s3)"
    "sds_rep s3 (((t @ [DQUOTE]) @ ?body) @ [DQUOTE])"
    using sds.append_text [OF s2(2) l(3)] by auto
  with s1 s2 show ?thesis by (simp add: sdscatrepr_def quoted_def)
qed

section \<open>Reading it back\<close>

lemma rd_append: "rd (xs @ ys) (length xs + i) = rd ys i"
  by (simp add: rd_def)

lemma rd_Cons: "rd (x # xs) (Suc i) = rd xs i" "rd (x # xs) 0 = Some x"
  by (simp_all add: rd_def)

lemma escape_facts:
  "escape_char BACKSLASH = BACKSLASH" "escape_char DQUOTE = DQUOTE" "escape_char (CHR ''n'') = LF"
  "escape_char (CHR ''r'') = CR" "escape_char (CHR ''t'') = HT" "escape_char (CHR ''a'') = BEL"
  "escape_char (CHR ''b'') = BS"
  by (simp_all add: escape_char_def)

text \<open>The turns of the parser on the suffix of the line at its position.\<close>

lemma turn_at:
  "turn_in_quotes (pre @ suf) (length pre) = turn_in_quotes suf 0"
  "turn_plain (pre @ suf) (length pre) = turn_plain suf 0"
  using rd_append [of pre suf 0] rd_append [of pre suf 1] rd_append [of pre suf 2] rd_append [of pre suf 3]
  by (auto simp: turn_in_quotes_def turn_plain_def reads_hex_def close_quote_def Let_def nth_append
      rd_def numeral_eq_Suc split: Option.bind_splits)

lemma turn_repr_char:
  "turn_in_quotes (repr_char c @ suf) 0 =
     Some (Inr \<lparr>turn_char = Some c, turn_skip = length (repr_char c) - 1, turn_inq = True,
                turn_insq = False, turn_done = False\<rparr>)"
proof -
  obtain a b where ab: "print_02x c = [a, b]" by (simp add: print_02x_def)
  note hex = print_02x_facts(2) [OF ab]
  consider "c = BACKSLASH \<or> c = DQUOTE" | "c \<in> {LF, CR, HT, BEL, BS}"
    | "isprint c" "c \<notin> {BACKSLASH, DQUOTE, LF, CR, HT, BEL, BS}"
    | "\<not> isprint c" "c \<notin> {BACKSLASH, DQUOTE, LF, CR, HT, BEL, BS}" by blast
  then show ?thesis
  proof cases
    case 4
    then have "repr_char c = [BACKSLASH, CHR ''x'', a, b]" by (simp add: repr_char_def ab)
    with hex show ?thesis by (simp add: turn_in_quotes_def reads_hex_def rd_Cons numeral_eq_Suc)
  next
    case 3
    then have "repr_char c = [c]" by (simp add: repr_char_def)
    with 3 isprint_not_NUL [of c] show ?thesis
      by (simp add: turn_in_quotes_def rd_Cons)
  qed (auto simp: repr_char_def turn_in_quotes_def reads_hex_def rd_Cons escape_facts)
qed

lemma repr_char_cons: "\<exists>d ds. repr_char c = d # ds"
  by (simp add: repr_char_def)

text \<open>The last byte of an escape is not the terminator.\<close>

lemma repr_char_last: "rd (pre @ repr_char c @ suf) (length pre + (length (repr_char c) - 1)) \<noteq> Some NUL"
  "rd (pre @ repr_char c @ suf) (length pre + (length (repr_char c) - 1)) \<noteq> None"
proof -
  have "last (repr_char c) \<noteq> NUL"
    using print_02x_facts(1) [of c] isprint_not_NUL [of c]
    by (auto simp: repr_char_def print_02x_def)
  moreover obtain d ds where "repr_char c = d # ds" using repr_char_cons by blast
  then have "rd (repr_char c @ suf) (length (repr_char c) - 1) = Some (last (repr_char c))"
    by (simp add: rd_def nth_append last_conv_nth)
  ultimately show "rd (pre @ repr_char c @ suf) (length pre + (length (repr_char c) - 1)) \<noteq> Some NUL"
    "rd (pre @ repr_char c @ suf) (length pre + (length (repr_char c) - 1)) \<noteq> None"
    by (simp_all add: rd_append)
qed

lemma arg_loop_turn:
  assumes "turn_in_quotes line p = Some (Inr t)" "turn_char t = Some c" "\<not> turn_done t"
    "turn_inq t" "\<not> turn_insq t" "sdscatlen al s [c] 1 = Some cur"
    "rd line (p + turn_skip t) = Some h" "h \<noteq> NUL"
  shows "arg_loop al line p True False (Some s) = arg_loop al line (p + turn_skip t + 1) True False cur"
  using assms by (subst arg_loop.simps) (simp add: Let_def)

lemma arg_loop_quoted:
  assumes "sds_rep s t" "length t + length p < sds_limit"
  shows "\<exists>s'. arg_loop (\<lambda>_. True) (pre @ concat (map repr_char p) @ [DQUOTE, NUL]) (length pre) True False
      (Some s) = Some (Inr (Some s', length pre + length (concat (map repr_char p)) + 1)) \<and> sds_rep s' (t @ p)"
  using assms
proof (induction p arbitrary: pre s t)
  case Nil
  have "turn_in_quotes [DQUOTE, NUL] 0 = Some (Inr \<lparr>turn_char = None, turn_skip = 0, turn_inq = True,
      turn_insq = False, turn_done = True\<rparr>)"
    by (simp add: turn_in_quotes_def close_quote_def rd_Cons)
  then show ?case
    using Nil rd_append [of pre "[DQUOTE, NUL]" 0]
    by (subst arg_loop.simps) (simp add: turn_at rd_Cons)
next
  case (Cons c p)
  let ?suf = "concat (map repr_char p) @ [DQUOTE, NUL]"
  let ?k = "length (repr_char c)"
  have k: "length pre + (?k - 1) + 1 = length (pre @ repr_char c)"
    using repr_char_cons [of c] by auto
  have l: "length t + length [c] < sds_limit" "length (t @ [c]) + length p < sds_limit"
    using Cons.prems(2) by simp_all
  obtain s1 where s1: "sdscatlen (\<lambda>_. True) s [c] 1 = Some (Some s1)" "sds_rep s1 (t @ [c])"
    using sds.append_text [OF Cons.prems(1) l(1)] by auto
  obtain h where h: "rd (pre @ repr_char c @ ?suf) (length pre + (?k - 1)) = Some h" "h \<noteq> NUL"
    using repr_char_last [of pre c ?suf] by blast
  have "turn_in_quotes (pre @ repr_char c @ ?suf) (length pre) =
     Some (Inr \<lparr>turn_char = Some c, turn_skip = length (repr_char c) - 1, turn_inq = True,
                turn_insq = False, turn_done = False\<rparr>)"
    by (simp only: turn_at turn_repr_char)
  note turn = arg_loop_turn [OF this _ _ _ _ s1(1)]
  have "arg_loop (\<lambda>_. True) (pre @ repr_char c @ ?suf) (length pre) True False (Some s)
    = arg_loop (\<lambda>_. True) (pre @ repr_char c @ ?suf) (length (pre @ repr_char c)) True False (Some s1)"
    using turn [of h] h unfolding k [symmetric] by simp
  with Cons.IH [OF s1(2) l(2), of "pre @ repr_char c"] show ?case by auto
qed

lemma skip_blanks_stay: "rd line p = Some c \<Longrightarrow> \<not> isspace c \<Longrightarrow> skip_blanks line p = Some p"
  by (subst skip_blanks.simps) simp

lemma sdssplitargs_quoted:
  assumes "length p < sds_limit"
  shows "\<exists>s. sdssplitargs (\<lambda>_. True) (quoted p @ [NUL]) = Some (Some [Some s]) \<and> sds_rep s p"
proof -
  let ?body = "concat (map repr_char p)"
  let ?line = "[DQUOTE] @ ?body @ [DQUOTE, NUL]"
  let ?n = "Suc (Suc (length ?body))"
  have line: "quoted p @ [NUL] = ?line" "length ?line = Suc ?n" by (simp_all add: quoted_def)
  obtain s0 where s0: "sdsempty (\<lambda>_. True) = Some (Some s0)" "sds_rep s0 ''''" using sdsempty_ok by blast
  obtain s where s: "arg_loop (\<lambda>_. True) ?line (length [DQUOTE]) True False (Some s0)
      = Some (Inr (Some s, length [DQUOTE] + length ?body + 1))" "sds_rep s ('''' @ p)"
    using arg_loop_quoted [OF s0(2), of p "[DQUOTE]"] assms by auto
  have first: "arg_loop (\<lambda>_. True) ?line 0 False False (Some s0) = Some (Inr (Some s, ?n))"
    using s(1) by (subst arg_loop.simps) (simp add: turn_plain_def rd_Cons)
  have nsp: "\<not> isspace DQUOTE" "\<not> isspace NUL" by (simp_all add: isspace_def byte_def)
  have ends: "rd ?line 0 = Some DQUOTE" "rd ?line ?n = Some NUL"
    by (simp_all add: rd_def nth_append)
  have "args_loop (Suc (Suc ?n)) (\<lambda>_. True) ?line 0 [] = Some (Inr [Some s])"
    using ends skip_blanks_stay [OF ends(1) nsp(1)] skip_blanks_stay [OF ends(2) nsp(2)] s0(1) first
    by (simp only: args_loop.simps bind.bind_lunit) simp
  then show ?thesis using s(2) line by (simp add: sdssplitargs_def)
qed

section \<open>Any line\<close>

text \<open>A line with its terminator at \<open>z\<close>, its first NUL.\<close>

definition terminated :: "bytes \<Rightarrow> nat \<Rightarrow> bool" where
  "terminated line z \<longleftrightarrow> z < length line \<and> line ! z = NUL \<and> (\<forall>i < z. line ! i \<noteq> NUL)"

lemma terminated_rd:
  assumes "terminated line z"
  shows "p \<le> z \<Longrightarrow> rd line p = Some (line ! p)" "p \<le> z \<Longrightarrow> line ! p \<noteq> NUL \<Longrightarrow> p < z"
  using assms by (auto simp: terminated_def le_less)

lemma reads_hex_ok:
  assumes z: "terminated line z" and "p < z"
  shows "\<exists>b. reads_hex line p = Some b \<and> (b \<longrightarrow> p + 3 < z)"
proof -
  note rd = terminated_rd [OF z]
  show ?thesis
  proof (cases "line ! (p + 1) = CHR ''x''")
    case False
    then have "reads_hex line p = Some False" using rd(1) [of "p + 1"] assms(2) by (simp add: reads_hex_def)
    then show ?thesis by blast
  next
    case True
    then have p1: "p + 1 < z" using rd(2) [of "p + 1"] assms(2) by simp
    show ?thesis
    proof (cases "is_hex_digit (line ! (p + 2))")
      case False
      then have "reads_hex line p = Some False"
        using rd(1) [of "p + 1"] rd(1) [of "p + 2"] p1 True by (simp add: reads_hex_def)
      then show ?thesis by blast
    next
      case hex: True
      then have "line ! (p + 2) \<noteq> NUL" by (auto simp: is_hex_digit_def byte_def)
      then have p2: "p + 2 < z" using rd(2) [of "p + 2"] p1 by simp
      have "line ! (p + 3) \<noteq> NUL" if "is_hex_digit (line ! (p + 3))"
        using that by (auto simp: is_hex_digit_def byte_def)
      then have "is_hex_digit (line ! (p + 3)) \<Longrightarrow> p + 3 < z" using rd(2) [of "p + 3"] p2 by simp
      then show ?thesis
        using rd(1) [of "p + 1"] rd(1) [of "p + 2"] rd(1) [of "p + 3"] p1 p2 True hex
        by (simp add: reads_hex_def)
    qed
  qed
qed

text \<open>A turn stays in the line, and ends before the terminator unless it is done.\<close>

definition turn_ok :: "bytes \<Rightarrow> nat \<Rightarrow> nat \<Rightarrow> (unit + arg_turn) run \<Rightarrow> bool" where
  "turn_ok line z p r \<longleftrightarrow>
     (\<exists>x. r = Some x \<and> (\<forall>t. x = Inr t \<longrightarrow> p + turn_skip t \<le> z
        \<and> (line ! p \<noteq> NUL \<or> \<not> turn_done t \<longrightarrow> p + turn_skip t < z)
        \<and> (turn_char t \<noteq> None \<longrightarrow> \<not> turn_done t)))"

lemma turn_ok_simps [simp]:
  "turn_ok line z p (Some (Inl ()))"
  "turn_ok line z p (Some (Inr t)) \<longleftrightarrow> p + turn_skip t \<le> z
     \<and> (line ! p \<noteq> NUL \<or> \<not> turn_done t \<longrightarrow> p + turn_skip t < z)
     \<and> (turn_char t \<noteq> None \<longrightarrow> \<not> turn_done t)"
  by (simp_all add: turn_ok_def)

lemma close_quote_ok:
  assumes z: "terminated line z" and p: "p < z" and t: "turn_skip t = 0" "turn_char t = None"
  shows "turn_ok line z p (close_quote line p t)"
  using terminated_rd(1) [OF z, of "p + 1"] p t by (auto simp: turn_ok_def close_quote_def)

lemma turns_ok:
  assumes z: "terminated line z" and p: "p \<le> z"
  shows "turn_ok line z p (turn_in_quotes line p)" "turn_ok line z p (turn_in_single_quotes line p)"
    "turn_ok line z p (turn_plain line p)"
proof -
  note rd0 = terminated_rd [OF z p]
  note rd1 = terminated_rd [OF z, of "p + 1"]
  show "turn_ok line z p (turn_plain line p)"
    using rd0 p by (simp add: turn_plain_def Let_def)
  show "turn_ok line z p (turn_in_single_quotes line p)"
  proof (cases "line ! p = BACKSLASH")
    case True
    then have "p < z" using rd0(2) by auto
    then show ?thesis
      using True rd0(1) rd1 by (simp add: turn_in_single_quotes_def Let_def)
  next
    case False
    then show ?thesis
      using rd0 p close_quote_ok [OF z] by (simp add: turn_in_single_quotes_def Let_def)
  qed
  show "turn_ok line z p (turn_in_quotes line p)"
  proof (cases "line ! p = BACKSLASH")
    case True
    then have "p < z" using rd0(2) by auto
    then obtain b where b: "reads_hex line p = Some b" "b \<longrightarrow> p + 3 < z" using reads_hex_ok [OF z] by blast
    show ?thesis
      using True rd0(1) rd1 b \<open>p < z\<close> by (auto simp: turn_in_quotes_def Let_def)
  next
    case False
    then show ?thesis
      using rd0 p close_quote_ok [OF z] by (simp add: turn_in_quotes_def Let_def)
  qed
qed

text \<open>The token that is being built is a string no longer than the part of the line behind it.\<close>

definition token_ok :: "nat \<Rightarrow> sds option \<Rightarrow> bool" where
  "token_ok p cur \<longleftrightarrow> (\<exists>s t. cur = Some s \<and> sds_rep s t \<and> length t \<le> p)"

lemma arg_loop_ok:
  assumes z: "terminated line z" and p: "p \<le> z" and lim: "z < sds_limit" and cur: "token_ok p cur"
  shows "\<exists>r. arg_loop (\<lambda>_. True) line p inq insq cur = Some r
    \<and> (\<forall>cur' q. r = Inr (cur', q) \<longrightarrow> p \<le> q \<and> q \<le> z \<and> (line ! p \<noteq> NUL \<longrightarrow> p < q) \<and> token_ok q cur')"
  using p cur
proof (induction "z - p" arbitrary: p inq insq cur rule: less_induct)
  case less
  let ?r = "if inq then turn_in_quotes line p else if insq then turn_in_single_quotes line p
           else turn_plain line p"
  have "turn_ok line z p ?r" using turns_ok [OF z less.prems(1)] by simp
  then obtain x where x: "?r = Some x" "\<And>t. x = Inr t \<Longrightarrow> p + turn_skip t \<le> z"
    "\<And>t. x = Inr t \<Longrightarrow> line ! p \<noteq> NUL \<or> \<not> turn_done t \<Longrightarrow> p + turn_skip t < z"
    "\<And>t. x = Inr t \<Longrightarrow> turn_char t \<noteq> None \<Longrightarrow> \<not> turn_done t"
    unfolding turn_ok_def by blast
  show ?case
  proof (cases x)
    case (Inl u)
    then show ?thesis using x(1) by (subst arg_loop.simps) simp
  next
    case (Inr t)
    let ?p = "p + turn_skip t"
    have here: "rd line ?p = Some (line ! ?p)" using x(2) [OF Inr] terminated_rd(1) [OF z] by blast
    obtain s u where s: "cur = Some s" "sds_rep s u" "length u \<le> p" using less.prems(2) by (auto simp: token_ok_def)
    have "\<exists>cur1. (case turn_char t of None \<Rightarrow> Some cur
        | Some c \<Rightarrow> do { s \<leftarrow> cur; sdscatlen (\<lambda>_. True) s [c] 1 }) = Some cur1
      \<and> token_ok (if turn_char t = None then p else Suc p) cur1"
    proof (cases "turn_char t")
      case None
      then show ?thesis using less.prems(2) by simp
    next
      case (Some c)
      have "length u + length [c] < sds_limit" using s(3) x(3) [OF Inr] x(4) [OF Inr] Some lim by simp
      from sds.append_text [OF s(2) this] obtain s' where s': "sdscatlen (\<lambda>_. True) s [c] 1 = Some (Some s')"
        "sds_rep s' (u @ [c])" by auto
      then have "token_ok (Suc p) (Some s')" using s(3) unfolding token_ok_def by fastforce
      with s'(1) show ?thesis using Some s(1) by simp
    qed
    then obtain cur1 where cur1: "(case turn_char t of None \<Rightarrow> Some cur
        | Some c \<Rightarrow> do { s \<leftarrow> cur; sdscatlen (\<lambda>_. True) s [c] 1 }) = Some cur1"
      "token_ok (if turn_char t = None then p else Suc p) cur1" by blast
    have mono: "token_ok a c \<Longrightarrow> a \<le> b \<Longrightarrow> token_ok b c" for a b c
      using le_trans unfolding token_ok_def by blast
    show ?thesis
    proof (cases "turn_done t")
      case True
      have "turn_char t = None" using x(4) [OF Inr] True by blast
      then have tok: "token_ok p cur1" using cur1(2) by simp
      let ?q = "if line ! ?p \<noteq> NUL then ?p + 1 else ?p"
      have "line ! ?p \<noteq> NUL \<Longrightarrow> ?p < z" using terminated_rd(2) [OF z x(2) [OF Inr]] by blast
      moreover have "line ! p \<noteq> NUL \<Longrightarrow> line ! ?p \<noteq> NUL"
        using x(3) [OF Inr] z by (auto simp: terminated_def)
      ultimately have q: "?q \<le> z" "p \<le> ?q" "line ! p \<noteq> NUL \<Longrightarrow> p < ?q"
        using x(2) [OF Inr] by auto
      have "arg_loop (\<lambda>_. True) line p inq insq cur = Some (Inr (cur1, ?q))"
        using x(1) Inr cur1(1) here True by (subst arg_loop.simps) (simp add: Let_def)
      then show ?thesis using q mono [OF tok q(2)] by auto
    next
      case False
      have lt: "?p < z" using x(3) [OF Inr] False by blast
      then have "line ! ?p \<noteq> NUL" using z by (simp add: terminated_def)
      then have eq: "arg_loop (\<lambda>_. True) line p inq insq cur
        = arg_loop (\<lambda>_. True) line (?p + 1) (turn_inq t) (turn_insq t) cur1"
        using x(1) Inr cur1(1) here False by (subst arg_loop.simps) (simp add: Let_def)
      have "token_ok (?p + 1) cur1" using mono [OF cur1(2)] by (simp split: if_splits)
      from less.hyps [OF _ _ this, of "turn_inq t" "turn_insq t"] lt
      obtain r where "arg_loop (\<lambda>_. True) line (?p + 1) (turn_inq t) (turn_insq t) cur1 = Some r"
        "\<And>cur' q. r = Inr (cur', q) \<Longrightarrow> ?p + 1 \<le> q \<and> q \<le> z \<and> token_ok q cur'"
        by fastforce
      then show ?thesis unfolding eq by fastforce
    qed
  qed
qed

lemma skip_blanks_ok:
  assumes z: "terminated line z" and "p \<le> z"
  shows "\<exists>q. skip_blanks line p = Some q \<and> p \<le> q \<and> q \<le> z"
  using assms(2)
proof (induction "z - p" arbitrary: p rule: less_induct)
  case less
  note rd = terminated_rd [OF z less.prems]
  show ?case
  proof (cases "line ! p \<noteq> NUL \<and> isspace (line ! p)")
    case True
    then have "p < z" using rd(2) by blast
    then have "z - (p + 1) < z - p" "p + 1 \<le> z" by simp_all
    from less.hyps [OF this] obtain q where "skip_blanks line (p + 1) = Some q" "p + 1 \<le> q" "q \<le> z"
      by blast
    with True rd(1) show ?thesis by (subst skip_blanks.simps) simp
  next
    case False
    then show ?thesis using rd(1) less.prems by (subst skip_blanks.simps) auto
  qed
qed

lemma args_loop_ok:
  assumes z: "terminated line z" and lim: "z < sds_limit"
  shows "p \<le> z \<Longrightarrow> z - p < fuel \<Longrightarrow> (\<forall>v \<in> set vector. v \<noteq> None) \<Longrightarrow>
    \<exists>r. args_loop fuel (\<lambda>_. True) line p vector = Some r
      \<and> (\<forall>vs. r = Inr vs \<longrightarrow> (\<forall>v \<in> set vs. v \<noteq> None))"
proof (induction fuel arbitrary: p vector)
  case (Suc fuel)
  obtain q where q: "skip_blanks line p = Some q" "p \<le> q" "q \<le> z"
    using skip_blanks_ok [OF z Suc.prems(1)] by blast
  note rd = terminated_rd [OF z q(3)]
  show ?case
  proof (cases "line ! q = NUL")
    case True
    then show ?thesis using q rd(1) Suc.prems(3) by simp
  next
    case False
    obtain s where s: "sdsempty (\<lambda>_. True) = Some (Some s)" "sds_rep s ''''" using sdsempty_ok by blast
    then have "token_ok q (Some s)" by (auto simp: token_ok_def)
    from arg_loop_ok [OF z q(3) lim this, of False False] False
    obtain r where r: "arg_loop (\<lambda>_. True) line q False False (Some s) = Some r"
      "\<And>cur' q'. r = Inr (cur', q') \<Longrightarrow> q < q' \<and> q' \<le> z \<and> token_ok q' cur'" by blast
    show ?thesis
    proof (cases r)
      case (Inl u)
      then show ?thesis using q(1) rd(1) False s(1) r(1) by simp
    next
      case (Inr x)
      obtain cur' q' where x: "r = Inr (cur', q')" using Inr by (cases x) simp
      have "z - q' < fuel" "q' \<le> z" "cur' \<noteq> None"
        using r(2) [OF x] q Suc.prems(1,2) by (auto simp: token_ok_def)
      with Suc.IH [of q' "vector @ [cur']"] Suc.prems(3)
      show ?thesis using q(1) rd(1) False s(1) r(1) x by simp
    qed
  qed
qed simp

lemma sdssplitargs_returns:
  assumes z: "terminated line z" and lim: "z < sds_limit"
  shows "\<exists>r. sdssplitargs (\<lambda>_. True) line = Some r \<and> (\<forall>vs. r = Some vs \<longrightarrow> None \<notin> set vs)"
proof -
  have "z - 0 < length line + 1" using z by (simp add: terminated_def)
  from args_loop_ok [OF z lim _ this, of "[]"]
  obtain r where "args_loop (length line + 1) (\<lambda>_. True) line 0 [] = Some r"
    "\<forall>vs. r = Inr vs \<longrightarrow> (\<forall>v \<in> set vs. v \<noteq> None)" by auto
  then show ?thesis unfolding sdssplitargs_def by (cases r) auto
qed

end
