(* ===== verification/Sds_Format.thy ===== *)
theory Sds_Format
  imports Sds_Strings
begin

text \<open>
  \<open>sdscatfmt\<close>: it appends the text that the format and its arguments stand for. While it runs
  the string has no terminator, so the invariant of its loop is a string whose last cell is
  arbitrary. A format that ends in a single percent sign is read past its end.
\<close>

section \<open>The text of a format\<close>

fun format_text :: "bytes \<Rightarrow> fmt_arg list \<Rightarrow> bytes run" where
  "format_text [] args = Some []"
| "format_text (c # fmt) args =
     (if c = CHR ''%'' then
        (case fmt of
           [] \<Rightarrow> None
         | d # fmt' \<Rightarrow>
             if d \<in> set ''sSiIuU'' then do {
               (bs, rest) \<leftarrow> fmt_arg_text d args;
               out \<leftarrow> format_text fmt' rest;
               Some (bs @ out)
             }
             else do { out \<leftarrow> format_text fmt' args; Some (d # out) })
      else do { out \<leftarrow> format_text fmt args; Some (c # out) })"

section \<open>One append without the terminator\<close>

definition sds_open :: "sds \<Rightarrow> bytes \<Rightarrow> bool" where
  "sds_open s t \<longleftrightarrow> (\<exists>c. sds_cells s t c)"

lemma sds_openI: "sds_cells s t c \<Longrightarrow> sds_open s t"
  by (auto simp: sds_open_def)

lemma open_room:
  assumes "sds_open s t" "length t + k < sds_limit"
  shows "\<exists>s'. non_null (sdsMakeRoomFor (\<lambda>_. True) s k) = Some s' \<and> sds_open s' t \<and> k \<le> sdsavail s'"
proof -
  obtain c where "sds_cells s t c" using assms(1) by (auto simp: sds_open_def)
  from sdsMakeRoomFor_returns [OF this assms(2), of "\<lambda>_. True"]
  show ?thesis by (auto simp: non_null_def intro: sds_openI elim!: returns_total)
qed

lemma inclen_ok:
  assumes "hdr_ok s" "n \<le> sdsavail s"
  shows "sdsinclen s n = sdssetlen s (sdslen s + n)"
  using assms(1)
proof (cases rule: hdr_ok_cases)
  case small
  then have "n = 0" "sdslen s < 32" using assms(2) by simp_all
  with small show ?thesis by (simp add: sdsinclen_def sdssetlen_def)
next
  case (wide b)
  then show ?thesis by (simp add: sdsinclen_def sdssetlen_def)
qed

lemma open_append:
  assumes "sds_open s t" "length u \<le> sdsavail s"
  shows "\<exists>cells. blit (sbuf s) (length t) (map Some u) = Some cells
    \<and> sds_open (sdsinclen (s\<lparr>sbuf := cells\<rparr>) (length u)) (t @ u)"
proof -
  obtain c where s: "sds_cells s t c" using assms(1) by (auto simp: sds_open_def)
  note rep = sds_repD [OF s]
  have le: "length t + length u \<le> sdsalloc s" using assms(2) avail_eq [OF rep(1)] rep(2,4) by simp
  then have lt: "length t + length u < length (sbuf s)" using rep(3) by simp
  let ?cells = "take (length t) (sbuf s) @ map Some u @ drop (length t + length u) (sbuf s)"
  have "blit (sbuf s) (length t) (map Some u) = Some ?cells" using lt by simp
  moreover have "take (length (t @ u) + 1) ?cells = map Some (t @ u) @ [sbuf s ! (length t + length u)]"
    using rep(6) lt by (simp add: take_Suc_conv_app_nth hd_drop_conv_nth take_Suc)
  then have "sds_cells (sdssetlen (s\<lparr>sbuf := ?cells\<rparr>) (length (t @ u))) (t @ u)
      (sbuf s ! (length t + length u))"
    using setlen_ok [OF rep(1), of "length (t @ u)"] le rep(3) lt
    by (simp add: sds_cells_def)
  then have "sds_open (sdsinclen (s\<lparr>sbuf := ?cells\<rparr>) (length u)) (t @ u)"
    using inclen_ok [of "s\<lparr>sbuf := ?cells\<rparr>" "length u"] rep(1,2) assms(2) by (auto intro: sds_openI)
  ultimately show ?thesis by blast
qed

lemma fmt_put_ok:
  assumes "sds_open s t" "length t + length u < sds_limit"
  shows "\<exists>s'. fmt_put (\<lambda>_. True) s (length t) u = Some (s', length (t @ u)) \<and> sds_open s' (t @ u)"
proof -
  obtain s1 where s1: "(if sdsavail s < length u then non_null (sdsMakeRoomFor (\<lambda>_. True) s (length u))
      else Some s) = Some s1" "sds_open s1 t" "length u \<le> sdsavail s1"
    using open_room [OF assms] assms(1) by (cases "sdsavail s < length u") auto
  from open_append [OF s1(2,3)] s1(1) show ?thesis by (auto simp: fmt_put_def)
qed

lemma fmt_char_ok:
  assumes "sds_open s t" "1 \<le> sdsavail s"
  shows "\<exists>s'. fmt_char s (length t) c = Some (s', length (t @ [c])) \<and> sds_open s' (t @ [c])"
proof -
  from open_append [OF assms(1), of "[c]"] assms(2) obtain cells where
    cells: "blit (sbuf s) (length t) [Some c] = Some cells"
    "sds_open (sdsinclen (s\<lparr>sbuf := cells\<rparr>) 1) (t @ [c])" by auto
  then have "length t < length (sbuf s)" by (simp add: blit_def split: if_splits)
  then have "put (sbuf s) (length t) c = Some cells"
    using cells(1) by (simp add: upd_conv_take_nth_drop)
  with cells(2) show ?thesis by (simp add: fmt_char_def)
qed

section \<open>The loop\<close>

lemma room_for_one:
  assumes "sds_open s t" "length t + 1 < sds_limit"
  shows "\<exists>s'. (if sdsavail s = 0 then non_null (sdsMakeRoomFor (\<lambda>_. True) s 1) else Some s) = Some s'
    \<and> sds_open s' t \<and> 1 \<le> sdsavail s'"
  using open_room [OF assms] assms(1) by (cases "sdsavail s = 0") auto

lemma catfmt_loop_text:
  assumes "format_text suf args = Some out" "NUL \<notin> set suf" "sds_open s t"
    "length t + length out + 1 < sds_limit"
  shows "\<exists>s'. catfmt_loop (\<lambda>_. True) (pre @ suf @ NUL # post) (length pre) args s (length t)
      = Some (s', length (t @ out)) \<and> sds_open s' (t @ out)"
  using assms
proof (induction "length suf" arbitrary: pre suf args s t out rule: less_induct)
  case less
  let ?fmt = "\<lambda>suf. pre @ suf @ NUL # post"
  obtain s1 where s1: "(if sdsavail s = 0 then non_null (sdsMakeRoomFor (\<lambda>_. True) s 1) else Some s) = Some s1"
    "sds_open s1 t" "1 \<le> sdsavail s1"
    using room_for_one [OF less.prems(3)] less.prems(4) by auto
  show ?case
  proof (cases suf)
    case Nil
    with less.prems show ?thesis by (subst catfmt_loop.simps) simp
  next
    case (Cons c suf1)
    have c: "c \<noteq> NUL" using less.prems(2) Cons by auto
    show ?thesis
    proof (cases "c = CHR ''%''")
      case False
      then obtain out1 where out: "format_text suf1 args = Some out1" "out = c # out1"
        using less.prems(1) Cons by (auto split: Option.bind_splits)
      obtain s2 where s2: "fmt_char s1 (length t) c = Some (s2, length (t @ [c]))" "sds_open s2 (t @ [c])"
        using fmt_char_ok [OF s1(2,3)] by blast
      have "catfmt_loop (\<lambda>_. True) (?fmt suf) (length pre) args s (length t)
        = catfmt_loop (\<lambda>_. True) ((pre @ [c]) @ suf1 @ NUL # post) (length (pre @ [c])) args s2 (length (t @ [c]))"
        using s1(1) s2(1) c False Cons
        by (subst catfmt_loop.simps) (simp add: nth_append)
      with less.hyps [OF _ out(1) _ s2(2), of "pre @ [c]"] out(2) less.prems(2,4) Cons
      show ?thesis by auto
    next
      case True
      then obtain d suf2 where suf1: "suf1 = d # suf2"
        using less.prems(1) Cons by (auto split: list.splits)
      have rd: "rd (?fmt suf) (length pre + 1) = Some d"
        using Cons suf1 by (simp add: rd_def nth_append)
      show ?thesis
      proof (cases "d \<in> set ''sSiIuU''")
        case False
        then obtain out1 where out: "format_text suf2 args = Some out1" "out = d # out1"
          using less.prems(1) Cons True suf1 by (auto split: Option.bind_splits)
        obtain s2 where s2: "fmt_char s1 (length t) d = Some (s2, length (t @ [d]))" "sds_open s2 (t @ [d])"
          using fmt_char_ok [OF s1(2,3)] by blast
        have "catfmt_loop (\<lambda>_. True) (?fmt suf) (length pre) args s (length t)
          = catfmt_loop (\<lambda>_. True) ((pre @ [c, d]) @ suf2 @ NUL # post) (length (pre @ [c, d])) args s2
              (length (t @ [d]))"
          using s1(1) s2(1) rd False True Cons suf1
          by (subst catfmt_loop.simps) (simp add: nth_append)
        with less.hyps [OF _ out(1) _ s2(2), of "pre @ [c, d]"] out(2) less.prems(2,4) Cons suf1
        show ?thesis by auto
      next
        case dir: True
        then obtain bs rest out1 where out: "fmt_arg_text d args = Some (bs, rest)"
          "format_text suf2 rest = Some out1" "out = bs @ out1"
          using less.prems(1) Cons True suf1 by (auto split: Option.bind_splits)
        have "length t + length bs < sds_limit" using less.prems(4) out(3) by simp
        then obtain s2 where s2: "fmt_put (\<lambda>_. True) s1 (length t) bs = Some (s2, length (t @ bs))"
          "sds_open s2 (t @ bs)"
          using fmt_put_ok [OF s1(2)] by blast
        have "catfmt_loop (\<lambda>_. True) (?fmt suf) (length pre) args s (length t)
          = catfmt_loop (\<lambda>_. True) ((pre @ [c, d]) @ suf2 @ NUL # post) (length (pre @ [c, d])) rest s2
              (length (t @ bs))"
          using s1(1) s2(1) rd dir True Cons suf1 out(1)
          by (subst catfmt_loop.simps) (simp add: nth_append)
        with less.hyps [OF _ out(2) _ s2(2), of "pre @ [c, d]"] out(3) less.prems(2,4) Cons suf1
        show ?thesis by auto
      qed
    qed
  qed
qed

lemma sdscatfmt_text:
  assumes s: "sds_rep s t" and f: "NUL \<notin> set f" "format_text f args = Some out"
    and lim: "2 * length t + 2 * length f + length out + 1 < sds_limit"
  shows "\<exists>s'. sdscatfmt (\<lambda>_. True) s (f @ NUL # post) args = Some s' \<and> sds_rep s' (t @ out)"
proof -
  have cstr: "cstr (f @ NUL # post) = f" by (rule cstr_append_NUL [OF f(1)])
  have sz: "size_t (length t + length f * 2) = length t + length f * 2"
    using lim by (simp add: sds_limit_def)
  obtain s1 where s1: "non_null (sdsMakeRoomFor (\<lambda>_. True) s (length t + length f * 2)) = Some s1"
    "sds_open s1 t"
    using open_room [OF sds_openI [OF s], of "length t + length f * 2"] lim by auto
  obtain s2 where s2: "catfmt_loop (\<lambda>_. True) (f @ NUL # post) 0 args s1 (length t)
      = Some (s2, length (t @ out))" "sds_open s2 (t @ out)"
    using catfmt_loop_text [OF f(2,1) s1(2), of "[]" post] lim by auto
  obtain c where c: "sds_cells s2 (t @ out) c" using s2(2) by (auto simp: sds_open_def)
  note rep = sds_repD [OF c]
  have "sds_rep (s2\<lparr>sbuf := (sbuf s2)[length (t @ out) := Some NUL]\<rparr>) (t @ out)"
    using rep by (simp add: sds_cells_def take_Suc_conv_app_nth)
  then show ?thesis
    using s1(1) s2(1) rep(5)
    by (simp add: sdscatfmt_def Let_def sds_repD(2) [OF s] cstr sz del: length_append)
qed

text \<open>A percent sign at the end: the terminator is taken for a directive, and the loop goes on
  behind it.\<close>

lemma sdscatfmt_percent_end:
  assumes s: "sds_rep s t" and f: "NUL \<notin> set f" "CHR ''%'' \<notin> set f"
    and lim: "2 * length t + 3 * length f + 4 < sds_limit"
  shows "sdscatfmt (\<lambda>_. True) s (f @ [CHR ''%'', NUL]) args = None"
proof -
  have cstr: "cstr (f @ [CHR ''%'', NUL]) = f @ ''%''"
    using cstr_append_NUL [of "f @ ''%''" "[]"] f(1) by simp
  let ?m = "length t + length (f @ ''%'') * 2"
  have sz: "size_t ?m = ?m" using lim by (simp add: sds_limit_def)
  have loop: "catfmt_loop (\<lambda>_. True) (pre @ suf @ [CHR ''%'', NUL]) (length pre) args s' (length u) = None"
    if "sds_open s' u" "length u + length suf + 1 < sds_limit" "NUL \<notin> set suf" "CHR ''%'' \<notin> set suf"
    for pre suf s' u
    using that
  proof (induction suf arbitrary: pre s' u)
    case Nil
    obtain s1 where s1: "(if sdsavail s' = 0 then non_null (sdsMakeRoomFor (\<lambda>_. True) s' 1) else Some s') = Some s1"
      "sds_open s1 u" "1 \<le> sdsavail s1"
      using room_for_one [OF Nil(1)] Nil(2) by auto
    obtain s2 where s2: "fmt_char s1 (length u) NUL = Some (s2, length (u @ [NUL]))"
      using fmt_char_ok [OF s1(2,3)] by blast
    have "catfmt_loop (\<lambda>_. True) (pre @ [CHR ''%'', NUL]) (length pre + 2) args s2 (length (u @ [NUL])) = None"
      by (subst catfmt_loop.simps) simp
    then show ?case
      using s1(1) s2 by (subst catfmt_loop.simps) (simp add: nth_append rd_def)
  next
    case (Cons c suf)
    have c: "c \<noteq> NUL" "c \<noteq> CHR ''%''" using Cons.prems(3,4) by auto
    obtain s1 where s1: "(if sdsavail s' = 0 then non_null (sdsMakeRoomFor (\<lambda>_. True) s' 1) else Some s') = Some s1"
      "sds_open s1 u" "1 \<le> sdsavail s1"
      using room_for_one [OF Cons.prems(1)] Cons.prems(2) by auto
    obtain s2 where s2: "fmt_char s1 (length u) c = Some (s2, length (u @ [c]))" "sds_open s2 (u @ [c])"
      using fmt_char_ok [OF s1(2,3)] by blast
    have "catfmt_loop (\<lambda>_. True) (pre @ (c # suf) @ [CHR ''%'', NUL]) (length pre) args s' (length u)
      = catfmt_loop (\<lambda>_. True) ((pre @ [c]) @ suf @ [CHR ''%'', NUL]) (length (pre @ [c])) args s2
          (length (u @ [c]))"
      using s1(1) s2(1) c
      by (subst catfmt_loop.simps) (simp add: nth_append)
    with Cons.IH [OF s2(2), of "pre @ [c]"] Cons.prems show ?case by simp
  qed
  obtain s1 where "non_null (sdsMakeRoomFor (\<lambda>_. True) s ?m) = Some s1" "sds_open s1 t"
    using open_room [OF sds_openI [OF s], of ?m] lim by auto
  with loop [of s1 t f "[]"] f lim show ?thesis
    by (simp add: sdscatfmt_def Let_def sds_repD(2) [OF s] cstr sz [simplified])
qed

end
