(* ===== verification/Sds_Contract.thy ===== *)
theory Sds_Contract
  imports Sds_Roundtrip Sds_Format
begin

text \<open>The properties of the dynamic strings, from the lemmas of the theories before.\<close>

section \<open>A concrete string\<close>

text \<open>A string of type 8 with the contents \<open>ab\<close>, room for two more bytes, and two cells that
  nobody wrote.\<close>

definition ab_string :: sds where
  "ab_string = \<lparr>hdr_flags = SDS_TYPE_8, hdr_len = 2, hdr_alloc = 4,
     sbuf = [Some (CHR ''a''), Some (CHR ''b''), Some NUL, None, None]\<rparr>"

lemma ab_string_rep: "sds_rep ab_string ''ab''"
  by (simp add: ab_string_def sds_cells_def hdr_ok_def sds_type_def sdslen_def sdsalloc_def)

lemma ab_string_avail: "sdsavail ab_string = 2"
  by (simp add: ab_string_def sds_type_def sdsavail_def)

section \<open>Memory\<close>

text \<open>C18: Making room keeps the string: \<open>sdsMakeRoomFor\<close> gives back a well-formed string with the
  same contents and at least the room that was asked for, whatever header type it has to change to,
  or NULL because the allocator refused; no byte outside a block is touched.\<close>

theorem sdsMakeRoomFor_refines:
  assumes "sds_rep s t" "length t + k < sds_limit"
  shows "returns al (\<lambda>s'. sds_rep s' t \<and> k \<le> sdsavail s') (sdsMakeRoomFor al s k)"
  by (rule sdsMakeRoomFor_returns [OF assms])

theorem sdsMakeRoomFor_refines_witness:
  "returns (\<lambda>n. n < 1000) (\<lambda>s'. sds_rep s' ''ab'' \<and> 300 \<le> sdsavail s')
     (sdsMakeRoomFor (\<lambda>n. n < 1000) ab_string 300)"
  by (rule sdsMakeRoomFor_refines [OF ab_string_rep]) (simp add: sds_limit_def)

text \<open>Giving the free room back keeps the string: \<open>sdsRemoveFreeSpace\<close> gives back a
  well-formed string with the same contents and no room left, or NULL.\<close>

theorem sdsRemoveFreeSpace_refines:
  assumes "sds_rep s t" "length t < sds_limit"
  shows "returns al (\<lambda>s'. sds_rep s' t \<and> sdsavail s' = 0) (sdsRemoveFreeSpace al s)"
  by (rule sdsRemoveFreeSpace_returns [OF assms])

theorem sdsRemoveFreeSpace_refines_witness:
  "returns (\<lambda>_. True) (\<lambda>s'. sds_rep s' ''ab'' \<and> sdsavail s' = 0)
     (sdsRemoveFreeSpace (\<lambda>_. True) ab_string)"
  by (rule sdsRemoveFreeSpace_refines [OF ab_string_rep]) (simp add: sds_limit_def)

text \<open>C19: The operations that fill a string refine those on byte strings: \<open>sdscatlen\<close> appends,
  \<open>sdscpylen\<close> replaces, \<open>sdsgrowzero\<close> pads with zeros, each giving a well-formed string with
  exactly that contents or NULL, with every write inside the buffer.\<close>

theorem sds_updates_refine:
  assumes "sds_rep s t" "length t + length u < sds_limit" "n < sds_limit"
  shows "returns al (\<lambda>s'. sds_rep s' (t @ u)) (sdscatlen al s u (length u))
    \<and> returns al (\<lambda>s'. sds_rep s' u) (sdscpylen al s u (length u))
    \<and> returns al (\<lambda>s'. sds_rep s' (t @ replicate (n - length t) NUL)) (sdsgrowzero al s n)"
  using sdscatlen_returns [OF assms(1) order_refl assms(2), of al]
    sdscpylen_returns [OF assms(1) order_refl, of u al] sdsgrowzero_returns [OF assms(1,3), of al] assms(2)
  by simp_all

theorem sds_updates_refine_witness:
  "returns (\<lambda>_. True) (\<lambda>s'. sds_rep s' ''abxyz'') (sdscatlen (\<lambda>_. True) ab_string ''xyz'' (length ''xyz''))
   \<and> returns (\<lambda>_. True) (\<lambda>s'. sds_rep s' ''xyz'') (sdscpylen (\<lambda>_. True) ab_string ''xyz'' (length ''xyz''))
   \<and> returns (\<lambda>_. True) (\<lambda>s'. sds_rep s' (''ab'' @ replicate 7 NUL)) (sdsgrowzero (\<lambda>_. True) ab_string 9)"
  using sds_updates_refine [OF ab_string_rep, of "''xyz''" 9 "\<lambda>_. True"]
  by (simp add: sds_limit_def)

text \<open>A new string has exactly the bytes it was made from, or zeros when it was made from NULL,
  and its capacity is its length; also when the size needs another header type.\<close>

theorem sdsnewlen_contents:
  assumes "n < sds_limit" "n \<le> length bs"
  shows "returns al (\<lambda>s. sds_rep s (take n bs) \<and> sdsalloc s = n) (sdsnewlen al (Init bs) n)
    \<and> returns al (\<lambda>s. sds_rep s (replicate n NUL) \<and> sdsalloc s = n) (sdsnewlen al Init_NULL n)"
  using sdsnewlen_returns [OF assms(1), of "Init bs" bs "take n bs" al]
    sdsnewlen_returns [OF assms(1), of Init_NULL bs "replicate n NUL" al] assms(2)
  by simp_all

theorem sdsnewlen_contents_witness:
  "returns (\<lambda>_. True) (\<lambda>s. sds_rep s ''ab'' \<and> sdsalloc s = 2) (sdsnewlen (\<lambda>_. True) (Init ''abc'') 2)
   \<and> returns (\<lambda>_. True) (\<lambda>s. sds_rep s (replicate 2 NUL) \<and> sdsalloc s = 2) (sdsnewlen (\<lambda>_. True) Init_NULL 2)"
  using sdsnewlen_contents [of 2 "''abc''" "\<lambda>_. True"] by (simp add: sds_limit_def)

text \<open>\<open>sdsIncrLen\<close> after the caller has written behind the string: a positive increment within
  the free room takes the written bytes in, a negative one cuts the string; neither fails its
  assertion, and the terminator is put back.\<close>

theorem sdsIncrLen_adjusts:
  assumes "sds_rep s t" "u \<noteq> []" "length u \<le> sdsavail s"
    "blit (sbuf s) (length t) (map Some u) = Some cells" "0 < k" "k \<le> length t"
  shows "(\<exists>s'. sdsIncrLen (s\<lparr>sbuf := cells\<rparr>) (int (length u)) = Some s' \<and> sds_rep s' (t @ u))
    \<and> (\<exists>s'. sdsIncrLen s (- int k) = Some s' \<and> sds_rep s' (take (length t - k) t))"
  using sdsIncrLen_grow [OF assms(1-4)] sdsIncrLen_shrink [OF assms(1,5,6)] by (rule conjI)

theorem sdsIncrLen_adjusts_witness:
  "(\<exists>s'. sdsIncrLen (ab_string\<lparr>sbuf := [Some (CHR ''a''), Some (CHR ''b''), Some (CHR ''c''), None, None]\<rparr>)
          (int (length ''c'')) = Some s' \<and> sds_rep s' ''abc'')
   \<and> (\<exists>s'. sdsIncrLen ab_string (- int 1) = Some s' \<and> sds_rep s' ''a'')"
  using sdsIncrLen_adjusts [OF ab_string_rep, of "''c''"
      "[Some (CHR ''a''), Some (CHR ''b''), Some (CHR ''c''), None, None]" 1]
  by (simp add: ab_string_avail) (simp add: ab_string_def blit_def)

section \<open>Numbers and formats\<close>

text \<open>The conversions of integers write the decimal form, with a sign where needed, for every
  \<open>unsigned long long\<close> and every \<open>long long\<close> but the least, into the 21 bytes of the buffer.
  (For the least one the code negates a value whose negation does not fit, which is undefined.)\<close>

theorem number_conversions_decimal:
  assumes "v < 2 ^ 64" "- (2 ^ 63) < value" "value < 2 ^ 63"
  shows "number_text (\<lambda>buf. sdsull2str buf v) = Some (dec v)
    \<and> number_text (\<lambda>buf. sdsll2str buf value) = Some (decimal_text value)
    \<and> sdsll2str buf (- (2 ^ 63)) = None"
  using sdsull2str_dec [OF assms(1)] sdsll2str_decimal [OF assms(2,3)]
  by (simp_all add: sdsll2str_def)

theorem number_conversions_decimal_witness:
  "number_text (\<lambda>buf. sdsull2str buf 1907) = Some (dec 1907)
   \<and> number_text (\<lambda>buf. sdsll2str buf (- 42)) = Some (decimal_text (- 42))"
  using number_conversions_decimal [of 1907 "- 42"] by simp

text \<open>\<open>sdscatfmt\<close> appends the text its format and arguments stand for, and reads the format
  only up to its terminator, when every directive has an argument of its type and no single percent
  sign ends the format; it makes all the room it needs.\<close>

theorem sdscatfmt_appends:
  assumes "sds_rep s t" "NUL \<notin> set f" "format_text f args = Some out"
    "2 * length t + 2 * length f + length out + 1 < sds_limit"
  shows "\<exists>s'. sdscatfmt (\<lambda>_. True) s (f @ NUL # post) args = Some s' \<and> sds_rep s' (t @ out)"
  by (rule sdscatfmt_text [OF assms])

theorem sdscatfmt_appends_witness:
  "\<exists>s'. sdscatfmt (\<lambda>_. True) ab_string (''=%s%%'' @ NUL # '''') [A_str ''xy''] = Some s'
     \<and> sds_rep s' (''ab'' @ ''=xy%'')"
  by (rule sdscatfmt_appends [OF ab_string_rep])
    (simp_all add: fmt_arg_text_def cstr_def sds_limit_def)

text \<open>A format that ends in a single percent sign makes \<open>sdscatfmt\<close> take the terminator for
  the directive and read on behind it: here, behind the end of the array.\<close>

theorem sdscatfmt_reads_past_end:
  assumes "sds_rep s t" "NUL \<notin> set f" "CHR ''%'' \<notin> set f" "2 * length t + 3 * length f + 4 < sds_limit"
  shows "sdscatfmt (\<lambda>_. True) s (f @ [CHR ''%'', NUL]) args = None"
  by (rule sdscatfmt_percent_end [OF assms])

theorem sdscatfmt_reads_past_end_witness:
  "sdscatfmt (\<lambda>_. True) ab_string (''100'' @ [CHR ''%'', NUL]) [] = None"
  by (rule sdscatfmt_reads_past_end [OF ab_string_rep]) (simp_all add: sds_limit_def)

section \<open>Text\<close>

text \<open>\<open>sdstrim\<close> removes exactly the bytes of the set, and NULs, from both ends.\<close>

theorem sdstrim_strips:
  assumes "sds_rep s t"
  shows "\<exists>s'. sdstrim s cset = Some s' \<and> sds_rep s' (strip (\<lambda>c. c \<in> set (cstr cset) \<or> c = NUL) t)"
  using sdstrim_strip [OF assms, of cset] unfolding in_cset_def .

theorem sdstrim_strips_witness:
  "\<exists>s'. sdstrim ab_string ''xa'' = Some s'
     \<and> sds_rep s' (strip (\<lambda>c. c \<in> set (cstr ''xa'') \<or> c = NUL) ''ab'')"
  by (rule sdstrim_strips [OF ab_string_rep])

text \<open>\<open>sdsrange\<close> keeps the bytes from \<open>a\<close> to \<open>b\<close>, both inclusive, both counted from the
  end when negative, and clipped to the string.\<close>

theorem sdsrange_keeps_range:
  assumes "sds_rep s t" "length t < 2 ^ 63" "- (2 ^ 63) \<le> a" "a < 2 ^ 63" "- (2 ^ 63) \<le> b" "b < 2 ^ 63 - 1"
  shows "\<exists>s'. sdsrange s a b = Some s' \<and> sds_rep s' (range_of t a b)"
  by (rule sdsrange_range_of [OF assms])

theorem sdsrange_keeps_range_witness:
  "\<exists>s'. sdsrange ab_string (- 1) 5 = Some s' \<and> sds_rep s' (range_of ''ab'' (- 1) 5)"
  by (rule sdsrange_keeps_range [OF ab_string_rep]) simp_all

text \<open>\<open>sdscmp\<close> is the lexicographic order of unsigned bytes, a prefix before its extensions.\<close>

theorem sdscmp_orders:
  assumes "sds_rep s t" "sds_rep s2 u"
  shows "\<exists>r. sdscmp s s2 = Some r \<and> (r = 0 \<longleftrightarrow> t = u)
    \<and> (r < 0 \<longleftrightarrow> (t, u) \<in> lexord {(a, b). byte a < byte b})"
  using sdscmp_lexord [OF assms] unfolding byte_less_def .

theorem sdscmp_orders_witness:
  "\<exists>r. sdscmp ab_string ab_string = Some r \<and> (r = 0 \<longleftrightarrow> ''ab'' = ''ab'')
    \<and> (r < 0 \<longleftrightarrow> (''ab'', ''ab'') \<in> lexord {(a, b). byte a < byte b})"
  by (rule sdscmp_orders [OF ab_string_rep ab_string_rep])



section \<open>The quoted form\<close>

text \<open>C31: What \<open>sdscatrepr\<close> quotes, \<open>sdssplitargs\<close> reads back: for every byte string, the quoted
  form with a terminator is split into exactly one argument, the string itself.\<close>

theorem sdscatrepr_sdssplitargs:
  assumes "sds_rep e ''''" "length (quoted p) < sds_limit"
  shows "\<exists>q. sdscatrepr (\<lambda>_. True) e p (length p) = Some (Some q) \<and> sds_rep q (quoted p)
    \<and> (\<exists>s. sdssplitargs (\<lambda>_. True) (quoted p @ [NUL]) = Some (Some [Some s]) \<and> sds_rep s p)"
proof -
  have "length (concat (map repr_char p)) \<ge> length p"
  proof (induction p)
    case (Cons c p)
    then show ?case using repr_char_cons [of c] by auto
  qed simp
  then have "length p < sds_limit" using assms(2) by (simp add: quoted_def)
  with sdssplitargs_quoted [of p] sdscatrepr_quoted [OF assms(1) order_refl, of p] assms(2)
  show ?thesis by auto
qed

theorem sdscatrepr_sdssplitargs_witness:
  "\<exists>e q s. sdscatrepr (\<lambda>_. True) e [CHR ''a'', DQUOTE, NUL] (length [CHR ''a'', DQUOTE, NUL]) = Some (Some q)
    \<and> sdssplitargs (\<lambda>_. True) (quoted [CHR ''a'', DQUOTE, NUL] @ [NUL]) = Some (Some [Some s])
    \<and> sds_rep s [CHR ''a'', DQUOTE, NUL]"
proof -
  obtain e where e: "sds_rep e ''''" using sdsempty_ok by blast
  have "length (quoted [CHR ''a'', DQUOTE, NUL]) < sds_limit"
    by (simp add: quoted_def repr_char_def print_02x_def sds_limit_def)
  from sdscatrepr_sdssplitargs [OF e this] show ?thesis by blast
qed

text \<open>\<open>sdssplitargs\<close> returns on every terminated line: it reads nothing behind the terminator,
  terminates, and gives either NULL or tokens that are all strings.\<close>

theorem sdssplitargs_total:
  assumes "terminated line z" "z < sds_limit"
  shows "\<exists>r. sdssplitargs (\<lambda>_. True) line = Some r \<and> (\<forall>vs. r = Some vs \<longrightarrow> None \<notin> set vs)"
  by (rule sdssplitargs_returns [OF assms])

theorem sdssplitargs_total_witness:
  "\<exists>r. sdssplitargs (\<lambda>_. True) [CHR ''a'', DQUOTE, BACKSLASH, NUL] = Some r
    \<and> (\<forall>vs. r = Some vs \<longrightarrow> None \<notin> set vs)"
proof (rule sdssplitargs_total)
  show "terminated [CHR ''a'', DQUOTE, BACKSLASH, NUL] 3"
    by (auto simp: terminated_def less_Suc_eq numeral_eq_Suc)
qed (simp add: sds_limit_def)

end
