(* ===== verification/Keyvalue.thy ===== *)
theory Keyvalue
  imports Sds_Contract
begin

text \<open>
  The pairs of strings the server passes around (\<open>keyvalue.c\<close>), and the rules for code
  that works on pointers to dynamic strings. Such code never asks whether a string function
  returned NULL, so its theorems are about an allocator that has memory (\<open>mem\<close>); the
  definitions take the allocator as the parameter \<open>al\<close>, and dereferencing NULL is undefined.
\<close>

section \<open>Pointers\<close>

definition deref :: "'a option \<Rightarrow> 'a run" where "deref p = p"

text \<open>A C string: the bytes of a buffer up to the first NUL, as \<open>strcmp\<close>, \<open>strstr\<close>
  and \<open>strlen\<close> read them.\<close>

definition c_string :: "sds \<Rightarrow> bytes run" where
  "c_string s = do { n \<leftarrow> cell_strlen (sbuf s); loads (sbuf s) 0 n }"

text \<open>One byte of a string, and all of its \<open>sdslen\<close> bytes.\<close>

definition sds_char :: "sds \<Rightarrow> nat \<Rightarrow> char run" where
  "sds_char s i = do { c \<leftarrow> rd (sbuf s) i; c }"

definition sds_bytes :: "sds \<Rightarrow> bytes run" where
  "sds_bytes s = loads (sbuf s) 0 (sdslen s)"

section \<open>keyvalue.c\<close>

record keyvaluepair =
  kv_key :: "sds option"
  kv_value :: "sds option"

definition create_keyvaluepair :: "(nat \<Rightarrow> bool) \<Rightarrow> keyvaluepair run" where
  "create_keyvaluepair al = do {
     k \<leftarrow> sdsempty al;
     v \<leftarrow> sdsempty al;
     Some \<lparr>kv_key = k, kv_value = v\<rparr>
   }"

definition createkeyvalue ::
  "(nat \<Rightarrow> bool) \<Rightarrow> bytes option \<Rightarrow> bytes option \<Rightarrow> keyvaluepair run" where
  "createkeyvalue al k val = do {
     v \<leftarrow> sdsnew al val;
     k \<leftarrow> sdsnew al k;
     Some \<lparr>kv_key = k, kv_value = v\<rparr>
   }"

text \<open>The header line is not looked at.\<close>

definition create_keyvalue_from_header :: "(nat \<Rightarrow> bool) \<Rightarrow> sds \<Rightarrow> keyvaluepair run" where
  "create_keyvalue_from_header al headerline = create_keyvaluepair al"

text \<open>\<open>free\<close> takes a pointer to the start of a block or NULL. The pointers of a pair
  are behind the headers of their strings.\<close>

definition freekeyvalue :: "keyvaluepair \<Rightarrow> unit run" where
  "freekeyvalue k = (if kv_key k = None \<and> kv_value k = None then Some () else None)"

text \<open>The token \<open>i\<close>, and what is left in \<open>count\<close>. The first token is read even if the
  array has none; the tokens themselves are never NULL.\<close>

definition sdssplitnth ::
  "(nat \<Rightarrow> bool) \<Rightarrow> sds \<Rightarrow> bytes \<Rightarrow> int \<Rightarrow> (sds option \<times> nat option) run" where
  "sdssplitnth al l sep i = do {
     bs \<leftarrow> sds_bytes l;
     (tokens, count) \<leftarrow> sdssplitlen al bs (int (sdslen l)) sep 1;
     (case tokens of
        None \<Rightarrow> do { e \<leftarrow> sdsempty al; Some (e, count) }
      | Some ts \<Rightarrow> do {
          first \<leftarrow> rd ts 0;
          n \<leftarrow> count;
          if int n \<le> i then do { e \<leftarrow> sdsempty al; Some (e, count) }
          else do {
            t \<leftarrow> (if i < 0 then None else rd ts (nat i));
            ret \<leftarrow> sdsdup al t;
            Some (ret, count)
          }
        })
   }"

section \<open>Programs that return\<close>

text \<open>\<open>runs P m\<close>: the computation has no undefined behaviour and its result satisfies \<open>P\<close>;
  \<open>sees t p\<close>: the pointer \<open>p\<close> is not NULL and its string has the contents \<open>t\<close>.\<close>

abbreviation mem :: "nat \<Rightarrow> bool" where "mem \<equiv> \<lambda>_. True"

definition runs :: "('a \<Rightarrow> bool) \<Rightarrow> 'a run \<Rightarrow> bool" where
  "runs P m \<longleftrightarrow> (\<exists>x. m = Some x \<and> P x)"

definition sees :: "bytes \<Rightarrow> sds option \<Rightarrow> bool" where
  "sees t p \<longleftrightarrow> (\<exists>s. p = Some s \<and> sds_rep s t)"

definition kv_rep :: "keyvaluepair \<Rightarrow> bytes \<times> bytes \<Rightarrow> bool" where
  "kv_rep kv p \<longleftrightarrow> sees (fst p) (kv_key kv) \<and> sees (snd p) (kv_value kv)"

named_theorems run_rules \<open>one rule per operation, to be chained with \<open>runs_bind\<close>\<close>

lemma runs_simps [simp]:
  "runs P (Some x) = P x" "\<not> runs P None"
  by (simp_all add: runs_def)

lemma runs_bind:
  assumes "runs P m" "\<And>x. P x \<Longrightarrow> runs Q (f x)"
  shows "runs Q (m \<bind> f)"
  using assms by (auto simp: runs_def)

lemma runs_mono: "runs P m \<Longrightarrow> (\<And>x. P x \<Longrightarrow> Q x) \<Longrightarrow> runs Q m"
  by (auto simp: runs_def)

lemma runs_conj: "runs P m \<Longrightarrow> runs Q m \<Longrightarrow> runs (\<lambda>x. P x \<and> Q x) m"
  by (auto simp: runs_def)

lemma sees_Some [simp]: "sees t (Some s) = sds_rep s t"
  by (simp add: sees_def)

lemma sees_None [simp]: "\<not> sees t None"
  by (simp add: sees_def)

lemma sees_unique: "sees t p \<Longrightarrow> sees u p \<Longrightarrow> t = u"
  by (auto simp: sees_def dest: sds_rep_unique)

lemma returns_sees: "returns mem (\<lambda>s. sds_rep s t) r \<Longrightarrow> runs (sees t) r"
  by (auto simp: runs_def elim!: returns_total)

lemma runs_deref [run_rules]: "sees t p \<Longrightarrow> runs (\<lambda>s. sds_rep s t) (deref p)"
  by (auto simp: sees_def deref_def)

lemma deref_Some [simp]: "deref (Some x) = Some x" "deref None = None"
  by (simp_all add: deref_def)

text \<open>The operations on strings, in this form.\<close>

lemma runs_sdsempty [run_rules]: "runs (sees '''') (sdsempty mem)"
  by (rule returns_sees [OF sdsempty_returns])

lemma runs_sdsnew [run_rules]: "length (cstr u) < sds_limit \<Longrightarrow> runs (sees (cstr u)) (sdsnew mem (Some u))"
  by (rule returns_sees [OF sdsnew_returns(1)])

lemma runs_sdsnewlen [run_rules]:
  assumes "n < sds_limit" "n \<le> length bs"
  shows "runs (sees (take n bs)) (sdsnewlen mem (Init bs) n)"
proof (rule returns_sees [OF returns_mono])
  show "returns mem (\<lambda>s. sds_rep s (take n bs) \<and> sdsalloc s = n) (sdsnewlen mem (Init bs) n)"
    by (rule sdsnewlen_returns) (use assms in simp_all)
qed simp

lemma runs_sdsdup [run_rules]: "sds_rep s t \<Longrightarrow> length t < sds_limit \<Longrightarrow> runs (sees t) (sdsdup mem s)"
  by (rule returns_sees [OF sdsdup_returns])

lemma runs_sdscatlen [run_rules]:
  "sds_rep s t \<Longrightarrow> n \<le> length u \<Longrightarrow> length t + n < sds_limit \<Longrightarrow>
     runs (sees (t @ take n u)) (sdscatlen mem s u n)"
  by (rule returns_sees [OF sdscatlen_returns])

lemma runs_sdscat [run_rules]:
  "sds_rep s t \<Longrightarrow> length t + length (cstr u) < sds_limit \<Longrightarrow>
     runs (sees (t @ cstr u)) (sdscat mem s u)"
  by (rule returns_sees [OF sdscat_returns])

lemma runs_sdscatsds [run_rules]:
  "sds_rep s t \<Longrightarrow> sds_rep s2 u \<Longrightarrow> length t + length u < sds_limit \<Longrightarrow>
     runs (sees (t @ u)) (sdscatsds mem s s2)"
  by (rule returns_sees [OF sdscatsds_returns])

lemma sds_bytes_rep [simp]: "sds_rep s t \<Longrightarrow> sds_bytes s = Some t"
  by (simp add: sds_bytes_def sds_rep_loads sds_repD)

lemma sds_text_cells:
  "sds_rep s t \<Longrightarrow> \<exists>cs. sbuf s = map Some (t @ [NUL]) @ cs"
  by (rule exI [of _ "drop (length t + 1) (sbuf s)"], subst append_take_drop_id [of "length t + 1", symmetric])
    (simp add: sds_rep_def)

lemma sds_char_rep [simp]:
  assumes "sds_rep s t" "i \<le> length t"
  shows "sds_char s i = Some ((t @ [NUL]) ! i)"
proof -
  obtain cs where "sbuf s = map Some (t @ [NUL]) @ cs" using sds_text_cells [OF assms(1)] by blast
  moreover have "i < length (t @ [NUL])" using assms(2) by simp
  ultimately show ?thesis
    by (simp add: sds_char_def nth_append nth_map del: map_append)
qed

lemma c_string_cells:
  assumes "NUL \<notin> set t" "sbuf s = map Some t @ Some NUL # cs"
  shows "c_string s = Some t"
  using assms by (simp add: c_string_def cell_strlen_prefix loads_Some bslice_def)

lemma c_string_rep [simp]:
  assumes "sds_rep s t" shows "c_string s = Some (cstr t)"
proof -
  obtain cs where cs: "sbuf s = map Some (t @ [NUL]) @ cs" using sds_text_cells [OF assms] by blast
  have "\<exists>u. t @ [NUL] = cstr t @ NUL # u"
  proof (cases "dropWhile (\<lambda>c. c \<noteq> NUL) t")
    case Nil
    then have "cstr t = t" by (simp add: cstr_def takeWhile_eq_all_conv dropWhile_eq_Nil_conv)
    then show ?thesis by simp
  next
    case (Cons c u)
    then have "c = NUL" by (metis (mono_tags) hd_dropWhile list.distinct(1) list.sel(1))
    with Cons have "t = cstr t @ NUL # u"
      by (metis cstr_def takeWhile_dropWhile_id)
    then show ?thesis by (metis append.assoc append_Cons)
  qed
  then obtain u where "t @ [NUL] = cstr t @ NUL # u" ..
  then have "sbuf s = map Some (cstr t) @ Some NUL # map Some u @ cs" by (simp add: cs)
  from c_string_cells [OF _ this] show ?thesis by simp
qed

lemma runs_create_keyvaluepair [run_rules]:
  "runs (\<lambda>kv. kv_rep kv ('''', '''')) (create_keyvaluepair mem)"
  unfolding create_keyvaluepair_def
  by (rule runs_bind [OF runs_sdsempty], rule runs_bind [OF runs_sdsempty]) (simp add: kv_rep_def)

lemma runs_createkeyvalue [run_rules]:
  assumes "length (cstr k) < sds_limit" "length (cstr v) < sds_limit"
  shows "runs (\<lambda>kv. kv_rep kv (cstr k, cstr v)) (createkeyvalue mem (Some k) (Some v))"
  unfolding createkeyvalue_def
  by (rule runs_bind [OF runs_sdsnew [OF assms(2)]], rule runs_bind [OF runs_sdsnew [OF assms(1)]])
    (simp add: kv_rep_def)

section \<open>The token of a number\<close>

lemma intercalate_part: "p \<in> set ts \<Longrightarrow> length p \<le> length (intercalate sep ts)"
proof (induction ts)
  case (Cons a ts)
  then show ?case by (cases "ts = []") (auto simp: intercalate_Cons)
qed simp

lemma piece_length: "p \<in> set (split_on sep t) \<Longrightarrow> length p \<le> length t"
  using intercalate_part [of p "split_on sep t" sep] by (simp add: intercalate_split_on)

lemma splits_mem:
  "splits mem ts r \<Longrightarrow> runs (\<lambda>(tokens, count). count = Some (length ts)
     \<and> (\<exists>vs. tokens = Some vs \<and> list_all2 sds_rep vs ts)) r"
  by (auto simp: splits_def runs_def split: option.splits)

text \<open>\<open>sdssplitnth\<close> gives the piece with the number \<open>i\<close>, counted from zero, of a
  string that is not empty, and the empty string when there are fewer pieces. For the empty string
  it reads a slot of the token array that nobody has written.\<close>

theorem sdssplitnth_piece:
  assumes "sds_rep l t" "length t < sds_limit" "0 \<le> i"
  shows "(t \<noteq> [] \<longrightarrow> runs (\<lambda>(r, count). count = Some (length (split_on [c] t))
           \<and> sees (if nat i < length (split_on [c] t) then split_on [c] t ! nat i else '''') r)
         (sdssplitnth mem l [c] i))
    \<and> (t = [] \<longrightarrow> sdssplitnth mem l [c] i = None)"
proof (intro conjI impI)
  assume "t = []"
  then show "sdssplitnth mem l [c] i = None"
    using assms by (simp add: sdssplitnth_def sdssplitlen_def sds_repD rd_def)
next
  assume t: "t \<noteq> []"
  let ?ts = "split_on [c] t"
  have ne: "?ts \<noteq> []" by (rule split_on_ne)
  have "splits mem ?ts (sdssplitlen mem t (int (length t)) [c] 1)"
    using sdssplitlen_splits [of "[c]" t mem] t assms(2) by simp
  from splits_mem [OF this] obtain vs
    where vs: "sdssplitlen mem t (int (length t)) [c] 1 = Some (Some vs, Some (length ?ts))"
      "list_all2 sds_rep vs ?ts"
    by (auto simp: runs_def)
  have len: "length vs = length ?ts" using vs(2) by (rule list_all2_lengthD)
  have short: "length (?ts ! n) < sds_limit" if "n < length ?ts" for n
    using piece_length [of "?ts ! n" "[c]" t] that assms(2) by simp
  have dup: "runs (sees (?ts ! n)) (sdsdup mem (vs ! n))" if "n < length ?ts" for n
    using runs_sdsdup [OF list_all2_nthD2 [OF vs(2) that] short [OF that]] .
  show "runs (\<lambda>(r, count). count = Some (length ?ts)
      \<and> sees (if nat i < length ?ts then ?ts ! nat i else '''') r) (sdssplitnth mem l [c] i)"
    using vs len ne assms(1,3) runs_sdsempty dup [of "nat i"]
    by (cases "nat i < length ?ts") (auto simp: sdssplitnth_def sds_repD runs_def Let_def)
qed

theorem sdssplitnth_piece_witness:
  "runs (\<lambda>(r, count). count = Some (length (split_on ''b'' ''ab''))
     \<and> sees (if nat 1 < length (split_on ''b'' ''ab'') then split_on ''b'' ''ab'' ! nat 1 else '''') r)
   (sdssplitnth mem ab_string ''b'' 1)"
  using sdssplitnth_piece [OF ab_string_rep, of 1 "CHR ''b''"] by (simp add: sds_limit_def)

end
