(* ===== verification/Requester.thy ===== *)
theory Requester
  imports Keyvalue Http_Run
begin

text \<open>
  The request object (\<open>requester.c\<close>): one record per thread, filled by the callbacks of the
  HTTP parser. The strings are pointers, NULL before a request is parsed; the two lists are arrays
  of \<open>MAX_LIST_LENGTH\<close> pairs with a counter.

  The parser runs on a client state \<open>http_request run\<close>: \<open>None\<close> once a callback has had
  undefined behaviour. \<open>requestfree\<close> ends the lifetimes of the strings; what is left of it
  here is that it resets the counters.
\<close>

section \<open>The request object\<close>

definition MAX_LIST_LENGTH :: nat where "MAX_LIST_LENGTH = 100"

record http_request =
  req_type :: "sds option"
  url :: "sds option"
  http_version :: "sds option"
  req_headers :: "keyvaluepair list"
  headercount :: nat
  req_body :: "keyvaluepair list"
  bodycount :: nat
  rawbody :: "sds option"
  rawurl :: "sds option"

definition NULL_pair :: keyvaluepair where "NULL_pair = \<lparr>kv_key = None, kv_value = None\<rparr>"

definition init_threadlocalhrq :: http_request where
  "init_threadlocalhrq =
     \<lparr>req_type = None, url = None, http_version = None,
      req_headers = replicate MAX_LIST_LENGTH NULL_pair, headercount = 0,
      req_body = replicate MAX_LIST_LENGTH NULL_pair, bodycount = 0,
      rawbody = None, rawurl = None\<rparr>"

definition requestfree :: "http_request \<Rightarrow> http_request" where
  "requestfree r = r\<lparr>headercount := 0, bodycount := 0\<rparr>"

text \<open>The assignments to the elements of the arrays.\<close>

definition set_pair :: "keyvaluepair list \<Rightarrow> nat \<Rightarrow> keyvaluepair \<Rightarrow> keyvaluepair list run" where
  "set_pair kvs i kv = (if i < length kvs then Some (kvs[i := kv]) else None)"

section \<open>Cookies\<close>

text \<open>The loop that measures the value: from \<open>p\<close> up to a semicolon or the end.\<close>

function cookie_length :: "sds \<Rightarrow> nat \<Rightarrow> nat \<Rightarrow> nat run" where
  "cookie_length v p stop = do {
     c \<leftarrow> sds_char v p;
     if c \<noteq> CHR '';'' \<and> p < stop then map_option Suc (cookie_length v (p + 1) stop)
     else Some 0
   }"
  by pat_completeness auto
termination by (relation "measure (\<lambda>(v, p, stop). stop - p)") auto

declare cookie_length.simps [simp del]

text \<open>The value after \<open>name=\<close> in a header, if the name is there and followed by the sign.\<close>

definition cookie_in :: "(nat \<Rightarrow> bool) \<Rightarrow> sds \<Rightarrow> sds \<Rightarrow> nat \<Rightarrow> sds option option run" where
  "cookie_in al v cookiename start = do {
     let p = start + sdslen cookiename;
     c \<leftarrow> sds_char v p;
     if c = CHR ''='' then do {
       newlen \<leftarrow> cookie_length v (p + 1) (sdslen v);
       bs \<leftarrow> loads (sbuf v) (p + 1) newlen;
       ret \<leftarrow> sdsnewlen al (Init bs) newlen;
       Some (Some ret)
     }
     else Some None
   }"

fun cookie_loop :: "(nat \<Rightarrow> bool) \<Rightarrow> sds \<Rightarrow> keyvaluepair list \<Rightarrow> sds option run" where
  "cookie_loop al cookiename [] = sdsempty al"
| "cookie_loop al cookiename (h # hs) = do {
     k \<leftarrow> deref (kv_key h);
     name \<leftarrow> c_string k;
     if name = ''Cookie'' then do {
       v \<leftarrow> deref (kv_value h);
       hay \<leftarrow> c_string v;
       needle \<leftarrow> c_string cookiename;
       case strstr hay needle of
         None \<Rightarrow> sdsempty al
       | Some start \<Rightarrow> do {
           r \<leftarrow> cookie_in al v cookiename start;
           case r of Some ret \<Rightarrow> Some ret | None \<Rightarrow> cookie_loop al cookiename hs
         }
     }
     else cookie_loop al cookiename hs
   }"

definition get_cookie_by_name :: "(nat \<Rightarrow> bool) \<Rightarrow> http_request \<Rightarrow> sds \<Rightarrow> sds option run" where
  "get_cookie_by_name al r cookiename =
     (if length (req_headers r) < headercount r then None
      else cookie_loop al cookiename (take (headercount r) (req_headers r)))"

section \<open>The URL and the variables in it\<close>

text \<open>A loop \<open>while (i < len && url[i] != c)\<close> that stops at a space: the position, and
  whether it is the one of a space. The index is an \<open>int\<close>, here a number: they agree below
  2 GiB, and no caller has a request of more than 128 KiB.\<close>

function scan_to :: "bytes \<Rightarrow> char \<Rightarrow> nat \<Rightarrow> bool \<times> nat" where
  "scan_to u c i =
     (if i < length u \<and> u ! i \<noteq> c then
        if u ! i = CHR '' '' then (True, i) else scan_to u c (i + 1)
      else (False, i))"
  by pat_completeness auto
termination by (relation "measure (\<lambda>(u, c, i). length u - i)") auto

declare scan_to.simps [simp del]

text \<open>The same loop in \<open>on_body\<close>, without the space; the index as in \<open>scan_to\<close>.\<close>

function scan_until :: "bytes \<Rightarrow> char \<Rightarrow> nat \<Rightarrow> nat" where
  "scan_until u c i = (if i < length u \<and> u ! i \<noteq> c then scan_until u c (i + 1) else i)"
  by pat_completeness auto
termination by (relation "measure (\<lambda>(u, c, i). length u - i)") auto

declare scan_until.simps [simp del]

text \<open>The bytes from \<open>separator\<close> up to \<open>i\<close>. With nothing to copy the pointer may be one
  past the terminator.\<close>

definition piece :: "bytes \<Rightarrow> nat \<Rightarrow> nat \<Rightarrow> bytes run" where
  "piece u separator i = (if i = separator then Some [] else fetch u separator (i - separator))"

text \<open>The steps on the current entry of \<open>req_body\<close>.\<close>

definition open_entry :: "(nat \<Rightarrow> bool) \<Rightarrow> bytes \<Rightarrow> http_request \<Rightarrow> http_request run" where
  "open_entry al k r = do {
     v \<leftarrow> sdsempty al;
     e \<leftarrow> sdsempty al;
     s \<leftarrow> deref e;
     k \<leftarrow> sdscatlen al s k (length k);
     kvs \<leftarrow> set_pair (req_body r) (bodycount r) \<lparr>kv_key = k, kv_value = v\<rparr>;
     Some (r\<lparr>req_body := kvs\<rparr>)
   }"

definition close_entry :: "(nat \<Rightarrow> bool) \<Rightarrow> bytes \<Rightarrow> http_request \<Rightarrow> http_request run" where
  "close_entry al v r = do {
     kv \<leftarrow> rd (req_body r) (bodycount r);
     s \<leftarrow> deref (kv_value kv);
     v \<leftarrow> sdscatlen al s v (length v);
     kvs \<leftarrow> set_pair (req_body r) (bodycount r) (kv\<lparr>kv_value := v\<rparr>);
     Some (r\<lparr>req_body := kvs, bodycount := bodycount r + 1\<rparr>)
   }"

text \<open>The loop over the variables of the URL; \<open>i\<close> is at the question mark or at an
  ampersand.\<close>

lemma scan_to_ge: "i \<le> snd (scan_to u c i)"
proof (induction u c i rule: scan_to.induct)
  case (1 u c i)
  show ?case
  proof (cases "i < length u \<and> u ! i \<noteq> c \<and> u ! i \<noteq> CHR '' ''")
    case True
    with 1 have "i + 1 \<le> snd (scan_to u c (i + 1))" by blast
    with True show ?thesis by (subst scan_to.simps) simp
  next
    case False
    then show ?thesis by (subst scan_to.simps) auto
  qed
qed

lemma scan_toD: "p = scan_to u c i \<Longrightarrow> (b, j) = p \<Longrightarrow> i \<le> j"
  using scan_to_ge [of i u c] by (metis snd_conv)

function url_vars :: "(nat \<Rightarrow> bool) \<Rightarrow> bytes \<Rightarrow> nat \<Rightarrow> http_request \<Rightarrow> http_request run" where
  "url_vars al u i r =
     (if length u \<le> i then Some r
      else case scan_to u (CHR ''='') (i + 1) of
          (True, _) \<Rightarrow> Some r
        | (False, j) \<Rightarrow>
            if MAX_LIST_LENGTH - 2 \<le> bodycount r then Some r
            else do {
              k \<leftarrow> piece u (i + 1) j;
              r \<leftarrow> open_entry al k r;
              (case scan_to u (CHR ''&'') (j + 1) of
                 (space, m) \<Rightarrow> do {
                   v \<leftarrow> piece u (j + 1) m;
                   r \<leftarrow> close_entry al v r;
                   if space then Some r else url_vars al u m r
                 })
            })"
  by pat_completeness auto
termination
proof (relation "measure (\<lambda>(al, u, i, r). length u - i)", goal_cases)
  case (2 al u i r)
  from scan_toD [OF 2(2)] scan_toD [OF 2(7)] 2(1) show ?case by simp
qed simp

declare url_vars.simps [simp del]

definition urlparser :: "(nat \<Rightarrow> bool) \<Rightarrow> bytes \<Rightarrow> http_request \<Rightarrow> http_request run" where
  "urlparser al u r =
     (case scan_to u (CHR ''?'') 1 of
        (space, i) \<Rightarrow> do {
          path \<leftarrow> piece u 1 i;
          p \<leftarrow> sdsnewlen al (Init path) (length path);
          if space then Some (r\<lparr>url := p\<rparr>) else url_vars al u i (r\<lparr>url := p\<rparr>)
        })"

text \<open>The copy of the loop in \<open>on_body\<close>: \<open>i\<close> is at the first byte of a name.\<close>

lemma scan_until_ge: "i \<le> scan_until u c i"
proof (induction u c i rule: scan_until.induct)
  case (1 u c i)
  then show ?case by (subst scan_until.simps) auto
qed

function body_vars :: "(nat \<Rightarrow> bool) \<Rightarrow> bytes \<Rightarrow> nat \<Rightarrow> http_request \<Rightarrow> http_request run" where
  "body_vars al u i r =
     (if length u \<le> i then Some r
      else if MAX_LIST_LENGTH - 2 \<le> bodycount r then Some r
      else do {
        k \<leftarrow> piece u i (scan_until u (CHR ''='') i);
        r \<leftarrow> open_entry al k r;
        v \<leftarrow> piece u (scan_until u (CHR ''='') i + 1)
               (scan_until u (CHR ''&'') (scan_until u (CHR ''='') i + 1));
        r \<leftarrow> close_entry al v r;
        body_vars al u (scan_until u (CHR ''&'') (scan_until u (CHR ''='') i + 1) + 1) r
      })"
  by pat_completeness auto
termination
proof (relation "measure (\<lambda>(al, u, i, r). length u - i)", goal_cases)
  case (2 al u i r)
  from 2(1) scan_until_ge [of i u "CHR ''=''"]
    scan_until_ge [of "scan_until u (CHR ''='') i + 1" u "CHR ''&''"]
  show ?case by simp
qed simp

declare body_vars.simps [simp del]

section \<open>The callbacks\<close>

definition header_field_callback :: "(nat \<Rightarrow> bool) \<Rightarrow> bytes \<Rightarrow> http_request \<Rightarrow> http_request run" where
  "header_field_callback al at r =
     (if MAX_LIST_LENGTH - 2 \<le> headercount r then Some r
      else do {
        k \<leftarrow> sdsnewlen al (Init at) (length at);
        v \<leftarrow> sdsempty al;
        kvs \<leftarrow> set_pair (req_headers r) (headercount r) \<lparr>kv_key = k, kv_value = v\<rparr>;
        Some (r\<lparr>req_headers := kvs, headercount := headercount r + 1\<rparr>)
      })"

text \<open>Without a header before it, the index is minus one.\<close>

definition header_value_callback :: "(nat \<Rightarrow> bool) \<Rightarrow> bytes \<Rightarrow> http_request \<Rightarrow> http_request run" where
  "header_value_callback al at r =
     (if MAX_LIST_LENGTH < headercount r then Some r
      else if headercount r = 0 then None
      else do {
        kv \<leftarrow> rd (req_headers r) (headercount r - 1);
        s \<leftarrow> deref (kv_value kv);
        v \<leftarrow> sdscatlen al s at (length at);
        kvs \<leftarrow> set_pair (req_headers r) (headercount r - 1) (kv\<lparr>kv_value := v\<rparr>);
        Some (r\<lparr>req_headers := kvs\<rparr>)
      })"

definition my_url_callback :: "(nat \<Rightarrow> bool) \<Rightarrow> bytes \<Rightarrow> http_request \<Rightarrow> http_request run" where
  "my_url_callback al at r = do {
     p \<leftarrow> sdsnewlen al (Init at) (length at);
     s \<leftarrow> deref p;
     u \<leftarrow> sds_bytes s;
     r \<leftarrow> urlparser al u r;
     d \<leftarrow> sdsdup al s;
     Some (r\<lparr>rawurl := d\<rparr>)
   }"

definition body_callback :: "(nat \<Rightarrow> bool) \<Rightarrow> bytes \<Rightarrow> http_request \<Rightarrow> http_request run" where
  "body_callback al at r = do {
     s \<leftarrow> sdsnewlen al (Init at) (length at);
     body_vars al at 0 (r\<lparr>rawbody := s\<rparr>)
   }"

section \<open>Creating a request\<close>

text \<open>A function of the program as a callback of the parser: it returns zero and leaves the
  parser alone.\<close>

definition as_callback ::
  "(bytes \<Rightarrow> 'r \<Rightarrow> 'r run) \<Rightarrow> http_parser \<Rightarrow> bytes \<Rightarrow> 'r run \<Rightarrow> int \<times> http_parser \<times> 'r run" where
  "as_callback f p at c = (0, p, c \<bind> f at)"

definition request_settings :: "(nat \<Rightarrow> bool) \<Rightarrow> http_request run http_parser_settings" where
  "request_settings al = http_parser_settings_init
     \<lparr>on_url := Some (as_callback (my_url_callback al)),
      on_header_field := Some (as_callback (header_field_callback al)),
      on_header_value := Some (as_callback (header_value_callback al)),
      on_body := Some (as_callback (body_callback al))\<rparr>"

definition method_name :: "http_method \<Rightarrow> bytes" where
  "method_name m =
     (if m = HTTP_DELETE then ''DELETE'' else if m = HTTP_GET then ''GET''
      else if m = HTTP_HEAD then ''HEAD'' else if m = HTTP_POST then ''POST''
      else if m = HTTP_PUT then ''PUT'' else if m = HTTP_OPTIONS then ''OPTIONS''
      else ''UNKNOWN'')"

text \<open>The parser object is 32 bytes; the result of the parser is not looked at.\<close>

definition create_request :: "(nat \<Rightarrow> bool) \<Rightarrow> sds \<Rightarrow> http_request \<Rightarrow> http_request run" where
  "create_request al raw_req r =
     (if \<not> al 32 then None
      else do {
        bs \<leftarrow> sds_bytes raw_req;
        res \<leftarrow> http_parser_execute HTTP_MAX_HEADER_SIZE (http_parser_init HTTP_REQUEST)
                 (request_settings al) bs (Some r);
        case res of
          Failed \<Rightarrow> None
        | Parsed n q c \<Rightarrow> do {
            r \<leftarrow> c;
            ty \<leftarrow> sdsnew al (Some (method_name (meth q)));
            Some (r\<lparr>req_type := ty\<rparr>)
          }
      })"

end
