(* ===== verification/Http_Calls.thy ===== *)
theory Http_Calls
  imports Http_Safety
begin

text \<open>
  The order in which the parser calls its client. A client that only looks at the spans it is given
  (its callbacks return zero and leave the parser alone) sees spans that do not overlap, in the
  order of the data, and gets no header value before a header field. The contract of such a client
  is the locale \<open>tracked_callbacks\<close>: a predicate \<open>P b v c\<close> of the client state \<open>c\<close> after
  at most \<open>b\<close> bytes have been handed over, with \<open>v\<close> once a header field was among them.
\<close>

section \<open>The contract\<close>

locale passive_callbacks =
  fixes cbs :: "'c http_parser_settings"
    and step :: "data_cb \<Rightarrow> bytes \<Rightarrow> 'c \<Rightarrow> 'c"
  assumes notify_passive: "on_notify f cbs = Some cb \<Longrightarrow> cb p c = (0, p, c)"
    and data_passive: "on_data g cbs = Some dcb \<Longrightarrow> dcb p s c = (0, p, step g s c)"
    and headers_passive: "on_headers_complete cbs = Some cb \<Longrightarrow> cb p c = (0, p, c)"

sublocale passive_callbacks \<subseteq> parser_callbacks
proof
  have "(p::http_parser)\<lparr>http_errno := http_errno p\<rparr> = p" for p by simp
  then have "\<exists>e. p = (p::http_parser)\<lparr>http_errno := e\<rparr>" for p by metis
  then show "on_notify f cbs = Some cb \<Longrightarrow> leaves_parser p (cb p c)"
    "on_data g cbs = Some dcb \<Longrightarrow> leaves_parser p (dcb p s c)"
    "on_headers_complete cbs = Some cb \<Longrightarrow> leaves_parser p (cb p c)" for f cb p c g dcb s
    by (simp_all add: notify_passive data_passive headers_passive leaves_parser_def)
qed

locale tracked_callbacks = passive_callbacks cbs step
  for cbs :: "'c http_parser_settings" and step :: "data_cb \<Rightarrow> bytes \<Rightarrow> 'c \<Rightarrow> 'c" +
  fixes P :: "nat \<Rightarrow> bool \<Rightarrow> 'c \<Rightarrow> bool"
  assumes weaken: "P b v c \<Longrightarrow> b \<le> b' \<Longrightarrow> v' \<longrightarrow> v \<Longrightarrow> P b' v' c"
    and step: "P b v c \<Longrightarrow> (g = cb_header_value \<longrightarrow> v) \<Longrightarrow> on_data g cbs \<noteq> None
      \<Longrightarrow> P (b + length s) (v \<or> g = cb_header_field) (step g s c)"
    and field_set: "on_data cb_header_field cbs \<noteq> None"

text \<open>The states between a header field and the end of its value.\<close>

definition value_states :: "state set" where
  "value_states =
     {s_header_value_discard_ws, s_header_value_discard_ws_almost_done, s_header_value_discard_lws,
      s_header_value_start, s_header_value, s_header_value_lws, s_header_almost_done}"

text \<open>In \<open>s_message_done\<close> the current byte may have been handed over already.\<close>

definition ahead :: "state \<Rightarrow> nat" where "ahead s = (if s = s_message_done then 1 else 0)"

text \<open>The inner loop of a header field does not touch the client.\<close>

lemma header_field_loop_client:
  "header_field_loop env x = Some y \<Longrightarrow> client y = client x"
proof (induction env x rule: header_field_loop.induct)
  case (1 env x)
  from "1.prems" show ?case
    by (subst (asm) header_field_loop.simps)
      (auto split: if_splits option.splits dest: "1.IH"(1) "1.IH"(2))
qed

context tracked_callbacks
begin

definition seen :: "nat \<Rightarrow> bool \<Rightarrow> 'c exec \<Rightarrow> bool" where
  "seen b v x \<longleftrightarrow> P b v (client x) \<and> (\<forall>f m. marks x f = Some m \<longrightarrow> b \<le> m)"

definition on_track :: "nat \<Rightarrow> 'c exec \<Rightarrow> bool" where
  "on_track a x \<longleftrightarrow>
     (\<exists>b \<le> pos x + a. seen b (p_state x \<in> value_states) x)
     \<and> (p_state x = s_header_field \<longrightarrow> marks x cb_header_field \<noteq> None)"

definition held :: "'c env \<Rightarrow> 'c exec \<Rightarrow> bool" where
  "held env x \<longleftrightarrow> P (length (input env)) False (client x)"

fun follows :: "'c env \<Rightarrow> 'c outcome \<Rightarrow> bool" where
  "follows env (Next y) = on_track 0 (y\<lparr>pos := Suc (pos y)\<rparr>)"
| "follows env (Again y) = on_track (ahead (p_state y)) y"
| "follows env (Error y) = held env y"
| "follows env (Return n y) = held env y"
| "follows env Undefined = True"

lemma held_seen: "seen b v x \<Longrightarrow> b \<le> length (input env) \<Longrightarrow> client y = client x \<Longrightarrow> held env y"
  by (auto simp: seen_def held_def intro: weaken)

section \<open>Cases that call nobody\<close>

fun quiet :: "'c exec \<Rightarrow> 'c outcome \<Rightarrow> bool" where
  "quiet x (Next y) \<longleftrightarrow>
     client y = client x \<and> marks y = marks x \<and> pos x \<le> pos y \<and> p_state y \<noteq> s_header_field
     \<and> (p_state y \<in> value_states \<longrightarrow> p_state x \<in> value_states)"
| "quiet x (Again y) \<longleftrightarrow>
     client y = client x \<and> marks y = marks x \<and> pos x \<le> pos y \<and> p_state y \<noteq> s_header_field
     \<and> (p_state y \<in> value_states \<longrightarrow> p_state x \<in> value_states) \<and> p_state x \<noteq> s_message_done"
| "quiet x (Error y) \<longleftrightarrow> client y = client x"
| "quiet x (Return n y) \<longleftrightarrow> client y = client x"
| "quiet x Undefined \<longleftrightarrow> True"

lemma quiet_follows:
  assumes "quiet x r" "on_track (ahead (p_state x)) x" "pos x < length (input env)"
  shows "follows env r"
proof -
  obtain b where b: "b \<le> pos x + ahead (p_state x)" "seen b (p_state x \<in> value_states) x"
    using assms(2) by (auto simp: on_track_def)
  have still: "seen b v y" if "client y = client x" "marks y = marks x" "v \<longrightarrow> p_state x \<in> value_states"
    for v and y :: "'c exec"
    using b(2) that by (auto simp: seen_def intro: weaken)
  have bound: "b \<le> Suc (pos x)" "p_state x \<noteq> s_message_done \<Longrightarrow> b \<le> pos x"
    using b(1) by (auto simp: ahead_def split: if_splits)
  have held: "held env y" if "client y = client x" for y
    using held_seen [OF b(2), of env y] that bound(1) assms(3) by simp
  show ?thesis
  proof (cases r)
    case (Next y)
    with assms(1) bound(1) still [of "y\<lparr>pos := Suc (pos y)\<rparr>" "p_state y \<in> value_states"]
    show ?thesis by (auto simp: on_track_def intro!: exI [of _ b])
  next
    case (Again y)
    with assms(1) bound(2) still [of y "p_state y \<in> value_states"]
    show ?thesis by (auto simp: on_track_def intro!: exI [of _ b])
  qed (use assms(1) held in simp_all)
qed

lemma quiet_macros [simp]:
  "quiet x (fail e y) \<longleftrightarrow> client y = client x"
  "quiet x (RETURN n y) \<longleftrightarrow> client y = client x"
  "quiet x (STRICT_CHECK b y k) \<longleftrightarrow> (if b then client y = client x else quiet x (k y))"
  by (simp_all add: fail_def SET_ERRNO_def RETURN_def STRICT_CHECK_def)

lemma quiet_COUNT:
  "client y = client x \<Longrightarrow> quiet x (k (y\<lparr>nread := nread y + of_nat n\<rparr>))
     \<Longrightarrow> quiet x (COUNT_HEADER_SIZE env n y k)"
  by (simp add: COUNT_HEADER_SIZE_def Let_def)

lemma quiet_NOTIFY:
  assumes "settings env = cbs" "http_errno (par y) = HPE_OK"
    "\<And>s. quiet x (k (y\<lparr>par := (par y)\<lparr>pstate := s\<rparr>\<rparr>))"
  shows "quiet x (CALLBACK_NOTIFY_at env f er y k)"
proof (cases "on_notify f cbs")
  case None
  with assms(1,2) assms(3) [of "pstate (par y)"] show ?thesis by (simp add: CALLBACK_NOTIFY_at_def)
next
  case (Some cb)
  have "y\<lparr>par := (par y)\<lparr>pstate := p_state y\<rparr>, client := client y\<rparr> = y\<lparr>par := (par y)\<lparr>pstate := p_state y\<rparr>\<rparr>"
    by (cases y) simp
  with Some assms(1,2) assms(3) [of "p_state y"] show ?thesis
    by (simp add: CALLBACK_NOTIFY_at_def after_callback_def notify_passive Let_def)
qed

section \<open>Marks and data callbacks\<close>

lemma seen_weaken: "seen b v y \<Longrightarrow> v' \<longrightarrow> v \<Longrightarrow> client z = client y \<Longrightarrow> marks z = marks y \<Longrightarrow> seen b v' z"
  by (auto simp: seen_def intro: weaken)

lemma seen_MARK: "b \<le> pos y \<Longrightarrow> seen b v y \<Longrightarrow> seen b v (MARK f y)"
  by (auto simp: seen_def MARK_def)

lemma seen_updates [simp]:
  "seen b v (y\<lparr>p_state := s\<rparr>) = seen b v y" "seen b v (y\<lparr>par := p\<rparr>) = seen b v y"
  "seen b v (y\<lparr>pos := n\<rparr>) = seen b v y" "seen b v (y\<lparr>nread := w\<rparr>) = seen b v y"
  "seen b v (y\<lparr>ch := c\<rparr>) = seen b v y"
  by (simp_all add: seen_def)

text \<open>What a data callback leaves behind.\<close>

definition called :: "bool \<Rightarrow> nat \<Rightarrow> 'c exec \<Rightarrow> 'c exec \<Rightarrow> bool" where
  "called v n y z \<longleftrightarrow>
     (\<exists>s c. z = y\<lparr>par := (par y)\<lparr>pstate := s\<rparr>, client := c, marks := \<lambda>_. None\<rparr> \<and> P (pos y + n) v c)"

lemma follows_DATA:
  assumes env: "settings env = cbs" "http_errno (par y) = HPE_OK"
    and y: "seen b v y" "b \<le> pos y + n" "pos y + n \<le> length (input env)"
      "\<And>g. g \<noteq> f \<Longrightarrow> marks y g = None" "\<And>m. marks y f = Some m \<Longrightarrow> m \<le> pos y + n"
    and v: "f = cb_header_value \<Longrightarrow> v"
    and w: "w \<longrightarrow> v \<or> (f = cb_header_field \<and> marks y f \<noteq> None)"
    and k: "\<And>z. called w n y z \<Longrightarrow> follows env (k z)"
  shows "follows env (CALLBACK_DATA_at env f n er y k)"
proof (cases "marks y f")
  case None
  then have none: "marks y = (\<lambda>_. None)" using y(4) by (metis ext)
  have "P (pos y + n) w (client y)" using y(1,2) w None by (auto simp: seen_def intro: weaken)
  then have "called w n y y"
    unfolding called_def
    by (intro exI [of _ "pstate (par y)"] exI [of _ "client y"]) (cases y, use none in simp)
  with k env None show ?thesis by (simp add: CALLBACK_DATA_at_def)
next
  case (Some m)
  have m: "b \<le> m" "m \<le> pos y + n" using Some y(1,5) by (auto simp: seen_def)
  have clear: "(marks y)(f := None) = (\<lambda>_. None)" using y(4) by auto
  show ?thesis
  proof (cases "on_data f cbs")
    case None
    with field_set have "f \<noteq> cb_header_field" by auto
    with y(1,2) w have "P (pos y + n) w (client y)" by (auto simp: seen_def intro: weaken)
    then have "called w n y (y\<lparr>marks := \<lambda>_. None\<rparr>)"
      unfolding called_def
      by (intro exI [of _ "pstate (par y)"] exI [of _ "client y"]) (cases y, simp)
    with k env Some None clear show ?thesis by (simp add: CALLBACK_DATA_at_def Let_def)
  next
    case cb: (Some cb)
    let ?s = "bslice (input env) m (pos y + n - m)"
    have "P (b + length ?s) (v \<or> f = cb_header_field) (step f ?s (client y))"
      using y(1) v cb by (intro step) (auto simp: seen_def)
    then have "P (pos y + n) w (step f ?s (client y))"
      by (rule weaken) (use m y(3) w in auto)
    then have "called w n y (y\<lparr>par := (par y)\<lparr>pstate := p_state y\<rparr>, client := step f ?s (client y),
        marks := \<lambda>_. None\<rparr>)"
      unfolding called_def by blast
    with k env Some cb clear m y(3) show ?thesis
      by (simp add: CALLBACK_DATA_at_def after_callback_def data_passive Let_def)
  qed
qed

text \<open>At the start of a case without marks, and of one with a mark.\<close>

lemma track_cases:
  assumes "on_track (ahead (p_state x)) x" "body_ok env x" "p_state x \<noteq> s_message_done"
  obtains b where "b \<le> pos x" "seen b (p_state x \<in> value_states) x"
    "http_errno (par x) = HPE_OK" "pos x < length (input env)"
  using assms by (auto simp: on_track_def ahead_def body_ok_def exec_ok_def)

lemma no_marks:
  assumes "body_ok env x" "\<forall>f. p_state x \<notin> mark_states f"
  shows "marks x = (\<lambda>_. None)"
  using unmarked_state(1) [OF assms] by (rule ext)

lemma called_next:
  assumes "called w n y z" "n \<le> 1" "p_state z \<noteq> s_header_field" "p_state z \<in> value_states \<longrightarrow> w"
  shows "follows env (Next z)"
  using assms
  by (auto simp: called_def on_track_def seen_def intro!: exI [of _ "pos y + n"] elim: weaken)

section \<open>The cases\<close>

lemma quiet_lines:
  "p_state x = s_dead \<Longrightarrow> quiet x (ex_dead x)"
  "p_state x = s_res_or_resp_H \<Longrightarrow> quiet x (ex_res_or_resp_H x)"
  "p_state x = s_res_http_end \<Longrightarrow> quiet x (ex_res_http_end x)"
  "p_state x = s_res_first_status_code \<Longrightarrow> quiet x (ex_res_first_status_code x)"
  "p_state x = s_res_status_code \<Longrightarrow> quiet x (ex_res_status_code x)"
  "p_state x = s_req_http_start \<Longrightarrow> quiet x (ex_req_http_start x)"
  "p_state x = s_req_http_end \<Longrightarrow> quiet x (ex_req_http_end x)"
  "p_state x = s_req_line_almost_done \<Longrightarrow> quiet x (ex_req_line_almost_done x)"
  "p_state x = s_header_almost_done \<Longrightarrow> quiet x (ex_header_almost_done x)"
  "p_state x = s_header_value_lws \<Longrightarrow> quiet x (ex_header_value_lws x)"
  "p_state x = s_chunk_size_start \<Longrightarrow> quiet x (ex_chunk_size_start x)"
  "p_state x = s_chunk_size \<Longrightarrow> quiet x (ex_chunk_size x)"
  "p_state x = s_chunk_parameters \<Longrightarrow> quiet x (ex_chunk_parameters x)"
  by (simp_all add: value_states_def Let_def ex_dead_def ex_res_or_resp_H_def ex_res_http_end_def
      ex_res_first_status_code_def ex_res_status_code_def ex_req_http_start_def ex_req_http_end_def
      ex_req_line_almost_done_def ex_header_almost_done_def ex_header_value_lws_def
      ex_chunk_size_start_def ex_chunk_size_def ex_chunk_parameters_def)

lemma quiet_words:
  assumes "s \<noteq> s_header_field" "s \<in> value_states \<longrightarrow> p_state x \<in> value_states"
  shows "quiet x (ex_letter c s x)" "quiet x (ex_http_major s x)" "quiet x (ex_http_dot s x)"
    "quiet x (ex_http_minor s x)"
  using assms by (simp_all add: ex_letter_def ex_http_major_def ex_http_dot_def ex_http_minor_def)

lemma quiet_req_method:
  assumes "body_ok env x" "p_state x = s_req_method"
  shows "quiet x (ex_req_method x)"
proof -
  have "unat (index (par x)) \<le> length (method_string (meth (par x)))"
    using assms by (simp add: ok_defs)
  then show ?thesis
    by (cases rule: req_method_step_cases [where c = "ch x"])
      (auto simp: ex_req_method_def value_states_def)
qed

lemma quiet_starts:
  assumes "settings env = cbs" "body_ok env x" "p_state x \<in> {s_start_req_or_res, s_start_res, s_start_req}"
  shows "quiet x (ex_start_req_or_res env x)" "quiet x (ex_start_res env x)" "quiet x (ex_start_req env x)"
proof -
  have "http_errno (par x) = HPE_OK" using assms(2) by (simp add: body_ok_def exec_ok_def)
  with assms(1,3)
  show "quiet x (ex_start_req_or_res env x)" "quiet x (ex_start_res env x)" "quiet x (ex_start_req env x)"
    by (auto simp: ex_start_req_or_res_def ex_start_res_def ex_start_req_def value_states_def
        CALLBACK_NOTIFY_def Let_def split: option.split intro!: quiet_NOTIFY)
qed

lemma follows_url_step:
  assumes "seen b v y" "b \<le> pos y" "pos y < length (input env)"
  shows "follows env (url_step y)"
proof (cases "parse_url_char (p_state y) (ch y) = s_dead")
  case True
  then show ?thesis
    using held_seen [OF assms(1), of env y] assms(2,3)
    by (simp add: url_step_def fail_def SET_ERRNO_def held_def)
next
  case False
  then have "parse_url_char (p_state y) (ch y) \<in> mark_states cb_url"
    using parse_url_char_range by blast
  then have "parse_url_char (p_state y) (ch y) \<notin> value_states"
    "parse_url_char (p_state y) (ch y) \<noteq> s_header_field"
    by (auto simp: value_states_def)
  with False assms(1,2) show ?thesis
    by (auto simp: url_step_def on_track_def Let_def intro!: exI [of _ b] elim: seen_weaken)
qed

text \<open>The cases that set a mark and call nobody.\<close>

lemma follows_res_status_start:
  assumes "b \<le> pos x" "seen b v x"
  shows "follows env (ex_res_status_start x)"
  using seen_MARK [OF assms, of cb_status] assms(1)
  by (auto simp: ex_res_status_start_def on_track_def ahead_def value_states_def MARK_def Let_def
      intro!: exI [of _ b] elim: seen_weaken)

lemma follows_spaces_before_url:
  assumes "b \<le> pos x" "seen b v x" "p_state x = s_req_spaces_before_url" "pos x < length (input env)"
  shows "follows env (ex_req_spaces_before_url x)"
proof -
  have "follows env (url_step y)"
    if "y = MARK cb_url x \<or> y = UPDATE_STATE s_req_server_start (MARK cb_url x)" for y
  proof (rule follows_url_step)
    show "seen b v y" using that seen_MARK [OF assms(1,2)] by auto
  qed (use that assms in \<open>auto simp: MARK_def\<close>)
  moreover have "follows env (Next x)" 
    using assms by (auto simp: on_track_def value_states_def intro!: exI [of _ b] elim: seen_weaken)
  ultimately show ?thesis by (auto simp: ex_req_spaces_before_url_def Let_def)
qed

lemma follows_header_field_start:
  assumes "b \<le> pos x" "seen b v x" "pos x < length (input env)"
  shows "follows env (ex_header_field_start x)"
  using seen_MARK [OF assms(1,2), of cb_header_field] assms(1,3) held_seen [OF assms(2), of env x]
    seen_weaken [OF assms(2)]
  by (auto simp: ex_header_field_start_def on_track_def ahead_def value_states_def held_def Let_def
      fail_def SET_ERRNO_def MARK_def intro!: exI [of _ b] elim: seen_weaken)

text \<open>The cases that end a span.\<close>

lemma called_simps:
  assumes "called w n y z"
  shows "marks z = (\<lambda>_. None)" "pos z = pos y" "p_state z = p_state y" "seen (pos y + n) w z"
    "http_errno (par z) = http_errno (par y)"
  using assms by (auto simp: called_def seen_def)

lemma follows_res_status:
  assumes "settings env = cbs" "body_ok env x" "p_state x = s_res_status"
    "b \<le> pos x" "seen b v x"
  shows "follows env (ex_res_status env x)"
proof -
  note m = mark_unique [OF assms(2), of cb_status]
  have "follows env (CALLBACK_DATA env cb_status (UPDATE_STATE s x) Next)"
    if "s = s_res_line_almost_done \<or> s = s_header_field_start" for s
    unfolding CALLBACK_DATA_def
  proof (rule follows_DATA [where b = b and v = v and w = False])
    fix z assume c: "called False 0 (UPDATE_STATE s x) z"
    show "follows env (Next z)"
      by (rule called_next [OF c]) (use called_simps [OF c] that in \<open>auto simp: value_states_def\<close>)
  qed (use assms m that in \<open>auto simp: value_states_def\<close>)
  moreover have "follows env (Next x)"
    using assms by (auto simp: on_track_def value_states_def intro!: exI [of _ b] elim: seen_weaken)
  ultimately show ?thesis by (auto simp: ex_res_status_def)
qed

lemma follows_req_target:
  assumes "settings env = cbs" "body_ok env x" "p_state x \<in> mark_states cb_url"
    "b \<le> pos x" "seen b v x"
  shows "follows env (ex_req_target env x)"
proof -
  note m = mark_unique [OF assms(2,3)]
  have "follows env (CALLBACK_DATA env cb_url y Next)"
    if "p_state y \<in> {s_req_http_start, s_req_line_almost_done, s_header_field_start}"
      "marks y = marks x" "http_errno (par y) = HPE_OK" "pos y = pos x" "client y = client x" for y
    unfolding CALLBACK_DATA_def
  proof (rule follows_DATA [where b = b and v = v and w = False])
    fix z assume c: "called False 0 y z"
    show "follows env (Next z)"
      by (rule called_next [OF c]) (use called_simps [OF c] that in \<open>auto simp: value_states_def\<close>)
  qed (use assms m that in \<open>auto elim: seen_weaken\<close>)
  moreover have "follows env (url_step x)"
    by (rule follows_url_step [OF assms(5,4) m(4)])
  ultimately show ?thesis using m(3) by (auto simp: ex_req_target_def Let_def)
qed

lemma follows_header_field:
  assumes "settings env = cbs" "body_ok env x" "p_state x = s_header_field"
    "b \<le> pos x" "seen b v x" "marks x cb_header_field \<noteq> None"
  shows "follows env (ex_header_field env x)"
proof -
  note m = mark_unique [OF assms(2), of cb_header_field]
  have "header_state (par x) \<in> field_states"
    using assms(2,3) by (auto simp: body_ok_def exec_ok_def state_ok_def)
  then obtain y where y: "header_field_loop env x = Some y" 
    "http_errno (par y) = http_errno (par x)" "pos x \<le> pos y" "pos y \<le> length (input env)"
    "p_state y = p_state x" "marks y = marks x"
    using header_field_loop_ok [of x env] m(4) assms(3) by auto
  have client: "client y = client x" using y(1) header_field_loop_client by blast
  have held: "held env z" if "client z = client x" for z
    using held_seen [OF assms(5) _ that, of env] assms(4) m(4) assms(3) by simp
  show ?thesis
  proof (cases "pos y = length (input env)")
    case True
    with y assms client held m(4) show ?thesis
      by (auto simp: ex_header_field_def COUNT_HEADER_SIZE_def fail_def SET_ERRNO_def Let_def on_track_def
          value_states_def intro!: exI [of _ b] elim: seen_weaken)
  next
    case False
    have "follows env (CALLBACK_DATA env cb_header_field (UPDATE_STATE s_header_value_discard_ws z) Next)"
      if "pos z = pos y" "marks z = marks x" "http_errno (par z) = HPE_OK" "client z = client x" for z
      unfolding CALLBACK_DATA_def
    proof (rule follows_DATA [where b = b and v = v and w = True])
      fix r assume c: "called True 0 (UPDATE_STATE s_header_value_discard_ws z) r"
      show "follows env (Next r)"
        by (rule called_next [OF c]) (use called_simps [OF c] in auto)
    qed (use assms m that y in \<open>auto elim: seen_weaken intro: le_trans\<close>)
    then show ?thesis
      using False y m(3) assms(3) client held
      by (auto simp: ex_header_field_def COUNT_HEADER_SIZE_def fail_def SET_ERRNO_def Let_def)
  qed
qed

text \<open>The value of a header.\<close>

lemma follows_value_start:
  assumes "b \<le> pos x" "seen b True x" "pos x < length (input env)"
  shows "follows env (ex_header_value_start x)"
  using seen_MARK [OF assms(1,2), of cb_header_value] assms(1,3) held_seen [OF assms(2), of env]
  by (auto simp: ex_header_value_start_def on_track_def ahead_def value_states_def
      fail_def SET_ERRNO_def MARK_def held_def Let_def split: sum.split intro!: exI [of _ b])

lemma follows_value_discard_ws:
  assumes "b \<le> pos x" "seen b True x" "pos x < length (input env)" "p_state x = s_header_value_discard_ws"
  shows "follows env (ex_header_value_discard_ws x)"
  using follows_value_start [OF assms(1-3)] assms
  by (auto simp: ex_header_value_discard_ws_def on_track_def value_states_def intro!: exI [of _ b])

lemma follows_value_end:
  assumes "seen b True y" "b \<le> pos y" "pos y \<le> length (input env)" "p_state y \<in> value_states"
  shows "follows env (header_value_end env start h y)"
proof -
  have "p_state y \<noteq> s_header_field" using assms(4) by (auto simp: value_states_def)
  then show ?thesis
    using assms held_seen [OF assms(1), of env]
    by (auto simp: header_value_end_def COUNT_HEADER_SIZE_def fail_def SET_ERRNO_def on_track_def
        held_def Let_def intro!: exI [of _ b])
qed

lemma follows_value_loop:
  assumes "settings env = cbs" "value_ok env start x" "h \<notin> {h_connection, h_transfer_encoding}"
    "seen b True x" "b \<le> pos x"
  shows "follows env (header_value_loop env start h x)"
  using assms
proof (induction env start h x rule: header_value_loop.induct)
  case (1 env start h x)
  note x = "1.prems"(2) [unfolded value_ok_def]
  have vs: "p_state x \<in> value_states" using x by (simp add: value_states_def)
  show ?case
  proof (cases "pos x = length (input env)")
    case True
    with follows_value_end [OF "1.prems"(4,5) _ vs] x show ?thesis
      by (subst header_value_loop.simps) simp
  next
    case False
    with x have lt: "pos x < length (input env)" by simp
    let ?c = "input env ! pos x"
    have rd: "rd (input env) (pos x) = Some ?c" using lt by simp
    let ?y = "UPDATE_STATE s_header_almost_done (x\<lparr>ch := ?c\<rparr>)"
    have held: "held env z" if "client z = client x" for z
      using held_seen [OF "1.prems"(4) _ that, of env] "1.prems"(5) lt by simp
    have data: "follows env (CALLBACK_DATA_at env cb_header_value 0 er
        (upd_par (\<lambda>p. p\<lparr>header_state := h\<rparr>) (?y\<lparr>nread := n\<rparr>)) k)"
      if k: "\<And>z. marks z = (\<lambda>_. None) \<Longrightarrow> pos z = pos x \<Longrightarrow> p_state z = s_header_almost_done
        \<Longrightarrow> seen (pos x) True z \<Longrightarrow> follows env (k z)" for er n k
    proof (rule follows_DATA [where b = b and v = True and w = True])
      fix z assume c: "called True 0 (upd_par (\<lambda>p. p\<lparr>header_state := h\<rparr>) (?y\<lparr>nread := n\<rparr>)) z"
      show "follows env (k z)" by (rule k) (use called_simps [OF c] in auto)
    qed (use "1.prems" x lt in auto)
    consider "?c = CR" | "?c = LF" | "?c \<noteq> CR" "?c \<noteq> LF" "\<not> lenient env \<and> \<not> IS_HEADER_CHAR ?c"
      | "?c \<noteq> CR" "?c \<noteq> LF" "\<not> (\<not> lenient env \<and> \<not> IS_HEADER_CHAR ?c)" "h = h_general"
      | "?c \<noteq> CR" "?c \<noteq> LF" "\<not> (\<not> lenient env \<and> \<not> IS_HEADER_CHAR ?c)" "h \<noteq> h_general"
      by blast
    then show ?thesis
    proof cases
      case 1
      have "follows env (CALLBACK_DATA_at env cb_header_value 0 (pos x + 1)
          (upd_par (\<lambda>p. p\<lparr>header_state := h\<rparr>) (?y\<lparr>nread := nread x\<rparr>)) (header_value_end env start h))"
        by (rule data, rule follows_value_end [where b = "pos x"])
          (use lt in \<open>auto simp: value_states_def\<close>)
      then show ?thesis using 1 False rd by (subst header_value_loop.simps) (simp add: CALLBACK_DATA_def)
    next
      case 2
      have "follows env (CALLBACK_DATA_at env cb_header_value 0 (pos x)
          (upd_par (\<lambda>p. p\<lparr>header_state := h\<rparr>) (?y\<lparr>nread := n\<rparr>)) Again)" for n
        by (rule data) (auto simp: on_track_def ahead_def intro!: exI [of _ "pos x"] elim: seen_weaken)
      then show ?thesis using 2 False rd held
        by (subst header_value_loop.simps)
          (simp add: CALLBACK_DATA_NOADVANCE_def COUNT_HEADER_SIZE_def fail_def SET_ERRNO_def Let_def)
    next
      case 3
      then show ?thesis using False rd held
        by (subst header_value_loop.simps) (simp add: fail_def SET_ERRNO_def)
    next
      case 4
      obtain p c bad where skip: "skip_value (lenient env) (input env) (pos x) (jump_end env (pos x)) ?c = (p, c, bad)"
        by (cases "skip_value (lenient env) (input env) (pos x) (jump_end env (pos x)) ?c")
      have le: "pos x \<le> jump_end env (pos x)" "jump_end env (pos x) \<le> length (input env)"
        using lt by (simp_all add: jump_end_def)
      have p: "pos x \<le> p" "p \<le> length (input env)"
        using skip_value_from [OF skip le(1) 4(1,2)] skip_value_le [OF skip le(1)] le(2) by auto
      show ?thesis
      proof (cases bad)
        case True
        then show ?thesis using 4 False rd skip held
          by (subst header_value_loop.simps) (simp add: fail_def SET_ERRNO_def)
      next
        case nb: False
        let ?z = "x\<lparr>ch := c, pos := Suc (if p = length (input env) then p - 1 else p)\<rparr>"
        have "value_ok env start ?z" using x lt p by (auto simp: value_ok_def)
        moreover have "seen b True ?z" "b \<le> pos ?z" using "1.prems"(4,5) p by auto
        ultimately have "follows env (header_value_loop env start h ?z)"
          using "1.IH"(1) [OF False rd 4 skip [symmetric] refl nb] "1.prems" by blast
        then show ?thesis using 4 False rd skip nb lt by (subst header_value_loop.simps) auto
      qed
    next
      case 5
      show ?thesis
      proof (cases rule: header_value_step_ok [OF "1.prems"(3), of ?c "par x"])
        case (1 h')
        then show ?thesis using 5 False rd held
          by (subst header_value_loop.simps) (auto simp: fail_def SET_ERRNO_def)
      next
        case (2 h' q)
        let ?z = "x\<lparr>ch := ?c, par := q, pos := Suc (pos x)\<rparr>"
        have "value_ok env start ?z" using x lt 2 by (auto simp: value_ok_def)
        moreover have "seen b True ?z" "b \<le> pos ?z" using "1.prems"(4,5) by auto
        ultimately have "follows env (header_value_loop env start h' ?z)"
          using "1.IH"(2) [OF False rd 5(1-4) 2(1) refl refl] "1.prems" 2(2) by blast
        then show ?thesis using 5 False rd 2(1) lt by (subst header_value_loop.simps) auto
      qed
    qed
  qed
qed

lemma follows_header_value:
  assumes "settings env = cbs" "body_ok env x" "p_state x = s_header_value"
    "b \<le> pos x" "seen b True x"
  shows "follows env (ex_header_value env x)"
proof -
  have "value_ok env (pos x) x"
    using mark_unique [OF assms(2), of cb_header_value] assms(3) by (auto simp: value_ok_def)
  moreover have "header_state (par x) \<notin> {h_connection, h_transfer_encoding}"
    using assms(2,3) by (simp add: body_ok_def exec_ok_def state_ok_def)
  ultimately show ?thesis
    unfolding ex_header_value_def by (rule follows_value_loop [OF assms(1) _ _ assms(5,4)])
qed

lemma follows_value_discard_lws:
  assumes "settings env = cbs" "body_ok env x" "p_state x = s_header_value_discard_lws"
    "b \<le> pos x" "seen b True x"
  shows "follows env (ex_header_value_discard_lws env x)"
proof -
  have none: "marks x = (\<lambda>_. None)" by (rule no_marks [OF assms(2)]) (simp add: assms(3) all_data_cb)
  have ok: "pos x < length (input env)" "http_errno (par x) = HPE_OK"
    using assms(2) by (simp_all add: body_ok_def exec_ok_def)
  let ?y = "UPDATE_STATE s_header_field_start (MARK cb_header_value (upd_par finished_header x))"
  have "follows env (CALLBACK_DATA_NOADVANCE env cb_header_value ?y Again)"
    unfolding CALLBACK_DATA_NOADVANCE_def
  proof (rule follows_DATA [where b = b and v = True and w = True])
    show "seen b True ?y" using seen_MARK [of b "upd_par finished_header x" True] assms(4,5) by simp
    fix z assume c: "called True 0 ?y z"
    show "follows env (Again z)"
      using called_simps [OF c]
      by (auto simp: on_track_def value_states_def MARK_def intro!: exI [of _ "pos x"] elim: seen_weaken)
  qed (use assms none ok in \<open>auto simp: MARK_def\<close>)
  then show ?thesis
    using assms ok held_seen [OF assms(5), of env]
    by (auto simp: ex_header_value_discard_lws_def on_track_def value_states_def fail_def SET_ERRNO_def
        held_def intro!: exI [of _ b])
qed

text \<open>The end of the headers.\<close>

lemma headers_complete_passive:
  assumes "settings env = cbs" "http_errno (par y) = HPE_OK"
  shows "headers_complete env y = Again y"
proof (cases "on_headers_complete cbs")
  case None
  with assms show ?thesis by (simp add: headers_complete_def)
next
  case (Some cb)
  have "y\<lparr>par := par y, client := client y\<rparr> = y" by (cases y) simp
  with Some assms show ?thesis by (simp add: headers_complete_def headers_passive Let_def)
qed

lemma quiet_headers_almost_done:
  assumes "settings env = cbs" "http_errno (par x) = HPE_OK" "p_state x = s_headers_almost_done"
  shows "quiet x (ex_headers_almost_done env x)"
  using assms
  by (auto simp: ex_headers_almost_done_def headers_complete_passive CALLBACK_NOTIFY_NOADVANCE_def
      value_states_def intro!: quiet_NOTIFY)

lemma new_message_states: "NEW_MESSAGE p \<notin> value_states" "NEW_MESSAGE p \<noteq> s_header_field"
  by (auto simp: NEW_MESSAGE_def start_state_def value_states_def)

lemma quiet_new_message:
  assumes "settings env = cbs" "http_errno (par y) = HPE_OK"
    and "\<And>z. client z = client y \<Longrightarrow> marks z = marks y \<Longrightarrow> pos z = pos y \<Longrightarrow> p_state z = NEW_MESSAGE (par y)
      \<Longrightarrow> quiet x (k z)"
  shows "quiet x (new_message env y k)"
  unfolding new_message_def CALLBACK_NOTIFY_def using assms by (intro quiet_NOTIFY) auto

lemma clear_nread_client [simp]: "client (clear_nread x) = client x"
  by (simp add: clear_nread_def)

lemma quiet_headers_done:
  assumes "settings env = cbs" "http_errno (par x) = HPE_OK" "p_state x = s_headers_done"
  shows "quiet x (ex_headers_done env x)"
proof -
  define y where "y = clear_nread x"
  have y: "client y = client x" "marks y = marks x" "pos y = pos x" "http_errno (par y) = HPE_OK"
    using assms(2) by (simp_all add: y_def)
  have "quiet x (new_message env y Next)" "quiet x (new_message env y (\<lambda>x. RETURN (pos x + 1) x))"
    using assms(1) y by (auto intro!: quiet_new_message simp: new_message_states)
  then show ?thesis
    unfolding ex_headers_done_def Let_def y_def [symmetric]
    by (simp add: y_def [symmetric] y SET_ERRNO_def value_states_def)
qed

lemma quiet_message_done:
  assumes "settings env = cbs" "http_errno (par x) = HPE_OK"
  shows "quiet x (ex_message_done env x)"
  unfolding ex_message_done_def using assms
  by (auto intro!: quiet_new_message simp: new_message_states)

lemma quiet_chunks:
  assumes "settings env = cbs" "http_errno (par x) = HPE_OK"
  shows "quiet x (ex_chunk_size_almost_done env x)" "quiet x (ex_chunk_data_done env x)"
  using assms
  by (auto simp: ex_chunk_size_almost_done_def ex_chunk_data_done_def CALLBACK_NOTIFY_def Let_def
      value_states_def set_flag_def intro!: quiet_NOTIFY)

text \<open>Bodies.\<close>

lemma follows_bodies:
  assumes env: "settings env = cbs" "length (input env) < 2 ^ 64" "body_ok env x"
    and b: "b \<le> pos x" "seen b v x"
    and c: "content_length (par x) \<noteq> 0" "content_length (par x) \<noteq> ULLONG_MAX"
  shows "p_state x = s_body_identity \<Longrightarrow> follows env (ex_body_identity env x)"
    and "p_state x = s_chunk_data \<Longrightarrow> follows env (ex_chunk_data env x)"
proof -
  define y where "y = consume_body env x"
  have seen: "seen b v y"
    using seen_MARK [OF b, of cb_body] by (simp add: y_def consume_body_def Let_def)
  have facts: "pos x \<le> pos y" "pos y < length (input env)" "http_errno (par y) = HPE_OK"
    "\<And>f. f \<noteq> cb_body \<Longrightarrow> marks y f = None" "\<And>m. marks y cb_body = Some m \<Longrightarrow> m \<le> pos y"
    "p_state y = p_state x" if "p_state x \<in> mark_states cb_body"
    using consume_body_ok [OF env(2,3) that c] by (auto simp: y_def)
  have next_y: "follows env (Next (UPDATE_STATE s y))" if "s \<noteq> s_header_field" "s \<notin> value_states"
    "pos x \<le> pos y" for s
    using that seen b(1) by (auto simp: on_track_def intro!: exI [of _ b] elim: seen_weaken)
  {
    assume st: "p_state x = s_body_identity"
    note f = facts [unfolded st, simplified]
    have "follows env (CALLBACK_DATA_at env cb_body 1 (pos y) (UPDATE_STATE s_message_done y) Again)"
    proof (rule follows_DATA [where b = b and v = v and w = False])
      fix z assume c: "called False 1 (UPDATE_STATE s_message_done y) z"
      show "follows env (Again z)"
        using called_simps [OF c]
        by (auto simp: on_track_def ahead_def value_states_def intro!: exI [of _ "pos y + 1"])
    qed (use env(1) f seen b(1) in \<open>auto intro: le_SucI\<close>)
    moreover have "follows env (Next y)"
      using next_y [of s_body_identity] f(1,6) by (simp add: value_states_def on_track_def)
    ultimately show "follows env (ex_body_identity env x)"
      using c by (simp add: ex_body_identity_def y_def [symmetric] Let_def)
  }
  assume st: "p_state x = s_chunk_data"
  note f = facts [unfolded st, simplified]
  have "follows env (Next y)"
    using next_y [of s_chunk_data] f(1,6) by (simp add: value_states_def on_track_def)
  then show "follows env (ex_chunk_data env x)"
    using c next_y [of s_chunk_data_almost_done] f(1)
    by (simp add: ex_chunk_data_def y_def [symmetric] value_states_def Let_def)
qed

lemma follows_body_eof:
  assumes "b \<le> pos x" "seen b v x" "pos x < length (input env)" "p_state x = s_body_identity_eof"
  shows "follows env (ex_body_identity_eof env x)"
  using seen_MARK [OF assms(1,2), of cb_body] assms
  by (auto simp: ex_body_identity_eof_def on_track_def value_states_def MARK_def
      intro!: exI [of _ b] elim: seen_weaken)

lemma follows_chunk_data_almost_done:
  assumes "settings env = cbs" "body_ok env x" "p_state x = s_chunk_data_almost_done"
    "b \<le> pos x" "seen b v x"
  shows "follows env (ex_chunk_data_almost_done env x)"
proof -
  note m = mark_unique [OF assms(2), of cb_body]
  have "follows env (CALLBACK_DATA env cb_body (UPDATE_STATE s_chunk_data_done x) Next)"
    unfolding CALLBACK_DATA_def
  proof (rule follows_DATA [where b = b and v = v and w = False])
    fix z assume c: "called False 0 (UPDATE_STATE s_chunk_data_done x) z"
    show "follows env (Next z)"
      by (rule called_next [OF c]) (use called_simps [OF c] in \<open>auto simp: value_states_def\<close>)
  qed (use assms m in auto)
  then show ?thesis
    using held_seen [OF assms(5), of env] assms(4) m(4) assms(3)
    by (simp add: ex_chunk_data_almost_done_def STRICT_CHECK_def fail_def SET_ERRNO_def held_def)
qed

text \<open>One turn of the big switch.\<close>

lemma follows_state:
  assumes env: "settings env = cbs" "length (input env) < 2 ^ 64" and ok: "body_ok env x"
    and t: "on_track (ahead (p_state x)) x"
  shows "follows env (ex_state env x)"
proof (cases "p_state x = s_message_done")
  case True
  have "http_errno (par x) = HPE_OK" "pos x < length (input env)"
    using ok by (simp_all add: body_ok_def exec_ok_def)
  with quiet_follows [OF quiet_message_done t] env(1) True show ?thesis by (simp add: ex_state_def)
next
  case False
  obtain b where b: "b \<le> pos x" "seen b (p_state x \<in> value_states) x"
    and e: "http_errno (par x) = HPE_OK" "pos x < length (input env)"
    using track_cases [OF t ok False] .
  have b_True: "seen b True x" if "p_state x \<in> value_states" using b(2) that by simp
  have field: "marks x cb_header_field \<noteq> None" if "p_state x = s_header_field"
    using t that by (simp add: on_track_def)

  have schema: "follows env (ex_req_schema x)"
    using follows_url_step [OF b(2,1) e(2)] held_seen [OF b(2), of env x] b(1) e(2)
    by (simp add: ex_req_schema_def fail_def SET_ERRNO_def held_def)
  have len: "content_length (par x) \<noteq> 0" "content_length (par x) \<noteq> ULLONG_MAX"
    if "p_state x \<in> {s_body_identity, s_chunk_data}"
    using ok that by (auto simp: body_ok_def exec_ok_def state_ok_def)
  note q = quiet_follows [OF _ t e(2)]
  note quiet = quiet_lines quiet_words quiet_req_method quiet_starts quiet_headers_almost_done
    quiet_headers_done quiet_chunks
  show ?thesis
    using False env ok b e
    by (cases "p_state x")
      (simp_all add: ex_state_def quiet [THEN q] value_states_def schema follows_res_status_start
        follows_spaces_before_url follows_header_field_start follows_res_status follows_req_target
        follows_header_field field follows_header_value follows_value_start follows_value_discard_ws
        follows_value_discard_lws follows_bodies len follows_body_eof follows_chunk_data_almost_done)
qed

section \<open>The loop\<close>

lemma DATA_unmarked [simp]:
  "marks y f = None \<Longrightarrow> http_errno (par y) = HPE_OK \<Longrightarrow> CALLBACK_DATA_at env f n er y k = k y"
  by (simp add: CALLBACK_DATA_at_def)

lemma follows_finish:
  assumes env: "settings env = cbs" and ok: "exec_ok env n x" and at_end: "pos x = length (input env)"
    and t: "on_track 0 x"
  shows "follows env (ex_finish env x)"
proof -
  obtain b where b: "b \<le> length (input env)" "seen b (p_state x \<in> value_states) x"
    using t at_end by (auto simp: on_track_def)
  have e: "http_errno (par x) = HPE_OK" and mk: "\<And>f. mark_ok f x"
    using ok by (simp_all add: exec_ok_def)
  have ret: "follows env (RETURN k x)" for k
    using held_seen [OF b(2,1), of x] by (simp add: RETURN_def held_def)
  show ?thesis
  proof (cases "\<exists>g m. marks x g = Some m")
    case False
    then have "marks x f = None" for f by auto
    with ret e show ?thesis by (simp add: ex_finish_def set_marks_def CALLBACK_DATA_NOADVANCE_def)
  next
    case True
    then obtain g m where g: "marks x g = Some m" by blast
    with mk [of g] have st: "p_state x \<in> mark_states g" "m \<le> pos x" by (auto simp: mark_ok_def)
    have others: "marks x f = None" if "f \<noteq> g" for f
      using mk [of f] mark_states_disjoint [OF _ st(1), of f] that by (cases "marks x f") (auto simp: mark_ok_def)
    have call: "follows env (CALLBACK_DATA_at env h 0 (pos x) x k)"
      if h: "h = g"
        and k: "\<And>z. marks z = (\<lambda>_. None) \<Longrightarrow> http_errno (par z) = HPE_OK \<Longrightarrow> held env z \<Longrightarrow> follows env (k z)"
      for h k
      unfolding h
    proof (rule follows_DATA [where b = b and v = "p_state x \<in> value_states" and w = False])
      fix z assume c: "called False 0 x z"
      show "follows env (k z)"
        by (rule k) (use called_simps [OF c] e at_end held_seen [of _ _ z] in auto)
    qed (use env e b st others g at_end in \<open>auto simp: value_states_def\<close>)
    show ?thesis
      using others e g
      by (cases g) (auto simp: ex_finish_def set_marks_def CALLBACK_DATA_NOADVANCE_def held_def RETURN_def
          intro!: call)
  qed
qed

lemma on_track_mono: "on_track 0 x \<Longrightarrow> on_track a x"
  unfolding on_track_def add_0_right by (meson trans_le_add1)

lemma on_track_read [simp]:
  "on_track a (x\<lparr>ch := c\<rparr>) = on_track a x" "on_track a (x\<lparr>nread := n\<rparr>) = on_track a x"
  by (simp_all add: on_track_def)

lemma follows_loop_head:
  assumes "settings env = cbs" "exec_ok env n x" "pos x \<le> length (input env)" "on_track 0 x"
  shows "follows env (loop_head env x)"
proof (cases "pos x = length (input env)")
  case True
  with assms follows_finish show ?thesis by (simp add: loop_head_def)
next
  case False
  obtain b where b: "b \<le> pos x" "seen b (p_state x \<in> value_states) x"
    using assms(4) by (auto simp: on_track_def)
  have "held env x" by (rule held_seen [OF b(2)]) (use b(1) assms(3) in simp_all)
  then show ?thesis
    using False assms(3) on_track_mono [OF assms(4)]
    by (simp add: loop_head_def COUNT_HEADER_SIZE_def fail_def SET_ERRNO_def held_def Let_def)
qed

lemma follows_step:
  assumes "settings env = cbs" "length (input env) < 2 ^ 64" "outcome_ok env s" "follows env s"
    "ex_step env s = Some s'"
  shows "follows env s'"
proof (cases s)
  case (Next y)
  have "exec_ok env (nread y) (y\<lparr>pos := Suc (pos y)\<rparr>)" "pos y < length (input env)"
    using assms(3) Next by (auto simp: next_ok_def exec_ok_def mark_ok_def intro: le_SucI)
  with follows_loop_head [of env "nread y" "y\<lparr>pos := Suc (pos y)\<rparr>"] assms Next show ?thesis
    by (auto simp: ex_step_def)
next
  case (Again x)
  with follows_state [of env x] assms show ?thesis by (auto simp: ex_step_def)
qed (use assms(4,5) in \<open>auto simp: ex_step_def ex_error_def RETURN_def SET_ERRNO_def held_def Let_def\<close>)

lemma follows_loop:
  assumes "settings env = cbs" "length (input env) < 2 ^ 64" "outcome_ok env s" "follows env s"
    "ex_loop env s = Some r"
  shows "follows env r"
  using assms(3-5)
proof (induction "weight env s" arbitrary: s rule: less_induct)
  case less
  have "parser_callbacks (settings env)" unfolding assms(1) by (rule parser_callbacks_axioms)
  then consider s' where "ex_step env s = Some s'" "outcome_ok env s'" "weight env s' < weight env s"
    | n y where "s = Return n y" "ex_step env s = None"
    using ex_step_ok [OF _ assms(2) less.prems(1)] by blast
  then show ?case
  proof cases
    case 1
    have "ex_loop env s' = Some r" using less.prems(3) 1(1) by (subst (asm) ex_loop.simps) simp
    with less.hyps [OF 1(3,2) follows_step [OF assms(1,2) less.prems(1,2) 1(1)]] show ?thesis .
  next
    case 2
    then have "ex_loop env s = Some s" by (subst ex_loop.simps) simp
    with less.prems show ?thesis by simp
  qed
qed

text \<open>A freshly initialised parser, run on any data.\<close>

lemma execute_tracked:
  assumes "length data < 2 ^ 64" "P 0 False c"
  shows "\<exists>n q c'. http_parser_execute limit (http_parser_init t) cbs data c = Some (Parsed n q c')
    \<and> P (length data) False c'"
proof -
  let ?p = "http_parser_init t"
  define env where "env = \<lparr>settings = cbs, input = data, lenient = lenient_http_headers ?p,
    max_header_size = limit\<rparr>"
  let ?x = "initial_exec ?p c"
  have env: "settings env = cbs" "input env = data" by (simp_all add: env_def)
  have st: "pstate ?p \<in> {s_start_req, s_start_res, s_start_req_or_res}" "http_errno ?p = HPE_OK"
    by (simp_all add: http_parser_init_def)
  have "\<exists>n y. execute env ?x = Some (Return n y) \<and> P (length data) False (client y)"
  proof (cases "data = []")
    case True
    with env st assms(2) show ?thesis
      by (auto simp: execute_def ex_eof_def initial_exec_def)
  next
    case False
    let ?y = "?x\<lparr>marks := initial_marks (pstate ?p)\<rparr>"
    have none: "initial_marks (pstate ?p) = (\<lambda>_. None)"
    proof (rule ext)
      show "initial_marks (pstate ?p) f = None" for f
        using st(1) by (cases f) (auto simp: initial_marks_def Let_def)
    qed
    have ok: "exec_ok env (nread ?y) ?y"
      using st none by (auto simp: exec_ok_def initial_exec_def mark_ok_def state_ok_def http_parser_init_def)
    have "on_track 0 ?y"
      using assms(2) st(1) none
      by (auto simp: on_track_def seen_def initial_exec_def value_states_def)
    then have f: "follows env (loop_head env ?y)"
      by (intro follows_loop_head [OF env(1) ok]) (simp_all add: initial_exec_def)
    have pc: "parser_callbacks (settings env)" unfolding env(1) by (rule parser_callbacks_axioms)
    have oo: "outcome_ok env (loop_head env ?y)"
      using loop_head_ok [OF pc ok] by (simp add: initial_exec_def)
    have len: "length (input env) < 2 ^ 64" using env(2) assms(1) by simp
    obtain n y where r: "ex_loop env (loop_head env ?y) = Some (Return n y)"
      using ex_loop_ok [OF pc len oo] by blast
    with follows_loop [OF env(1) len oo f r] show ?thesis
      using False env st(2) by (simp add: execute_def initial_exec_def held_def)
  qed
  then obtain n y where "execute env ?x = Some (Return n y)" "P (length data) False (client y)" by blast
  then show ?thesis by (simp add: http_parser_execute_def env_def)
qed

end

end
