(* ===== verification/Request_Spec.thy ===== *)
theory Request_Spec
  imports Requester Http_Calls
begin

text \<open>
  What the request object holds after the callbacks. The arrays stand for lists of pairs of byte
  strings; the URL is cut at the question mark, and the variables after it are the pairs of
  \<open>url_pairs\<close>, those of the body the pairs of \<open>body_pairs\<close>. The callbacks satisfy the
  contract \<open>tracked_callbacks\<close> of the parser, so a request is created from any bytes without
  undefined behaviour.
\<close>

section \<open>Reference functions\<close>

definition until :: "char \<Rightarrow> char \<Rightarrow> bool" where
  "until c x \<longleftrightarrow> x \<noteq> c \<and> x \<noteq> CHR '' ''"

definition url_path :: "bytes \<Rightarrow> bytes" where
  "url_path u = takeWhile (until (CHR ''?'')) (drop 1 u)"

text \<open>The pairs of a query, up to a space.\<close>

function url_pairs :: "bytes \<Rightarrow> (bytes \<times> bytes) list" where
  "url_pairs q =
     (let k = takeWhile (until (CHR ''='')) q; r = dropWhile (until (CHR ''='')) q;
          v = takeWhile (until (CHR ''&'')) (tl r); s = dropWhile (until (CHR ''&'')) (tl r)
      in if r \<noteq> [] \<and> hd r = CHR '' '' then []
         else (k, v) # (if s \<noteq> [] \<and> hd s = CHR ''&'' then url_pairs (tl s) else []))"
  by pat_completeness auto
termination
proof (relation "measure length", goal_cases)
  case (2 q k r v s)
  then have "length (tl s) < length s" by (cases s) simp_all
  also have "length s \<le> length q"
    using 2 length_dropWhile_le [of "until (CHR ''&'')" "tl r"] length_dropWhile_le [of "until (CHR ''='')" q]
    by (metis diff_le_self le_trans length_tl)
  finally show ?case by simp
qed simp

declare url_pairs.simps [simp del]

definition url_vars_of :: "bytes \<Rightarrow> (bytes \<times> bytes) list" where
  "url_vars_of u =
     (case dropWhile (until (CHR ''?'')) (drop 1 u) of
        [] \<Rightarrow> []
      | c # q \<Rightarrow> if c = CHR '' '' then [] else url_pairs q)"

function body_pairs :: "bytes \<Rightarrow> (bytes \<times> bytes) list" where
  "body_pairs q =
     (if q = [] then []
      else let k = takeWhile (\<lambda>c. c \<noteq> CHR ''='') q; r = tl (dropWhile (\<lambda>c. c \<noteq> CHR ''='') q)
           in (k, takeWhile (\<lambda>c. c \<noteq> CHR ''&'') r) # body_pairs (tl (dropWhile (\<lambda>c. c \<noteq> CHR ''&'') r)))"
  by pat_completeness auto
termination
proof (relation "measure length", goal_cases)
  case (2 q k r)
  have "length (tl (dropWhile P r)) < length q" for P
  proof -
    have "length (dropWhile P r) \<le> length r" by (rule length_dropWhile_le)
    moreover have "length r \<le> length (dropWhile (\<lambda>c. c \<noteq> CHR ''='') q) - 1" using 2(3) by simp
    moreover have "length (dropWhile (\<lambda>c. c \<noteq> CHR ''='') q) \<le> length q" by (rule length_dropWhile_le)
    moreover have "0 < length q" using 2(1) by simp
    ultimately show ?thesis unfolding length_tl by linarith
  qed
  then show ?case by simp
qed simp

declare body_pairs.simps [simp del]

section \<open>Scanning\<close>

lemma scan_to_eq:
  assumes "c \<noteq> CHR '' ''"
  shows "scan_to u c i =
    (let j = i + length (takeWhile (until c) (drop i u)) in (j < length u \<and> u ! j = CHR '' '', j))"
  using assms
proof (induction u c i rule: scan_to.induct)
  case (1 u c i)
  show ?case
  proof (cases "i < length u \<and> until c (u ! i)")
    case True
    then have "drop i u = u ! i # drop (i + 1) u" by (simp add: Cons_nth_drop_Suc)
    then have tw: "takeWhile (until c) (drop i u) = u ! i # takeWhile (until c) (drop (i + 1) u)"
      using True by simp
    have ne: "u ! i \<noteq> c" "u ! i \<noteq> CHR '' ''" using True by (simp_all add: until_def)
    have eq: "scan_to u c i = scan_to u c (i + 1)" using True ne by (subst scan_to.simps) simp
    have ih: "scan_to u c (i + 1) = (let j = i + 1 + length (takeWhile (until c) (drop (i + 1) u))
        in (j < length u \<and> u ! j = CHR '' '', j))"
      by (rule 1) (use True ne "1.prems" in simp_all)
    show ?thesis unfolding tw eq ih by simp
  next
    case False
    then have "takeWhile (until c) (drop i u) = []"
      by (cases "i < length u") (simp_all add: takeWhile_eq_Nil_iff hd_drop_conv_nth)
    note tw = this
    consider "length u \<le> i" | "i < length u" "u ! i = c" | "i < length u" "u ! i = CHR '' ''" "u ! i \<noteq> c"
      using False unfolding until_def by (meson not_le)
    then show ?thesis
    proof cases
      case 1
      then show ?thesis unfolding tw by (subst scan_to.simps) simp
    next
      case 2
      then have eq: "scan_to u c i = (False, i)" by (subst scan_to.simps) simp
      have "u ! i \<noteq> CHR '' ''" using 2(2) "1.prems" by simp
      then show ?thesis unfolding tw eq by simp
    next
      case 3
      then show ?thesis unfolding tw by (subst scan_to.simps) simp
    qed
  qed
qed

lemma scan_until_eq: "scan_until u c i = i + length (takeWhile (\<lambda>x. x \<noteq> c) (drop i u))"
proof (induction u c i rule: scan_until.induct)
  case (1 u c i)
  show ?case
  proof (cases "i < length u \<and> u ! i \<noteq> c")
    case True
    then have "drop i u = u ! i # drop (i + 1) u" by (simp add: Cons_nth_drop_Suc)
    with True 1 show ?thesis by (subst scan_until.simps) simp
  next
    case False
    then have "takeWhile (\<lambda>x. x \<noteq> c) (drop i u) = []"
      by (cases "i < length u") (simp_all add: takeWhile_eq_Nil_iff hd_drop_conv_nth)
    then show ?thesis using False by (subst scan_until.simps) auto
  qed
qed

lemma piece_takeWhile: "piece u i (i + length (takeWhile P (drop i u))) = Some (takeWhile P (drop i u))"
proof -
  let ?t = "takeWhile P (drop i u)"
  have "length ?t \<le> length u - i" using length_takeWhile_le [of P "drop i u"] by simp
  moreover have "take (length ?t) (drop i u) = ?t" by (rule takeWhile_eq_take [symmetric])
  moreover have "?t \<noteq> [] \<Longrightarrow> i < length u" by (cases "i < length u") simp_all
  ultimately show ?thesis by (cases "?t = []") (simp_all add: piece_def bslice_def)
qed

lemma drop_takeWhile: "drop (i + length (takeWhile P (drop i u))) u = dropWhile P (drop i u)"
  by (metis add.commute drop_drop dropWhile_eq_drop)

section \<open>The arrays\<close>

definition pairs_rep :: "keyvaluepair list \<Rightarrow> nat \<Rightarrow> (bytes \<times> bytes) list \<Rightarrow> bool" where
  "pairs_rep kvs n ps \<longleftrightarrow>
     length kvs = MAX_LIST_LENGTH \<and> n = length ps \<and> n \<le> MAX_LIST_LENGTH - 2
     \<and> list_all2 kv_rep (take n kvs) ps"

lemma pairs_rep_Nil: "pairs_rep (replicate MAX_LIST_LENGTH NULL_pair) 0 []"
  by (simp add: pairs_rep_def)

lemma pairs_rep_snoc:
  assumes "pairs_rep kvs n ps" "n < MAX_LIST_LENGTH - 2" "kv_rep kv p"
  shows "pairs_rep (kvs[n := kv]) (n + 1) (ps @ [p])"
  using assms by (auto simp: pairs_rep_def take_Suc_conv_app_nth MAX_LIST_LENGTH_def intro!: list_all2_appendI)

lemma pairs_rep_last:
  assumes "pairs_rep kvs n ps" "0 < n" "kv_rep kv p"
  shows "pairs_rep (kvs[n - 1 := kv]) n (butlast ps @ [p])"
proof -
  have n: "n - 1 < length kvs" "n = length ps" using assms(1,2) by (auto simp: pairs_rep_def MAX_LIST_LENGTH_def)
  have "take n (kvs[n - 1 := kv]) = take (n - 1) kvs @ [kv]"
    using n assms(2) take_Suc_conv_app_nth [of "n - 1" "kvs[n - 1 := kv]"] by simp
  moreover have "list_all2 kv_rep (take (n - 1) kvs) (butlast ps)"
  proof -
    have "list_all2 kv_rep (take (n - 1) (take n kvs)) (take (n - 1) ps)"
      using assms(1) unfolding pairs_rep_def by (blast intro: list_all2_takeI)
    then show ?thesis using n by (simp add: butlast_conv_take min_def)
  qed
  ultimately show ?thesis using assms by (auto simp: pairs_rep_def intro: list_all2_appendI)
qed

lemma pairs_rep_nth:
  assumes "pairs_rep kvs n ps" "i < n"
  shows "i < length kvs" "kv_rep (kvs ! i) (ps ! i)"
proof -
  have "list_all2 kv_rep (take n kvs) ps" "n = length ps" using assms(1) unfolding pairs_rep_def by blast+
  from list_all2_nthD [OF this(1), of i] assms show "kv_rep (kvs ! i) (ps ! i)"
    by (auto simp: pairs_rep_def)
  show "i < length kvs" using assms by (auto simp: pairs_rep_def MAX_LIST_LENGTH_def)
qed

text \<open>A new entry: opened with its key, closed with its value.\<close>

lemma entry_runs:
  assumes "pairs_rep (req_body r) (bodycount r) ps" "bodycount r < MAX_LIST_LENGTH - 2"
    "length k < sds_limit" "length v < sds_limit"
  shows "runs (\<lambda>r'. \<exists>kvs. r' = r\<lparr>req_body := kvs, bodycount := bodycount r + 1\<rparr>
      \<and> pairs_rep kvs (bodycount r + 1) (ps @ [(k, v)])) (open_entry mem k r \<bind> close_entry mem v)"
proof -
  have n: "bodycount r < length (req_body r)"
    using assms(1,2) by (auto simp: pairs_rep_def MAX_LIST_LENGTH_def)
  obtain e1 e2 where e: "sdsempty mem = Some (Some e1)" "sds_rep e1 ''''"
    using sdsempty_ok by blast
  obtain k' where k': "sdscatlen mem e1 k (length k) = Some (Some k')" "sds_rep k' k"
    using runs_sdscatlen [OF e(2) order_refl, of k] assms(3) by (auto simp: runs_def sees_def)
  obtain v' where v': "sdscatlen mem e1 v (length v) = Some (Some v')" "sds_rep v' v"
    using runs_sdscatlen [OF e(2) order_refl, of v] assms(4) by (auto simp: runs_def sees_def)
  have "kv_rep \<lparr>kv_key = Some k', kv_value = Some v'\<rparr> (k, v)" using k' v' by (simp add: kv_rep_def)
  from pairs_rep_snoc [OF assms(1,2) this] show ?thesis
    using n e k' v' by (auto simp: open_entry_def close_entry_def set_pair_def intro!: exI)
qed

section \<open>The URL\<close>

lemma takeWhile_length_le: "length (takeWhile P (drop i u)) \<le> length u"
  by (metis diff_le_self le_trans length_drop length_takeWhile_le)

lemma take_limit_Cons:
  assumes "length ps < l"
  shows "take (l - length ps) (p # xs) = p # take (l - length (ps @ [p])) xs"
proof -
  have "l - length ps = Suc (l - length (ps @ [p]))" using assms by simp
  then show ?thesis by (simp only: take_Suc_Cons)
qed

lemma url_vars_stop:
  assumes "i < length u" "scan_to u (CHR ''='') (i + 1) = (b, j)"
    "b \<or> MAX_LIST_LENGTH - 2 \<le> bodycount r"
  shows "url_vars al u i r = Some r"
  using assms(1,3) by (subst url_vars.simps, subst assms(2)) (cases b; simp)

lemma url_vars_step:
  assumes "i < length u" "scan_to u (CHR ''='') (i + 1) = (False, j)" "bodycount r < MAX_LIST_LENGTH - 2"
    "piece u (i + 1) j = Some k" "scan_to u (CHR ''&'') (j + 1) = (space, m)" "piece u (j + 1) m = Some v"
    "open_entry al k r \<bind> close_entry al v = Some r1"
  shows "url_vars al u i r = (if space then Some r1 else url_vars al u m r1)"
proof -
  obtain r0 where r0: "open_entry al k r = Some r0" "close_entry al v r0 = Some r1"
    using assms(7) by (auto simp: bind_eq_Some_conv)
  show ?thesis
    using assms(1,3) by (subst url_vars.simps, subst assms(2)) (simp add: assms(4-6) [simplified] r0)
qed

lemma url_vars_runs:
  assumes "pairs_rep (req_body r) (bodycount r) ps" "length u < sds_limit"
  shows "runs (\<lambda>r'. \<exists>kvs n. r' = r\<lparr>req_body := kvs, bodycount := n\<rparr> \<and> pairs_rep kvs n
      (ps @ take (MAX_LIST_LENGTH - 2 - length ps) (if i < length u then url_pairs (drop (i + 1) u) else [])))
    (url_vars mem u i r)"
  using assms
proof (induction "length u - i" arbitrary: i r ps rule: less_induct)
  case less
  have n: "bodycount r = length ps" "length ps \<le> MAX_LIST_LENGTH - 2"
    using less.prems(1) by (simp_all add: pairs_rep_def)
  have same: "runs (\<lambda>r'. \<exists>kvs n. r' = r\<lparr>req_body := kvs, bodycount := n\<rparr> \<and> pairs_rep kvs n (ps @ take 0 xs)) (Some r)" for xs
    using less.prems(1) by (auto intro!: exI [of _ "req_body r"] exI [of _ "bodycount r"])
  show ?case
  proof (cases "i < length u")
    case False
    then show ?thesis using same by (subst url_vars.simps) simp
  next
    case True
    let ?q = "drop (i + 1) u"
    let ?k = "takeWhile (until (CHR ''='')) ?q"
    let ?j = "i + 1 + length ?k"
    let ?v = "takeWhile (until (CHR ''&'')) (drop (?j + 1) u)"
    let ?m = "?j + 1 + length ?v"
    have r: "dropWhile (until (CHR ''='')) ?q = drop ?j u" by (rule drop_takeWhile [symmetric])
    have s: "dropWhile (until (CHR ''&'')) (tl (drop ?j u)) = drop ?m u"
      by (simp only: tl_drop drop_takeWhile [symmetric] drop_Suc [symmetric] Suc_eq_plus1)
    have scan1: "scan_to u (CHR ''='') (i + 1) = (?j < length u \<and> u ! ?j = CHR '' '', ?j)"
      by (simp add: scan_to_eq Let_def)
    have scan2: "scan_to u (CHR ''&'') (?j + 1) = (?m < length u \<and> u ! ?m = CHR '' '', ?m)"
      by (simp add: scan_to_eq Let_def)
    have hd1: "drop ?j u \<noteq> [] \<and> hd (drop ?j u) = c \<longleftrightarrow> ?j < length u \<and> u ! ?j = c" for c
      by (auto simp: hd_drop_conv_nth)
    have q: "url_pairs ?q = (if ?j < length u \<and> u ! ?j = CHR '' '' then []
        else (?k, ?v) # (if ?m < length u \<and> u ! ?m = CHR ''&'' then url_pairs (drop (?m + 1) u) else []))"
    proof -
      have t: "tl (drop ?j u) = drop (?j + 1) u" by (simp add: tl_drop drop_Suc)
      have s': "drop ?m u \<noteq> [] \<and> hd (drop ?m u) = c \<longleftrightarrow> ?m < length u \<and> u ! ?m = c" for c
        by (auto simp: hd_drop_conv_nth)
      have t': "tl (drop ?m u) = drop (?m + 1) u" by (simp add: tl_drop drop_Suc)
      show ?thesis
        by (subst url_pairs.simps) (simp only: Let_def r t s [unfolded t] hd1 s' t')
    qed
    show ?thesis
    proof (cases "?j < length u \<and> u ! ?j = CHR '' '' \<or> length ps = MAX_LIST_LENGTH - 2")
      case True
      then have "take (MAX_LIST_LENGTH - 2 - length ps) (url_pairs ?q) = []" unfolding q by auto
      moreover have "url_vars mem u i r = Some r"
        by (rule url_vars_stop [OF \<open>i < length u\<close> scan1]) (use True n in auto)
      ultimately show ?thesis using same [of "[]"] \<open>i < length u\<close> by (simp only: take_0 if_True)
    next
      case nospace: False
      then have lt: "bodycount r < MAX_LIST_LENGTH - 2" using n by simp
      have kp: "piece u (i + 1) ?j = Some ?k" by (rule piece_takeWhile)
      have vp: "piece u (?j + 1) ?m = Some ?v" by (rule piece_takeWhile)
      have lens: "length ?k < sds_limit" "length ?v < sds_limit"
        using takeWhile_length_le [of "until (CHR ''='')" "i + 1" u]
          takeWhile_length_le [of "until (CHR ''&'')" "?j + 1" u] less.prems(2) by linarith+
      from entry_runs [OF less.prems(1) lt lens] obtain r1 kvs
        where r1: "open_entry mem ?k r \<bind> close_entry mem ?v = Some r1"
          "r1 = r\<lparr>req_body := kvs, bodycount := bodycount r + 1\<rparr>"
          "pairs_rep kvs (bodycount r + 1) (ps @ [(?k, ?v)])"
        by (auto simp: runs_def)
      have step: "url_vars mem u i r = (if ?m < length u \<and> u ! ?m = CHR '' '' then Some r1 else url_vars mem u ?m r1)"
        by (rule url_vars_step [OF \<open>i < length u\<close> _ lt kp scan2 vp r1(1)]) (use scan1 nospace in simp)
      have rep1: "pairs_rep (req_body r1) (bodycount r1) (ps @ [(?k, ?v)])" using r1(2,3) by simp
      have stop: "u ! ?m = CHR ''&''" if "?m < length u" "u ! ?m \<noteq> CHR '' ''"
      proof -
        have "drop ?m u \<noteq> []" using that(1) by simp
        then have "\<not> until (CHR ''&'') (hd (drop ?m u))"
          unfolding drop_takeWhile by (rule hd_dropWhile)
        with that show ?thesis by (simp add: hd_drop_conv_nth until_def)
      qed
      have cut: "take (MAX_LIST_LENGTH - 2 - length ps) ((?k, ?v) # xs)
          = (?k, ?v) # take (MAX_LIST_LENGTH - 2 - length (ps @ [(?k, ?v)])) xs" for xs
        using lt n(1) by (intro take_limit_Cons) simp
      show ?thesis
      proof (cases "?m < length u \<and> u ! ?m = CHR '' ''")
        case True
        then have "url_pairs ?q = [(?k, ?v)]" using nospace unfolding q by auto
        then show ?thesis using True step r1(2,3) \<open>i < length u\<close> cut [of "[]"] by auto
      next
        case False
        have "url_pairs ?q = (?k, ?v) # (if ?m < length u then url_pairs (drop (?m + 1) u) else [])"
          using nospace False stop unfolding q by auto
        moreover have "length u - ?m < length u - i" using \<open>i < length u\<close> by simp
        ultimately show ?thesis
          using less.hyps [OF _ rep1 less.prems(2), of ?m] False step r1(2) \<open>i < length u\<close> cut
          by (auto simp: runs_def)
      qed
    qed
  qed
qed

section \<open>The body\<close>

lemma body_vars_step:
  assumes "i < length u" "j = scan_until u (CHR ''='') i" "m = scan_until u (CHR ''&'') (j + 1)"
    "bodycount r < MAX_LIST_LENGTH - 2" "piece u i j = Some k" "piece u (j + 1) m = Some v"
    "open_entry al k r \<bind> close_entry al v = Some r1"
  shows "body_vars al u i r = body_vars al u (m + 1) r1"
proof -
  obtain r0 where r0: "open_entry al k r = Some r0" "close_entry al v r0 = Some r1"
    using assms(7) by (auto simp: bind_eq_Some_conv)
  show ?thesis
    using assms(1,4) assms(5,6) [unfolded assms(3), unfolded assms(2)] r0
    by (subst body_vars.simps) (simp add: assms(2,3))
qed

lemma body_pairs_Cons:
  "q \<noteq> [] \<Longrightarrow> body_pairs q =
     (takeWhile (\<lambda>c. c \<noteq> CHR ''='') q, takeWhile (\<lambda>c. c \<noteq> CHR ''&'') (tl (dropWhile (\<lambda>c. c \<noteq> CHR ''='') q)))
     # body_pairs (tl (dropWhile (\<lambda>c. c \<noteq> CHR ''&'') (tl (dropWhile (\<lambda>c. c \<noteq> CHR ''='') q))))"
  by (subst body_pairs.simps) (simp add: Let_def)

lemma tl_drop_takeWhile:
  "tl (dropWhile P (drop i u)) = drop (i + length (takeWhile P (drop i u)) + 1) u"
  by (subst drop_takeWhile [symmetric]) (simp add: tl_drop drop_Suc)

lemma body_vars_runs:
  assumes "pairs_rep (req_body r) (bodycount r) ps" "length u < sds_limit"
  shows "runs (\<lambda>r'. \<exists>kvs n. r' = r\<lparr>req_body := kvs, bodycount := n\<rparr> \<and> pairs_rep kvs n
      (ps @ take (MAX_LIST_LENGTH - 2 - length ps) (body_pairs (drop i u))))
    (body_vars mem u i r)"
  using assms
proof (induction "length u - i" arbitrary: i r ps rule: less_induct)
  case less
  have n: "bodycount r = length ps" "length ps \<le> MAX_LIST_LENGTH - 2"
    using less.prems(1) by (simp_all add: pairs_rep_def)
  show ?case
  proof (cases "i < length u \<and> length ps < MAX_LIST_LENGTH - 2")
    case False
    then have none: "take (MAX_LIST_LENGTH - 2 - length ps) (body_pairs (drop i u)) = []"
      by (auto simp: body_pairs.simps [of "[]"])
    have eq: "body_vars mem u i r = Some r"
      using False n by (subst body_vars.simps) auto
    show ?thesis
      unfolding none eq using less.prems(1)
      by (auto intro!: exI [of _ "req_body r"] exI [of _ "bodycount r"])
  next
    case True
    then have lt: "i < length u" "bodycount r < MAX_LIST_LENGTH - 2" using n by simp_all
    let ?k = "takeWhile (\<lambda>c. c \<noteq> CHR ''='') (drop i u)"
    let ?j = "i + length ?k"
    let ?v = "takeWhile (\<lambda>c. c \<noteq> CHR ''&'') (drop (?j + 1) u)"
    let ?m = "?j + 1 + length ?v"
    have lens: "length ?k < sds_limit" "length ?v < sds_limit"
      using takeWhile_length_le [of "\<lambda>c. c \<noteq> CHR ''=''" i u]
        takeWhile_length_le [of "\<lambda>c. c \<noteq> CHR ''&''" "?j + 1" u] less.prems(2) by linarith+
    from entry_runs [OF less.prems(1) lt(2) lens] obtain r1 kvs
      where r1: "open_entry mem ?k r \<bind> close_entry mem ?v = Some r1"
        "r1 = r\<lparr>req_body := kvs, bodycount := bodycount r + 1\<rparr>"
        "pairs_rep kvs (bodycount r + 1) (ps @ [(?k, ?v)])"
      by (auto simp: runs_def)
    have step: "body_vars mem u i r = body_vars mem u (?m + 1) r1"
      by (rule body_vars_step [OF lt(1) _ _ lt(2) piece_takeWhile piece_takeWhile r1(1)])
        (simp_all add: scan_until_eq)
    have rep1: "pairs_rep (req_body r1) (bodycount r1) (ps @ [(?k, ?v)])" using r1(2,3) by simp
    have "body_pairs (drop i u) = (?k, ?v) # body_pairs (drop (?m + 1) u)"
      using lt(1) by (subst body_pairs_Cons) (simp, simp only: tl_drop_takeWhile)
    moreover have "length u - (?m + 1) < length u - i" using lt(1) by simp
    moreover have "take (MAX_LIST_LENGTH - 2 - length ps) ((?k, ?v) # xs)
        = (?k, ?v) # take (MAX_LIST_LENGTH - 2 - length (ps @ [(?k, ?v)])) xs" for xs
      using True by (intro take_limit_Cons) simp
    ultimately show ?thesis
      using less.hyps [OF _ rep1 less.prems(2), of "?m + 1"] step r1(2) by (auto simp: runs_def)
  qed
qed

section \<open>The callbacks\<close>

lemma urlparser_runs:
  assumes "pairs_rep (req_body r) (bodycount r) ps" "length u < sds_limit"
  shows "runs (\<lambda>r'. \<exists>p kvs n. r' = r\<lparr>url := p, req_body := kvs, bodycount := n\<rparr> \<and> sees (url_path u) p
      \<and> pairs_rep kvs n (ps @ take (MAX_LIST_LENGTH - 2 - length ps) (url_vars_of u)))
    (urlparser mem u r)"
proof -
  let ?p = "takeWhile (until (CHR ''?'')) (drop 1 u)"
  let ?j = "1 + length ?p"
  have scan: "scan_to u (CHR ''?'') 1 = (?j < length u \<and> u ! ?j = CHR '' '', ?j)"
    by (simp add: scan_to_eq Let_def)
  have path: "piece u 1 ?j = Some ?p" by (rule piece_takeWhile)
  have rest: "dropWhile (until (CHR ''?'')) (drop 1 u) = drop ?j u" by (rule drop_takeWhile [symmetric])
  have "length ?p < sds_limit" using takeWhile_length_le [of "until (CHR ''?'')" 1 u] assms(2) by linarith
  then obtain s where s: "sdsnewlen mem (Init ?p) (length ?p) = Some (Some s)" "sds_rep s (url_path u)"
    using runs_sdsnewlen [of "length ?p" ?p] by (auto simp: runs_def sees_def url_path_def)
  let ?r = "r\<lparr>url := Some s\<rparr>"
  have eq: "urlparser mem u r = (if ?j < length u \<and> u ! ?j = CHR '' '' then Some ?r else url_vars mem u ?j ?r)"
    unfolding urlparser_def scan by (simp add: path [simplified] s(1) [simplified])
  have vars: "url_vars_of u = (if ?j < length u \<and> u ! ?j = CHR '' '' then []
      else if ?j < length u then url_pairs (drop (?j + 1) u) else [])"
  proof (cases "?j < length u")
    case True
    then have "drop ?j u = u ! ?j # drop (?j + 1) u" by (simp add: Cons_nth_drop_Suc)
    with True rest show ?thesis unfolding url_vars_of_def by (simp del: One_nat_def)
  next
    case False
    then have nil: "drop ?j u = []" by simp
    show ?thesis unfolding url_vars_of_def rest nil using False by simp
  qed
  show ?thesis
  proof (cases "?j < length u \<and> u ! ?j = CHR '' ''")
    case True
    then have none: "url_vars_of u = []" unfolding vars by simp
    have eq1: "urlparser mem u r = Some ?r" unfolding eq using True by simp
    show ?thesis
      unfolding none eq1 using s(2) assms(1)
      by (auto intro!: exI [of _ "Some s"] exI [of _ "req_body r"] exI [of _ "bodycount r"])
  next
    case False
    then have v: "url_vars_of u = (if ?j < length u then url_pairs (drop (?j + 1) u) else [])"
      and eq1: "urlparser mem u r = url_vars mem u ?j ?r"
      unfolding vars eq by auto
    have "pairs_rep (req_body ?r) (bodycount ?r) ps" using assms(1) by simp
    from url_vars_runs [OF this assms(2), of ?j] obtain kvs n
      where "url_vars mem u ?j ?r = Some (?r\<lparr>req_body := kvs, bodycount := n\<rparr>)"
        "pairs_rep kvs n (ps @ take (MAX_LIST_LENGTH - 2 - length ps) (url_vars_of u))"
      unfolding v runs_def by blast
    moreover have "sees (url_path u) (Some s)" using s(2) by simp
    ultimately show ?thesis unfolding eq1 runs_def by blast
  qed
qed

lemma url_pairs_length:
  "p \<in> set (url_pairs q) \<Longrightarrow> length (fst p) \<le> length q \<and> length (snd p) \<le> length q"
proof (induction q rule: url_pairs.induct)
  case (1 q)
  let ?r = "dropWhile (until (CHR ''='')) q"
  let ?s = "dropWhile (until (CHR ''&'')) (tl ?r)"
  have l: "length ?r \<le> length q" "length (takeWhile (until (CHR ''='')) q) \<le> length q"
    "length ?s \<le> length (tl ?r)" "length (takeWhile (until (CHR ''&'')) (tl ?r)) \<le> length (tl ?r)"
    by (rule length_dropWhile_le length_takeWhile_le)+
  from "1.prems" consider
      "p = (takeWhile (until (CHR ''='')) q, takeWhile (until (CHR ''&'')) (tl ?r))"
    | "\<not> (?r \<noteq> [] \<and> hd ?r = CHR '' '')" "?s \<noteq> [] \<and> hd ?s = CHR ''&''" "p \<in> set (url_pairs (tl ?s))"
    by (subst (asm) url_pairs.simps) (auto simp: Let_def split: if_splits)
  then show ?case
  proof cases
    case 1
    with l show ?thesis by auto
  next
    case 2
    then have "length (fst p) \<le> length (tl ?s) \<and> length (snd p) \<le> length (tl ?s)"
      by (rule "1.IH" [OF refl refl refl refl])
    with l show ?thesis by auto
  qed
qed

lemma body_pairs_length:
  "p \<in> set (body_pairs q) \<Longrightarrow> length (fst p) \<le> length q \<and> length (snd p) \<le> length q"
proof (induction q rule: body_pairs.induct)
  case (1 q)
  show ?case
  proof (cases "q = []")
    case True
    with "1.prems" show ?thesis by (simp add: body_pairs.simps [of "[]"])
  next
    case False
    let ?r = "tl (dropWhile (\<lambda>c. c \<noteq> CHR ''='') q)"
    let ?s = "tl (dropWhile (\<lambda>c. c \<noteq> CHR ''&'') ?r)"
    have tl: "length (tl (dropWhile P xs)) \<le> length xs" for P and xs :: bytes
      using length_dropWhile_le [of P xs] by simp
    have l: "length ?r \<le> length q" "length (takeWhile (\<lambda>c. c \<noteq> CHR ''='') q) \<le> length q"
      "length ?s \<le> length ?r" "length (takeWhile (\<lambda>c. c \<noteq> CHR ''&'') ?r) \<le> length ?r"
      by (rule tl length_takeWhile_le)+
    from "1.prems" consider "p = (takeWhile (\<lambda>c. c \<noteq> CHR ''='') q, takeWhile (\<lambda>c. c \<noteq> CHR ''&'') ?r)"
      | "p \<in> set (body_pairs ?s)"
      using body_pairs_Cons [OF False] by auto
    then show ?thesis
    proof cases
      case 1
      with l show ?thesis by auto
    next
      case 2
      with "1.IH" [OF False refl refl] have "length (fst p) \<le> length ?s \<and> length (snd p) \<le> length ?s" by blast
      with l show ?thesis by linarith
    qed
  qed
qed

lemma url_vars_of_length:
  assumes "p \<in> set (url_vars_of u)"
  shows "length (fst p) \<le> length u \<and> length (snd p) \<le> length u"
proof -
  obtain c q where q: "dropWhile (until (CHR ''?'')) (drop 1 u) = c # q"
    using assms unfolding url_vars_of_def by (metis empty_iff list.exhaust list.set(1) list.simps(4))
  with assms have p: "p \<in> set (url_pairs q)" unfolding url_vars_of_def by (simp split: if_splits)
  have "length (c # q) \<le> length (drop 1 u)" unfolding q [symmetric] by (rule length_dropWhile_le)
  with url_pairs_length [OF p] show ?thesis by auto
qed

section \<open>The invariant of the request\<close>

definition short :: "nat \<Rightarrow> (bytes \<times> bytes) list \<Rightarrow> bool" where
  "short b ps \<longleftrightarrow> (\<forall>p \<in> set ps. length (fst p) \<le> b \<and> length (snd p) \<le> b)"

lemma short_simps [simp]:
  "short b []" "short b (p # ps) \<longleftrightarrow> length (fst p) \<le> b \<and> length (snd p) \<le> b \<and> short b ps"
  "short b (ps @ qs) \<longleftrightarrow> short b ps \<and> short b qs"
  by (auto simp: short_def)

lemma short_mono: "short b ps \<Longrightarrow> b \<le> b' \<Longrightarrow> short b' ps"
  by (auto simp: short_def intro: le_trans)

lemma short_take: "short b ps \<Longrightarrow> short b (take n ps)"
  by (auto simp: short_def dest: in_set_takeD)

lemma short_butlast: "short b ps \<Longrightarrow> short b (butlast ps)"
  by (auto simp: short_def dest: in_set_butlastD)

text \<open>The URL is NULL, or it is the path of the raw URL.\<close>

definition url_ok :: "nat \<Rightarrow> http_request \<Rightarrow> bool" where
  "url_ok b r \<longleftrightarrow>
     url r = None \<and> rawurl r = None
     \<or> (\<exists>u. sees (url_path u) (url r) \<and> sees u (rawurl r) \<and> length u \<le> b)"

definition request_ok :: "nat \<Rightarrow> http_request \<Rightarrow> bool" where
  "request_ok b r \<longleftrightarrow>
     url_ok b r
     \<and> (\<exists>hs. pairs_rep (req_headers r) (headercount r) hs \<and> short b hs)
     \<and> (\<exists>bs. pairs_rep (req_body r) (bodycount r) bs \<and> short b bs)"

lemma request_ok_mono: "request_ok b r \<Longrightarrow> b \<le> b' \<Longrightarrow> request_ok b' r"
  unfolding request_ok_def url_ok_def by (meson le_trans short_mono)

lemma init_ok: "request_ok b init_threadlocalhrq"
  using pairs_rep_Nil by (auto simp: request_ok_def url_ok_def init_threadlocalhrq_def)

lemma header_field_runs:
  assumes "request_ok b r" "b + length at < sds_limit"
  shows "runs (\<lambda>r'. request_ok (b + length at) r' \<and> 0 < headercount r') (header_field_callback mem at r)"
proof (cases "MAX_LIST_LENGTH - 2 \<le> headercount r")
  case True
  then show ?thesis
    using request_ok_mono [OF assms(1), of "b + length at"]
    by (simp add: header_field_callback_def MAX_LIST_LENGTH_def)
next
  case False
  obtain hs where hs: "pairs_rep (req_headers r) (headercount r) hs" "short b hs"
    using assms(1) by (auto simp: request_ok_def)
  obtain k where k: "sdsnewlen mem (Init at) (length at) = Some (Some k)" "sds_rep k at"
    using runs_sdsnewlen [of "length at" at] assms(2) by (auto simp: runs_def sees_def)
  obtain v where v: "sdsempty mem = Some (Some v)" "sds_rep v ''''" using sdsempty_ok by blast
  let ?kv = "\<lparr>kv_key = Some k, kv_value = Some v\<rparr>"
  have "headercount r < length (req_headers r)" using hs(1) False by (simp add: pairs_rep_def)
  moreover have "pairs_rep ((req_headers r)[headercount r := ?kv]) (headercount r + 1) (hs @ [(at, '''')])"
    using hs(1) False k v by (intro pairs_rep_snoc) (simp_all add: kv_rep_def)
  moreover have "short (b + length at) (hs @ [(at, '''')])" using short_mono [OF hs(2)] by simp
  ultimately show ?thesis
    using False k(1) v(1) request_ok_mono [OF assms(1), of "b + length at"]
    by (auto simp: header_field_callback_def set_pair_def request_ok_def url_ok_def)
qed

lemma header_value_runs:
  assumes "request_ok b r" "0 < headercount r" "b + length at < sds_limit"
  shows "runs (\<lambda>r'. request_ok (b + length at) r' \<and> 0 < headercount r') (header_value_callback mem at r)"
proof -
  obtain hs where hs: "pairs_rep (req_headers r) (headercount r) hs" "short b hs"
    using assms(1) by (auto simp: request_ok_def)
  have n: "headercount r = length hs" "headercount r \<le> MAX_LIST_LENGTH" using hs(1) by (auto simp: pairs_rep_def)
  have i: "headercount r - 1 < headercount r" using assms(2) by simp
  note kv = pairs_rep_nth [OF hs(1) i]
  let ?kv = "req_headers r ! (headercount r - 1)" and ?p = "hs ! (headercount r - 1)"
  have p: "?p \<in> set hs" using n(1) i by simp
  then have len: "length (fst ?p) \<le> b" "length (snd ?p) \<le> b" using hs(2) by (auto simp: short_def)
  obtain s where s: "kv_value ?kv = Some s" "sds_rep s (snd ?p)"
    using kv(2) by (auto simp: kv_rep_def sees_def)
  obtain v where v: "sdscatlen mem s at (length at) = Some (Some v)" "sds_rep v (snd ?p @ at)"
    using runs_sdscatlen [OF s(2) order_refl, of at] assms(3) len by (auto simp: runs_def sees_def)
  have "kv_rep (?kv\<lparr>kv_value := Some v\<rparr>) (fst ?p, snd ?p @ at)"
    using kv(2) v(2) by (simp add: kv_rep_def)
  from pairs_rep_last [OF hs(1) assms(2) this]
  have "pairs_rep ((req_headers r)[headercount r - 1 := ?kv\<lparr>kv_value := Some v\<rparr>]) (headercount r)
      (butlast hs @ [(fst ?p, snd ?p @ at)])" .
  moreover have "short (b + length at) (butlast hs @ [(fst ?p, snd ?p @ at)])"
    using short_mono [OF short_butlast [OF hs(2)]] len by simp
  moreover have "header_value_callback mem at r
      = Some (r\<lparr>req_headers := (req_headers r)[headercount r - 1 := ?kv\<lparr>kv_value := Some v\<rparr>]\<rparr>)"
    using n(2) assms(2) kv(1) s(1) v(1) by (simp add: header_value_callback_def set_pair_def)
  ultimately show ?thesis
    using request_ok_mono [OF assms(1), of "b + length at"] assms(2)
    by (auto simp: request_ok_def url_ok_def)
qed

lemma url_callback_runs:
  assumes "request_ok b r" "b + length at < sds_limit"
  shows "runs (\<lambda>r'. request_ok (b + length at) r' \<and> headercount r' = headercount r) (my_url_callback mem at r)"
proof -
  obtain bs where bs: "pairs_rep (req_body r) (bodycount r) bs" "short b bs"
    using assms(1) by (auto simp: request_ok_def)
  obtain s where s: "sdsnewlen mem (Init at) (length at) = Some (Some s)" "sds_rep s at"
    using runs_sdsnewlen [of "length at" at] assms(2) by (auto simp: runs_def sees_def)
  obtain d where d: "sdsdup mem s = Some (Some d)" "sds_rep d at"
    using runs_sdsdup [OF s(2)] assms(2) by (auto simp: runs_def sees_def)
  have "length at < sds_limit" using assms(2) by simp
  from urlparser_runs [OF bs(1) this] obtain p kvs n
    where p: "urlparser mem at r = Some (r\<lparr>url := p, req_body := kvs, bodycount := n\<rparr>)"
      "sees (url_path at) p" "pairs_rep kvs n (bs @ take (MAX_LIST_LENGTH - 2 - length bs) (url_vars_of at))"
    unfolding runs_def by blast
  have "short (b + length at) (url_vars_of at)"
    using url_vars_of_length by (fastforce simp: short_def)
  then have "short (b + length at) (bs @ take (MAX_LIST_LENGTH - 2 - length bs) (url_vars_of at))"
    using short_mono [OF bs(2)] by (simp add: short_take)
  moreover have "\<exists>hs. pairs_rep (req_headers r) (headercount r) hs \<and> short (b + length at) hs"
    using request_ok_mono [OF assms(1), of "b + length at"] by (auto simp: request_ok_def)
  moreover have "sees at (Some d)" using d(2) by simp
  ultimately show ?thesis
    using p s d(1) by (auto simp: my_url_callback_def request_ok_def url_ok_def)
qed

lemma body_callback_runs:
  assumes "request_ok b r" "b + length at < sds_limit"
  shows "runs (\<lambda>r'. request_ok (b + length at) r' \<and> headercount r' = headercount r) (body_callback mem at r)"
proof -
  obtain bs where bs: "pairs_rep (req_body r) (bodycount r) bs" "short b bs"
    using assms(1) by (auto simp: request_ok_def)
  obtain s where s: "sdsnewlen mem (Init at) (length at) = Some (Some s)" "sds_rep s at"
    using runs_sdsnewlen [of "length at" at] assms(2) by (auto simp: runs_def sees_def)
  let ?r = "r\<lparr>rawbody := Some s\<rparr>"
  have "pairs_rep (req_body ?r) (bodycount ?r) bs" "length at < sds_limit" using bs(1) assms(2) by simp_all
  from body_vars_runs [OF this, of 0] obtain kvs n
    where p: "body_vars mem at 0 ?r = Some (?r\<lparr>req_body := kvs, bodycount := n\<rparr>)"
      "pairs_rep kvs n (bs @ take (MAX_LIST_LENGTH - 2 - length bs) (body_pairs at))"
    unfolding runs_def by auto
  have "short (b + length at) (body_pairs at)"
    using body_pairs_length by (fastforce simp: short_def)
  then have "short (b + length at) (bs @ take (MAX_LIST_LENGTH - 2 - length bs) (body_pairs at))"
    using short_mono [OF bs(2)] by (simp add: short_take)
  moreover have "\<exists>hs. pairs_rep (req_headers r) (headercount r) hs \<and> short (b + length at) hs"
    using request_ok_mono [OF assms(1), of "b + length at"] by (auto simp: request_ok_def)
  ultimately show ?thesis
    using p s request_ok_mono [OF assms(1), of "b + length at"]
    by (auto simp: body_callback_def request_ok_def url_ok_def)
qed

section \<open>Creating a request\<close>

fun request_step :: "data_cb \<Rightarrow> bytes \<Rightarrow> http_request run \<Rightarrow> http_request run" where
  "request_step cb_url s c = c \<bind> my_url_callback mem s"
| "request_step cb_header_field s c = c \<bind> header_field_callback mem s"
| "request_step cb_header_value s c = c \<bind> header_value_callback mem s"
| "request_step cb_body s c = c \<bind> body_callback mem s"
| "request_step cb_status s c = c"

definition request_track :: "nat \<Rightarrow> bool \<Rightarrow> http_request run \<Rightarrow> bool" where
  "request_track b v c \<longleftrightarrow>
     (b < sds_limit \<longrightarrow> runs (\<lambda>r. request_ok b r \<and> (v \<longrightarrow> 0 < headercount r)) c)"

lemma request_settings_simps:
  "on_data cb_url (request_settings al) = Some (as_callback (my_url_callback al))"
  "on_data cb_header_field (request_settings al) = Some (as_callback (header_field_callback al))"
  "on_data cb_header_value (request_settings al) = Some (as_callback (header_value_callback al))"
  "on_data cb_body (request_settings al) = Some (as_callback (body_callback al))"
  "on_data cb_status (request_settings al) = None"
  "on_notify f (request_settings al) = None" "on_headers_complete (request_settings al) = None"
  by (cases f; simp add: request_settings_def http_parser_settings_init_def)+

interpretation requests: tracked_callbacks "request_settings mem" request_step request_track
proof
  show "cb p c = (0, p, c)" if "on_notify f (request_settings mem) = Some cb" for f cb p c
    using that by (simp add: request_settings_simps)
  show "dcb p s c = (0, p, request_step g s c)" if "on_data g (request_settings mem) = Some dcb" for g dcb p s c
    using that by (cases g) (auto simp: request_settings_def http_parser_settings_init_def as_callback_def)
  show "cb p c = (0, p, c)" if "on_headers_complete (request_settings mem) = Some cb" for cb p c
    using that by (simp add: request_settings_simps)
  show "request_track b' v' c" if "request_track b v c" "b \<le> b'" "v' \<longrightarrow> v" for b v c b' v'
    using that by (auto simp: request_track_def intro: request_ok_mono elim!: runs_mono)
  show "on_data cb_header_field (request_settings mem) \<noteq> None" by (simp add: request_settings_def http_parser_settings_init_def)
  fix b v c g s
  assume t: "request_track b v c" and g: "g = cb_header_value \<longrightarrow> v"
    and set: "on_data g (request_settings mem) \<noteq> None"
  show "request_track (b + length s) (v \<or> g = cb_header_field) (request_step g s c)"
    unfolding request_track_def
  proof
    assume lt: "b + length s < sds_limit"
    with t obtain r where r: "c = Some r" "request_ok b r" "v \<longrightarrow> 0 < headercount r"
      by (auto simp: request_track_def runs_def)
    show "runs (\<lambda>r. request_ok (b + length s) r \<and> (v \<or> g = cb_header_field \<longrightarrow> 0 < headercount r)) (request_step g s c)"
      using header_field_runs [OF r(2) lt] header_value_runs [OF r(2) _ lt] url_callback_runs [OF r(2) lt]
        body_callback_runs [OF r(2) lt] r(1,3) g set
      by (cases g) (auto simp: request_settings_def http_parser_settings_init_def elim!: runs_mono)
  qed
qed

lemma create_request_runs:
  assumes "sds_rep raw t" "length t < sds_limit"
  shows "runs (\<lambda>r. request_ok (length t) r \<and> (\<exists>m. sees (method_name m) (req_type r)))
    (create_request mem raw init_threadlocalhrq)"
proof -
  have "request_track 0 False (Some init_threadlocalhrq)" by (simp add: request_track_def init_ok)
  moreover have "length t < 2 ^ 64" using assms(2) by (simp add: sds_limit_def)
  ultimately obtain n q c
    where q: "http_parser_execute HTTP_MAX_HEADER_SIZE (http_parser_init HTTP_REQUEST) (request_settings mem) t
        (Some init_threadlocalhrq) = Some (Parsed n q c)" "request_track (length t) False c"
    using requests.execute_tracked by blast
  then obtain r where r: "c = Some r" "request_ok (length t) r"
    using assms(2) by (auto simp: request_track_def runs_def)
  have "length (method_name m) < sds_limit \<and> cstr (method_name m) = method_name m" for m
    by (auto simp: method_name_def sds_limit_def cstr_def)
  then obtain ty where "sdsnew mem (Some (method_name (meth q))) = Some (Some ty)" "sds_rep ty (method_name (meth q))"
    using runs_sdsnew [of "method_name (meth q)"] by (auto simp: runs_def sees_def)
  with q(1) r assms(1) show ?thesis
    by (auto simp: create_request_def request_ok_def url_ok_def)
qed

end
