(* ===== verification/Request_Contract.thy ===== *)
theory Request_Contract
  imports Request_Spec
begin

text \<open>The properties of the request object: the headers and the variables it collects, its
  cookies, and the safety of \<open>create_request\<close> on any bytes.\<close>

section \<open>The headers\<close>

text \<open>The calls the parser makes for a list of headers.\<close>

primrec store_headers :: "(nat \<Rightarrow> bool) \<Rightarrow> (bytes \<times> bytes) list \<Rightarrow> http_request \<Rightarrow> http_request run" where
  "store_headers al [] r = Some r"
| "store_headers al (h # hs) r =
     header_field_callback al (fst h) r \<bind> header_value_callback al (snd h) \<bind> store_headers al hs"

text \<open>One header more: past the limit its value goes to the last one that is kept.\<close>

definition add_header :: "(bytes \<times> bytes) list \<Rightarrow> bytes \<times> bytes \<Rightarrow> (bytes \<times> bytes) list" where
  "add_header ps h =
     (if length ps < MAX_LIST_LENGTH - 2 then ps @ [h]
      else butlast ps @ [(fst (last ps), snd (last ps) @ snd h)])"

definition kept_headers :: "(bytes \<times> bytes) list \<Rightarrow> (bytes \<times> bytes) list" where
  "kept_headers hs =
     (if length hs \<le> MAX_LIST_LENGTH - 2 then hs
      else take (MAX_LIST_LENGTH - 3) hs
        @ [(fst (hs ! (MAX_LIST_LENGTH - 3)), concat (map snd (drop (MAX_LIST_LENGTH - 3) hs)))])"

lemma kept_headers_snoc: "kept_headers (hs @ [h]) = add_header (kept_headers hs) h"
proof -
  consider "length hs < MAX_LIST_LENGTH - 2" | "length hs = MAX_LIST_LENGTH - 2"
    | "MAX_LIST_LENGTH - 2 < length hs" by linarith
  then show ?thesis
  proof cases
    case 2
    then have "hs \<noteq> []" by (auto simp: MAX_LIST_LENGTH_def)
    then obtain qs q where hs: "hs = qs @ [q]" by (metis rev_exhaust)
    with 2 have "length qs = MAX_LIST_LENGTH - 3" by (simp add: MAX_LIST_LENGTH_def)
    with 2 hs show ?thesis
      by (simp add: kept_headers_def add_header_def nth_append)
  qed (auto simp: kept_headers_def add_header_def MAX_LIST_LENGTH_def nth_append)
qed

lemma pairs_rep_total:
  assumes "pairs_rep kvs n ps" "ps \<noteq> []" "length at + length (concat (map snd ps)) < sds_limit"
  shows "length (snd (last ps)) + length at < sds_limit"
proof -
  show ?thesis using assms(2,3) by (cases ps rule: rev_cases) simp_all
qed

lemma store_header_runs:
  assumes "pairs_rep (req_headers r) (headercount r) ps" "length (fst h) < sds_limit"
    "length (concat (map snd ps)) + length (snd h) < sds_limit"
  shows "runs (\<lambda>r'. \<exists>kvs n. r' = r\<lparr>req_headers := kvs, headercount := n\<rparr>
      \<and> pairs_rep kvs n (add_header ps h))
    (header_field_callback mem (fst h) r \<bind> header_value_callback mem (snd h))"
proof -
  have n: "headercount r = length ps" "length ps \<le> MAX_LIST_LENGTH - 2" "length (req_headers r) = MAX_LIST_LENGTH"
    using assms(1) by (simp_all add: pairs_rep_def)
  show ?thesis
  proof (cases "length ps < MAX_LIST_LENGTH - 2")
    case True
    obtain k where k: "sdsnewlen mem (Init (fst h)) (length (fst h)) = Some (Some k)" "sds_rep k (fst h)"
      using runs_sdsnewlen [OF assms(2) order_refl] by (auto simp: runs_def sees_def)
    obtain v where v: "sdsempty mem = Some (Some v)" "sds_rep v ''''" using sdsempty_ok by blast
    obtain w where w: "sdscatlen mem v (snd h) (length (snd h)) = Some (Some w)" "sds_rep w (snd h)"
      using runs_sdscatlen [OF v(2) order_refl, of "snd h"] assms(3) by (auto simp: runs_def sees_def)
    have "kv_rep \<lparr>kv_key = Some k, kv_value = Some w\<rparr> h" using k w by (simp add: kv_rep_def)
    from pairs_rep_snoc [OF assms(1) _ this] show ?thesis
      using True n k v w
      by (auto simp: header_field_callback_def header_value_callback_def set_pair_def add_header_def
          MAX_LIST_LENGTH_def intro!: exI)
  next
    case False
    then have pos: "0 < headercount r" and ne: "ps \<noteq> []" using n by (auto simp: MAX_LIST_LENGTH_def)
    then have i: "headercount r - 1 < headercount r" by simp
    note kv = pairs_rep_nth [OF assms(1) i]
    have kvl: "kv_rep (req_headers r ! (headercount r - 1)) (last ps)"
      using kv(2) n(1) ne by (simp add: last_conv_nth)
    obtain s where s: "kv_value (req_headers r ! (headercount r - 1)) = Some s" "sds_rep s (snd (last ps))"
      using kvl by (auto simp: kv_rep_def sees_def)
    obtain v where v: "sdscatlen mem s (snd h) (length (snd h)) = Some (Some v)" "sds_rep v (snd (last ps) @ snd h)"
      using runs_sdscatlen [OF s(2) order_refl, of "snd h"] pairs_rep_total [OF assms(1) ne, of "snd h"] assms(3)
      by (auto simp: runs_def sees_def add.commute)
    have "kv_rep ((req_headers r ! (headercount r - 1))\<lparr>kv_value := Some v\<rparr>) (fst (last ps), snd (last ps) @ snd h)"
      using kvl v(2) by (simp add: kv_rep_def)
    from pairs_rep_last [OF assms(1) pos this]
    have rep: "pairs_rep ((req_headers r)[headercount r - 1 := (req_headers r ! (headercount r - 1))\<lparr>kv_value := Some v\<rparr>])
        (headercount r) (add_header ps h)"
      using False by (simp add: add_header_def)
    have same: "r\<lparr>req_headers := x, headercount := headercount r\<rparr> = r\<lparr>req_headers := x\<rparr>" for x by simp
    have "header_field_callback mem (fst h) r \<bind> header_value_callback mem (snd h)
        = Some (r\<lparr>req_headers := (req_headers r)[headercount r - 1 := (req_headers r ! (headercount r - 1))\<lparr>kv_value := Some v\<rparr>],
            headercount := headercount r\<rparr>)"
      unfolding same using False n kv(1) pos s(1) v(1)
      by (auto simp: header_field_callback_def header_value_callback_def set_pair_def MAX_LIST_LENGTH_def)
    with rep show ?thesis unfolding runs_def by blast
  qed
qed

lemma add_header_concat: "concat (map snd (add_header ps h)) = concat (map snd ps) @ snd h"
proof (cases "length ps < MAX_LIST_LENGTH - 2")
  case False
  then have "ps \<noteq> []" by (auto simp: MAX_LIST_LENGTH_def)
  with False show ?thesis by (cases ps rule: rev_cases) (simp_all add: add_header_def)
qed (simp add: add_header_def)

lemma store_headers_runs:
  assumes "pairs_rep (req_headers r) (headercount r) ps" "\<forall>h \<in> set hs. length (fst h) < sds_limit"
    "length (concat (map snd ps)) + length (concat (map snd hs)) < sds_limit"
  shows "runs (\<lambda>r'. \<exists>kvs n. r' = r\<lparr>req_headers := kvs, headercount := n\<rparr>
      \<and> pairs_rep kvs n (foldl add_header ps hs)) (store_headers mem hs r)"
  using assms
proof (induction hs arbitrary: r ps)
  case Nil
  then show ?case by (auto intro!: exI [of _ "req_headers r"] exI [of _ "headercount r"])
next
  case (Cons h hs)
  then have "runs (\<lambda>r'. \<exists>kvs n. r' = r\<lparr>req_headers := kvs, headercount := n\<rparr>
      \<and> pairs_rep kvs n (add_header ps h))
    (header_field_callback mem (fst h) r \<bind> header_value_callback mem (snd h))"
    by (intro store_header_runs) simp_all
  then show ?case
    unfolding store_headers.simps(2)
  proof (rule runs_bind)
    fix r1 assume "\<exists>kvs n. r1 = r\<lparr>req_headers := kvs, headercount := n\<rparr> \<and> pairs_rep kvs n (add_header ps h)"
    then obtain kvs n where r1: "r1 = r\<lparr>req_headers := kvs, headercount := n\<rparr>" "pairs_rep kvs n (add_header ps h)"
      by blast
    have "runs (\<lambda>r'. \<exists>kvs n. r' = r1\<lparr>req_headers := kvs, headercount := n\<rparr>
        \<and> pairs_rep kvs n (foldl add_header (add_header ps h) hs)) (store_headers mem hs r1)"
      using r1 Cons.prems by (intro Cons.IH) (simp_all add: add_header_concat)
    then show "runs (\<lambda>r'. \<exists>kvs n. r' = r\<lparr>req_headers := kvs, headercount := n\<rparr>
        \<and> pairs_rep kvs n (foldl add_header ps (h # hs))) (store_headers mem hs r1)"
      by (rule runs_mono) (auto simp: r1(1))
  qed
qed

lemma foldl_kept_headers: "foldl add_header [] hs = kept_headers hs"
proof (induction hs rule: rev_induct)
  case (snoc h hs)
  then show ?case by (simp add: kept_headers_snoc)
qed (simp add: kept_headers_def)

section \<open>Queries\<close>

definition render_query :: "(bytes \<times> bytes) list \<Rightarrow> bytes" where
  "render_query kvs = intercalate ''&'' (map (\<lambda>(k, v). k @ ''='' @ v) kvs)"

definition render_url :: "bytes \<Rightarrow> (bytes \<times> bytes) list \<Rightarrow> bytes" where
  "render_url path kvs = ''/'' @ path @ (if kvs = [] then '''' else ''?'' @ render_query kvs)"

text \<open>Names and values that need no escape.\<close>

definition clean :: "bytes \<times> bytes \<Rightarrow> bool" where
  "clean p \<longleftrightarrow> set (fst p) \<inter> {CHR ''='', CHR '' ''} = {} \<and> set (snd p) \<inter> {CHR ''&'', CHR '' ''} = {}"

lemma render_query_Cons:
  "render_query ((k, v) # kvs) = k @ CHR ''='' # v @ (if kvs = [] then [] else CHR ''&'' # render_query kvs)"
  by (cases kvs) (auto simp: render_query_def intercalate_Cons)

lemma while_stop:
  assumes "\<forall>x \<in> set xs. P x" "ys = [] \<or> \<not> P (hd ys)"
  shows "takeWhile P (xs @ ys) = xs" "dropWhile P (xs @ ys) = ys"
  using assms by (cases ys; simp add: takeWhile_append dropWhile_append)+

lemma cleanD:
  assumes "clean (k, v)"
  shows "\<forall>x \<in> set k. until (CHR ''='') x" "\<forall>x \<in> set v. until (CHR ''&'') x"
    "\<forall>x \<in> set k. x \<noteq> CHR ''=''" "\<forall>x \<in> set v. x \<noteq> CHR ''&''"
  using assms by (auto simp: clean_def until_def)

lemma url_pairs_render:
  assumes "\<forall>p \<in> set kvs. clean p" "kvs \<noteq> []"
  shows "url_pairs (render_query kvs) = kvs"
  using assms
proof (induction kvs)
  case (Cons p kvs)
  obtain k v where p: "p = (k, v)" by force
  note c = cleanD [of k v]
  let ?t = "if kvs = [] then [] else CHR ''&'' # render_query kvs"
  have kv: "takeWhile (until (CHR ''='')) (k @ CHR ''='' # v @ ?t) = k"
    "dropWhile (until (CHR ''='')) (k @ CHR ''='' # v @ ?t) = CHR ''='' # v @ ?t"
    using c Cons.prems(1) p by (intro while_stop; simp add: until_def)+
  have vt: "takeWhile (until (CHR ''&'')) (v @ ?t) = v" "dropWhile (until (CHR ''&'')) (v @ ?t) = ?t"
    using c Cons.prems(1) p by (intro while_stop; simp add: until_def)+
  show ?case
    unfolding p render_query_Cons
    by (subst url_pairs.simps) (use Cons in \<open>simp only: Let_def kv list.sel vt; simp\<close>)
qed simp

lemma body_pairs_render:
  assumes "\<forall>p \<in> set kvs. clean p"
  shows "body_pairs (render_query kvs) = kvs"
  using assms
proof (induction kvs)
  case Nil
  then show ?case by (simp add: render_query_def body_pairs.simps [of "[]"])
next
  case (Cons p kvs)
  obtain k v where p: "p = (k, v)" by force
  note c = cleanD [of k v]
  let ?t = "if kvs = [] then [] else CHR ''&'' # render_query kvs"
  have kv: "takeWhile (\<lambda>c. c \<noteq> CHR ''='') (k @ CHR ''='' # v @ ?t) = k"
    "dropWhile (\<lambda>c. c \<noteq> CHR ''='') (k @ CHR ''='' # v @ ?t) = CHR ''='' # v @ ?t"
    using c Cons.prems(1) p by (intro while_stop; simp)+
  have vt: "takeWhile (\<lambda>c. c \<noteq> CHR ''&'') (v @ ?t) = v" "dropWhile (\<lambda>c. c \<noteq> CHR ''&'') (v @ ?t) = ?t"
    using c Cons.prems(1) p by (intro while_stop; simp)+
  have "body_pairs (tl ?t) = kvs"
    using Cons by (cases "kvs = []") (simp_all add: body_pairs.simps [of "[]"])
  then show ?case
    unfolding p render_query_Cons
    by (subst body_pairs_Cons) (simp_all only: kv list.sel vt append_is_Nil_conv list.distinct simp_thms)
qed

lemma url_callback_init:
  assumes "length u < sds_limit"
  shows "runs (\<lambda>r. sees (url_path u) (url r) \<and> sees u (rawurl r)
      \<and> pairs_rep (req_body r) (bodycount r) (take (MAX_LIST_LENGTH - 2) (url_vars_of u)))
    (my_url_callback mem u init_threadlocalhrq)"
proof -
  let ?r = init_threadlocalhrq
  have "pairs_rep (req_body ?r) (bodycount ?r) []" by (simp add: init_threadlocalhrq_def pairs_rep_Nil)
  from urlparser_runs [OF this assms] obtain p kvs n
    where p: "urlparser mem u ?r = Some (?r\<lparr>url := p, req_body := kvs, bodycount := n\<rparr>)"
      "sees (url_path u) p" "pairs_rep kvs n (take (MAX_LIST_LENGTH - 2) (url_vars_of u))"
    unfolding runs_def by auto
  obtain s where s: "sdsnewlen mem (Init u) (length u) = Some (Some s)" "sds_rep s u"
    using runs_sdsnewlen [of "length u" u] assms by (auto simp: runs_def sees_def)
  obtain d where d: "sdsdup mem s = Some (Some d)" "sds_rep d u"
    using runs_sdsdup [OF s(2)] assms by (auto simp: runs_def sees_def)
  show ?thesis using p s d by (simp add: my_url_callback_def)
qed

lemma body_callback_init:
  assumes "length u < sds_limit"
  shows "runs (\<lambda>r. sees u (rawbody r)
      \<and> pairs_rep (req_body r) (bodycount r) (take (MAX_LIST_LENGTH - 2) (body_pairs u)))
    (body_callback mem u init_threadlocalhrq)"
proof -
  obtain s where s: "sdsnewlen mem (Init u) (length u) = Some (Some s)" "sds_rep s u"
    using runs_sdsnewlen [of "length u" u] assms by (auto simp: runs_def sees_def)
  let ?r = "init_threadlocalhrq\<lparr>rawbody := Some s\<rparr>"
  have "pairs_rep (req_body ?r) (bodycount ?r) []" by (simp add: init_threadlocalhrq_def pairs_rep_Nil)
  from body_vars_runs [OF this assms, of 0] obtain kvs n
    where p: "body_vars mem u 0 ?r = Some (?r\<lparr>req_body := kvs, bodycount := n\<rparr>)"
      "pairs_rep kvs n (take (MAX_LIST_LENGTH - 2) (body_pairs u))"
    unfolding runs_def by auto
  then show ?thesis using s by (simp add: body_callback_def)
qed

lemma render_url_parts:
  assumes "set path \<inter> {CHR ''?'', CHR '' ''} = {}" "\<forall>p \<in> set kvs. clean p"
  shows "url_path (render_url path kvs) = path" "url_vars_of (render_url path kvs) = kvs"
proof -
  let ?t = "if kvs = [] then [] else CHR ''?'' # render_query kvs"
  have u: "drop 1 (render_url path kvs) = path @ ?t" by (simp add: render_url_def)
  have ok: "\<forall>x \<in> set path. until (CHR ''?'') x" "?t = [] \<or> \<not> until (CHR ''?'') (hd ?t)"
    using assms(1) by (auto simp: until_def)
  show "url_path (render_url path kvs) = path" unfolding url_path_def u by (rule while_stop(1) [OF ok])
  show "url_vars_of (render_url path kvs) = kvs"
    unfolding url_vars_of_def u while_stop(2) [OF ok] using url_pairs_render [OF assms(2)] by simp
qed

section \<open>Cookies\<close>

text \<open>The cookie, on lists: the name is looked for anywhere in the header.\<close>

fun cookie_of :: "bytes \<Rightarrow> (bytes \<times> bytes) list \<Rightarrow> bytes" where
  "cookie_of nm [] = []"
| "cookie_of nm ((k, v) # hs) =
     (if k = ''Cookie'' then
        case memmem v nm of
          None \<Rightarrow> []
        | Some i \<Rightarrow>
            (case drop (i + length nm) v of
               CHR ''='' # rest \<Rightarrow> takeWhile (\<lambda>c. c \<noteq> CHR '';'') rest
             | _ \<Rightarrow> cookie_of nm hs)
      else cookie_of nm hs)"

lemma cookie_length_eq:
  assumes "sds_rep s t" "p \<le> length t"
  shows "cookie_length s p (length t) = Some (length (takeWhile (\<lambda>c. c \<noteq> CHR '';'') (drop p t)))"
  using assms
proof (induction "length t - p" arbitrary: p)
  case 0
  then show ?case by (subst cookie_length.simps) simp
next
  case (Suc n)
  then have lt: "p < length t" by simp
  then have d: "drop p t = t ! p # drop (p + 1) t" by (simp add: Cons_nth_drop_Suc)
  have c: "sds_char s p = Some (t ! p)" using Suc.prems lt by (simp add: nth_append)
  have ih: "cookie_length s (p + 1) (length t) = Some (length (takeWhile (\<lambda>c. c \<noteq> CHR '';'') (drop (p + 1) t)))"
    using Suc lt by (intro Suc.hyps(1)) simp_all
  show ?case using lt by (subst cookie_length.simps) (simp add: c ih[simplified] d[simplified])
qed

lemma sds_rep_slice:
  assumes "sds_rep s t" "i + n \<le> length t"
  shows "loads (sbuf s) i n = Some (bslice t i n)"
proof (rule loads_Some)
  obtain cs where cs: "sbuf s = map Some (t @ [NUL]) @ cs" using sds_text_cells [OF assms(1)] by blast
  show "bslice (sbuf s) i n = map Some (bslice t i n)"
    using assms(2) by (simp add: cs bslice_def take_map drop_map)
  show "i + n \<le> length (sbuf s)" using assms(2) by (simp add: cs)
qed

lemma cookie_in_eq:
  assumes "sds_rep s t" "sds_rep nm n" "i + length n \<le> length t" "length t < sds_limit"
  shows "(case drop (i + length n) t of
      CHR ''='' # rest \<Rightarrow> \<exists>p. cookie_in mem s nm i = Some (Some p) \<and> sees (takeWhile (\<lambda>c. c \<noteq> CHR '';'') rest) p
    | _ \<Rightarrow> cookie_in mem s nm i = Some None)"
proof (cases "drop (i + length n) t")
  case Nil
  then have "i + length n = length t" using assms(3) by simp
  with Nil show ?thesis using assms(1,2) by (simp add: cookie_in_def sds_repD)
next
  case (Cons c rest)
  then have lt: "i + length n < length t" using assms(3) by (metis drop_all leI list.distinct(1))
  from Cons have c: "t ! (i + length n) = c" "rest = drop (i + length n + 1) t"
    using Cons_nth_drop_Suc [OF lt] by simp_all
  have at: "sds_char s (i + length n) = Some c" using assms(1) lt c(1) by (simp add: nth_append)
  let ?v = "takeWhile (\<lambda>c. c \<noteq> CHR '';'') rest"
  have l: "length ?v \<le> length t - (i + length n + 1)"
    using length_takeWhile_le [of "\<lambda>c. c \<noteq> CHR '';''" rest] unfolding c(2) by simp
  have len: "cookie_length s (i + length n + 1) (length t) = Some (length ?v)"
    unfolding c(2) using lt by (intro cookie_length_eq [OF assms(1)]) simp
  have v: "bslice t (i + length n + 1) (length ?v) = ?v"
    unfolding bslice_def c(2) by (rule takeWhile_eq_take [symmetric])
  have fit: "i + length n + 1 + length ?v \<le> length t" using l lt by linarith
  have lo: "loads (sbuf s) (i + length n + 1) (length ?v) = Some ?v"
    using sds_rep_slice [OF assms(1) fit] v by simp
  have "length ?v < sds_limit" using fit assms(4) by simp
  then obtain p where p: "sdsnewlen mem (Init ?v) (length ?v) = Some p" "sees ?v p"
    using runs_sdsnewlen [of "length ?v" ?v] by (auto simp: runs_def)
  have sl: "sdslen nm = length n" "sdslen s = length t" using assms(1,2) by (auto simp: sds_repD)
  show ?thesis
  proof (cases "c = CHR ''=''")
    case True
    have "cookie_in mem s nm i = Some (Some p)"
      unfolding cookie_in_def Let_def sl using True
      by (simp add: at len[simplified] lo[simplified] p(1)[simplified])
    with p(2) Cons True show ?thesis by simp
  next
    case False
    have "cookie_in mem s nm i = Some None"
      unfolding cookie_in_def Let_def sl using False by (simp add: at)
    with False Cons show ?thesis by (auto split: char.splits bool.splits)
  qed
qed

lemma cookie_loop_runs:
  assumes "list_all2 kv_rep kvs hs" "sds_rep nm n" "NUL \<notin> set n"
    "\<forall>h \<in> set hs. NUL \<notin> set (fst h) \<and> NUL \<notin> set (snd h) \<and> length (snd h) < sds_limit"
  shows "runs (sees (cookie_of n hs)) (cookie_loop mem nm kvs)"
  using assms(1,4)
proof (induction rule: list_all2_induct)
  case Nil
  then show ?case using runs_sdsempty by simp
next
  case (Cons kv kvs h hs)
  have free: "cstr x = x" if "NUL \<notin> set x" for x
    using that by (simp add: cstr_def takeWhile_eq_all_conv) metis
  obtain k v where h: "h = (k, v)" by force
  obtain sk sv where kv: "kv_key kv = Some sk" "sds_rep sk k" "kv_value kv = Some sv" "sds_rep sv v"
    using Cons.hyps(1) by (auto simp: kv_rep_def sees_def h)
  have ck: "c_string sk = Some k" "c_string sv = Some v" "c_string nm = Some n"
    using kv assms(2,3) Cons.prems by (simp_all add: h free)
  have ih: "runs (sees (cookie_of n hs)) (cookie_loop mem nm kvs)"
    using Cons by simp
  show ?case
  proof (cases "k = ''Cookie''")
    case False
    then show ?thesis using kv(1) ck(1) ih by (simp add: h)
  next
    case True
    have st: "strstr v n = memmem v n" using assms(3) Cons.prems by (simp add: strstr_def h free)
    show ?thesis
    proof (cases "memmem v n")
      case None
      then show ?thesis using True kv(1,3) ck st runs_sdsempty by (simp add: h)
    next
      case (Some i)
      have fit: "i + length n \<le> length v" using memmem_SomeD [OF Some] by blast
      have "length v < sds_limit" using Cons.prems by (simp add: h)
      from cookie_in_eq [OF kv(4) assms(2) fit this] True Some kv(1,3) ck st ih
      show ?thesis by (auto simp: h split: list.splits char.splits bool.splits)
    qed
  qed
qed

lemma get_cookie_runs:
  assumes "pairs_rep (req_headers r) (headercount r) hs" "sds_rep nm n" "NUL \<notin> set n"
    "\<forall>h \<in> set hs. NUL \<notin> set (fst h) \<and> NUL \<notin> set (snd h) \<and> length (snd h) < sds_limit"
  shows "runs (sees (cookie_of n hs)) (get_cookie_by_name mem r nm)"
proof -
  have "headercount r \<le> length (req_headers r)" "list_all2 kv_rep (take (headercount r) (req_headers r)) hs"
    using assms(1) by (auto simp: pairs_rep_def)
  with cookie_loop_runs [OF this(2) assms(2-4)] show ?thesis by (simp add: get_cookie_by_name_def)
qed

lemma cookie_of_skip:
  "\<forall>h \<in> set hs. fst h \<noteq> ''Cookie'' \<Longrightarrow> cookie_of n (hs @ hs') = cookie_of n hs'"
  by (induction hs) auto

section \<open>Properties\<close>

text \<open>C9: Whatever bytes the client sent, creating the request from them returns: no callback reads
  or writes outside its arrays and strings or follows a NULL pointer, and the object that comes out
  is well formed. Its counters are within the arrays and count the pairs that are set, no string in
  it is longer than the input, the URL is NULL or the path of the raw URL, and the type is one of
  the method names.\<close>

theorem create_request_safe:
  assumes "sds_rep raw t" "length t < sds_limit"
  shows "runs (\<lambda>r. request_ok (length t) r \<and> (\<exists>m. sees (method_name m) (req_type r)))
    (create_request mem raw init_threadlocalhrq)"
  by (rule create_request_runs [OF assms])

theorem create_request_safe_witness:
  "runs (\<lambda>r. request_ok (length ''ab'') r \<and> (\<exists>m. sees (method_name m) (req_type r)))
    (create_request mem ab_string init_threadlocalhrq)"
  using create_request_safe [OF ab_string_rep] by (simp add: sds_limit_def)

text \<open>C14: A URL that was put together from a path and a list of variables is taken apart into the
  same path and the same variables, the first 98 of them, and so is a body that was put together
  from variables; the raw URL and the raw body are kept as they came. The loops count with an
  \<open>int\<close>, which goes at most two beyond the length.\<close>

theorem url_roundtrip:
  assumes "set path \<inter> {CHR ''?'', CHR '' ''} = {}" "\<forall>p \<in> set kvs. clean p"
    "length (render_url path kvs) + 2 < 2 ^ 31"
  shows "runs (\<lambda>r. sees path (url r) \<and> sees (render_url path kvs) (rawurl r)
      \<and> pairs_rep (req_body r) (bodycount r) (take (MAX_LIST_LENGTH - 2) kvs))
      (my_url_callback mem (render_url path kvs) init_threadlocalhrq)
    \<and> runs (\<lambda>r. sees (render_query kvs) (rawbody r)
      \<and> pairs_rep (req_body r) (bodycount r) (take (MAX_LIST_LENGTH - 2) kvs))
      (body_callback mem (render_query kvs) init_threadlocalhrq)"
proof
  show "runs (\<lambda>r. sees path (url r) \<and> sees (render_url path kvs) (rawurl r)
      \<and> pairs_rep (req_body r) (bodycount r) (take (MAX_LIST_LENGTH - 2) kvs))
      (my_url_callback mem (render_url path kvs) init_threadlocalhrq)"
    using url_callback_init [of "render_url path kvs"] assms(3) by (simp add: render_url_parts [OF assms(1,2)] sds_limit_def)
  have "kvs = [] \<Longrightarrow> render_query kvs = []" by (simp add: render_query_def)
  then have "length (render_query kvs) < sds_limit"
    using assms(3) by (cases "kvs = []") (simp_all add: render_url_def sds_limit_def)
  from body_callback_init [OF this] show "runs (\<lambda>r. sees (render_query kvs) (rawbody r)
      \<and> pairs_rep (req_body r) (bodycount r) (take (MAX_LIST_LENGTH - 2) kvs))
      (body_callback mem (render_query kvs) init_threadlocalhrq)"
    by (simp add: body_pairs_render [OF assms(2)])
qed

theorem url_roundtrip_witness:
  "render_url ''list'' [(''a'', ''1''), (''b'', '''')] = ''/list?a=1&b=''
   \<and> runs (\<lambda>r. sees ''list'' (url r)
      \<and> pairs_rep (req_body r) (bodycount r) (take (MAX_LIST_LENGTH - 2) [(''a'', ''1''), (''b'', '''')]))
      (my_url_callback mem (render_url ''list'' [(''a'', ''1''), (''b'', '''')]) init_threadlocalhrq)"
  using url_roundtrip [of "''list''" "[(''a'', ''1''), (''b'', '''')]"]
  by (auto simp: render_url_def render_query_def clean_def sds_limit_def elim!: runs_mono)

text \<open>C13: The headers of a request are kept in their order, the first 98 of them. The value of a
  header beyond these is not dropped: it is appended to the value of the last one kept.\<close>

theorem headers_kept:
  assumes "\<forall>h \<in> set hs. length (fst h) < sds_limit" "length (concat (map snd hs)) < sds_limit"
  shows "runs (\<lambda>r. pairs_rep (req_headers r) (headercount r)
      (if length hs \<le> 98 then hs
       else take 97 hs @ [(fst (hs ! 97), concat (map snd (drop 97 hs)))]))
    (store_headers mem hs init_threadlocalhrq)"
proof -
  have "pairs_rep (req_headers init_threadlocalhrq) (headercount init_threadlocalhrq) []"
    by (simp add: init_threadlocalhrq_def pairs_rep_Nil)
  from store_headers_runs [OF this assms(1)] assms(2)
  have "runs (\<lambda>r. pairs_rep (req_headers r) (headercount r) (kept_headers hs))
      (store_headers mem hs init_threadlocalhrq)"
    by (auto simp: foldl_kept_headers elim!: runs_mono)
  then show ?thesis by (simp only: kept_headers_def MAX_LIST_LENGTH_def) (simp cong: if_cong)
qed

theorem headers_kept_witness:
  "runs (\<lambda>r. pairs_rep (req_headers r) (headercount r)
      (replicate 97 (''a'', ''b'') @ [(''a'', ''bbb'')]))
    (store_headers mem (replicate 100 (''a'', ''b'')) init_threadlocalhrq)"
  using headers_kept [of "replicate 100 (''a'', ''b'')"]
  by (simp add: sds_limit_def length_concat sum_list_replicate numeral_3_eq_3)

text \<open>C32: The value of a cookie is found: if the first \<open>Cookie\<close> header has the name followed
  by an equality sign, and the name nowhere before, the result is what stands between that sign and
  the next semicolon or the end. The name is looked for anywhere in the header, so a value or a
  longer name that contains it before hides the cookie.\<close>

theorem get_cookie_finds:
  assumes "pairs_rep (req_headers r) (headercount r) (hs @ [(''Cookie'', pre @ n @ ''='' @ v @ rest)] @ hs')"
    "\<forall>h \<in> set hs. fst h \<noteq> ''Cookie''" "sds_rep nm n" "NUL \<notin> set n"
    "\<forall>h \<in> set (hs @ [(''Cookie'', pre @ n @ ''='' @ v @ rest)] @ hs').
       NUL \<notin> set (fst h) \<and> NUL \<notin> set (snd h) \<and> length (snd h) < sds_limit"
    "\<forall>j < length pre. bslice (pre @ n @ ''='' @ v @ rest) j (length n) \<noteq> n"
    "CHR '';'' \<notin> set v" "rest = [] \<or> hd rest = CHR '';''"
  shows "runs (sees v) (get_cookie_by_name mem r nm)"
proof -
  let ?h = "pre @ n @ ''='' @ v @ rest"
  have "memmem ?h n = Some (length pre)"
    by (rule memmem_eq_Some) (use assms(6) in \<open>simp_all add: bslice_def\<close>)
  moreover have "takeWhile (\<lambda>c. c \<noteq> CHR '';'') (v @ rest) = v"
    by (rule while_stop) (use assms(7,8) in auto)
  ultimately have "cookie_of n (hs @ [(''Cookie'', ?h)] @ hs') = v"
    by (simp add: cookie_of_skip [OF assms(2)])
  with get_cookie_runs [OF assms(1,3,4,5)] show ?thesis by simp
qed

theorem get_cookie_finds_witness:
  "runs (\<lambda>r. runs (\<lambda>p. \<exists>nm. p = Some nm \<and> runs (sees ''1'') (get_cookie_by_name mem r nm))
      (sdsnew mem (Some ''id'')))
    (store_headers mem [(''Host'', ''h''), (''Cookie'', ''x=2; id=1; y=3'')] init_threadlocalhrq)"
proof -
  let ?hs = "[(''Host'', ''h''), (''Cookie'', ''x=2; id=1; y=3'')]"
  have "pairs_rep (req_headers init_threadlocalhrq) (headercount init_threadlocalhrq) []"
    by (simp add: init_threadlocalhrq_def pairs_rep_Nil)
  from store_headers_runs [OF this, of ?hs]
  have r: "runs (\<lambda>r. pairs_rep (req_headers r) (headercount r) ?hs) (store_headers mem ?hs init_threadlocalhrq)"
    by (auto simp: add_header_def MAX_LIST_LENGTH_def sds_limit_def elim!: runs_mono)
  have nm: "runs (sees ''id'') (sdsnew mem (Some ''id''))"
    using runs_sdsnew [of "''id''"] by (simp add: cstr_def sds_limit_def)
  have first: "\<forall>j < length ''x=2; ''. bslice (''x=2; '' @ ''id'' @ ''='' @ ''1'' @ ''; y=3'') j (length ''id'') \<noteq> ''id''"
    by code_simp
  have c: "runs (sees ''1'') (get_cookie_by_name mem q s)"
    if "pairs_rep (req_headers q) (headercount q) ?hs" "sds_rep s ''id''" for q s
    by (rule get_cookie_finds [of q "[(''Host'', ''h'')]" "''x=2; ''" "''id''" "''1''" "''; y=3''" "[]"])
      (use that first in \<open>auto simp: sds_limit_def\<close>)
  show ?thesis
    by (rule runs_mono [OF r], rule runs_mono [OF nm]) (auto simp: sees_def intro: c)
qed

end
