(* ===== verification/Responser.thy ===== *)
theory Responser
  imports Request_Spec
begin

text \<open>
  Building responses (\<open>responser.c\<close>): the routing table, the headers, the table of file
  extensions, and the buffer around the compression library. A handler of a route is a function
  pointer, a value of the type parameter; \<open>call\<close> is what it does. The compressor is a
  parameter: \<open>deflate x n\<close> are the bytes it writes for the input \<open>x\<close> with room for
  \<open>n\<close>.
\<close>

section \<open>Strings of a response\<close>

text \<open>\<open>s = sdscat(s, t)\<close> for one literal after the other.\<close>

primrec sdscats :: "(nat \<Rightarrow> bool) \<Rightarrow> sds option \<Rightarrow> bytes list \<Rightarrow> sds option run" where
  "sdscats al p [] = Some p"
| "sdscats al p (t # ts) = do { s \<leftarrow> deref p; p \<leftarrow> sdscat al s t; sdscats al p ts }"

text \<open>An assignment to an element of an array.\<close>

definition store_at :: "'a list \<Rightarrow> nat \<Rightarrow> 'a \<Rightarrow> 'a list run" where
  "store_at xs i x = (if i < length xs then Some (xs[i := x]) else None)"

text \<open>The C string that starts inside a buffer.\<close>

definition c_suffix :: "sds \<Rightarrow> nat \<Rightarrow> bytes run" where
  "c_suffix s i = do { n \<leftarrow> cell_strlen (drop i (sbuf s)); loads (sbuf s) i n }"

section \<open>Routes\<close>

definition ROUTEARRAYSIZE :: nat where "ROUTEARRAYSIZE = 200"

record 'f route =
  route_url :: "sds option"
  funcref :: "'f option"

record 'f routing_table =
  routes :: "'f route list"
  route_count :: nat

text \<open>The table is a global variable: all zeros.\<close>

definition init_table :: "'f routing_table" where
  "init_table =
     \<lparr>routes = replicate ROUTEARRAYSIZE \<lparr>route_url = None, funcref = None\<rparr>, route_count = 0\<rparr>"

definition create_route :: "(nat \<Rightarrow> bool) \<Rightarrow> bytes \<Rightarrow> 'f \<Rightarrow> 'f routing_table \<Rightarrow> 'f routing_table run" where
  "create_route al u action tb = do {
     p \<leftarrow> sdsnew al (Some u);
     rs \<leftarrow> store_at (routes tb) (route_count tb) \<lparr>route_url = p, funcref = Some action\<rparr>;
     Some (tb\<lparr>routes := rs, route_count := route_count tb + 1\<rparr>)
   }"

text \<open>The first \<open>route_count\<close> elements of the array.\<close>

definition used_routes :: "'f routing_table \<Rightarrow> 'f route list run" where
  "used_routes tb =
     (if length (routes tb) < route_count tb then None else Some (take (route_count tb) (routes tb)))"

fun check_loop :: "sds option \<Rightarrow> 'f route list \<Rightarrow> int run" where
  "check_loop u [] = Some 0"
| "check_loop u (x # xs) = do {
     s \<leftarrow> deref u;
     k \<leftarrow> deref (route_url x);
     c \<leftarrow> sdscmp s k;
     if c = 0 then Some 1 else check_loop u xs
   }"

definition check_route :: "'f routing_table \<Rightarrow> sds option \<Rightarrow> int run" where
  "check_route tb u = used_routes tb \<bind> check_loop u"

definition not_found_text :: bytes where
  "not_found_text = ''HTTP/1.1 301 Moved Permanently'' @ CRLF @ ''Location: /'' @ CRLF
     @ ''NOTFOUND_URL: TRUE'' @ CRLF
     @ ''Cache-Control: no-cache, no-store, must-revalidate'' @ CRLF
     @ ''Pragma: no-cache'' @ CRLF @ ''Expires: 0'' @ CRLF @ CRLF"

text \<open>The pointer to the handler is called; without a match nothing is.\<close>

fun do_loop :: "sds option \<Rightarrow> 'f route list \<Rightarrow> 'f option run" where
  "do_loop u [] = Some None"
| "do_loop u (x # xs) = do {
     s \<leftarrow> deref u;
     k \<leftarrow> deref (route_url x);
     c \<leftarrow> sdscmp s k;
     if c = 0 then do { f \<leftarrow> deref (funcref x); Some (Some f) } else do_loop u xs
   }"

definition do_route ::
  "(nat \<Rightarrow> bool) \<Rightarrow> ('f \<Rightarrow> 's \<Rightarrow> (sds option \<times> 's) run) \<Rightarrow> 'f routing_table \<Rightarrow> sds option \<Rightarrow> 's
     \<Rightarrow> (sds option \<times> 's) run" where
  "do_route al call tb u st = do {
     rs \<leftarrow> used_routes tb;
     f \<leftarrow> do_loop u rs;
     case f of
       Some fv \<Rightarrow> call fv st
     | None \<Rightarrow> do { p \<leftarrow> sdsnew al (Some not_found_text); Some (p, st) }
   }"

section \<open>Headers\<close>

definition setresponsecode :: "(nat \<Rightarrow> bool) \<Rightarrow> bytes \<Rightarrow> sds option run" where
  "setresponsecode al code = sdsnew al (Some code)"

definition addheader :: "(nat \<Rightarrow> bool) \<Rightarrow> sds option \<Rightarrow> bytes \<Rightarrow> bytes \<Rightarrow> sds option run" where
  "addheader al resp key2 value2 = do {
     k \<leftarrow> sdsnew al (Some key2);
     v \<leftarrow> sdsnew al (Some value2);
     s \<leftarrow> deref resp;
     k \<leftarrow> deref k;
     resp \<leftarrow> sdscatsds al s k;
     s \<leftarrow> deref resp;
     resp \<leftarrow> sdscatlen al s '': '' 2;
     s \<leftarrow> deref resp;
     v \<leftarrow> deref v;
     resp \<leftarrow> sdscatsds al s v;
     s \<leftarrow> deref resp;
     sdscatlen al s CRLF 2
   }"

definition addheadersdone :: "(nat \<Rightarrow> bool) \<Rightarrow> sds option \<Rightarrow> sds option run" where
  "addheadersdone al resp = do { s \<leftarrow> deref resp; sdscat al s CRLF }"

section \<open>File extensions\<close>

definition MAX_FILE_EXTENSIONS :: nat where "MAX_FILE_EXTENSIONS = 10"

definition mime_types :: "(bytes \<times> bytes) list" where
  "mime_types =
     [(''png'', ''image/png''), (''css'', ''text/css''), (''js'', ''text/javascript''),
      (''html'', ''text/html''), (''woff2'', ''application/font-woff2''),
      (''ico'', ''image/x-icon''), (''gif'', ''image/gif''), (''jpg'', ''image/jpeg''),
      (''svg'', ''image/svg+xml'')]"

primrec new_extensions :: "(nat \<Rightarrow> bool) \<Rightarrow> (bytes \<times> bytes) list \<Rightarrow> keyvaluepair list run" where
  "new_extensions al [] = Some []"
| "new_extensions al (p # ps) = do {
     k \<leftarrow> sdsnew al (Some (fst p));
     v \<leftarrow> sdsnew al (Some (snd p));
     kvs \<leftarrow> new_extensions al ps;
     Some (\<lparr>kv_key = k, kv_value = v\<rparr> # kvs)
   }"

primrec no_extensions :: "(nat \<Rightarrow> bool) \<Rightarrow> nat \<Rightarrow> keyvaluepair list run" where
  "no_extensions al 0 = Some []"
| "no_extensions al (Suc n) = do {
     k \<leftarrow> sdsempty al;
     v \<leftarrow> sdsempty al;
     kvs \<leftarrow> no_extensions al n;
     Some (\<lparr>kv_key = k, kv_value = v\<rparr> # kvs)
   }"

definition init_file_extension :: "(nat \<Rightarrow> bool) \<Rightarrow> keyvaluepair list run" where
  "init_file_extension al = do {
     known \<leftarrow> new_extensions al mime_types;
     rest \<leftarrow> no_extensions al (MAX_FILE_EXTENSIONS - length mime_types);
     Some (known @ rest)
   }"

text \<open>The pointer to the value, or NULL.\<close>

fun search_file_extension :: "keyvaluepair list \<Rightarrow> sds option \<Rightarrow> sds option run" where
  "search_file_extension [] ext = Some None"
| "search_file_extension (x # xs) ext = do {
     e \<leftarrow> deref ext;
     k \<leftarrow> deref (kv_key x);
     c \<leftarrow> sdscmp e k;
     if c = 0 then Some (kv_value x) else search_file_extension xs ext
   }"

section \<open>The header of a static file\<close>

text \<open>The loop from the last byte of the URL down: the index of the last dot (an \<open>int\<close>, as in
  \<open>scan_to\<close>).\<close>

fun last_dot :: "sds \<Rightarrow> nat \<Rightarrow> nat option run" where
  "last_dot u 0 = Some None"
| "last_dot u (Suc j) = do {
     c \<leftarrow> sds_char u j;
     if c = CHR ''.'' then Some (Some j) else last_dot u j
   }"

definition header_lines :: "bytes list" where
  "header_lines =
     [''HTTP/1.1 200 OK'' @ CRLF, ''X-Content-Type-Options: nosniff'' @ CRLF,
      ''X-XSS-Protection: 1; mode=block'' @ CRLF, ''X-Frame-Options: deny'' @ CRLF,
      ''Strict-Transport-Security: max-age=31536000; includeSubDomains'' @ CRLF,
      ''Content-Encoding: deflate'' @ CRLF, ''Content-Type: '']"

definition build_response_header ::
  "(nat \<Rightarrow> bool) \<Rightarrow> keyvaluepair list \<Rightarrow> sds option \<Rightarrow> sds option run" where
  "build_response_header al extensions page = do {
     extension \<leftarrow> sdsempty al;
     u \<leftarrow> deref page;
     j \<leftarrow> last_dot u (sdslen u);
     extension \<leftarrow> (case j of
        None \<Rightarrow> Some extension
      | Some j \<Rightarrow> do { e \<leftarrow> deref extension; t \<leftarrow> c_suffix u (j + 1); sdscat al e t });
     builder \<leftarrow> sdsempty al;
     builder \<leftarrow> sdscats al builder header_lines;
     ty \<leftarrow> search_file_extension extensions extension;
     b \<leftarrow> deref builder;
     builder \<leftarrow> (case ty of
        None \<Rightarrow> sdscat al b ''application/octet-stream''
      | Some t \<Rightarrow> sdscatsds al b t);
     sdscats al builder [CRLF, ''Connection: close'' @ CRLF @ CRLF]
   }"

definition adddefaultheaders ::
  "(nat \<Rightarrow> bool) \<Rightarrow> keyvaluepair list \<Rightarrow> sds option \<Rightarrow> sds option run" where
  "adddefaultheaders al extensions page = build_response_header al extensions page"

section \<open>Compression\<close>

text \<open>A \<open>size_t\<close> converted to an \<open>int\<close>: its low 32 bits in two's complement.\<close>

definition as_int :: "nat \<Rightarrow> int" where
  "as_int n = sint (word_of_nat n :: 32 word)"

lemma as_int_eq: "as_int n = signed_take_bit 31 (int n)"
  by (simp add: as_int_def sint_uint unsigned_of_nat signed_take_bit_take_bit of_nat_take_bit)

lemma as_int_small: "n < 2 ^ 31 \<Longrightarrow> as_int n = int n"
  unfolding as_int_eq by (intro signed_take_bit_int_eq_self) simp_all

lemma as_int_le: "as_int n \<le> int n"
proof (cases "n < 2 ^ 31")
  case False
  then have "2 ^ 31 \<le> int n" by simp
  from signed_take_bit_int_less_eq [OF this] show ?thesis by (simp add: as_int_eq)
qed (simp add: as_int_small)

lemma unat_as_int: "n < 2 ^ 32 \<Longrightarrow> unat (word_of_int (as_int n) :: 32 word) = n"
  by (simp add: as_int_def unat_of_nat)

text \<open>The compressor gets \<open>(uInt)input_len\<close> bytes and room for as many; the length of what it wrote
  goes through an \<open>int\<close>, and the terminator is written at that index.\<close>

definition compress_content ::
  "(bytes \<Rightarrow> nat \<Rightarrow> bytes) \<Rightarrow> bytes \<Rightarrow> int \<Rightarrow> cell list \<Rightarrow> (cell list \<times> int) run" where
  "compress_content deflate inp input_len output =
     (let avail = unat (word_of_int input_len :: 32 word) in
      if length inp < avail then None
      else do {
        let res = deflate (take avail inp) avail;
        output \<leftarrow> puts output 0 res;
        let output_len = as_int (length res);
        if output_len < 0 then None
        else do {
          output \<leftarrow> put output (nat output_len) NUL;
          Some (output, output_len)
        }
      })"

end
