(* ===== verification/Controller.thy ===== *)
theory Controller
  imports Responser
begin

text \<open>
  Static files and the page cache (\<open>controller.c\<close>). The file system is a parameter: a
  function from paths to what \<open>stat\<close> and \<open>fopen\<close> find there. The cache is an array
  used as a ring: \<open>counter\<close> is the slot that is overwritten next.
\<close>

definition CACHESIZE :: nat where "CACHESIZE = 100"

definition ROOTPATH :: bytes where "ROOTPATH = ''/home/tihi/cweb/dev/frontend/''"

record page_cache =
  cachedpages :: "keyvaluepair list"
  counter :: nat

text \<open>The global variable before \<open>globalinit_cache\<close>, and the loop that fills it.\<close>

primrec empty_pages :: "(nat \<Rightarrow> bool) \<Rightarrow> nat \<Rightarrow> keyvaluepair list run" where
  "empty_pages al 0 = Some []"
| "empty_pages al (Suc n) = do {
     kv \<leftarrow> create_keyvaluepair al;
     kvs \<leftarrow> empty_pages al n;
     Some (kv # kvs)
   }"

definition globalinit_cache :: "(nat \<Rightarrow> bool) \<Rightarrow> page_cache \<Rightarrow> page_cache run" where
  "globalinit_cache al c = do { kvs \<leftarrow> empty_pages al CACHESIZE; Some (c\<lparr>cachedpages := kvs\<rparr>) }"

definition zero_cache :: page_cache where
  "zero_cache = \<lparr>cachedpages = replicate CACHESIZE NULL_pair, counter = 0\<rparr>"

section \<open>Path traversal\<close>

text \<open>The loop over the URL from the byte \<open>i\<close>, which is at least one (an \<open>int\<close>, as in
  \<open>scan_to\<close>).\<close>

function traversal_loop :: "sds \<Rightarrow> nat \<Rightarrow> int run" where
  "traversal_loop u i =
     (if i < sdslen u then do {
        c \<leftarrow> sds_char u i;
        d \<leftarrow> sds_char u (i - 1);
        if c = d \<and> c = CHR ''.'' then Some 1 else traversal_loop u (i + 1)
      }
      else Some 0)"
  by pat_completeness auto
termination by (relation "measure (\<lambda>(u, i). sdslen u - i)") auto

declare traversal_loop.simps [simp del]

definition path_traversal :: "sds option \<Rightarrow> int run" where
  "path_traversal u = do { s \<leftarrow> deref u; traversal_loop s 1 }"

section \<open>The cache\<close>

fun cache_loop :: "(nat \<Rightarrow> bool) \<Rightarrow> keyvaluepair list \<Rightarrow> sds option \<Rightarrow> sds option run" where
  "cache_loop al [] raw = Some None"
| "cache_loop al (x # xs) raw = do {
     k \<leftarrow> deref (kv_key x);
     s \<leftarrow> deref raw;
     c \<leftarrow> sdscmp k s;
     if c = 0 then do { v \<leftarrow> deref (kv_value x); sdsdup al v } else cache_loop al xs raw
   }"

definition serve_from_cache :: "(nat \<Rightarrow> bool) \<Rightarrow> page_cache \<Rightarrow> sds option \<Rightarrow> sds option run" where
  "serve_from_cache al c raw =
     (if length (cachedpages c) < CACHESIZE then None
      else cache_loop al (take CACHESIZE (cachedpages c)) raw)"

definition add_to_cache :: "(nat \<Rightarrow> bool) \<Rightarrow> page_cache \<Rightarrow> sds option \<Rightarrow> sds option \<Rightarrow> page_cache run" where
  "add_to_cache al c raw content = do {
     u \<leftarrow> deref raw;
     k \<leftarrow> sdsdup al u;
     s \<leftarrow> deref content;
     v \<leftarrow> sdsdup al s;
     kvs \<leftarrow> store_at (cachedpages c) (counter c) \<lparr>kv_key = k, kv_value = v\<rparr>;
     let n = counter c + 1;
     Some (c\<lparr>cachedpages := kvs, counter := (if CACHESIZE - 1 < n then 0 else n)\<rparr>)
   }"

section \<open>Static files\<close>

text \<open>An entry of the file system; a file may refuse to be opened.\<close>

datatype entry = Directory | File "bytes option"

text \<open>If \<open>stat\<close> fails, the mode is what happened to be in the variable.\<close>

definition isDirectory :: "(bytes \<Rightarrow> entry option) \<Rightarrow> bool \<Rightarrow> bytes \<Rightarrow> int" where
  "isDirectory fs junk path =
     (case fs path of
        None \<Rightarrow> (if junk then 1 else 0)
      | Some Directory \<Rightarrow> 1
      | Some (File _) \<Rightarrow> 0)"

definition fopen :: "(bytes \<Rightarrow> entry option) \<Rightarrow> bytes \<Rightarrow> bytes option" where
  "fopen fs path = (case fs path of Some (File c) \<Rightarrow> c | _ \<Rightarrow> None)"

text \<open>Reading a file into a block, and compressing it.\<close>

definition read_file :: "(nat \<Rightarrow> bool) \<Rightarrow> bytes \<Rightarrow> sds option run" where
  "read_file al content =
     (if \<not> al (length content) then None else sdsnewlen al (Init content) (length content))"

definition deflate_string ::
  "(nat \<Rightarrow> bool) \<Rightarrow> (bytes \<Rightarrow> nat \<Rightarrow> bytes) \<Rightarrow> sds option \<Rightarrow> sds option run" where
  "deflate_string al deflate p = do {
     s \<leftarrow> deref p;
     bs \<leftarrow> sds_bytes s;
     if \<not> al (sdslen s + 1) then None
     else do {
       (out, n) \<leftarrow> compress_content deflate bs (as_int (sdslen s)) (replicate (sdslen s + 1) None);
       res \<leftarrow> loads out 0 (nat n);
       sdsnewlen al (Init res) (nat n)
     }
   }"

text \<open>The page, or NULL.\<close>

definition initdir_for_static_files ::
  "(nat \<Rightarrow> bool) \<Rightarrow> (bytes \<Rightarrow> nat \<Rightarrow> bytes) \<Rightarrow> (bytes \<Rightarrow> entry option) \<Rightarrow> bool
     \<Rightarrow> sds option \<Rightarrow> sds option \<Rightarrow> page_cache \<Rightarrow> (sds option \<times> page_cache) run" where
  "initdir_for_static_files al deflate fs junk page raw c = do {
     t \<leftarrow> path_traversal page;
     if t = 1 then Some (None, c)
     else do {
       p \<leftarrow> sdsnew al (Some ROOTPATH);
       p \<leftarrow> deref p;
       u \<leftarrow> deref page;
       p \<leftarrow> sdscatsds al p u;
       p \<leftarrow> deref p;
       path \<leftarrow> c_string p;
       if isDirectory fs junk path = 1 then Some (None, c)
       else do {
         s \<leftarrow> serve_from_cache al c raw;
         if s \<noteq> None then Some (s, c)
         else case fopen fs path of
             None \<Rightarrow> Some (None, c)
           | Some content \<Rightarrow> do {
               s \<leftarrow> read_file al content;
               s \<leftarrow> deflate_string al deflate s;
               c \<leftarrow> add_to_cache al c raw s;
               Some (s, c)
             }
       }
     }
   }"

end
