(* ===== verification/Response_Spec.thy ===== *)
theory Response_Spec
  imports Responser
begin

text \<open>
  What the functions of \<open>responser.c\<close> compute: the routing table is a list of URLs and
  handlers that is searched from the front, the header of a static file depends on what follows the
  last dot of its URL, and the compressor's result is cut at the length of its input.
\<close>

section \<open>Strings\<close>

lemma runs_sdscats [run_rules]:
  "sees t p \<Longrightarrow> length t + length (concat (map cstr ts)) < sds_limit \<Longrightarrow>
     runs (sees (t @ concat (map cstr ts))) (sdscats mem p ts)"
proof (induction ts arbitrary: t p)
  case (Cons u ts)
  obtain s where s: "p = Some s" "sds_rep s t" using Cons.prems(1) by (auto simp: sees_def)
  have "length t + length (cstr u) < sds_limit" using Cons.prems(2) by simp
  from runs_sdscat [OF s(2) this] have "runs (sees (t @ concat (map cstr (u # ts)))) (sdscat mem s u \<bind> (\<lambda>p. sdscats mem p ts))"
  proof (rule runs_bind)
    fix q assume "sees (t @ cstr u) q"
    from Cons.IH [OF this] Cons.prems(2)
    show "runs (sees (t @ concat (map cstr (u # ts)))) (sdscats mem q ts)" by simp
  qed
  then show ?case by (simp add: s(1))
qed simp

lemma runs_sdscmp: "sds_rep s t \<Longrightarrow> sds_rep s2 u \<Longrightarrow> runs (\<lambda>c. c = 0 \<longleftrightarrow> t = u) (sdscmp s s2)"
  using sdscmp_lexord [of s t s2 u] by (auto simp: runs_def)

lemma sdscmp_if:
  assumes "sds_rep s t" "sds_rep s2 u"
  shows "(do { c \<leftarrow> sdscmp s s2; if c = 0 then a else b }) = (if t = u then a else b)"
  using runs_sdscmp [OF assms] by (auto simp: runs_def)

lemma cstr_free: "NUL \<notin> set t \<Longrightarrow> cstr t = t"
  by (simp add: cstr_def takeWhile_eq_all_conv) metis

section \<open>The routing table\<close>

definition table_rep :: "'f routing_table \<Rightarrow> (bytes \<times> 'f) list \<Rightarrow> bool" where
  "table_rep tb ps \<longleftrightarrow>
     length (routes tb) = ROUTEARRAYSIZE \<and> route_count tb = length ps \<and> length ps \<le> ROUTEARRAYSIZE
     \<and> list_all2 (\<lambda>x p. sees (fst p) (route_url x) \<and> funcref x = Some (snd p))
         (take (route_count tb) (routes tb)) ps"

lemma init_table_rep: "table_rep init_table []"
  by (simp add: table_rep_def init_table_def)

lemma create_route_runs:
  assumes "table_rep tb ps" "length ps < ROUTEARRAYSIZE" "length (cstr u) < sds_limit"
  shows "runs (\<lambda>tb. table_rep tb (ps @ [(cstr u, f)])) (create_route mem u f tb)"
proof -
  obtain p where p: "sdsnew mem (Some u) = Some p" "sees (cstr u) p"
    using runs_sdsnew [OF assms(3)] by (auto simp: runs_def)
  let ?x = "\<lparr>route_url = p, funcref = Some f\<rparr>"
  have "length ps < length (routes tb)" "route_count tb = length ps"
    using assms(1,2) by (simp_all add: table_rep_def)
  moreover have "take (length ps + 1) ((routes tb)[length ps := ?x]) = take (length ps) (routes tb) @ [?x]"
    using calculation by (simp add: take_Suc_conv_app_nth)
  ultimately show ?thesis
    using assms(1,2) p by (auto simp: create_route_def store_at_def table_rep_def list_all2_appendI)
qed

lemma create_route_full:
  assumes "table_rep tb ps" "length ps = ROUTEARRAYSIZE"
  shows "create_route al u f tb = None"
  using assms by (auto simp: create_route_def store_at_def table_rep_def)

lemma used_routes_rep:
  "table_rep tb ps \<Longrightarrow> used_routes tb = Some (take (route_count tb) (routes tb))"
  by (simp add: used_routes_def table_rep_def)

lemma check_loop_rep:
  assumes "list_all2 (\<lambda>x p. sees (fst p) (route_url x) \<and> funcref x = Some (snd p)) xs ps" "sds_rep s t"
  shows "check_loop (Some s) xs = Some (if t \<in> fst ` set ps then 1 else 0)"
  using assms(1)
proof (induction rule: list_all2_induct)
  case (Cons x xs p ps)
  obtain k where k: "route_url x = Some k" "sds_rep k (fst p)" using Cons.hyps(1) by (auto simp: sees_def)
  show ?case using Cons.IH by (auto simp: k(1) sdscmp_if [OF assms(2) k(2)])
qed simp

lemma check_route_rep:
  assumes "table_rep tb ps" "sees t u"
  shows "check_route tb u = Some (if t \<in> fst ` set ps then 1 else 0)"
proof -
  obtain s where s: "u = Some s" "sds_rep s t" using assms(2) by (auto simp: sees_def)
  have "check_loop u (take (route_count tb) (routes tb)) = Some (if t \<in> fst ` set ps then 1 else 0)"
    unfolding s(1) by (rule check_loop_rep [OF _ s(2)]) (use assms(1) in \<open>unfold table_rep_def, blast\<close>)
  then show ?thesis by (simp add: check_route_def used_routes_rep [OF assms(1)])
qed

lemma do_loop_rep:
  assumes "list_all2 (\<lambda>x p. sees (fst p) (route_url x) \<and> funcref x = Some (snd p)) xs ps" "sds_rep s t"
  shows "do_loop (Some s) xs = Some (map_of ps t)"
  using assms(1)
proof (induction rule: list_all2_induct)
  case (Cons x xs p ps)
  obtain k where k: "route_url x = Some k" "sds_rep k (fst p)" using Cons.hyps(1) by (auto simp: sees_def)
  show ?case using Cons by (cases p) (auto simp: k(1) sdscmp_if [OF assms(2) k(2)])
qed simp

lemma do_route_rep:
  assumes "table_rep tb ps" "sees t u"
  shows "do_route al call tb u st =
     (case map_of ps t of
        Some f \<Rightarrow> call f st
      | None \<Rightarrow> do { p \<leftarrow> sdsnew al (Some not_found_text); Some (p, st) })"
proof -
  obtain s where s: "u = Some s" "sds_rep s t" using assms(2) by (auto simp: sees_def)
  have "do_loop u (take (route_count tb) (routes tb)) = Some (map_of ps t)"
    unfolding s(1) by (rule do_loop_rep [OF _ s(2)]) (use assms(1) in \<open>unfold table_rep_def, blast\<close>)
  then show ?thesis by (simp add: do_route_def used_routes_rep [OF assms(1)])
qed

section \<open>Headers\<close>

lemma runs_addheader [run_rules]:
  assumes "sees t p" "length t + length (cstr k) + length (cstr v) + 4 < sds_limit"
  shows "runs (sees (t @ cstr k @ '': '' @ cstr v @ CRLF)) (addheader mem p k v)"
proof -
  have len: "length CRLF = 2" by (simp add: CRLF_def)
  obtain s where s: "p = Some s" "sds_rep s t" using assms(1) by (auto simp: sees_def)
  obtain ks where ks: "sdsnew mem (Some k) = Some (Some ks)" "sds_rep ks (cstr k)"
    using runs_sdsnew [of k] assms(2) by (auto simp: runs_def sees_def)
  obtain vs where vs: "sdsnew mem (Some v) = Some (Some vs)" "sds_rep vs (cstr v)"
    using runs_sdsnew [of v] assms(2) by (auto simp: runs_def sees_def)
  obtain s1 where s1: "sdscatsds mem s ks = Some (Some s1)" "sds_rep s1 (t @ cstr k)"
    using runs_sdscatsds [OF s(2) ks(2)] assms(2) by (auto simp: runs_def sees_def)
  obtain s2 where s2: "sdscatlen mem s1 '': '' 2 = Some (Some s2)" "sds_rep s2 (t @ cstr k @ '': '')"
    using runs_sdscatlen [OF s1(2), of 2 "'': ''"] assms(2) by (auto simp: runs_def sees_def)
  obtain s3 where s3: "sdscatsds mem s2 vs = Some (Some s3)" "sds_rep s3 (t @ cstr k @ '': '' @ cstr v)"
    using runs_sdscatsds [OF s2(2) vs(2)] assms(2) by (auto simp: runs_def sees_def)
  have "runs (sees (t @ cstr k @ '': '' @ cstr v @ CRLF)) (sdscatlen mem s3 CRLF 2)"
    using runs_sdscatlen [OF s3(2), of 2 CRLF] assms(2) len by simp
  then show ?thesis by (simp add: addheader_def s(1) ks(1) vs(1) s1(1) s2(1) s3(1))
qed

section \<open>File extensions\<close>

definition mime_table :: "(bytes \<times> bytes) list" where
  "mime_table = mime_types @ [('''', '''')]"

definition url_extension :: "bytes \<Rightarrow> bytes" where
  "url_extension u = (if CHR ''.'' \<in> set u then cstr (rev (takeWhile (\<lambda>c. c \<noteq> CHR ''.'') (rev u))) else '''')"

definition content_type :: "bytes \<Rightarrow> bytes" where
  "content_type u =
     (case map_of mime_table (url_extension u) of
        Some ty \<Rightarrow> ty
      | None \<Rightarrow> ''application/octet-stream'')"

lemma runs_new_extensions:
  assumes "\<forall>p \<in> set ps. cstr (fst p) = fst p \<and> cstr (snd p) = snd p
    \<and> length (fst p) < sds_limit \<and> length (snd p) < sds_limit"
  shows "runs (\<lambda>kvs. list_all2 kv_rep kvs ps) (new_extensions mem ps)"
  using assms
proof (induction ps)
  case (Cons p ps)
  obtain k where k: "sdsnew mem (Some (fst p)) = Some k" "sees (fst p) k"
    using runs_sdsnew [of "fst p"] Cons.prems by (auto simp: runs_def)
  obtain v where v: "sdsnew mem (Some (snd p)) = Some v" "sees (snd p) v"
    using runs_sdsnew [of "snd p"] Cons.prems by (auto simp: runs_def)
  obtain kvs where "new_extensions mem ps = Some kvs" "list_all2 kv_rep kvs ps"
    using Cons by (auto simp: runs_def)
  moreover have "kv_rep \<lparr>kv_key = k, kv_value = v\<rparr> p" using k v by (simp add: kv_rep_def)
  ultimately show ?case using k v by simp
qed simp

lemma runs_no_extensions:
  "runs (\<lambda>kvs. list_all2 kv_rep kvs (replicate n ('''', ''''))) (no_extensions mem n)"
proof (induction n)
  case (Suc n)
  obtain e where "sdsempty mem = Some (Some e)" "sds_rep e ''''" using sdsempty_ok by blast
  moreover obtain kvs where "no_extensions mem n = Some kvs" "list_all2 kv_rep kvs (replicate n ('''', ''''))"
    using Suc by (auto simp: runs_def)
  moreover have "kv_rep \<lparr>kv_key = Some e, kv_value = Some e\<rparr> ('''', '''')"
    using calculation by (simp add: kv_rep_def)
  ultimately show ?case by simp
qed simp

lemma mime_types_literal:
  "p \<in> set mime_types \<Longrightarrow> cstr (fst p) = fst p \<and> cstr (snd p) = snd p
     \<and> length (fst p) < 100 \<and> length (snd p) < 100"
  by (auto simp: mime_types_def cstr_def)

lemma runs_init_file_extension: "runs (\<lambda>kvs. list_all2 kv_rep kvs mime_table) (init_file_extension mem)"
proof -
  have "\<forall>p \<in> set mime_types. cstr (fst p) = fst p \<and> cstr (snd p) = snd p
      \<and> length (fst p) < sds_limit \<and> length (snd p) < sds_limit"
    using mime_types_literal by (force simp: sds_limit_def)
  from runs_new_extensions [OF this] obtain a
    where a: "new_extensions mem mime_types = Some a" "list_all2 kv_rep a mime_types" by (auto simp: runs_def)
  have n: "MAX_FILE_EXTENSIONS - length mime_types = 1" by (simp add: MAX_FILE_EXTENSIONS_def mime_types_def)
  from runs_no_extensions [of 1] obtain b
    where b: "no_extensions mem 1 = Some b" "list_all2 kv_rep b [('''', '''')]" by (auto simp: runs_def)
  from a b show ?thesis by (simp add: init_file_extension_def n mime_table_def list_all2_appendI)
qed

lemma search_file_extension_rep:
  assumes "list_all2 kv_rep kvs ps" "sds_rep e t"
  shows "runs (\<lambda>p. case map_of ps t of None \<Rightarrow> p = None | Some v \<Rightarrow> sees v p)
    (search_file_extension kvs (Some e))"
  using assms(1)
proof (induction rule: list_all2_induct)
  case (Cons x kvs p ps)
  obtain k where k: "kv_key x = Some k" "sds_rep k (fst p)" using Cons.hyps(1) by (auto simp: kv_rep_def sees_def)
  have v: "sees (snd p) (kv_value x)" using Cons.hyps(1) by (simp add: kv_rep_def)
  show ?case using Cons.IH v by (cases p) (auto simp: k(1) sdscmp_if [OF assms(2) k(2)])
qed simp

section \<open>The header of a static file\<close>

lemma last_dot_rep:
  assumes "sds_rep s t" "n \<le> length t"
  shows "runs (\<lambda>r. case r of None \<Rightarrow> CHR ''.'' \<notin> set (take n t)
      | Some j \<Rightarrow> j < n \<and> t ! j = CHR ''.'' \<and> CHR ''.'' \<notin> set (drop (j + 1) (take n t))) (last_dot s n)"
  using assms(2)
proof (induction n)
  case (Suc n)
  have c: "sds_char s n = Some (t ! n)" using assms(1) Suc.prems by (simp add: nth_append)
  have t: "take (Suc n) t = take n t @ [t ! n]" using Suc.prems by (simp add: take_Suc_conv_app_nth)
  show ?case
  proof (cases "t ! n = CHR ''.''")
    case True
    then show ?thesis using c Suc.prems by (simp add: t)
  next
    case False
    obtain r where r: "last_dot s n = Some r"
      "case r of None \<Rightarrow> CHR ''.'' \<notin> set (take n t)
        | Some j \<Rightarrow> j < n \<and> t ! j = CHR ''.'' \<and> CHR ''.'' \<notin> set (drop (j + 1) (take n t))"
      using Suc by (auto simp: runs_def)
    then show ?thesis using False c Suc.prems by (auto simp: t split: option.splits)
  qed
qed simp

lemma upto_first: "c \<notin> set xs \<Longrightarrow> takeWhile (\<lambda>x. x \<noteq> c) (xs @ c # ys) = xs"
  by (induction xs) auto

lemma c_suffix_rep:
  assumes "sds_rep s t" "i \<le> length t"
  shows "c_suffix s i = Some (cstr (drop i t))"
proof -
  obtain cs where cs: "sbuf s = map Some (t @ [NUL]) @ cs" using sds_text_cells [OF assms(1)] by blast
  then have d: "drop i (sbuf s) = map Some (drop i t @ [NUL]) @ cs"
    using assms(2) by (simp add: drop_map del: map_append)
  let ?u = "cstr (drop i t)"
  have "\<exists>v. drop i t @ [NUL] = ?u @ NUL # v"
  proof (cases "NUL \<in> set (drop i t)")
    case True
    then obtain a b where ab: "drop i t = a @ NUL # b" "NUL \<notin> set a" by (meson split_list_first)
    then have "?u = a" by (simp add: cstr_def upto_first)
    then show ?thesis using ab(1) by simp
  next
    case False
    then show ?thesis by (simp add: cstr_free)
  qed
  then obtain v where v: "drop i t @ [NUL] = ?u @ NUL # v" ..
  have nul: "NUL \<notin> set ?u" by (auto simp: cstr_def dest: set_takeWhileD)
  have n: "cell_strlen (drop i (sbuf s)) = Some (length ?u)"
    using cell_strlen_prefix [OF nul, of "map Some v @ cs"] by (simp add: d v)
  have "length ?u \<le> length (drop i t)" by (rule length_cstr_le)
  then have fit: "i + length ?u \<le> length t" using assms(2) by simp
  have "loads (sbuf s) i (length ?u) = Some ?u"
  proof (rule loads_Some)
    have "take (length ?u) (drop i (sbuf s)) = map Some ?u" by (simp add: d v)
    then show "bslice (sbuf s) i (length ?u) = map Some ?u" by (simp add: bslice_def)
    show "i + length ?u \<le> length (sbuf s)" using fit by (simp add: cs)
  qed
  with n show ?thesis by (simp add: c_suffix_def)
qed

lemma url_extension_at:
  assumes "j < length t" "t ! j = CHR ''.''" "CHR ''.'' \<notin> set (drop (j + 1) t)"
  shows "url_extension t = cstr (drop (j + 1) t)"
proof -
  have t: "t = take j t @ CHR ''.'' # drop (j + 1) t"
    using assms(1,2) id_take_nth_drop by fastforce
  then have "rev t = rev (drop (j + 1) t) @ CHR ''.'' # rev (take j t)"
    by (metis append.assoc append_Cons append_Nil rev.simps(2) rev_append)
  then have "takeWhile (\<lambda>c. c \<noteq> CHR ''.'') (rev t) = rev (drop (j + 1) t)"
    using upto_first [of "CHR ''.''" "rev (drop (j + 1) t)"] assms(3) by simp
  moreover have "CHR ''.'' \<in> set t" using assms(1,2) nth_mem by fastforce
  ultimately show ?thesis by (simp add: url_extension_def)
qed

text \<open>The whole header, with its type.\<close>

definition response_head :: "bytes \<Rightarrow> bytes" where
  "response_head ty = concat header_lines @ ty @ CRLF @ ''Connection: close'' @ CRLF @ CRLF"

lemma header_lines_literal:
  "map cstr header_lines = header_lines" "length (concat header_lines) < 1000" "cstr CRLF = CRLF"
  "cstr (''Connection: close'' @ CRLF @ CRLF) = ''Connection: close'' @ CRLF @ CRLF" "length CRLF = 2"
  by (simp_all add: header_lines_def CRLF_def cstr_def)

lemma content_type_length: "length (content_type u) < 100" "cstr (content_type u) = content_type u"
proof -
  have "\<forall>p \<in> set mime_table. length (snd p) < 100 \<and> cstr (snd p) = snd p"
    using mime_types_literal by (auto simp: mime_table_def cstr_def)
  moreover have "map_of mime_table (url_extension u) = Some v \<Longrightarrow> (url_extension u, v) \<in> set mime_table" for v
    by (rule map_of_SomeD)
  ultimately show "length (content_type u) < 100" "cstr (content_type u) = content_type u"
    by (force simp: content_type_def cstr_def split: option.splits)+
qed

lemma extension_runs:
  assumes "sds_rep u t" "length t < sds_limit" "sds_rep e ''''"
  shows "runs (sees (url_extension t)) (do {
      j \<leftarrow> last_dot u (sdslen u);
      case j of None \<Rightarrow> Some (Some e)
      | Some j \<Rightarrow> do { e \<leftarrow> deref (Some e); x \<leftarrow> c_suffix u (j + 1); sdscat mem e x } })"
proof -
  have l: "sdslen u = length t" using assms(1) by (simp add: sds_repD)
  obtain r where r: "last_dot u (length t) = Some r"
      "case r of None \<Rightarrow> CHR ''.'' \<notin> set t
        | Some j \<Rightarrow> j < length t \<and> t ! j = CHR ''.'' \<and> CHR ''.'' \<notin> set (drop (j + 1) t)"
    using last_dot_rep [OF assms(1) order_refl] unfolding runs_def take_all [OF order_refl] by blast
  show ?thesis
  proof (cases r)
    case None
    then show ?thesis using r assms(3) by (simp add: l url_extension_def)
  next
    case (Some j)
    then have j: "j < length t" "t ! j = CHR ''.''" "CHR ''.'' \<notin> set (drop (j + 1) t)" using r(2) by auto
    have s: "c_suffix u (j + 1) = Some (url_extension t)"
      using c_suffix_rep [OF assms(1), of "j + 1"] url_extension_at [OF j] j(1) by simp
    have idem: "cstr (url_extension t) = url_extension t"
      unfolding url_extension_at [OF j] by (rule cstr_free) (auto simp: cstr_def dest: set_takeWhileD)
    have "length (url_extension t) \<le> length (drop (j + 1) t)"
      unfolding url_extension_at [OF j] by (rule length_cstr_le)
    then have "length (cstr (url_extension t)) < sds_limit" using assms(2) by (simp add: idem)
    then have "runs (sees (url_extension t)) (sdscat mem e (url_extension t))"
      using runs_sdscat [OF assms(3), of "url_extension t"] by (simp add: idem)
    then show ?thesis using Some r(1) s [simplified] by (simp add: l)
  qed
qed

lemma build_response_header_runs:
  assumes "list_all2 kv_rep extensions mime_table" "sees t u" "length t < sds_limit"
  shows "runs (sees (response_head (content_type t))) (build_response_header mem extensions u)"
proof -
  obtain us where us: "u = Some us" "sds_rep us t" using assms(2) by (auto simp: sees_def)
  obtain e where e: "sdsempty mem = Some (Some e)" "sds_rep e ''''" using sdsempty_ok by blast
  have b: "runs (sees (concat header_lines)) (sdscats mem (Some e) header_lines)"
    using runs_sdscats [of "''''" "Some e" header_lines] e(2) header_lines_literal by (simp add: sds_limit_def)
  from extension_runs [OF us(2) assms(3) e(2)] obtain j x
    where j: "last_dot us (sdslen us) = Some j" and x: "(case j of None \<Rightarrow> Some (Some e)
      | Some j \<Rightarrow> do { e \<leftarrow> deref (Some e); x \<leftarrow> c_suffix us (j + 1); sdscat mem e x }) = Some (Some x)"
      "sds_rep x (url_extension t)"
    by (auto simp: runs_def sees_def bind_eq_Some_conv)
  obtain b1 where b1: "sdscats mem (Some e) header_lines = Some (Some b1)" "sds_rep b1 (concat header_lines)"
    using b by (auto simp: runs_def sees_def)
  obtain ty where ty: "search_file_extension extensions (Some x) = Some ty"
      "case map_of mime_table (url_extension t) of None \<Rightarrow> ty = None | Some v \<Rightarrow> sees v ty"
    using search_file_extension_rep [OF assms(1) x(2)] by (auto simp: runs_def)
  let ?add = "case ty of None \<Rightarrow> sdscat mem b1 ''application/octet-stream'' | Some y \<Rightarrow> sdscatsds mem b1 y"
  have add: "runs (sees (concat header_lines @ content_type t)) ?add"
  proof (cases "map_of mime_table (url_extension t)")
    case None
    have lit: "cstr ''application/octet-stream'' = ''application/octet-stream''" by (simp add: cstr_def)
    from None show ?thesis
      using runs_sdscat [OF b1(2), of "''application/octet-stream''"] ty(2) header_lines_literal(2)
      by (simp add: content_type_def lit sds_limit_def)
  next
    case (Some v)
    then have v: "content_type t = v" by (simp add: content_type_def)
    have "sees v ty" using ty(2) unfolding Some by simp
    then obtain y where y: "ty = Some y" "sds_rep y v" unfolding sees_def by blast
    have "length (concat header_lines) + length v < sds_limit"
      using header_lines_literal(2) content_type_length(1) [of t] unfolding v sds_limit_def by simp
    from runs_sdscatsds [OF b1(2) y(2) this] show ?thesis unfolding v y(1) by simp
  qed
  have fin: "runs (sees (response_head (content_type t))) (sdscats mem p [CRLF, ''Connection: close'' @ CRLF @ CRLF])"
    if "sees (concat header_lines @ content_type t) p" for p
    using runs_sdscats [OF that, of "[CRLF, ''Connection: close'' @ CRLF @ CRLF]"] header_lines_literal
      content_type_length(1) [of t]
    by (simp add: response_head_def sds_limit_def)
  have "build_response_header mem extensions u
      = ?add \<bind> (\<lambda>p. sdscats mem p [CRLF, ''Connection: close'' @ CRLF @ CRLF])"
    by (simp only: build_response_header_def e(1) us(1) deref_Some bind.bind_lunit j
        x(1) [unfolded deref_Some bind.bind_lunit] b1(1) ty(1))
  with runs_bind [OF add fin] show ?thesis by simp
qed

section \<open>Compression\<close>

lemma compress_content_eq:
  assumes "length (deflate t (length t)) \<le> length t" "length out = length t + 1" "length t < 2 ^ 31"
  shows "compress_content deflate t (as_int (length t)) out =
    Some (overwrite out 0 (deflate t (length t) @ [NUL]), int (length (deflate t (length t))))"
proof -
  let ?d = "deflate t (length t)"
  have "puts out 0 ?d = Some (overwrite out 0 ?d)" using assms by (intro puts_fits) simp
  moreover have "put (overwrite out 0 ?d) (length ?d) NUL = Some (overwrite out 0 (?d @ [NUL]))"
    using assms Cons_nth_drop_Suc [of "length ?d" out, symmetric]
    by (simp add: put_def overwrite_def list_update_append)
  moreover have "as_int (length ?d) = int (length ?d)" using assms by (intro as_int_small) simp
  moreover have "unat (word_of_int (as_int (length t)) :: 32 word) = length t" using assms(3) by (intro unat_as_int) simp
  ultimately show ?thesis by (simp add: compress_content_def Let_def)
qed

section \<open>Properties\<close>

text \<open>C33: Routes are registered in order and looked up from the front. As long as fewer than 200
  are registered, \<open>create_route\<close> adds one at the end; \<open>check_route\<close> then says whether a URL
  is registered, and \<open>do_route\<close> calls the handler that was registered first for it, or answers
  with the redirect to the root when there is none. With 200 routes the next one is written behind
  the array.\<close>

theorem routes_first_match:
  assumes "table_rep tb ps" "length (cstr u) < sds_limit" "sees t q"
  shows "(length ps < 200 \<longrightarrow> runs (\<lambda>tb'. table_rep tb' (ps @ [(cstr u, f)])) (create_route mem u f tb))
    \<and> (length ps = 200 \<longrightarrow> create_route mem u f tb = None)
    \<and> check_route tb q = Some (if t \<in> fst ` set ps then 1 else 0)
    \<and> do_route mem call tb q st =
       (case map_of ps t of
          Some g \<Rightarrow> call g st
        | None \<Rightarrow> do { p \<leftarrow> sdsnew mem (Some not_found_text); Some (p, st) })"
  using create_route_runs [OF assms(1) _ assms(2)] create_route_full [OF assms(1)]
    check_route_rep [OF assms(1,3)] do_route_rep [OF assms(1,3)]
  by (simp add: ROUTEARRAYSIZE_def)

theorem routes_first_match_witness:
  "runs (\<lambda>tb'. table_rep tb' [(''index'', 7::nat)]) (create_route mem ''index'' 7 init_table)
   \<and> check_route (init_table :: nat routing_table) (Some ab_string) = Some 0"
  using routes_first_match [where f = "7::nat" and u = "''index''" and t = "''ab''" and q = "Some ab_string"
      and call = "\<lambda>_ _. None" and st = "()", OF init_table_rep]
  by (simp add: cstr_def sds_limit_def ab_string_rep)

text \<open>C34: The header of a static file: always the same security headers, and the type that
  belongs to what follows the last dot of the URL, \<open>application/octet-stream\<close> if the extension
  is not in the table. A URL without a dot has the empty extension, which the unused slot of the
  table matches, so its type is empty.\<close>

theorem response_header_type:
  assumes "list_all2 kv_rep extensions (mime_types @ [('''', '''')])" "sees t u" "length t < sds_limit"
  shows "runs (sees (concat header_lines
      @ (if CHR ''.'' \<notin> set t then ''''
         else case map_of mime_types (cstr (rev (takeWhile (\<lambda>c. c \<noteq> CHR ''.'') (rev t)))) of
             Some ty \<Rightarrow> ty
           | None \<Rightarrow> if cstr (rev (takeWhile (\<lambda>c. c \<noteq> CHR ''.'') (rev t))) = '''' then ''''
               else ''application/octet-stream'')
      @ CRLF @ ''Connection: close'' @ CRLF @ CRLF)) (build_response_header mem extensions u)"
proof -
  have "content_type t = (if CHR ''.'' \<notin> set t then ''''
      else case map_of mime_types (cstr (rev (takeWhile (\<lambda>c. c \<noteq> CHR ''.'') (rev t)))) of
          Some ty \<Rightarrow> ty
        | None \<Rightarrow> if cstr (rev (takeWhile (\<lambda>c. c \<noteq> CHR ''.'') (rev t))) = '''' then ''''
            else ''application/octet-stream'')"
    by (simp add: content_type_def url_extension_def mime_table_def map_add_def mime_types_def
        split: option.splits)
  with build_response_header_runs [of extensions t u] assms show ?thesis
    by (simp only: mime_table_def response_head_def)
qed

theorem response_header_type_witness:
  "runs (\<lambda>exts. runs (sees (concat header_lines @ CRLF @ ''Connection: close'' @ CRLF @ CRLF))
      (build_response_header mem exts (Some ab_string))) (init_file_extension mem)"
proof (rule runs_mono [OF runs_init_file_extension])
  fix exts assume "list_all2 kv_rep exts mime_table"
  with response_header_type [of exts "''ab''" "Some ab_string"]
  show "runs (sees (concat header_lines @ CRLF @ ''Connection: close'' @ CRLF @ CRLF))
      (build_response_header mem exts (Some ab_string))"
    by (simp add: mime_table_def ab_string_rep sds_limit_def)
qed

end
