(* ===== verification/Controller_Spec.thy ===== *)
theory Controller_Spec
  imports Controller Response_Spec
begin

text \<open>
  Static files: which paths can be opened, what the cache holds, and that a page from the cache is
  the page the file system would give. What a server relies on when it puts a cache in front of
  another source is the locale \<open>page_store\<close>; the ring buffer of \<open>controller.c\<close>
  interprets it.
\<close>

section \<open>Path traversal\<close>

lemma traversal_loop_rep:
  assumes "sds_rep s t" "1 \<le> i"
  shows "traversal_loop s i = Some (if sublist ''..'' (drop (i - 1) t) then 1 else 0)"
  using assms(2)
proof (induction "length t - i" arbitrary: i rule: less_induct)
  case less
  have l: "sdslen s = length t" using assms(1) by (simp add: sds_repD)
  show ?case
  proof (cases "i < length t")
    case False
    then have "length (drop (i - 1) t) \<le> 1" using less.prems by simp
    then have "\<not> sublist ''..'' (drop (i - 1) t)" using sublist_length_le by fastforce
    then show ?thesis using False l by (subst traversal_loop.simps) simp
  next
    case True
    have c: "sds_char s i = Some (t ! i)" "sds_char s (i - 1) = Some (t ! (i - 1))"
      using assms(1) True sds_char_rep [OF assms(1), of "i - 1"] by (simp_all add: nth_append less_imp_diff_less)
    have d1: "drop i t = t ! i # drop (i + 1) t" using True by (simp add: Cons_nth_drop_Suc)
    have "drop (i - 1) t = t ! (i - 1) # drop (Suc (i - 1)) t" using True by (simp add: Cons_nth_drop_Suc)
    then have d: "drop (i - 1) t = t ! (i - 1) # drop i t" using less.prems by simp
    have ih: "traversal_loop s (i + 1) = Some (if sublist ''..'' (drop i t) then 1 else 0)"
      using less.hyps [of "i + 1"] True by simp
    have "sublist ''..'' (drop (i - 1) t) \<longleftrightarrow> t ! i = t ! (i - 1) \<and> t ! i = CHR ''.'' \<or> sublist ''..'' (drop i t)"
      unfolding d by (auto simp: sublist_Cons_right d1)
    then show ?thesis using True ih c by (subst traversal_loop.simps) (auto simp: l)
  qed
qed

lemma path_traversal_rep:
  "sees t u \<Longrightarrow> path_traversal u = Some (if sublist ''..'' t then 1 else 0)"
  using traversal_loop_rep [of _ t 1] by (auto simp: path_traversal_def sees_def)

section \<open>A store of pages\<close>

locale page_store =
  fixes holds :: "'c \<Rightarrow> (bytes \<times> bytes) set \<Rightarrow> bool"
    and get :: "'c \<Rightarrow> sds option \<Rightarrow> sds option run"
    and add :: "'c \<Rightarrow> sds option \<Rightarrow> sds option \<Rightarrow> 'c run"
    and limit :: nat
  assumes bounded: "holds c P \<Longrightarrow> (k, v) \<in> P \<Longrightarrow> length v < limit"
    and get_runs: "holds c P \<Longrightarrow> sees k q \<Longrightarrow>
      runs (\<lambda>p. p = None \<and> (\<forall>v. (k, v) \<notin> P) \<or> (\<exists>v. (k, v) \<in> P \<and> sees v p)) (get c q)"
    and add_runs: "holds c P \<Longrightarrow> sees k q \<Longrightarrow> sees v p \<Longrightarrow> length k < limit \<Longrightarrow> length v < limit \<Longrightarrow>
      runs (\<lambda>c'. \<exists>P'. holds c' P' \<and> (k, v) \<in> P' \<and> P' \<subseteq> insert (k, v) P) (add c q p)"
begin

text \<open>Every page is the one the source has under its key; the empty key is not used.\<close>

definition coherent :: "(bytes \<Rightarrow> bytes option) \<Rightarrow> 'c \<Rightarrow> bool" where
  "coherent source c \<longleftrightarrow> (\<exists>P. holds c P \<and> (\<forall>k v. (k, v) \<in> P \<longrightarrow> k \<noteq> [] \<longrightarrow> source k = Some v))"

definition agrees :: "bytes option \<Rightarrow> sds option \<Rightarrow> bool" where
  "agrees x p \<longleftrightarrow> (case x of None \<Rightarrow> p = None | Some v \<Rightarrow> sees v p)"

lemma agrees_simps: "agrees None p \<longleftrightarrow> p = None" "agrees (Some v) = sees v"
  by (auto simp: agrees_def)

text \<open>A page short enough for the store.\<close>

definition fits :: "sds option \<Rightarrow> bool" where
  "fits p \<longleftrightarrow> (case p of None \<Rightarrow> True | Some _ \<Rightarrow> \<exists>v. sees v p \<and> length v < limit)"

text \<open>Asking the store first, and adding what it does not have.\<close>

definition through :: "sds option run \<Rightarrow> 'c \<Rightarrow> sds option \<Rightarrow> (sds option \<times> 'c) run" where
  "through fresh c q = do {
     s \<leftarrow> get c q;
     if s \<noteq> None then Some (s, c)
     else do {
       p \<leftarrow> fresh;
       if p = None then Some (None, c) else do { c \<leftarrow> add c q p; Some (p, c) }
     }
   }"

lemma through_transparent:
  assumes "coherent source c" "sees k q" "k \<noteq> []" "length k < limit"
    and "runs (agrees (source k)) fresh" "\<And>v. source k = Some v \<Longrightarrow> length v < limit"
  shows "runs (\<lambda>(p, c'). agrees (source k) p \<and> coherent source c') (through fresh c q)"
proof -
  obtain P where P: "holds c P" "\<And>k v. (k, v) \<in> P \<Longrightarrow> k \<noteq> [] \<Longrightarrow> source k = Some v"
    using assms(1) by (auto simp: coherent_def)
  obtain s where s: "get c q = Some s" "s = None \<and> (\<forall>v. (k, v) \<notin> P) \<or> (\<exists>v. (k, v) \<in> P \<and> sees v s)"
    using get_runs [OF P(1) assms(2)] by (auto simp: runs_def)
  show ?thesis
  proof (cases s)
    case (Some x)
    then obtain v where "(k, v) \<in> P" "sees v s" using s(2) by auto
    with P(2) assms(3) have "agrees (source k) s" by (simp add: agrees_def)
    with s(1) Some assms(1) show ?thesis by (simp add: through_def)
  next
    case None
    obtain p where p: "fresh = Some p" "agrees (source k) p" using assms(5) by (auto simp: runs_def)
    show ?thesis
    proof (cases "source k")
      case None
      with p s(1) \<open>s = None\<close> assms(1) show ?thesis by (simp add: through_def agrees_def)
    next
      case (Some v)
      with p have v: "sees v p" by (simp add: agrees_def)
      then obtain y where y: "p = Some y" by (auto simp: sees_def)
      obtain c' P' where c': "add c q p = Some c'" "holds c' P'" "P' \<subseteq> insert (k, v) P"
        using add_runs [OF P(1) assms(2) v assms(4) assms(6) [OF Some]] by (auto simp: runs_def)
      have "coherent source c'" using c' P(2) Some unfolding coherent_def by blast
      with c'(1) p s(1) \<open>s = None\<close> y show ?thesis by (simp add: through_def)
    qed
  qed
qed

text \<open>Under any key the answer fits and the store stays coherent.\<close>

lemma through_safe:
  assumes "coherent source c" "sees k q" "length k < limit"
    and "runs (\<lambda>p. fits p \<and> (\<forall>v. sees v p \<longrightarrow> k \<noteq> [] \<longrightarrow> source k = Some v)) fresh"
  shows "runs (\<lambda>(p, c'). fits p \<and> coherent source c') (through fresh c q)"
proof -
  obtain P where P: "holds c P" "\<And>k v. (k, v) \<in> P \<Longrightarrow> k \<noteq> [] \<Longrightarrow> source k = Some v"
    using assms(1) by (auto simp: coherent_def)
  obtain s where s: "get c q = Some s" "s = None \<and> (\<forall>v. (k, v) \<notin> P) \<or> (\<exists>v. (k, v) \<in> P \<and> sees v s)"
    using get_runs [OF P(1) assms(2)] by (auto simp: runs_def)
  show ?thesis
  proof (cases s)
    case (Some x)
    then have "fits s" using s(2) bounded [OF P(1)] by (auto simp: fits_def)
    with s(1) Some assms(1) show ?thesis by (simp add: through_def)
  next
    case None
    obtain p where p: "fresh = Some p" "fits p" "\<And>v. sees v p \<Longrightarrow> k \<noteq> [] \<Longrightarrow> source k = Some v"
      using assms(4) by (auto simp: runs_def)
    show ?thesis
    proof (cases p)
      case None
      with p s(1) \<open>s = None\<close> assms(1) show ?thesis by (simp add: through_def)
    next
      case (Some y)
      then obtain v where v: "sees v p" "length v < limit" using p(2) by (auto simp: fits_def)
      obtain c' P' where c': "add c q p = Some c'" "holds c' P'" "P' \<subseteq> insert (k, v) P"
        using add_runs [OF P(1) assms(2) v(1) assms(3) v(2)] by (auto simp: runs_def)
      have "coherent source c'" using c' P(2) p(3) [OF v(1)] unfolding coherent_def by blast
      with c'(1) p s(1) \<open>s = None\<close> Some show ?thesis by (simp add: through_def)
    qed
  qed
qed

end

section \<open>The ring\<close>

text \<open>A page that fits can still get a header in front: as a string, and for a file, which passes
  through an \<open>int\<close>, as a string whose length is one.\<close>

definition page_limit :: nat where "page_limit = sds_limit - 1200"

definition file_limit :: nat where "file_limit = 2 ^ 31 - 1200"

lemma page_limit_less: "n < page_limit \<Longrightarrow> n + 1200 < sds_limit" "n < page_limit \<Longrightarrow> n < sds_limit"
  by (simp_all add: page_limit_def sds_limit_def)

lemma file_limit_less:
  "n < file_limit \<Longrightarrow> n + 1200 < 2 ^ 31" "n < file_limit \<Longrightarrow> n < 2 ^ 31" "n < file_limit \<Longrightarrow> n < sds_limit"
  "n < file_limit \<Longrightarrow> n < page_limit" "file_limit \<le> page_limit"
  by (simp_all add: file_limit_def page_limit_def sds_limit_def)

text \<open>The pages of the ring, all shorter than \<open>L\<close>.\<close>

definition cache_rep :: "nat \<Rightarrow> page_cache \<Rightarrow> (bytes \<times> bytes) list \<Rightarrow> bool" where
  "cache_rep L c ps \<longleftrightarrow>
     length (cachedpages c) = CACHESIZE \<and> counter c < CACHESIZE \<and> list_all2 kv_rep (cachedpages c) ps
     \<and> (\<forall>p \<in> set ps. length (fst p) < L \<and> length (snd p) < L)"

definition cache_holds :: "page_cache \<Rightarrow> (bytes \<times> bytes) set \<Rightarrow> bool" where
  "cache_holds c P \<longleftrightarrow> (\<exists>ps. cache_rep file_limit c ps \<and> P = set ps)"

lemma cache_rep_length: "cache_rep L c ps \<Longrightarrow> length ps = CACHESIZE"
  by (auto simp: cache_rep_def dest: list_all2_lengthD)

lemma empty_pages_runs: "runs (\<lambda>kvs. list_all2 kv_rep kvs (replicate n ('''', ''''))) (empty_pages mem n)"
proof (induction n)
  case (Suc n)
  obtain kv where kv: "create_keyvaluepair mem = Some kv" "kv_rep kv ('''', '''')"
    using runs_create_keyvaluepair by (auto simp: runs_def)
  obtain kvs where kvs: "empty_pages mem n = Some kvs" "list_all2 kv_rep kvs (replicate n ('''', ''''))"
    using Suc by (auto simp: runs_def)
  show ?case using kv kvs by simp
qed simp

lemma globalinit_cache_runs:
  assumes "counter c < CACHESIZE" "0 < L"
  shows "runs (\<lambda>c'. cache_rep L c' (replicate CACHESIZE ('''', '''')) \<and> counter c' = counter c) (globalinit_cache mem c)"
proof -
  obtain kvs where kvs: "empty_pages mem CACHESIZE = Some kvs" "list_all2 kv_rep kvs (replicate CACHESIZE ('''', ''''))"
    using empty_pages_runs by (auto simp: runs_def)
  have "length kvs = CACHESIZE" using list_all2_lengthD [OF kvs(2)] by simp
  with kvs assms show ?thesis by (simp add: globalinit_cache_def cache_rep_def)
qed

lemma cache_loop_rep:
  assumes "list_all2 kv_rep kvs ps" "sds_rep s t" "\<forall>p \<in> set ps. length (snd p) < sds_limit"
  shows "runs (\<lambda>p. case map_of ps t of None \<Rightarrow> p = None | Some v \<Rightarrow> sees v p) (cache_loop mem kvs (Some s))"
  using assms(1,3)
proof (induction rule: list_all2_induct)
  case (Cons x kvs p ps)
  obtain k where k: "kv_key x = Some k" "sds_rep k (fst p)" using Cons.hyps(1) by (auto simp: kv_rep_def sees_def)
  obtain v where v: "kv_value x = Some v" "sds_rep v (snd p)" using Cons.hyps(1) by (auto simp: kv_rep_def sees_def)
  have "runs (sees (snd p)) (sdsdup mem v)" using v(2) Cons.prems by (intro runs_sdsdup) simp_all
  then show ?case
    using Cons by (cases p) (auto simp: k(1) v(1) sdscmp_if [OF k(2) assms(2)])
qed simp

lemma serve_from_cache_rep:
  assumes "cache_rep L c ps" "L \<le> page_limit" "sees t q"
  shows "runs (\<lambda>p. case map_of ps t of None \<Rightarrow> p = None | Some v \<Rightarrow> sees v p) (serve_from_cache mem c q)"
proof -
  obtain s where s: "q = Some s" "sds_rep s t" using assms(3) by (auto simp: sees_def)
  have "serve_from_cache mem c q = cache_loop mem (cachedpages c) (Some s)"
    using assms(1) s(1) by (simp add: serve_from_cache_def cache_rep_def)
  moreover have "list_all2 kv_rep (cachedpages c) ps" "\<forall>p \<in> set ps. length (snd p) < sds_limit"
    using assms(1,2) page_limit_less(2) by (auto simp: cache_rep_def)
  ultimately show ?thesis using cache_loop_rep [OF _ s(2)] by simp
qed

lemma add_to_cache_runs:
  assumes "cache_rep L c ps" "sees k q" "sees v p" "length k < L" "length v < L" "L \<le> page_limit"
  shows "runs (\<lambda>c'. cache_rep L c' (ps[counter c := (k, v)]) \<and> counter c' = (counter c + 1) mod CACHESIZE)
    (add_to_cache mem c q p)"
proof -
  obtain qs where qs: "q = Some qs" "sds_rep qs k" using assms(2) by (auto simp: sees_def)
  obtain s where s: "p = Some s" "sds_rep s v" using assms(3) by (auto simp: sees_def)
  obtain a where a: "sdsdup mem qs = Some a" "sees k a" using runs_sdsdup [OF qs(2) page_limit_less(2)] assms(4,6) by (auto simp: runs_def)
  obtain b where b: "sdsdup mem s = Some b" "sees v b" using runs_sdsdup [OF s(2) page_limit_less(2)] assms(5,6) by (auto simp: runs_def)
  have n: "counter c < length (cachedpages c)" "length (cachedpages c) = CACHESIZE" "list_all2 kv_rep (cachedpages c) ps"
    and short: "\<forall>p \<in> set ps. length (fst p) < L \<and> length (snd p) < L"
    using assms(1) by (auto simp: cache_rep_def)
  have "list_all2 kv_rep ((cachedpages c)[counter c := \<lparr>kv_key = a, kv_value = b\<rparr>]) (ps[counter c := (k, v)])"
    using n(3) a(2) b(2) by (intro list_all2_update_cong) (simp_all add: kv_rep_def)
  moreover have "(if CACHESIZE - Suc 0 < Suc (counter c) then 0 else Suc (counter c)) = Suc (counter c) mod CACHESIZE"
  proof (cases "counter c = CACHESIZE - 1")
    case False
    then have "Suc (counter c) < CACHESIZE" using n(1,2) by simp
    then show ?thesis by simp
  qed (simp add: CACHESIZE_def)
  moreover have "\<forall>p \<in> set (ps[counter c := (k, v)]). length (fst p) < L \<and> length (snd p) < L"
    using short assms(4,5) set_update_subset_insert [of ps "counter c" "(k, v)"] by auto
  moreover have "Suc (counter c) mod CACHESIZE < CACHESIZE" by (simp add: CACHESIZE_def)
  ultimately show ?thesis
    using n(1,2) by (simp add: add_to_cache_def qs(1) s(1) a(1) b(1) store_at_def cache_rep_def Let_def)
qed

interpretation pages: page_store cache_holds "serve_from_cache mem" "add_to_cache mem" file_limit
proof
  fix c P k v assume "cache_holds c P" "(k, v) \<in> P"
  then show "length v < file_limit" by (auto simp: cache_holds_def cache_rep_def)
next
  fix c P k q assume "cache_holds c P" "sees k q"
  then obtain ps where ps: "cache_rep file_limit c ps" "P = set ps" by (auto simp: cache_holds_def)
  have "map_of ps k = None \<Longrightarrow> (k, v) \<notin> P" for v unfolding ps(2) by (auto simp: map_of_eq_None_iff intro: rev_image_eqI)
  moreover have "map_of ps k = Some v \<Longrightarrow> (k, v) \<in> P" for v unfolding ps(2) by (rule map_of_SomeD)
  ultimately show "runs (\<lambda>p. p = None \<and> (\<forall>v. (k, v) \<notin> P) \<or> (\<exists>v. (k, v) \<in> P \<and> sees v p)) (serve_from_cache mem c q)"
    using serve_from_cache_rep [OF ps(1) file_limit_less(5) \<open>sees k q\<close>] by (auto split: option.splits elim!: runs_mono)
next
  fix c P k q v p
  assume "cache_holds c P" and kv: "sees k q" "sees v p" "length k < file_limit" "length v < file_limit"
  then obtain ps where ps: "cache_rep file_limit c ps" "P = set ps" by (auto simp: cache_holds_def)
  have "counter c < length ps" using ps(1) cache_rep_length [OF ps(1)] by (simp add: cache_rep_def)
  then have "(k, v) \<in> set (ps[counter c := (k, v)])" by (simp add: set_update_memI)
  moreover have "set (ps[counter c := (k, v)]) \<subseteq> insert (k, v) (set ps)" by (rule set_update_subset_insert)
  ultimately show "runs (\<lambda>c'. \<exists>P'. cache_holds c' P' \<and> (k, v) \<in> P' \<and> P' \<subseteq> insert (k, v) P) (add_to_cache mem c q p)"
    using add_to_cache_runs [OF ps(1) kv file_limit_less(5)] unfolding ps(2) cache_holds_def by (blast intro: runs_mono)
qed

section \<open>Static files\<close>

text \<open>What the compressor promises: it writes no more than there is room for.\<close>

definition deflate_fits :: "(bytes \<Rightarrow> nat \<Rightarrow> bytes) \<Rightarrow> bool" where
  "deflate_fits deflate \<longleftrightarrow> (\<forall>x n. length (deflate x n) \<le> n)"

text \<open>The files are small enough to be strings, and small enough for the \<open>int\<close> that the compressor
  gets.\<close>

definition files_fit :: "(bytes \<Rightarrow> entry option) \<Rightarrow> bool" where
  "files_fit fs \<longleftrightarrow> (\<forall>path content. fopen fs path = Some content \<longrightarrow> length content < page_limit)"

definition files_small :: "(bytes \<Rightarrow> entry option) \<Rightarrow> bool" where
  "files_small fs \<longleftrightarrow> (\<forall>path content. fopen fs path = Some content \<longrightarrow> length content < file_limit)"

lemma files_small_fit: "files_small fs \<Longrightarrow> files_fit fs"
  by (auto simp: files_small_def files_fit_def intro: file_limit_less)

lemma read_file_runs: "length t < sds_limit \<Longrightarrow> runs (sees t) (read_file mem t)"
  using runs_sdsnewlen [of "length t" t] by (simp add: read_file_def)

lemma deflate_string_runs:
  assumes "sees t p" "length t < 2 ^ 31" "deflate_fits deflate"
  shows "runs (sees (deflate t (length t))) (deflate_string mem deflate p)"
proof -
  obtain s where s: "p = Some s" "sds_rep s t" using assms(1) by (auto simp: sees_def)
  let ?d = "deflate t (length t)"
  have d: "length ?d \<le> length t" using assms(3) by (simp add: deflate_fits_def)
  let ?out = "overwrite (replicate (length t + 1) None) 0 (?d @ [NUL])"
  have out: "compress_content deflate t (as_int (length t)) (replicate (length t + 1) None) = Some (?out, int (length ?d))"
    using d assms(2) by (intro compress_content_eq) simp_all
  have lo: "loads ?out 0 (length ?d) = Some ?d"
    by (rule loads_Some) (use d in \<open>simp_all add: overwrite_def bslice_def\<close>)
  have "runs (sees ?d) (sdsnewlen mem (Init ?d) (length ?d))"
    using runs_sdsnewlen [of "length ?d" ?d] d assms(2) by (simp add: sds_limit_def)
  then show ?thesis
    using out [simplified] lo [simplified] s by (simp add: deflate_string_def sds_repD [OF s(2)])
qed

text \<open>The compressed page is never NULL, whatever the length of the file.\<close>

lemma deflate_string_not_NULL:
  assumes "sees t p" "length t < sds_limit" "deflate_fits deflate" "deflate_string mem deflate p = Some x"
  shows "x \<noteq> None"
proof -
  obtain s where s: "p = Some s" "sds_rep s t" using assms(1) by (auto simp: sees_def)
  obtain out n res where c: "compress_content deflate t (as_int (length t)) (replicate (length t + 1) None) = Some (out, n)"
      "loads out 0 (nat n) = Some res" "sdsnewlen mem (Init res) (nat n) = Some x"
    using assms(4) s by (auto simp: deflate_string_def sds_repD [OF s(2)] bind_eq_Some_conv)
  let ?a = "unat (word_of_int (as_int (length t)) :: 32 word)"
  have "nat n \<le> length t"
  proof -
    have "n = as_int (length (deflate (take ?a t) ?a))" "?a \<le> length t" "0 \<le> n"
      using c(1) by (auto simp: compress_content_def Let_def bind_eq_Some_conv split: if_splits)
    moreover have "length (deflate (take ?a t) ?a) \<le> ?a" using assms(3) by (simp add: deflate_fits_def)
    moreover note as_int_le [of "length (deflate (take ?a t) ?a)"]
    ultimately show ?thesis by linarith
  qed
  moreover have "length res = nat n" using c(2) by (auto simp: loads_def bind_eq_Some_conv fetch_def split: if_splits)
  ultimately have "nat n < sds_limit" "nat n \<le> length res" using assms(2) by simp_all
  from runs_sdsnewlen [OF this(1,2)] c(3) show ?thesis by (auto simp: runs_def sees_def)
qed

text \<open>The path that is opened for a URL.\<close>

definition file_path :: "bytes \<Rightarrow> bytes" where "file_path t = ROOTPATH @ cstr t"

lemma ROOTPATH_literal: "cstr ROOTPATH = ROOTPATH" "length ROOTPATH = 29" "NUL \<notin> set ROOTPATH"
  by (simp_all add: ROOTPATH_def cstr_def)

lemma cstr_prefix: "NUL \<notin> set xs \<Longrightarrow> cstr (xs @ ys) = xs @ cstr ys"
  by (induction xs) (auto simp: cstr_def)

text \<open>\<open>initdir_for_static_files\<close> after the path has been built.\<close>

definition serve_path ::
  "(bytes \<Rightarrow> nat \<Rightarrow> bytes) \<Rightarrow> (bytes \<Rightarrow> entry option) \<Rightarrow> bool \<Rightarrow> bytes
     \<Rightarrow> sds option \<Rightarrow> page_cache \<Rightarrow> (sds option \<times> page_cache) run" where
  "serve_path deflate fs junk path raw c =
     (if isDirectory fs junk path = 1 then Some (None, c)
      else pages.through
        (case fopen fs path of
           None \<Rightarrow> Some None
         | Some content \<Rightarrow> read_file mem content \<bind> deflate_string mem deflate) c raw)"

lemma initdir_path:
  assumes "sees t page" "length t + 29 < sds_limit" "deflate_fits deflate" "files_fit fs"
  shows "initdir_for_static_files mem deflate fs junk page raw c =
    (if sublist ''..'' t then Some (None, c) else serve_path deflate fs junk (file_path t) raw c)"
proof -
  obtain u where u: "page = Some u" "sds_rep u t" using assms(1) by (auto simp: sees_def)
  obtain p where p: "sdsnew mem (Some ROOTPATH) = Some (Some p)" "sds_rep p ROOTPATH"
    using runs_sdsnew [of ROOTPATH] by (auto simp: runs_def sees_def ROOTPATH_literal sds_limit_def)
  have "length ROOTPATH + length t < sds_limit" using assms(2) by (simp add: ROOTPATH_literal)
  from runs_sdscatsds [OF p(2) u(2) this] obtain q
    where q: "sdscatsds mem p u = Some (Some q)" "sds_rep q (ROOTPATH @ t)" by (auto simp: runs_def sees_def)
  have path: "c_string q = Some (file_path t)"
    using q(2) by (simp add: cstr_prefix ROOTPATH_literal file_path_def)
  have tail: "(case fopen fs (file_path t) of None \<Rightarrow> Some (None, c)
        | Some content \<Rightarrow> do {
            s \<leftarrow> read_file mem content;
            s \<leftarrow> deflate_string mem deflate s;
            c \<leftarrow> add_to_cache mem c raw s;
            Some (s, c) })
      = (do {
          p \<leftarrow> (case fopen fs (file_path t) of None \<Rightarrow> Some None
            | Some content \<Rightarrow> read_file mem content \<bind> deflate_string mem deflate);
          if p = None then Some (None, c) else do { c \<leftarrow> add_to_cache mem c raw p; Some (p, c) } })"
  proof (cases "fopen fs (file_path t)")
    case (Some content)
    with assms(4) have short: "length content < sds_limit" by (auto simp: files_fit_def intro: page_limit_less)
    obtain s where s: "read_file mem content = Some s" "sees content s"
      using read_file_runs [OF short] by (auto simp: runs_def)
    show ?thesis
      using Some s(1) deflate_string_not_NULL [OF s(2) short assms(3)]
      by (cases "deflate_string mem deflate s") auto
  qed simp
  show ?thesis
    using path_traversal_rep [OF assms(1)]
    by (simp add: initdir_for_static_files_def serve_path_def pages.through_def p(1) u(1) q(1) path tail
        del: not_None_eq cong: if_cong)
qed

text \<open>The page of a raw URL, from the file system alone.\<close>

definition static_page :: "(bytes \<Rightarrow> nat \<Rightarrow> bytes) \<Rightarrow> (bytes \<Rightarrow> entry option) \<Rightarrow> bytes \<Rightarrow> bytes option" where
  "static_page deflate fs raw =
     (let t = url_path raw in
      if sublist ''..'' t then None
      else map_option (\<lambda>content. deflate content (length content)) (fopen fs (file_path t)))"

abbreviation pages_ok :: "(bytes \<Rightarrow> nat \<Rightarrow> bytes) \<Rightarrow> (bytes \<Rightarrow> entry option) \<Rightarrow> page_cache \<Rightarrow> bool" where
  "pages_ok deflate fs \<equiv> pages.coherent (static_page deflate fs)"

lemma static_page_fits:
  assumes "deflate_fits deflate" "files_small fs" "static_page deflate fs k = Some v"
  shows "length v < file_limit"
proof -
  obtain content where c: "fopen fs (file_path (url_path k)) = Some content" "v = deflate content (length content)"
    using assms(3) by (auto simp: static_page_def Let_def split: if_splits)
  then have "length content < file_limit" using assms(2) by (auto simp: files_small_def)
  moreover have "length v \<le> length content" using c(2) assms(1) by (simp add: deflate_fits_def)
  ultimately show ?thesis by simp
qed

lemma initdir_transparent:
  assumes "sees (url_path k) page" "sees k raw" "k \<noteq> []" "length k < file_limit"
    "deflate_fits deflate" "files_small fs" "pages_ok deflate fs c"
  shows "runs (\<lambda>(p, c'). pages.agrees (static_page deflate fs k) p \<and> pages_ok deflate fs c')
    (initdir_for_static_files mem deflate fs junk page raw c)"
proof -
  let ?t = "url_path k"
  have "length ?t \<le> length k"
    using length_takeWhile_le [of "until (CHR ''?'')" "drop 1 k"] by (simp add: url_path_def)
  then have len: "length ?t + 29 < sds_limit" "length k < file_limit"
    using assms(4) by (simp_all add: file_limit_def sds_limit_def)
  note eq = initdir_path [OF assms(1) len(1) assms(5) files_small_fit [OF assms(6)]]
  show ?thesis
  proof (cases "sublist ''..'' ?t")
    case True
    then show ?thesis using assms(7) unfolding eq by (simp add: static_page_def pages.agrees_def)
  next
    case safe: False
    show ?thesis
    proof (cases "isDirectory fs junk (file_path ?t) = 1")
      case True
      then have "fopen fs (file_path ?t) = None"
        by (simp add: isDirectory_def fopen_def split: option.splits entry.splits if_splits)
      with True safe assms(7) show ?thesis
        unfolding eq by (simp add: serve_path_def static_page_def pages.agrees_def)
    next
      case False
      have fresh: "runs (pages.agrees (static_page deflate fs k))
          (case fopen fs (file_path ?t) of None \<Rightarrow> Some None
            | Some content \<Rightarrow> read_file mem content \<bind> deflate_string mem deflate)"
      proof (cases "fopen fs (file_path ?t)")
        case None
        then show ?thesis by (simp add: static_page_def pages.agrees_def Let_def)
      next
        case (Some content)
        with assms(6) have "length content < file_limit" using Some by (auto simp: files_small_def)
        then have short: "length content < 2 ^ 31" "length content < sds_limit" by (rule file_limit_less)+
        from read_file_runs [OF short(2)]
        have "runs (sees (deflate content (length content))) (read_file mem content \<bind> deflate_string mem deflate)"
          by (rule runs_bind) (rule deflate_string_runs [OF _ short(1) assms(5)])
        with Some safe show ?thesis by (simp add: static_page_def pages.agrees_simps)
      qed
      have "runs (\<lambda>(p, c'). pages.agrees (static_page deflate fs k) p \<and> pages_ok deflate fs c')
          (pages.through (case fopen fs (file_path ?t) of None \<Rightarrow> Some None
            | Some content \<Rightarrow> read_file mem content \<bind> deflate_string mem deflate) c raw)"
        by (rule pages.through_transparent [OF assms(7,2,3) len(2) fresh static_page_fits [OF assms(5,6)]])
      with safe False show ?thesis unfolding eq by (simp add: serve_path_def)
    qed
  qed
qed

section \<open>What the ring keeps\<close>

text \<open>A sequence of additions, and what the ring has after it.\<close>

primrec store_pages :: "(bytes \<times> bytes) list \<Rightarrow> page_cache \<Rightarrow> page_cache run" where
  "store_pages [] c = Some c"
| "store_pages (x # xs) c = do {
     k \<leftarrow> sdsnewlen mem (Init (fst x)) (length (fst x));
     v \<leftarrow> sdsnewlen mem (Init (snd x)) (length (snd x));
     c \<leftarrow> add_to_cache mem c k v;
     store_pages xs c
   }"

definition keeps_last :: "(bytes \<times> bytes) list \<Rightarrow> page_cache \<Rightarrow> bool" where
  "keeps_last qs c \<longleftrightarrow>
     (\<exists>ps. cache_rep page_limit c ps \<and> counter c = length qs mod CACHESIZE
        \<and> (\<forall>i < length qs. length qs \<le> i + CACHESIZE \<longrightarrow> ps ! (i mod CACHESIZE) = qs ! i))"

lemma mod_distinct:
  fixes i n :: nat
  assumes "i < n" "n < i + m"
  shows "i mod m \<noteq> n mod m"
proof
  assume "i mod m = n mod m"
  then have "m dvd n - i" using assms(1) mod_eq_dvd_iff_nat [of i n m] by simp
  then have "m \<le> n - i" using assms(1) by (intro dvd_imp_le) simp_all
  with assms show False by linarith
qed

lemma keeps_last_step:
  assumes "keeps_last qs c" "length (fst x) < page_limit" "length (snd x) < page_limit"
  shows "runs (keeps_last (qs @ [x])) (store_pages [x] c)"
proof -
  obtain k where k: "sdsnewlen mem (Init (fst x)) (length (fst x)) = Some k" "sees (fst x) k"
    using runs_sdsnewlen [OF page_limit_less(2) [OF assms(2)] order_refl] by (auto simp: runs_def)
  obtain v where v: "sdsnewlen mem (Init (snd x)) (length (snd x)) = Some v" "sees (snd x) v"
    using runs_sdsnewlen [OF page_limit_less(2) [OF assms(3)] order_refl] by (auto simp: runs_def)
  obtain ps where ps: "cache_rep page_limit c ps" "counter c = length qs mod CACHESIZE"
      "\<And>i. i < length qs \<Longrightarrow> length qs \<le> i + CACHESIZE \<Longrightarrow> ps ! (i mod CACHESIZE) = qs ! i"
    using assms(1) by (auto simp: keeps_last_def)
  obtain c' where c': "add_to_cache mem c k v = Some c'" "cache_rep page_limit c' (ps[counter c := x])"
      "counter c' = (counter c + 1) mod CACHESIZE"
    using add_to_cache_runs [OF ps(1) k(2) v(2) assms(2,3) order_refl] by (auto simp: runs_def)
  have "ps[counter c := x] ! (i mod CACHESIZE) = (qs @ [x]) ! i"
    if "i < length (qs @ [x])" "length (qs @ [x]) \<le> i + CACHESIZE" for i
  proof (cases "i = length qs")
    case True
    have "counter c < length ps" using ps(1) cache_rep_length [OF ps(1)] by (simp add: cache_rep_def)
    with True ps(2) show ?thesis by simp
  next
    case False
    then have "i mod CACHESIZE \<noteq> counter c" using that mod_distinct [of i "length qs" CACHESIZE] ps(2) by simp
    with False that ps(3) [of i] show ?thesis by (simp add: nth_append)
  qed
  moreover have "counter c' = length (qs @ [x]) mod CACHESIZE" using c'(3) ps(2) by (simp add: mod_Suc_eq)
  ultimately have "keeps_last (qs @ [x]) c'" using c'(2) unfolding keeps_last_def by blast
  with k(1) v(1) c'(1) show ?thesis by simp
qed

lemma store_pages_Cons: "store_pages (x # xs) c = store_pages [x] c \<bind> store_pages xs"
  by (simp add: Option.bind_assoc)

lemma keeps_last_all:
  assumes "keeps_last qs c" "\<forall>x \<in> set xs. length (fst x) < page_limit \<and> length (snd x) < page_limit"
  shows "runs (keeps_last (qs @ xs)) (store_pages xs c)"
  using assms
proof (induction xs arbitrary: qs c)
  case (Cons x xs)
  from Cons.prems have "runs (keeps_last (qs @ [x])) (store_pages [x] c)" by (intro keeps_last_step) simp_all
  then show ?case
    unfolding store_pages_Cons [of x xs]
  proof (rule runs_bind)
    fix c' assume "keeps_last (qs @ [x]) c'"
    from Cons.IH [OF this] Cons.prems(2) show "runs (keeps_last (qs @ x # xs)) (store_pages xs c')" by simp
  qed
qed simp

lemma pages_ok_init:
  assumes "cache_rep file_limit c (replicate n ('''', ''''))"
  shows "pages_ok deflate fs c"
proof -
  have "cache_holds c (set (replicate n ('''', '''')))" using assms by (auto simp: cache_holds_def)
  then show ?thesis unfolding pages.coherent_def by auto
qed

section \<open>A concrete site\<close>

text \<open>One file, and a compressor that copies its input.\<close>

definition small_site :: "bytes \<Rightarrow> entry option" where
  "small_site path = (if path = ROOTPATH @ ''a.css'' then Some (File (Some ''body'')) else None)"

definition copy_bytes :: "bytes \<Rightarrow> nat \<Rightarrow> bytes" where "copy_bytes x n = take n x"

lemma small_site_ok: "deflate_fits copy_bytes" "files_small small_site" "files_fit small_site"
proof -
  show small: "files_small small_site"
    by (auto simp: files_small_def small_site_def fopen_def file_limit_def split: if_splits)
  then show "files_fit small_site" by (rule files_small_fit)
qed (simp add: deflate_fits_def copy_bytes_def)

section \<open>Properties\<close>

text \<open>C10: The cache cannot be observed: whether the page comes from the cache or from the file
  system, the answer is the compressed contents of the file the URL names, or NULL when the URL has
  two dots in a row, there is no such file or it cannot be opened; and the cache still holds
  only such pages. What \<open>stat\<close> leaves in its variable when it fails does not matter. Files are shorter than 2 GiB by room for the header,
  since their lengths pass through an \<open>int\<close>.\<close>

theorem static_file_served:
  assumes "sees (url_path k) page" "sees k raw" "k \<noteq> []" "length k < file_limit"
    "deflate_fits deflate" "files_small fs" "pages_ok deflate fs c"
  shows "runs (\<lambda>(p, c'). (case static_page deflate fs k of None \<Rightarrow> p = None | Some v \<Rightarrow> sees v p)
      \<and> pages_ok deflate fs c')
    (initdir_for_static_files mem deflate fs junk page raw c)"
  using initdir_transparent [OF assms] unfolding pages.agrees_def .

theorem static_file_served_witness:
  "runs (\<lambda>c. runs (\<lambda>page. runs (\<lambda>raw.
      runs (\<lambda>(p, c'). sees ''body'' p \<and> pages_ok copy_bytes small_site c')
        (initdir_for_static_files mem copy_bytes small_site False page raw c))
      (sdsnew mem (Some ''/a.css''))) (sdsnew mem (Some ''a.css''))) (globalinit_cache mem zero_cache)"
proof -
  have c: "runs (\<lambda>c. pages_ok copy_bytes small_site c) (globalinit_cache mem zero_cache)"
    by (rule runs_mono [OF globalinit_cache_runs [where L = file_limit]])
      (auto simp: zero_cache_def CACHESIZE_def file_limit_def intro: pages_ok_init)
  have page: "runs (sees ''a.css'') (sdsnew mem (Some ''a.css''))"
    and raw: "runs (sees ''/a.css'') (sdsnew mem (Some ''/a.css''))"
    using runs_sdsnew [of "''a.css''"] runs_sdsnew [of "''/a.css''"] by (simp_all add: cstr_def sds_limit_def)
  have u: "url_path ''/a.css'' = ''a.css''" by (simp add: url_path_def until_def)
  have "\<not> sublist ''..'' ''a.css''" by (simp add: sublist_Cons_right)
  then have v: "static_page copy_bytes small_site ''/a.css'' = Some ''body''"
    by (simp add: static_page_def u Let_def file_path_def cstr_def fopen_def small_site_def copy_bytes_def)
  show ?thesis
  proof (rule runs_mono [OF c], rule runs_mono [OF page], rule runs_mono [OF raw])
    fix c pg rw assume "pages_ok copy_bytes small_site c" "sees ''a.css'' pg" "sees ''/a.css'' rw"
    then show "runs (\<lambda>(p, c'). sees ''body'' p \<and> pages_ok copy_bytes small_site c')
        (initdir_for_static_files mem copy_bytes small_site False pg rw c)"
      using static_file_served [of "''/a.css''" pg rw, OF _ _ _ _ small_site_ok(1,2)] u v by (simp add: file_limit_def)
  qed
qed

text \<open>C11: Static files are confined to the document root. A URL with two dots in a row is refused
  before the file system is asked, and any other URL opens one path, the document root followed by
  the URL, which has no two dots in a row: two file systems that agree there give the same
  answer.\<close>

theorem static_file_confined:
  assumes "sees t page" "length t + 29 < sds_limit" "deflate_fits deflate" "files_fit fs" "files_fit fs'"
  shows "(sublist ''..'' t \<longrightarrow> initdir_for_static_files mem deflate fs junk page raw c = Some (None, c))
    \<and> (\<not> sublist ''..'' t \<longrightarrow> \<not> sublist ''..'' (ROOTPATH @ cstr t)
       \<and> (fs (ROOTPATH @ cstr t) = fs' (ROOTPATH @ cstr t) \<longrightarrow>
          initdir_for_static_files mem deflate fs junk page raw c
          = initdir_for_static_files mem deflate fs' junk page raw c))"
proof (intro conjI impI)
  assume "sublist ''..'' t"
  then show "initdir_for_static_files mem deflate fs junk page raw c = Some (None, c)"
    by (simp add: initdir_path [OF assms(1-4)])
next
  assume "\<not> sublist ''..'' t"
  moreover have "sublist (cstr t) t" unfolding cstr_def by (rule sublist_takeWhile)
  ultimately have "\<not> sublist ''..'' (cstr t)" by (meson sublist_order.order_trans)
  then show "\<not> sublist ''..'' (ROOTPATH @ cstr t)"
    by (simp add: ROOTPATH_def sublist_Cons_right)
next
  assume "\<not> sublist ''..'' t" and eq: "fs (ROOTPATH @ cstr t) = fs' (ROOTPATH @ cstr t)"
  then show "initdir_for_static_files mem deflate fs junk page raw c
      = initdir_for_static_files mem deflate fs' junk page raw c"
    by (simp add: initdir_path [OF assms(1-4)] initdir_path [OF assms(1-3,5)] serve_path_def file_path_def
        isDirectory_def fopen_def)
qed

theorem static_file_confined_witness:
  "runs (\<lambda>page. initdir_for_static_files mem copy_bytes small_site True page None zero_cache = Some (None, zero_cache))
     (sdsnew mem (Some ''x/../y''))"
proof (rule runs_mono)
  show "runs (sees ''x/../y'') (sdsnew mem (Some ''x/../y''))"
    using runs_sdsnew [of "''x/../y''"] by (simp add: cstr_def sds_limit_def)
next
  fix page assume "sees ''x/../y'' page"
  moreover have "sublist ''..'' ''x/../y''" by (simp add: sublist_Cons_right)
  ultimately show "initdir_for_static_files mem copy_bytes small_site True page None zero_cache = Some (None, zero_cache)"
    using static_file_confined [of "''x/../y''" page copy_bytes small_site small_site] small_site_ok
    by (simp add: sds_limit_def)
qed

text \<open>C12: The cache is a ring of 100 pages: whatever sequence of pages was added to the initialised
  cache, the last 100 of them are in it, the page with the number \<open>i\<close> in the slot \<open>i\<close> modulo
  100, and the next one goes to the slot of the oldest.\<close>

theorem cache_keeps_last:
  assumes "\<forall>x \<in> set qs. length (fst x) < page_limit \<and> length (snd x) < page_limit"
  shows "runs (\<lambda>c. \<exists>ps. length (cachedpages c) = 100 \<and> list_all2 kv_rep (cachedpages c) ps
      \<and> counter c = length qs mod 100
      \<and> (\<forall>i < length qs. length qs \<le> i + 100 \<longrightarrow> ps ! (i mod 100) = qs ! i))
    (globalinit_cache mem zero_cache \<bind> store_pages qs)"
proof (rule runs_bind [OF globalinit_cache_runs])
  show "counter zero_cache < CACHESIZE" "0 < page_limit"
    by (simp_all add: zero_cache_def CACHESIZE_def page_limit_def sds_limit_def)
next
  fix c assume "cache_rep page_limit c (replicate CACHESIZE ('''', '''')) \<and> counter c = counter zero_cache"
  then have "keeps_last [] c" by (auto simp: keeps_last_def zero_cache_def)
  from keeps_last_all [OF this assms]
  show "runs (\<lambda>c. \<exists>ps. length (cachedpages c) = 100 \<and> list_all2 kv_rep (cachedpages c) ps
      \<and> counter c = length qs mod 100
      \<and> (\<forall>i < length qs. length qs \<le> i + 100 \<longrightarrow> ps ! (i mod 100) = qs ! i)) (store_pages qs c)"
    by (rule runs_mono) (auto simp: keeps_last_def cache_rep_def CACHESIZE_def)
qed

theorem cache_keeps_last_witness:
  "runs (\<lambda>c. counter c = 50) (globalinit_cache mem zero_cache \<bind> store_pages (replicate 250 (''k'', ''v'')))"
  by (rule runs_mono [OF cache_keeps_last]) (auto simp: page_limit_def sds_limit_def)

end
