(* ===== verification/Waf.thy ===== *)
theory Waf
  imports Cweb_Prelude
begin

text \<open>
  The web application firewall, \<open>server/backend/webapplication_firewall/simple_waf.c\<close>, with
  the banned words of \<open>dev/config.h\<close>.
\<close>

text \<open>\<open>BANNTHIS\<close> of config.h, the initialiser of \<open>banned[BANNLEN]\<close>.\<close>

definition banned :: "bytes list" where
  "banned = [''../'', ''..%2F'', ''templates/'']"

text \<open>The loop over the banned words; \<open>match\<close> is never reset.\<close>

fun waf_loop :: "bytes list \<Rightarrow> bytes \<Rightarrow> int \<Rightarrow> int" where
  "waf_loop [] input match = match"
| "waf_loop (b # bs) input match =
     waf_loop bs input (if memmem input b \<noteq> None then 1 else match)"

definition simple_waf :: "bytes \<Rightarrow> int" where
  "simple_waf input = waf_loop banned input 0"

lemma waf_loop_eq:
  "waf_loop bs input m = (if \<exists>b \<in> set bs. sublist b input then 1 else m)"
  by (induction bs arbitrary: m) (auto simp: memmem_None_iff)

lemma simple_waf_iff: "simple_waf input = 1 \<longleftrightarrow> (\<exists>b \<in> set banned. sublist b input)"
  by (simp add: simple_waf_def waf_loop_eq)

lemma simple_waf_range: "simple_waf input = 0 \<or> simple_waf input = 1"
  by (simp add: simple_waf_def waf_loop_eq)

text \<open>C24: The firewall reports a match exactly when one of the three banned words of the
  configuration occurs somewhere in the raw request, and otherwise returns zero.\<close>

theorem simple_waf_correct:
  "simple_waf input =
     (if sublist ''../'' input \<or> sublist ''..%2F'' input \<or> sublist ''templates/'' input
      then 1 else 0)"
  by (simp add: simple_waf_def waf_loop_eq banned_def)

end
