(* ===== verification/Server.thy ===== *)
theory Server
  imports Request_Contract Controller_Spec Waf
begin

text \<open>
  From the bytes of a request to the bytes of the response (\<open>sharedinterface.c\<close> for the server
  behind Go, and the same functions in \<open>http_epoll.c\<close>). The state is what the C code keeps in
  global variables; \<open>world\<close> is the state of the handlers (the database and the rows read from
  it). A \<open>platform\<close> holds the parameters: the allocator, the compressor and the handlers.
\<close>

section \<open>State\<close>

record ('f, 'w) server =
  hrq :: http_request
  cache :: page_cache
  extensions :: "keyvaluepair list"
  table :: "'f routing_table"
  world :: 'w

type_synonym ('f, 'w) handlers = "'f \<Rightarrow> ('f, 'w) server \<Rightarrow> (sds option \<times> ('f, 'w) server) run"

record ('f, 'w) platform =
  allocator :: "nat \<Rightarrow> bool"
  compressor :: "bytes \<Rightarrow> nat \<Rightarrow> bytes"
  handler :: "('f, 'w) handlers"

section \<open>Request and response\<close>

definition portable_requester :: "(nat \<Rightarrow> bool) \<Rightarrow> bytes \<Rightarrow> http_request run" where
  "portable_requester al rawreq = do {
     p \<leftarrow> sdsempty al;
     s \<leftarrow> deref p;
     p \<leftarrow> sdscatlen al s rawreq (length rawreq);
     s \<leftarrow> deref p;
     create_request al s init_threadlocalhrq
   }"

definition slash_url :: "(nat \<Rightarrow> bool) \<Rightarrow> http_request \<Rightarrow> http_request run" where
  "slash_url al r =
     (if url r = None then do {
        u \<leftarrow> sdsnew al (Some ''/'');
        w \<leftarrow> sdsnew al (Some ''/'');
        Some (r\<lparr>url := u, rawurl := w\<rparr>)
      }
      else Some r)"

text \<open>The response is a registered route, a static file, or the redirect.\<close>

definition portable_responser ::
  "('f, 'w) platform \<Rightarrow> (bytes \<Rightarrow> entry option) \<Rightarrow> bool \<Rightarrow> ('f, 'w) server
     \<Rightarrow> (sds option \<times> ('f, 'w) server) run" where
  "portable_responser P fs junk s = do {
     r \<leftarrow> slash_url (allocator P) (hrq s);
     let s = s\<lparr>hrq := r\<rparr>;
     k \<leftarrow> check_route (table s) (url r);
     if k \<noteq> 0 then do_route (allocator P) (handler P) (table s) (url r) s
     else do {
       (body, c) \<leftarrow> initdir_for_static_files (allocator P) (compressor P) fs junk (url r) (rawurl r) (cache s);
       let s = s\<lparr>cache := c\<rparr>;
       (case body of
          None \<Rightarrow> do { p \<leftarrow> sdsnew (allocator P) (Some not_found_text); Some (p, s) }
        | Some b \<Rightarrow> do {
            p \<leftarrow> adddefaultheaders (allocator P) (extensions s) (url r);
            h \<leftarrow> deref p;
            p \<leftarrow> sdscatsds (allocator P) h b;
            Some (p, s)
          })
     }
   }"

definition blocked_text :: bytes where
  "blocked_text = ''HTTP/1.1 301 Moved Permanently'' @ CRLF @ ''Location: /'' @ CRLF
     @ ''Set-Cookie: Hacker=TRUE'' @ CRLF
     @ ''Cache-Control: no-cache, no-store, must-revalidate'' @ CRLF
     @ ''Pragma: no-cache'' @ CRLF @ ''Expires: 0'' @ CRLF @ CRLF"

text \<open>The firewall comes first; a blocked request does not reach the parser.\<close>

definition answer ::
  "('f, 'w) platform \<Rightarrow> (bytes \<Rightarrow> entry option) \<Rightarrow> bool \<Rightarrow> bytes \<Rightarrow> ('f, 'w) server
     \<Rightarrow> (sds option \<times> ('f, 'w) server) run" where
  "answer P fs junk data s =
     (if simple_waf data = 1 then do {
        p \<leftarrow> sdsnew (allocator P) (Some blocked_text);
        Some (p, s)
      }
      else do {
        r \<leftarrow> portable_requester (allocator P) data;
        (p, s) \<leftarrow> portable_responser P fs junk (s\<lparr>hrq := r\<rparr>);
        Some (p, s\<lparr>hrq := requestfree (hrq s)\<rparr>)
      })"

text \<open>The entry from Go: the request ends at its first NUL.\<close>

definition packed_function ::
  "('f, 'w) platform \<Rightarrow> (bytes \<Rightarrow> entry option) \<Rightarrow> bool \<Rightarrow> bytes \<Rightarrow> ('f, 'w) server
     \<Rightarrow> (sds option \<times> ('f, 'w) server) run" where
  "packed_function P fs junk in_str s = answer P fs junk (cstr in_str) s"

text \<open>The port as a text for Go, in a block of seven bytes.\<close>

definition PORT :: nat where "PORT = 8000"

definition extern_port_to_go :: "(nat \<Rightarrow> bool) \<Rightarrow> cell list run" where
  "extern_port_to_go al =
     (if \<not> al 7 then None
      else do {
        str \<leftarrow> puts (replicate 7 None) 0 (replicate 7 NUL);
        str \<leftarrow> put str 0 (CHR '':'');
        puts str 1 (dec PORT @ [NUL])
      })"

section \<open>Starting\<close>

text \<open>\<open>main\<close> before it calls \<open>run\<close>: the routes, the cache and the file extensions.
  \<open>register\<close> is the function that registers the routes, and \<open>w\<close> the state of the
  handlers after the database was opened.\<close>

definition main_init ::
  "(nat \<Rightarrow> bool) \<Rightarrow> ('f routing_table \<Rightarrow> 'f routing_table run) \<Rightarrow> 'w \<Rightarrow> ('f, 'w) server run" where
  "main_init al register w = do {
     tb \<leftarrow> register init_table;
     c \<leftarrow> globalinit_cache al zero_cache;
     e \<leftarrow> init_file_extension al;
     Some \<lparr>hrq = init_threadlocalhrq, cache = c, extensions = e, table = tb, world = w\<rparr>
   }"

section \<open>Well-formed servers\<close>

definition server_ok ::
  "('w \<Rightarrow> bool) \<Rightarrow> ('f, 'w) platform \<Rightarrow> (bytes \<Rightarrow> entry option) \<Rightarrow> ('f, 'w) server \<Rightarrow> bool" where
  "server_ok W P fs s \<longleftrightarrow>
     pages_ok (compressor P) fs (cache s) \<and> list_all2 kv_rep (extensions s) mime_table
     \<and> (\<exists>ps. table_rep (table s) ps) \<and> W (world s)"

text \<open>The largest request, \<open>MAXBUF\<close>, and what the handlers do for it: they leave a well-formed
  server if they return at all, and for the requests of \<open>A\<close> they return, with a response whose
  length is an \<open>int\<close>.\<close>

definition MAXBUF :: nat where "MAXBUF = 4096 * 32"

definition request_ready :: "http_request \<Rightarrow> bool" where
  "request_ready r \<longleftrightarrow>
     (\<exists>t. sees t (url r) \<and> length t \<le> MAXBUF)
     \<and> (\<exists>hs. pairs_rep (req_headers r) (headercount r) hs \<and> short MAXBUF hs)
     \<and> (\<exists>bs. pairs_rep (req_body r) (bodycount r) bs \<and> short MAXBUF bs)"

definition int_response :: "sds option \<Rightarrow> bool" where
  "int_response p \<longleftrightarrow> (\<exists>t. sees t p \<and> length t < 2 ^ 31)"

definition handlers_ok ::
  "(http_request \<Rightarrow> bool) \<Rightarrow> ('w \<Rightarrow> bool) \<Rightarrow> ('f, 'w) platform \<Rightarrow> (bytes \<Rightarrow> entry option) \<Rightarrow> bool" where
  "handlers_ok A W P fs \<longleftrightarrow>
     (\<forall>f s. server_ok W P fs s \<longrightarrow> request_ready (hrq s) \<longrightarrow>
        (\<forall>p s'. handler P f s = Some (p, s') \<longrightarrow> server_ok W P fs s')
        \<and> (A (hrq s) \<longrightarrow> runs (\<lambda>(p, s'). int_response p) (handler P f s)))"

text \<open>The platform has memory and its compressor fits; the files are small, and the document root is
  a directory. Whether a request is in \<open>A\<close> does not depend on its URL.\<close>

definition platform_ok ::
  "(http_request \<Rightarrow> bool) \<Rightarrow> ('w \<Rightarrow> bool) \<Rightarrow> ('f, 'w) platform \<Rightarrow> (bytes \<Rightarrow> entry option) \<Rightarrow> bool" where
  "platform_ok A W P fs \<longleftrightarrow>
     allocator P = mem \<and> deflate_fits (compressor P) \<and> handlers_ok A W P fs
     \<and> files_small fs
     \<and> fs (ROOTPATH @ ''/'') = Some Directory
     \<and> (\<forall>r u w. A (r\<lparr>url := u, rawurl := w\<rparr>) = A r)"

text \<open>The bytes that give a request of \<open>A\<close>.\<close>

definition admits :: "(http_request \<Rightarrow> bool) \<Rightarrow> bytes \<Rightarrow> bool" where
  "admits A data \<longleftrightarrow> (\<forall>r. portable_requester mem data = Some r \<longrightarrow> A r)"

end
