(* ===== verification/Event_Loop.thy ===== *)
theory Event_Loop
  imports Server
begin

text \<open>
  The epoll server (\<open>http_epoll.c\<close>). A step of the loop is a call of the kernel and what the
  program does with its answer; the answers are parameters of the steps. Besides the server the
  state has the sets of descriptors that are open, that epoll watches, that it watches edge
  triggered, and that do not block, the events that have not been looked at, and what was handed to
  \<open>send\<close>. An error that ends the process is the
  outcome \<open>Exit\<close>.
\<close>

section \<open>State\<close>

definition MAX_EVENTS :: nat where "MAX_EVENTS = 1000"

record ('f, 'w) loop_state =
  srv :: "('f, 'w) server"
  listen_sock :: nat
  epoll_fd :: nat
  interest :: "nat set"
  edge :: "nat set"
  nonblock :: "nat set"
  descriptors :: "nat set"
  events :: "nat list"
  sent :: "(nat \<times> bytes) list"

datatype 'a outcome = Running 'a | Exit bytes

section \<open>Starting\<close>

text \<open>\<open>socket\<close>, \<open>bind\<close>, \<open>listen\<close>, \<open>epoll_create\<close> and the first \<open>epoll_ctl\<close>: a
  descriptor or a failure.\<close>

definition run_start ::
  "nat option \<Rightarrow> bool \<Rightarrow> bool \<Rightarrow> nat option \<Rightarrow> bool \<Rightarrow> ('f, 'w) server \<Rightarrow> ('f, 'w) loop_state outcome" where
  "run_start sock bound listening epoll added s =
     (case sock of
        None \<Rightarrow> Exit ''socket''
      | Some l \<Rightarrow>
          if \<not> bound then Exit ''bind''
          else if \<not> listening then Exit ''listen''
          else case epoll of
              None \<Rightarrow> Exit ''epoll_create''
            | Some e \<Rightarrow>
                if \<not> added then Exit ''epoll_ctl: listen_sock''
                else Running \<lparr>srv = s, listen_sock = l, epoll_fd = e, interest = {l},
                  edge = {}, nonblock = {}, descriptors = {l, e}, events = [], sent = []\<rparr>)"

section \<open>Events\<close>

text \<open>A new connection: the kernel's descriptor is made nonblocking and watched edge triggered; adding
  one that is watched already is an error.\<close>

definition setnonblocking :: "nat \<Rightarrow> ('f, 'w) loop_state \<Rightarrow> ('f, 'w) loop_state" where
  "setnonblocking fd st = st\<lparr>nonblock := insert fd (nonblock st)\<rparr>"

definition accept_connection :: "nat option \<Rightarrow> ('f, 'w) loop_state \<Rightarrow> ('f, 'w) loop_state outcome" where
  "accept_connection conn st =
     (case conn of
        None \<Rightarrow> Exit ''accept''
      | Some c \<Rightarrow>
          let st = setnonblocking c (st\<lparr>descriptors := insert c (descriptors st)\<rparr>) in
          if c \<in> interest st then Exit ''epoll_ctl: conn_sock''
          else Running (st\<lparr>interest := insert c (interest st), edge := insert c (edge st)\<rparr>))"

text \<open>\<open>send(fd, response, len, 0)\<close> with the length in an \<open>int\<close>: a negative one is a huge number
  of bytes.\<close>

definition int_send :: "bytes \<Rightarrow> bytes run" where
  "int_send response =
     (let len = as_int (length response) in
      if len < 0 then None else Some (take (nat len) response))"

text \<open>A connection with data: \<open>received\<close> is what \<open>recv\<close> gave, or its failure. What
  \<open>send\<close> does with the response is not looked at.\<close>

definition do_use_fd ::
  "('f, 'w) platform \<Rightarrow> (bytes \<Rightarrow> entry option) \<Rightarrow> bool \<Rightarrow> bytes option \<Rightarrow> nat \<Rightarrow> ('f, 'w) loop_state
     \<Rightarrow> ('f, 'w) loop_state outcome run" where
  "do_use_fd P fs junk received fd st =
     (case received of
        None \<Rightarrow> Some (Running st)
      | Some data \<Rightarrow> do {
          (p, s) \<leftarrow> answer P fs junk data (srv st);
          r \<leftarrow> deref p;
          response \<leftarrow> sds_bytes r;
          out \<leftarrow> int_send response;
          let st = st\<lparr>srv := s, sent := sent st @ [(fd, out)]\<rparr>;
          if fd \<notin> interest st then Some (Exit ''epoll delete'')
          else Some (Running (st\<lparr>interest := interest st - {fd}, edge := edge st - {fd},
            nonblock := nonblock st - {fd}, descriptors := descriptors st - {fd}\<rparr>))
        })"

section \<open>The loop\<close>

text \<open>What the kernel answers when an event is handled: the descriptor of \<open>accept\<close>, the data of
  \<open>recv\<close>, and what \<open>stat\<close> leaves behind when it fails.\<close>

record kernel =
  accepts :: "nat option"
  receives :: "bytes option"
  garbage :: bool

definition handle_event ::
  "('f, 'w) platform \<Rightarrow> (bytes \<Rightarrow> entry option) \<Rightarrow> nat \<Rightarrow> kernel \<Rightarrow> ('f, 'w) loop_state
     \<Rightarrow> ('f, 'w) loop_state outcome run" where
  "handle_event P fs fd k st =
     (if fd = listen_sock st then Some (accept_connection (accepts k) st)
      else do_use_fd P fs (garbage k) (receives k) fd st)"

text \<open>The \<open>for\<close> loop over the events of one \<open>epoll_wait\<close>.\<close>

fun for_events ::
  "('f, 'w) platform \<Rightarrow> (bytes \<Rightarrow> entry option) \<Rightarrow> (nat \<times> kernel) list \<Rightarrow> ('f, 'w) loop_state
     \<Rightarrow> ('f, 'w) loop_state outcome run" where
  "for_events P fs [] st = Some (Running st)"
| "for_events P fs ((fd, k) # evs) st = do {
     r \<leftarrow> handle_event P fs fd k st;
     case r of
       Exit msg \<Rightarrow> Some (Exit msg)
     | Running st \<Rightarrow> for_events P fs evs (st\<lparr>events := map fst evs\<rparr>)
   }"

text \<open>\<open>epoll_wait\<close> reports some of the watched descriptors, each once; \<open>accept\<close> gives a
  descriptor that is not open; \<open>recv\<close> gives at most \<open>MAXBUF\<close> bytes.\<close>

definition reports :: "('f, 'w) loop_state \<Rightarrow> nat list \<Rightarrow> bool" where
  "reports st evs \<longleftrightarrow> distinct evs \<and> set evs \<subseteq> interest st \<and> length evs \<le> MAX_EVENTS"

definition kernel_ok :: "kernel \<Rightarrow> ('f, 'w) loop_state \<Rightarrow> bool" where
  "kernel_ok k st \<longleftrightarrow>
     (\<forall>c. accepts k = Some c \<longrightarrow> c \<notin> descriptors st)
     \<and> (\<forall>data. receives k = Some data \<longrightarrow> length data \<le> MAXBUF)"

inductive loop_step ::
  "('f, 'w) platform \<Rightarrow> (bytes \<Rightarrow> entry option) \<Rightarrow> ('f, 'w) loop_state \<Rightarrow> ('f, 'w) loop_state \<Rightarrow> bool"
  for P fs where
  wait: "events st = [] \<Longrightarrow> reports st evs \<Longrightarrow> loop_step P fs st (st\<lparr>events := evs\<rparr>)"
| event: "events st = fd # rest \<Longrightarrow> kernel_ok k st \<Longrightarrow>
    handle_event P fs fd k st = Some (Running st') \<Longrightarrow> loop_step P fs st (st'\<lparr>events := rest\<rparr>)"

inductive_cases loop_stepE: "loop_step P fs st st'"

text \<open>What the loop can reach from where it starts.\<close>

inductive reachable ::
  "('f, 'w) platform \<Rightarrow> (bytes \<Rightarrow> entry option) \<Rightarrow> ('f, 'w) loop_state \<Rightarrow> ('f, 'w) loop_state \<Rightarrow> bool"
  for P fs st0 where
  start: "reachable P fs st0 st0"
| step: "reachable P fs st0 st \<Longrightarrow> loop_step P fs st st' \<Longrightarrow> reachable P fs st0 st'"

end
