(* ===== verification/Server_Spec.thy ===== *)
theory Server_Spec
  imports Event_Loop
begin

text \<open>
  The server as a whole: every request gets a response and leaves a well-formed server
  (\<open>answer_runs\<close>), and the event loop keeps its descriptors in order.
\<close>

section \<open>Requests\<close>

lemma portable_requester_runs:
  assumes "length data < sds_limit"
  shows "runs (\<lambda>r. request_ok (length data) r) (portable_requester mem data)"
proof -
  obtain s where s: "sdsempty mem = Some (Some s)" "sds_rep s ''''" using sdsempty_ok by blast
  obtain t where t: "sdscatlen mem s data (length data) = Some (Some t)" "sds_rep t data"
    using runs_sdscatlen [OF s(2) order_refl, of data] assms by (auto simp: runs_def sees_def)
  show ?thesis
    unfolding portable_requester_def s(1) t(1) deref_Some bind.bind_lunit
    by (rule runs_mono [OF create_request_runs [OF t(2) assms]]) simp
qed

section \<open>Static files\<close>

lemma url_path_length: "length (url_path u) \<le> length u"
  using length_takeWhile_le [of "until (CHR ''?'')" "drop 1 u"] by (simp add: url_path_def)

lemma fresh_page:
  assumes "deflate_fits deflate" "files_small fs" "\<not> sublist ''..'' (url_path k)"
  shows "runs (\<lambda>p. pages.fits p \<and> (\<forall>v. sees v p \<longrightarrow> k \<noteq> [] \<longrightarrow> static_page deflate fs k = Some v))
    (case fopen fs (file_path (url_path k)) of None \<Rightarrow> Some None
     | Some content \<Rightarrow> read_file mem content \<bind> deflate_string mem deflate)"
proof (cases "fopen fs (file_path (url_path k))")
  case None
  then show ?thesis by (simp add: pages.fits_def)
next
  case (Some content)
  let ?d = "deflate content (length content)"
  have short: "length content < file_limit" using assms(2) Some by (auto simp: files_small_def)
  have d: "length ?d < file_limit"
    using assms(1) short le_less_trans unfolding deflate_fits_def by blast
  have st: "static_page deflate fs k = Some ?d" using Some assms(3) by (simp add: static_page_def Let_def)
  obtain s where s: "read_file mem content = Some s" "sees content s"
    using read_file_runs [OF file_limit_less(3) [OF short]] by (auto simp: runs_def)
  obtain p where p: "deflate_string mem deflate s = Some p" "sees ?d p"
    using deflate_string_runs [OF s(2) file_limit_less(2) [OF short] assms(1)] by (auto simp: runs_def)
  have "pages.fits p" using p(2) d by (auto simp: pages.fits_def split: option.splits)
  moreover have "\<forall>v. sees v p \<longrightarrow> v = ?d" using p(2) sees_unique by blast
  ultimately show ?thesis using Some s(1) p(1) st by simp
qed

lemma initdir_safe:
  assumes "sees (url_path k) page" "sees k raw" "length k \<le> MAXBUF"
    "deflate_fits deflate" "files_small fs" "pages_ok deflate fs c"
  shows "runs (\<lambda>(p, c'). pages.fits p \<and> pages_ok deflate fs c')
    (initdir_for_static_files mem deflate fs junk page raw c)"
proof -
  have len: "length (url_path k) + 29 < sds_limit" "length k < file_limit"
    using url_path_length [of k] assms(3) by (simp_all add: MAXBUF_def file_limit_def sds_limit_def)
  note eq = initdir_path [OF assms(1) len(1) assms(4) files_small_fit [OF assms(5)]]
  have none: "runs (\<lambda>(p, c'). pages.fits p \<and> pages_ok deflate fs c') (Some (None, c))"
    using assms(6) by (simp add: pages.fits_def)
  show ?thesis
  proof (cases "sublist ''..'' (url_path k)")
    case True
    then show ?thesis unfolding eq using none by simp
  next
    case False
    have "runs (\<lambda>(p, c'). pages.fits p \<and> pages_ok deflate fs c')
        (pages.through (case fopen fs (file_path (url_path k)) of None \<Rightarrow> Some None
          | Some content \<Rightarrow> read_file mem content \<bind> deflate_string mem deflate) c raw)"
      by (rule pages.through_safe [OF assms(6,2) len(2) fresh_page [OF assms(4,5) False]])
    then show ?thesis unfolding eq serve_path_def using False none by simp
  qed
qed

text \<open>The URL the server falls back to is a directory.\<close>

lemma initdir_slash:
  assumes "sees ''/'' page" "deflate_fits deflate" "files_small fs" "fs (ROOTPATH @ ''/'') = Some Directory"
  shows "initdir_for_static_files mem deflate fs junk page raw c = Some (None, c)"
proof -
  have "length ''/'' + 29 < sds_limit" by (simp add: sds_limit_def)
  from initdir_path [OF assms(1) this assms(2) files_small_fit [OF assms(3)]] show ?thesis
    using assms(4) by (simp add: serve_path_def file_path_def cstr_def isDirectory_def)
qed

section \<open>Responses\<close>

lemma literal_texts:
  "cstr not_found_text = not_found_text" "length not_found_text < sds_limit"
  "cstr blocked_text = blocked_text" "length blocked_text < sds_limit"
  by (simp_all add: not_found_text_def blocked_text_def CRLF_def cstr_def sds_limit_def)

lemma runs_not_found: "runs (sees not_found_text) (sdsnew mem (Some not_found_text))"
  using runs_sdsnew [of not_found_text] by (simp add: literal_texts)

lemma runs_blocked: "runs (sees blocked_text) (sdsnew mem (Some blocked_text))"
  using runs_sdsnew [of blocked_text] by (simp add: literal_texts)

text \<open>A request after \<open>slash_url\<close>: its URL is set, the path of the raw URL or a slash.\<close>

lemma slash_url_runs:
  assumes "request_ok MAXBUF r"
  shows "runs (\<lambda>r'. request_ready r'
      \<and> ((\<exists>k. sees (url_path k) (url r') \<and> sees k (rawurl r') \<and> length k \<le> MAXBUF)
         \<or> sees ''/'' (url r') \<and> sees ''/'' (rawurl r')))
    (slash_url mem r)"
proof (cases "url r")
  case None
  have "length (cstr ''/'') < sds_limit" "cstr ''/'' = ''/''" by (simp_all add: cstr_def sds_limit_def)
  then obtain u where "sdsnew mem (Some ''/'') = Some u" "sees ''/'' u"
    using runs_sdsnew [of "''/''"] by (auto simp: runs_def)
  with None assms show ?thesis
    by (auto simp: slash_url_def request_ready_def request_ok_def MAXBUF_def intro!: exI [of _ "''/''"])
next
  case (Some u)
  with assms obtain k where k: "sees (url_path k) (url r)" "sees k (rawurl r)" "length k \<le> MAXBUF"
    by (auto simp: request_ok_def url_ok_def)
  have "length (url_path k) \<le> MAXBUF" using url_path_length [of k] k(3) by simp
  then have "request_ready r" using assms k(1) unfolding request_ready_def request_ok_def by blast
  with k Some show ?thesis by (auto simp: slash_url_def)
qed

text \<open>What a response and the server after it look like.\<close>

definition responds ::
  "('w \<Rightarrow> bool) \<Rightarrow> ('f, 'w) platform \<Rightarrow> (bytes \<Rightarrow> entry option) \<Rightarrow> sds option \<times> ('f, 'w) server \<Rightarrow> bool" where
  "responds W P fs = (\<lambda>(p, s). int_response p \<and> server_ok W P fs s)"

text \<open>A computation leaves a well-formed server if it returns, and under the condition \<open>a\<close> it
  responds.\<close>

definition serves ::
  "('w \<Rightarrow> bool) \<Rightarrow> ('f, 'w) platform \<Rightarrow> (bytes \<Rightarrow> entry option) \<Rightarrow> bool
     \<Rightarrow> (sds option \<times> ('f, 'w) server) run \<Rightarrow> bool" where
  "serves W P fs a m \<longleftrightarrow> (\<forall>p s. m = Some (p, s) \<longrightarrow> server_ok W P fs s) \<and> (a \<longrightarrow> runs (responds W P fs) m)"

lemma servesI: "runs (responds W P fs) m \<Longrightarrow> serves W P fs a m"
  by (auto simp: serves_def responds_def runs_def)

lemma servesD:
  "serves W P fs a m \<Longrightarrow> m = Some (p, s) \<Longrightarrow> server_ok W P fs s"
  "serves W P fs a m \<Longrightarrow> a \<Longrightarrow> runs (responds W P fs) m"
  by (simp_all add: serves_def)

lemma platform_okD:
  assumes "platform_ok A W P fs"
  shows "allocator P = mem" "deflate_fits (compressor P)" "handlers_ok A W P fs" "files_small fs"
    "fs (ROOTPATH @ ''/'') = Some Directory" "A (r\<lparr>url := u, rawurl := w\<rparr>) = A r"
  using assms by (simp_all add: platform_ok_def)

lemma server_ok_update:
  "server_ok W P fs (s\<lparr>hrq := r\<rparr>) = server_ok W P fs s"
  "server_ok W P fs s \<Longrightarrow> pages_ok (compressor P) fs c \<Longrightarrow> server_ok W P fs (s\<lparr>cache := c\<rparr>)"
  by (simp_all add: server_ok_def)

lemma static_response_runs:
  assumes "platform_ok A W P fs" "server_ok W P fs s" "sees t (url (hrq s))" "length t < sds_limit"
    "sees v b" "length v < file_limit"
  shows "length (response_head (content_type t) @ v) < 2 ^ 31" "runs (sees (response_head (content_type t) @ v)) (do {
      p \<leftarrow> adddefaultheaders mem (extensions s) (url (hrq s));
      h \<leftarrow> deref p;
      b \<leftarrow> deref b;
      sdscatsds mem h b })"
proof -
  have ext: "list_all2 kv_rep (extensions s) mime_table" using assms(2) by (simp add: server_ok_def)
  obtain h where h: "adddefaultheaders mem (extensions s) (url (hrq s)) = Some (Some h)"
      "sds_rep h (response_head (content_type t))"
    using build_response_header_runs [OF ext assms(3,4)] by (auto simp: runs_def sees_def adddefaultheaders_def)
  obtain y where y: "b = Some y" "sds_rep y v" using assms(5) by (auto simp: sees_def)
  have "length (response_head (content_type t)) < 1200"
    using header_lines_literal(2,5) content_type_length(1) [of t] by (simp add: response_head_def)
  then have "length (response_head (content_type t)) + length v < 2 ^ 31"
    using file_limit_less(1) [OF assms(6)] by linarith
  then show "length (response_head (content_type t) @ v) < 2 ^ 31" by simp
  then have limit: "length (response_head (content_type t)) + length v < sds_limit" by (simp add: sds_limit_def)
  from runs_sdscatsds [OF h(2) y(2) limit] show "runs (sees (response_head (content_type t) @ v)) (do {
      p \<leftarrow> adddefaultheaders mem (extensions s) (url (hrq s));
      h \<leftarrow> deref p;
      b \<leftarrow> deref b;
      sdscatsds mem h b })"
    by (simp add: h(1) y(1))
qed

lemma int_responseI: "sees t p \<Longrightarrow> length t < 2 ^ 31 \<Longrightarrow> int_response p"
  by (auto simp: int_response_def)

lemma short_literals: "length not_found_text < 2 ^ 31" "length blocked_text < 2 ^ 31"
  by (simp_all add: not_found_text_def blocked_text_def CRLF_def)

lemma slash_url_cases:
  assumes "slash_url al r = Some r'"
  obtains "r' = r" | u w where "r' = r\<lparr>url := u, rawurl := w\<rparr>"
  using assms by (auto simp: slash_url_def bind_eq_Some_conv split: if_splits)

lemma portable_responser_serves:
  assumes P: "platform_ok A W P fs" and s: "server_ok W P fs s" and r: "request_ok MAXBUF (hrq s)"
  shows "serves W P fs (A (hrq s)) (portable_responser P fs junk s)"
proof -
  note Pd = platform_okD [OF P]
  obtain r' where r': "slash_url mem (hrq s) = Some r'" "request_ready r'"
      "(\<exists>k. sees (url_path k) (url r') \<and> sees k (rawurl r') \<and> length k \<le> MAXBUF)
        \<or> sees ''/'' (url r') \<and> sees ''/'' (rawurl r')"
    using slash_url_runs [OF r] by (auto simp: runs_def)
  let ?s = "s\<lparr>hrq := r'\<rparr>"
  have ok: "server_ok W P fs ?s" using s by (simp add: server_ok_update)
  obtain ps where ps: "table_rep (table s) ps" using s by (auto simp: server_ok_def)
  obtain t where t: "sees t (url r')" "length t \<le> MAXBUF" using r'(2) by (auto simp: request_ready_def)
  have k: "check_route (table s) (url r') = Some (if t \<in> fst ` set ps then 1 else 0)"
    by (rule check_route_rep [OF ps t(1)])
  show ?thesis
  proof (cases "t \<in> fst ` set ps")
    case True
    then obtain f where f: "map_of ps t = Some f" by (cases "map_of ps t") (auto simp: map_of_eq_None_iff)
    have "A r' = A (hrq s)" using r'(1) by (rule slash_url_cases) (simp_all add: Pd(6))
    then have "serves W P fs (A (hrq s)) (handler P f ?s)"
      using Pd(3) ok r'(2) unfolding handlers_ok_def serves_def
      by (fastforce simp: responds_def runs_def)
    with True show ?thesis
      by (simp add: portable_responser_def Pd(1) r'(1) k Let_def do_route_rep [OF ps t(1)] f)
  next
    case False
    have pages: "pages_ok (compressor P) fs (cache s)" using s by (simp add: server_ok_def)
    have "runs (\<lambda>(p, c'). pages.fits p \<and> pages_ok (compressor P) fs c')
        (initdir_for_static_files mem (compressor P) fs junk (url r') (rawurl r') (cache s))"
      using r'(3)
    proof
      assume "\<exists>k. sees (url_path k) (url r') \<and> sees k (rawurl r') \<and> length k \<le> MAXBUF"
      then show ?thesis using initdir_safe [OF _ _ _ Pd(2,4) pages] by blast
    next
      assume "sees ''/'' (url r') \<and> sees ''/'' (rawurl r')"
      then show ?thesis using pages by (simp add: initdir_slash [OF _ Pd(2,4,5)] pages.fits_def)
    qed
    then obtain b c' where b: "initdir_for_static_files mem (compressor P) fs junk (url r') (rawurl r') (cache s) = Some (b, c')"
        "pages.fits b" "pages_ok (compressor P) fs c'"
      by (auto simp: runs_def)
    let ?s1 = "?s\<lparr>cache := c'\<rparr>"
    have ok1: "server_ok W P fs ?s1" by (rule server_ok_update(2) [OF ok b(3)])
    have "runs (responds W P fs) (portable_responser P fs junk s)"
    proof (cases b)
      case None
      obtain p where "sdsnew mem (Some not_found_text) = Some p" "int_response p"
        using runs_not_found int_responseI [OF _ short_literals(1)] by (auto simp: runs_def)
      with None False ok1 show ?thesis
        by (auto simp: portable_responser_def Pd(1) r'(1) k b(1) Let_def responds_def)
    next
      case (Some y)
      then obtain v where v: "sees v b" "length v < file_limit" using b(2) by (auto simp: pages.fits_def)
      have "length t < sds_limit" using t(2) by (simp add: MAXBUF_def sds_limit_def)
      note resp = static_response_runs [OF P ok1 _ this v]
      from resp t(1)
      obtain p where "do { p \<leftarrow> adddefaultheaders mem (extensions s) (url r'); h \<leftarrow> deref p; sdscatsds mem h y } = Some p"
          "int_response p"
        using int_responseI by (auto simp: runs_def Some)
      with Some False ok1 show ?thesis
        by (auto simp: portable_responser_def Pd(1) r'(1) k b(1) Let_def responds_def bind_eq_Some_conv)
    qed
    then show ?thesis by (rule servesI)
  qed
qed

lemma requestfree_ok: "server_ok W P fs s \<Longrightarrow> server_ok W P fs (s\<lparr>hrq := r\<rparr>)"
  by (simp add: server_ok_update)

lemma answer_serves:
  assumes P: "platform_ok A W P fs" and s: "server_ok W P fs s" and len: "length data \<le> MAXBUF"
  shows "serves W P fs (admits A data) (answer P fs junk data s)"
proof (cases "simple_waf data = 1")
  case True
  obtain p where "sdsnew mem (Some blocked_text) = Some p" "int_response p"
    using runs_blocked int_responseI [OF _ short_literals(2)] by (auto simp: runs_def)
  with True s show ?thesis by (intro servesI) (simp add: answer_def platform_okD(1) [OF P] responds_def)
next
  case False
  have "length data < sds_limit" using len by (simp add: MAXBUF_def sds_limit_def)
  from portable_requester_runs [OF this] obtain r
    where r: "portable_requester mem data = Some r" "request_ok MAXBUF r"
    using request_ok_mono [OF _ len] by (auto simp: runs_def)
  have "serves W P fs (A r) (portable_responser P fs junk (s\<lparr>hrq := r\<rparr>))"
    using portable_responser_serves [OF P, of "s\<lparr>hrq := r\<rparr>"] s r(2) by (simp add: server_ok_update)
  moreover have "admits A data = A r" by (simp add: admits_def r(1))
  ultimately show ?thesis
    using False r(1) unfolding serves_def
    by (auto simp: answer_def platform_okD(1) [OF P] responds_def server_ok_update bind_eq_Some_conv runs_def)
qed

lemma int_send_all: "length t < 2 ^ 31 \<Longrightarrow> int_send t = Some t"
  by (simp add: int_send_def as_int_small)

section \<open>The event loop\<close>

definition loop_inv ::
  "('w \<Rightarrow> bool) \<Rightarrow> ('f, 'w) platform \<Rightarrow> (bytes \<Rightarrow> entry option) \<Rightarrow> ('f, 'w) loop_state \<Rightarrow> bool" where
  "loop_inv W P fs st \<longleftrightarrow>
     server_ok W P fs (srv st)
     \<and> listen_sock st \<in> interest st \<and> epoll_fd st \<notin> interest st
     \<and> descriptors st = insert (epoll_fd st) (interest st)
     \<and> edge st = interest st - {listen_sock st} \<and> nonblock st = interest st - {listen_sock st}
     \<and> distinct (events st) \<and> set (events st) \<subseteq> interest st"

text \<open>The state after a new connection, and after an answer to one.\<close>

abbreviation connected :: "nat \<Rightarrow> ('f, 'w) loop_state \<Rightarrow> ('f, 'w) loop_state" where
  "connected c st \<equiv> st\<lparr>interest := insert c (interest st), edge := insert c (edge st),
     nonblock := insert c (nonblock st), descriptors := insert c (descriptors st)\<rparr>"

abbreviation answered ::
  "('f, 'w) server \<Rightarrow> bytes \<Rightarrow> nat \<Rightarrow> ('f, 'w) loop_state \<Rightarrow> ('f, 'w) loop_state" where
  "answered s out fd st \<equiv> st\<lparr>srv := s, sent := sent st @ [(fd, out)], interest := interest st - {fd},
     edge := edge st - {fd}, nonblock := nonblock st - {fd}, descriptors := descriptors st - {fd}\<rparr>"

lemma accept_connection_inv:
  assumes "loop_inv W P fs st" "c \<notin> descriptors st"
  shows "accept_connection (Some c) st = Running (connected c st)" "loop_inv W P fs (connected c st)"
  using assms by (auto simp: accept_connection_def setnonblocking_def loop_inv_def)

lemma answered_inv:
  assumes "loop_inv W P fs st" "server_ok W P fs s" "events st = fd # rest" "fd \<noteq> listen_sock st"
  shows "loop_inv W P fs ((answered s out fd st)\<lparr>events := rest\<rparr>)"
  using assms by (auto simp: loop_inv_def)

text \<open>A connection that is ready is answered and closed.\<close>

lemma do_use_fd_cases:
  assumes "do_use_fd P fs junk (Some data) fd st = Some (Running st')"
  obtains p s out where "answer P fs junk data (srv st) = Some (p, s)" "st' = answered s out fd st"
  using assms by (auto simp: do_use_fd_def bind_eq_Some_conv Let_def split: if_splits)

lemma do_use_fd_runs:
  assumes P: "platform_ok A W P fs" and inv: "loop_inv W P fs st" and data: "length data \<le> MAXBUF" "admits A data"
    and fd: "fd \<in> interest st"
  shows "runs (\<lambda>r. \<exists>s out. r = Running (answered s out fd st)) (do_use_fd P fs junk (Some data) fd st)"
proof -
  have "server_ok W P fs (srv st)" using inv by (simp add: loop_inv_def)
  from servesD(2) [OF answer_serves [OF P this data(1), of junk] data(2)] obtain p s t
    where ps: "answer P fs junk data (srv st) = Some (p, s)" "sees t p" "length t < 2 ^ 31"
    by (auto simp: runs_def responds_def int_response_def)
  then obtain y where "p = Some y" "sds_rep y t" by (auto simp: sees_def)
  then show ?thesis using ps(1) fd by (auto simp: do_use_fd_def Let_def int_send_all [OF ps(3)])
qed

lemma handle_event_inv:
  assumes P: "platform_ok A W P fs" and inv: "loop_inv W P fs st" and ev: "events st = fd # rest"
    and k: "kernel_ok k st" and r: "handle_event P fs fd k st = Some (Running st')"
  shows "loop_inv W P fs (st'\<lparr>events := rest\<rparr>)"
proof -
  have fd: "fd \<in> interest st" and rest: "distinct rest" "set rest \<subseteq> interest st" "fd \<notin> set rest"
    using inv ev by (auto simp: loop_inv_def)
  have inv': "loop_inv W P fs (st\<lparr>events := rest\<rparr>)" using inv rest by (auto simp: loop_inv_def)
  show ?thesis
  proof (cases "fd = listen_sock st")
    case True
    with r obtain c where c: "accepts k = Some c" "st' = connected c st"
      by (auto simp: handle_event_def accept_connection_def setnonblocking_def Let_def split: option.splits if_splits)
    with k have "c \<notin> descriptors (st\<lparr>events := rest\<rparr>)" by (simp add: kernel_ok_def)
    from accept_connection_inv(2) [OF inv' this] show ?thesis by (simp add: c(2) loop_inv_def)
  next
    case False
    show ?thesis
    proof (cases "receives k")
      case None
      with r False inv' show ?thesis by (simp add: handle_event_def do_use_fd_def)
    next
      case (Some data)
      with k have len: "length data \<le> MAXBUF" by (simp add: kernel_ok_def)
      from r False Some obtain p s out
        where a: "answer P fs (garbage k) data (srv st) = Some (p, s)" "st' = answered s out fd st"
        by (auto simp: handle_event_def elim: do_use_fd_cases)
      have "server_ok W P fs (srv st)" using inv by (simp add: loop_inv_def)
      from servesD(1) [OF answer_serves [OF P this len] a(1)] have "server_ok W P fs s" .
      from answered_inv [OF inv this ev False] show ?thesis unfolding a(2) .
    qed
  qed
qed

lemma loop_step_inv:
  assumes "loop_step P fs st st'" "platform_ok A W P fs" "loop_inv W P fs st"
  shows "loop_inv W P fs st'"
  using assms(1)
proof (rule loop_stepE)
  fix evs assume "st' = st\<lparr>events := evs\<rparr>" "events st = []" "reports st evs"
  with assms(3) show ?thesis by (simp add: loop_inv_def reports_def)
next
  fix fd rest k st1
  assume "st' = st1\<lparr>events := rest\<rparr>" "events st = fd # rest" "kernel_ok k st"
    "handle_event P fs fd k st = Some (Running st1)"
  with handle_event_inv [OF assms(2,3)] show ?thesis by simp
qed

lemma reachable_inv:
  assumes "reachable P fs st0 st" "platform_ok A W P fs" "loop_inv W P fs st0"
  shows "loop_inv W P fs st"
  using assms(1)
proof (induction rule: reachable.induct)
  case start
  then show ?case by (rule assms(3))
next
  case (step st st')
  from loop_step_inv [OF step.hyps(2) assms(2) step.IH] show ?case .
qed

lemma run_start_inv:
  assumes "run_start (Some l) bound listening (Some e) added s = Running st" "l \<noteq> e" "server_ok W P fs s"
  shows "loop_inv W P fs st"
  using assms by (auto simp: run_start_def loop_inv_def split: if_splits)

text \<open>A batch of events: every connection that is ready is answered and closed, in order.\<close>

lemma reachable_trans:
  assumes "reachable P fs st1 st2" "reachable P fs st0 st1"
  shows "reachable P fs st0 st2"
  using assms(1)
proof (induction rule: reachable.induct)
  case start
  then show ?case by (rule assms(2))
next
  case (step st st')
  from reachable.step [OF step.IH step.hyps(2)] show ?case .
qed

definition supply_ok :: "(bytes \<Rightarrow> bool) \<Rightarrow> (nat \<times> kernel) list \<Rightarrow> nat set \<Rightarrow> bool" where
  "supply_ok D evs fds \<longleftrightarrow>
     (\<forall>k \<in> snd ` set evs. \<exists>c data. accepts k = Some c \<and> c \<notin> fds \<and> receives k = Some data
        \<and> length data \<le> MAXBUF \<and> D data)
     \<and> distinct (map (accepts \<circ> snd) evs)"

definition served ::
  "('f, 'w) platform \<Rightarrow> (bytes \<Rightarrow> entry option) \<Rightarrow> nat set \<Rightarrow> ('f, 'w) loop_state \<Rightarrow> nat list
     \<Rightarrow> ('f, 'w) loop_state outcome \<Rightarrow> bool" where
  "served P fs D st fds r \<longleftrightarrow>
     (\<exists>st' out. r = Running st' \<and> reachable P fs st st' \<and> events st' = []
        \<and> sent st' = sent st @ out \<and> map fst out = filter (\<lambda>fd. fd \<noteq> listen_sock st) fds
        \<and> D \<inter> descriptors st' = D \<inter> descriptors st - fst ` set out)"

lemma for_events_step:
  assumes P: "platform_ok A W P fs" and inv: "loop_inv W P fs st" and ev: "events st = fd # map fst evs"
    and k: "kernel_ok k st" and h: "handle_event P fs fd k st = Some (Running st1)"
    and rest: "loop_inv W P fs (st1\<lparr>events := map fst evs\<rparr>) \<Longrightarrow>
      runs (served P fs D (st1\<lparr>events := map fst evs\<rparr>) (map fst evs)) (for_events P fs evs (st1\<lparr>events := map fst evs\<rparr>))"
    and same: "listen_sock st1 = listen_sock st"
    and out: "sent st1 = sent st @ out" "map fst out = (if fd = listen_sock st then [] else [fd])"
      "D \<inter> descriptors st1 = D \<inter> descriptors st - fst ` set out"
  shows "runs (served P fs D st (fd # map fst evs)) (for_events P fs ((fd, k) # evs) st)"
proof -
  let ?st2 = "st1\<lparr>events := map fst evs\<rparr>"
  have st2: "reachable P fs st ?st2" using reachable.step [OF reachable.start loop_step.event [OF ev k h]] .
  from rest [OF handle_event_inv [OF P inv ev k h]] obtain st' out'
    where st': "for_events P fs evs ?st2 = Some (Running st')" "reachable P fs ?st2 st'" "events st' = []"
      "sent st' = sent st1 @ out'" "map fst out' = filter (\<lambda>fd. fd \<noteq> listen_sock st) (map fst evs)"
      "D \<inter> descriptors st' = D \<inter> descriptors st1 - fst ` set out'"
    by (auto simp: runs_def served_def same)
  have "for_events P fs ((fd, k) # evs) st = Some (Running st')" using h st'(1) by simp
  moreover have "sent st' = sent st @ (out @ out')" using st'(4) out(1) by simp
  moreover have "map fst (out @ out') = filter (\<lambda>fd. fd \<noteq> listen_sock st) (fd # map fst evs)"
    using st'(5) out(2) by simp
  moreover have "D \<inter> descriptors st' = D \<inter> descriptors st - fst ` set (out @ out')"
    using st'(6) out(3) by auto
  ultimately show ?thesis
    using st'(3) reachable_trans [OF st'(2) st2] unfolding runs_def served_def by blast
qed

lemma supply_ok_rest:
  assumes "supply_ok D ((fd, k) # evs) A" "accepts k = Some c" "B \<subseteq> insert c A"
  shows "supply_ok D evs B"
proof -
  have "\<exists>c data. accepts k' = Some c \<and> c \<notin> B \<and> receives k' = Some data \<and> length data \<le> MAXBUF \<and> D data"
    if k': "k' \<in> snd ` set evs" for k'
  proof -
    obtain c' data where c': "accepts k' = Some c'" "c' \<notin> A" "receives k' = Some data" "length data \<le> MAXBUF" "D data"
      using assms(1) k' by (auto simp: supply_ok_def)
    have "accepts k \<notin> accepts ` snd ` set evs" using assms(1) by (simp add: supply_ok_def image_comp)
    with imageI [OF k', of accepts] have "accepts k' \<noteq> accepts k" by metis
    with c' assms(2,3) show ?thesis by auto
  qed
  with assms(1) show ?thesis by (simp add: supply_ok_def)
qed

lemma for_events_served:
  assumes "platform_ok A W P fs" "loop_inv W P fs st" "events st = map fst evs"
    "supply_ok (admits A) evs (D \<union> descriptors st)"
  shows "runs (served P fs D st (map fst evs)) (for_events P fs evs st)"
  using assms(2-)
proof (induction evs arbitrary: st)
  case Nil
  then show ?case by (auto simp: served_def reachable.start)
next
  case (Cons e evs)
  obtain fd k where e: "e = (fd, k)" by force
  have ev: "events st = fd # map fst evs" using Cons.prems(2) by (simp add: e)
  obtain c data where k: "accepts k = Some c" "c \<notin> D \<union> descriptors st" "receives k = Some data" "length data \<le> MAXBUF"
      "admits A data"
    using Cons.prems(3) by (auto simp: supply_ok_def e)
  have kok: "kernel_ok k st" using k by (simp add: kernel_ok_def)
  have fd: "fd \<in> interest st" using Cons.prems(1) ev by (auto simp: loop_inv_def)
  note sup = supply_ok_rest [OF Cons.prems(3) [unfolded e] k(1)]
  note step = for_events_step [OF assms(1) Cons.prems(1) ev kok]
  show ?case
  proof (cases "fd = listen_sock st")
    case True
    have h: "handle_event P fs fd k st = Some (Running (connected c st))"
      using True k(1,2) accept_connection_inv(1) [OF Cons.prems(1), of c] by (simp add: handle_event_def)
    have "runs (served P fs D st (fd # map fst evs)) (for_events P fs ((fd, k) # evs) st)"
    proof (rule step [where out = "[]", OF h Cons.IH])
      show "supply_ok (admits A) evs (D \<union> descriptors ((connected c st)\<lparr>events := map fst evs\<rparr>))" by (rule sup) auto
    qed (use True k(2) in simp_all)
    then show ?thesis by (simp add: e)
  next
    case False
    from do_use_fd_runs [OF assms(1) Cons.prems(1) k(4,5) fd, of "garbage k"] obtain s out
      where h: "handle_event P fs fd k st = Some (Running (answered s out fd st))"
      using False k(3) by (auto simp: handle_event_def runs_def)
    have "runs (served P fs D st (fd # map fst evs)) (for_events P fs ((fd, k) # evs) st)"
    proof (rule step [OF h Cons.IH])
      show "supply_ok (admits A) evs (D \<union> descriptors ((answered s out fd st)\<lparr>events := map fst evs\<rparr>))"
        by (rule sup) auto
    qed (use False in auto)
    then show ?thesis by (simp add: e)
  qed
qed

end
