(* ===== verification/Sql_Queries.thy ===== *)
theory Sql_Queries
  imports Keyvalue
begin

text \<open>
  The queries (\<open>dev/db/sql_queries.c\<close>) and the rows they leave behind (\<open>sqlthings.c\<close>).
  The database is a parameter, the function that \<open>sqlite3_exec\<close> computes: it takes the text of
  a statement and the state of the database to the new state and the rows, each a list of columns
  with a name and a value that may be NULL. \<open>sqlite3_mprintf\<close> is modelled as far as the
  program uses it: literal text and \<open>%q\<close>.
\<close>

section \<open>The rows\<close>

definition MAXPOSTSSHOWN :: nat where "MAXPOSTSSHOWN = 100"

type_synonym row = "(bytes \<times> bytes option) list"
type_synonym 'd sqlite = "bytes \<Rightarrow> 'd \<Rightarrow> 'd \<times> row list"

text \<open>\<open>dangling\<close>: the strings of the array have been freed since it was cleared, so a pointer in
  it that is not NULL must not be used.\<close>

record 'd site =
  db :: 'd
  kvp_array_sqldata :: "keyvaluepair list"
  selectcounter :: nat
  dangling :: bool

definition no_pair :: keyvaluepair where "no_pair = \<lparr>kv_key = None, kv_value = None\<rparr>"

definition init_callback_sql :: "'d site \<Rightarrow> 'd site" where
  "init_callback_sql w =
     w\<lparr>kvp_array_sqldata := replicate MAXPOSTSSHOWN no_pair, selectcounter := 0, dangling := False\<rparr>"

text \<open>Freeing a string twice is undefined; freeing NULL is not.\<close>

definition free_callback_sql :: "'d site \<Rightarrow> 'd site run" where
  "free_callback_sql w =
     (let used = (\<exists>kv \<in> set (kvp_array_sqldata w). kv_key kv \<noteq> None \<or> kv_value kv \<noteq> None) in
      if dangling w \<and> used then None
      else Some (w\<lparr>selectcounter := 0, dangling := used\<rparr>))"

text \<open>An element of the array, with the pointers still good.\<close>

definition sqldata :: "'d site \<Rightarrow> nat \<Rightarrow> keyvaluepair run" where
  "sqldata w i = do {
     kv \<leftarrow> rd (kvp_array_sqldata w) i;
     if dangling w \<and> (kv_key kv \<noteq> None \<or> kv_value kv \<noteq> None) then None else Some kv
   }"

text \<open>The loop over the columns of one row.\<close>

fun callback :: "(nat \<Rightarrow> bool) \<Rightarrow> row \<Rightarrow> 'd site \<Rightarrow> 'd site run" where
  "callback al [] w = Some w"
| "callback al ((name, val) # cols) w = do {
     kv \<leftarrow> createkeyvalue al (Some name) (Some (case val of Some v \<Rightarrow> v | None \<Rightarrow> ''NULL''));
     kvs \<leftarrow> (if selectcounter w < length (kvp_array_sqldata w)
             then Some ((kvp_array_sqldata w)[selectcounter w := kv]) else None);
     callback al cols (w\<lparr>kvp_array_sqldata := kvs, selectcounter := selectcounter w + 1\<rparr>)
   }"

text \<open>\<open>sqlite3_exec\<close> with this callback, and without one. The error message is only printed.\<close>

primrec callbacks :: "(nat \<Rightarrow> bool) \<Rightarrow> row list \<Rightarrow> 'd site \<Rightarrow> 'd site run" where
  "callbacks al [] w = Some w"
| "callbacks al (r # rs) w = callback al r w \<bind> callbacks al rs"

definition sql_select :: "(nat \<Rightarrow> bool) \<Rightarrow> 'd sqlite \<Rightarrow> bytes \<Rightarrow> 'd site \<Rightarrow> 'd site run" where
  "sql_select al exec sql w =
     (case exec sql (db w) of (d, rows) \<Rightarrow> callbacks al rows (w\<lparr>db := d\<rparr>))"

definition sql_execute :: "'d sqlite \<Rightarrow> bytes \<Rightarrow> 'd site \<Rightarrow> 'd site" where
  "sql_execute exec sql w = w\<lparr>db := fst (exec sql (db w))\<rparr>"

section \<open>Statements\<close>

abbreviation QUOTE_CHAR :: char where "QUOTE_CHAR \<equiv> CHR 0x27"

text \<open>\<open>%q\<close>: every quote is doubled. Texts of more than a billion bytes, for which SQLite gives an
  error instead, are out of the model: arguments are parts of a request.\<close>

definition sql_q :: "bytes option \<Rightarrow> bytes" where
  "sql_q arg = concat (map (\<lambda>c. if c = QUOTE_CHAR then [c, c] else [c])
     (case arg of None \<Rightarrow> ''(NULL)'' | Some s \<Rightarrow> cstr s))"

definition sql_text :: "bytes option \<Rightarrow> bytes" where
  "sql_text arg = QUOTE_CHAR # sql_q arg @ [QUOTE_CHAR]"

definition insert_post ::
  "'d sqlite \<Rightarrow> bytes option \<Rightarrow> bytes option \<Rightarrow> bytes option \<Rightarrow> bytes option \<Rightarrow> bytes option
     \<Rightarrow> 'd site \<Rightarrow> 'd site" where
  "insert_post exec title_hun title_en category content_hun content_en w =
     sql_execute exec
       (''INSERT INTO posts (title_HUN,title_EN,category,content_HUN, content_EN,created_at) VALUES( ''
        @ sql_text title_hun @ '','' @ sql_text title_en @ '','' @ sql_text category @ '', ''
        @ sql_text content_hun @ '', '' @ sql_text content_en @ '', CURRENT_TIMESTAMP);'') w"

definition select_by_category_en :: "(nat \<Rightarrow> bool) \<Rightarrow> 'd sqlite \<Rightarrow> bytes option \<Rightarrow> 'd site \<Rightarrow> 'd site run" where
  "select_by_category_en al exec category w =
     sql_select al exec
       (''SELECT title_EN,category,content_EN,created_at from posts WHERE category='' @ sql_text category) w"

definition select_by_category_hu :: "(nat \<Rightarrow> bool) \<Rightarrow> 'd sqlite \<Rightarrow> bytes option \<Rightarrow> 'd site \<Rightarrow> 'd site run" where
  "select_by_category_hu al exec category w =
     sql_select al exec
       (''SELECT title_HUN,category,content_HUN,created_at from posts WHERE category='' @ sql_text category) w"

definition select_by_name_en :: "(nat \<Rightarrow> bool) \<Rightarrow> 'd sqlite \<Rightarrow> bytes option \<Rightarrow> 'd site \<Rightarrow> 'd site run" where
  "select_by_name_en al exec tittle w =
     sql_select al exec
       (''SELECT title_EN,category,content_EN,created_at from posts WHERE title_EN='' @ sql_text tittle) w"

definition select_by_name_hu :: "(nat \<Rightarrow> bool) \<Rightarrow> 'd sqlite \<Rightarrow> bytes option \<Rightarrow> 'd site \<Rightarrow> 'd site run" where
  "select_by_name_hu al exec tittle w =
     sql_select al exec
       (''SELECT title_HUN,category,content_HUN,created_at from posts WHERE title_HUN='' @ sql_text tittle) w"

definition select_top5_by_category_hu :: "(nat \<Rightarrow> bool) \<Rightarrow> 'd sqlite \<Rightarrow> bytes option \<Rightarrow> 'd site \<Rightarrow> 'd site run" where
  "select_top5_by_category_hu al exec category w =
     sql_select al exec
       (''SELECT title_HUN,category,content_HUN,created_at from posts WHERE category='' @ sql_text category
        @ '' ORDER BY date(created_at) DESC LIMIT 5;'') w"

definition select_top5_by_category_en :: "(nat \<Rightarrow> bool) \<Rightarrow> 'd sqlite \<Rightarrow> bytes option \<Rightarrow> 'd site \<Rightarrow> 'd site run" where
  "select_top5_by_category_en al exec tittle w =
     sql_select al exec
       (''SELECT title_EN,category,content_EN,created_at FROM posts WHERE category='' @ sql_text tittle
        @ '' ORDER BY date(created_at) DESC LIMIT 5;'') w"

definition delete_post :: "'d sqlite \<Rightarrow> bytes option \<Rightarrow> 'd site \<Rightarrow> 'd site" where
  "delete_post exec title w =
     sql_execute exec
       (''DELETE from posts where title_EN='' @ sql_text title @ '' or title_HUN='' @ sql_text title @ '';'') w"

definition select_top1_by_name :: "(nat \<Rightarrow> bool) \<Rightarrow> 'd sqlite \<Rightarrow> bytes option \<Rightarrow> 'd site \<Rightarrow> 'd site run" where
  "select_top1_by_name al exec title w =
     sql_select al exec
       (''SELECT title_EN,category,content_EN,title_HUN,content_HUN FROM posts WHERE title_HUN=''
        @ sql_text title @ '' or title_EN='' @ sql_text title @ '' ORDER BY date(created_at) DESC LIMIT 1;'') w"

section \<open>What the statements mean\<close>

text \<open>A string literal of SQL: up to a quote that is not doubled.\<close>

fun literal_body :: "bytes \<Rightarrow> (bytes \<times> bytes) option" where
  "literal_body [] = None"
| "literal_body (c # s) =
     (if c = QUOTE_CHAR then
        (case s of
           d # s' \<Rightarrow> if d = QUOTE_CHAR then map_option (apfst (Cons c)) (literal_body s') else Some ([], s)
         | [] \<Rightarrow> Some ([], s))
      else map_option (apfst (Cons c)) (literal_body s))"

fun sql_literal :: "bytes \<Rightarrow> (bytes \<times> bytes) option" where
  "sql_literal (c # s) = (if c = QUOTE_CHAR then literal_body s else None)"
| "sql_literal [] = None"

lemma literal_body_doubled:
  assumes "rest = [] \<or> hd rest \<noteq> QUOTE_CHAR"
  shows "literal_body (concat (map (\<lambda>c. if c = QUOTE_CHAR then [c, c] else [c]) s) @ QUOTE_CHAR # rest)
    = Some (s, rest)"
proof (induction s)
  case Nil
  then show ?case using assms by (cases rest) auto
qed (auto simp: apfst_def)

lemma sql_literal_text:
  assumes "rest = [] \<or> hd rest \<noteq> QUOTE_CHAR"
  shows "sql_literal (sql_text (Some s) @ rest) = Some (cstr s, rest)"
  using literal_body_doubled [OF assms, of "cstr s"] by (simp add: sql_text_def sql_q_def)

section \<open>The array of rows\<close>

definition cell_text :: "bytes \<times> bytes option \<Rightarrow> bytes \<times> bytes" where
  "cell_text c = (cstr (fst c), cstr (case snd c of Some v \<Rightarrow> v | None \<Rightarrow> ''NULL''))"

definition row_fits :: "row \<Rightarrow> bool" where
  "row_fits r \<longleftrightarrow> (\<forall>c \<in> set r. length (fst (cell_text c)) < sds_limit \<and> length (snd (cell_text c)) < sds_limit)"

definition rows_rep :: "'d site \<Rightarrow> (bytes \<times> bytes) list \<Rightarrow> bool" where
  "rows_rep w ps \<longleftrightarrow>
     length (kvp_array_sqldata w) = MAXPOSTSSHOWN \<and> selectcounter w = length ps \<and> length ps \<le> MAXPOSTSSHOWN
     \<and> list_all2 kv_rep (take (length ps) (kvp_array_sqldata w)) ps
     \<and> (\<forall>i < MAXPOSTSSHOWN. length ps \<le> i \<longrightarrow> kvp_array_sqldata w ! i = no_pair)
     \<and> \<not> dangling w"

lemma init_rows: "rows_rep (init_callback_sql w) []"
  by (simp add: rows_rep_def init_callback_sql_def)

lemma callback_runs:
  assumes "rows_rep w ps" "row_fits r"
  shows "(if length ps + length r \<le> MAXPOSTSSHOWN
      then runs (\<lambda>w'. rows_rep w' (ps @ map cell_text r) \<and> db w' = db w) (callback mem r w)
      else callback mem r w = None)"
  using assms
proof (induction r arbitrary: w ps)
  case (Cons c r)
  obtain name val where c: "c = (name, val)" by force
  let ?v = "case val of Some v \<Rightarrow> v | None \<Rightarrow> ''NULL''"
  have "length (cstr name) < sds_limit" "length (cstr ?v) < sds_limit"
    using Cons.prems(2) by (auto simp: row_fits_def cell_text_def c)
  from runs_createkeyvalue [OF this] obtain kv
    where kv: "createkeyvalue mem (Some name) (Some ?v) = Some kv" "kv_rep kv (cell_text c)"
    by (auto simp: runs_def cell_text_def c)
  have n: "selectcounter w = length ps" "length (kvp_array_sqldata w) = MAXPOSTSSHOWN"
    using Cons.prems(1) by (simp_all add: rows_rep_def)
  show ?case
  proof (cases "length ps < MAXPOSTSSHOWN")
    case False
    then show ?thesis using n kv(1) by (simp add: c)
  next
    case True
    let ?w = "w\<lparr>kvp_array_sqldata := (kvp_array_sqldata w)[length ps := kv], selectcounter := length ps + 1\<rparr>"
    have "take (length ps + 1) ((kvp_array_sqldata w)[length ps := kv]) = take (length ps) (kvp_array_sqldata w) @ [kv]"
      using True n by (simp add: take_Suc_conv_app_nth)
    then have rep: "rows_rep ?w (ps @ [cell_text c])"
      using Cons.prems(1) True kv(2) by (auto simp: rows_rep_def list_all2_appendI)
    have "row_fits r" using Cons.prems(2) by (simp add: row_fits_def)
    from Cons.IH [OF rep this] show ?thesis
      using True n kv(1) by (auto simp: c split: if_splits)
  qed
qed (simp add: rows_rep_def)

lemma callbacks_runs:
  assumes "rows_rep w ps" "\<forall>r \<in> set rs. row_fits r"
  shows "(if length ps + length (concat rs) \<le> MAXPOSTSSHOWN
      then runs (\<lambda>w'. rows_rep w' (ps @ map cell_text (concat rs)) \<and> db w' = db w) (callbacks mem rs w)
      else callbacks mem rs w = None)"
  using assms
proof (induction rs arbitrary: w ps)
  case (Cons r rs)
  have r: "row_fits r" using Cons.prems(2) by simp
  note step = callback_runs [OF Cons.prems(1) r]
  show ?case
  proof (cases "length ps + length r \<le> MAXPOSTSSHOWN")
    case False
    then have "callback mem r w = None" using step by simp
    with False show ?thesis by simp
  next
    case True
    with step obtain w1 where w1: "callback mem r w = Some w1" "rows_rep w1 (ps @ map cell_text r)" "db w1 = db w"
      by (auto simp: runs_def)
    from Cons.IH [OF w1(2)] Cons.prems(2) show ?thesis using w1(1,3) by (simp add: add.assoc split: if_splits)
  qed
qed (simp add: rows_rep_def)

section \<open>Properties\<close>

text \<open>C6: No argument can leave its place in a statement: read as SQL, the text that is put in for
  an argument is one string literal with exactly the bytes of the argument, so a query by category
  compares with the category that was asked for, and deleting a post names its title twice, whatever
  the bytes are.\<close>

theorem queries_quote_arguments:
  "(\<exists>q. select_by_category_en al exec (Some s) w = sql_select al exec
       (''SELECT title_EN,category,content_EN,created_at from posts WHERE category='' @ q) w
     \<and> sql_literal q = Some (cstr s, []))
   \<and> (\<exists>q. delete_post exec (Some s) w = sql_execute exec
       (''DELETE from posts where title_EN='' @ q @ '' or title_HUN='' @ q @ '';'') w
     \<and> sql_literal (q @ '' or title_HUN='' @ q @ '';'') = Some (cstr s, '' or title_HUN='' @ q @ '';'')
     \<and> sql_literal (q @ '';'') = Some (cstr s, '';''))"
  using sql_literal_text [of "[]" s] sql_literal_text [of "'' or title_HUN='' @ sql_text (Some s) @ '';''" s]
    sql_literal_text [of "'';''" s]
  by (auto simp: select_by_category_en_def delete_post_def intro!: exI [of _ "sql_text (Some s)"])

text \<open>C36: The rows of a query fill the array from its start, one pair for each column, with the text
  NULL for a missing value, and the database keeps the state the query left. With more than 100
  columns in all, that is more than 25 posts of four columns, the array is overrun.\<close>

theorem select_fills_array:
  assumes "exec sql (db w) = (d, rows)" "\<forall>r \<in> set rows. row_fits r"
  shows "(length (concat rows) \<le> 100 \<longrightarrow>
      runs (\<lambda>w'. db w' = d \<and> selectcounter w' = length (concat rows)
        \<and> list_all2 kv_rep (take (length (concat rows)) (kvp_array_sqldata w')) (map cell_text (concat rows)))
        (sql_select mem exec sql (init_callback_sql w)))
    \<and> (100 < length (concat rows) \<longrightarrow> sql_select mem exec sql (init_callback_sql w) = None)"
proof -
  let ?w = "(init_callback_sql w)\<lparr>db := d\<rparr>"
  have rep: "rows_rep ?w []" using init_rows [of w] by (simp add: rows_rep_def)
  have "sql_select mem exec sql (init_callback_sql w) = callbacks mem rows ?w"
    using assms(1) by (simp add: sql_select_def init_callback_sql_def)
  with callbacks_runs [OF rep assms(2)] show ?thesis
    by (auto simp: MAXPOSTSSHOWN_def rows_rep_def split: if_splits elim!: runs_mono)
qed

definition zero_site :: "unit site" where
  "zero_site = \<lparr>db = (), kvp_array_sqldata = replicate MAXPOSTSSHOWN no_pair, selectcounter = 0, dangling = False\<rparr>"

theorem select_fills_array_witness:
  "sql_select mem (\<lambda>sql d. (d, replicate 26 (replicate 4 (''title'', Some ''x'')))) ''SELECT'' (init_callback_sql zero_site)
     = None
   \<and> runs (\<lambda>w'. selectcounter w' = 4)
       (sql_select mem (\<lambda>sql d. (d, [replicate 4 (''title'', Some ''x'')])) ''SELECT'' (init_callback_sql zero_site))"
proof
  have "length (concat (replicate 26 (replicate 4 x))) = 104" for x :: "bytes \<times> bytes option"
    by (simp add: length_concat sum_list_replicate)
  then show "sql_select mem (\<lambda>sql d. (d, replicate 26 (replicate 4 (''title'', Some ''x'')))) ''SELECT'' (init_callback_sql zero_site)
     = None"
    using select_fills_array [of "\<lambda>sql d. (d, replicate 26 (replicate 4 (''title'', Some ''x'')))" "''SELECT''" zero_site]
    by (simp add: row_fits_def cell_text_def cstr_def sds_limit_def)
  have "runs (\<lambda>w'. db w' = () \<and> selectcounter w' = 4
      \<and> list_all2 kv_rep (take 4 (kvp_array_sqldata w')) (map cell_text (replicate 4 (''title'', Some ''x''))))
      (sql_select mem (\<lambda>sql d. (d, [replicate 4 (''title'', Some ''x'')])) ''SELECT'' (init_callback_sql zero_site))"
    using select_fills_array [of "\<lambda>sql d. (d, [replicate 4 (''title'', Some ''x'')])" "''SELECT''" zero_site]
    by (simp add: row_fits_def cell_text_def cstr_def sds_limit_def)
  then show "runs (\<lambda>w'. selectcounter w' = 4)
       (sql_select mem (\<lambda>sql d. (d, [replicate 4 (''title'', Some ''x'')])) ''SELECT'' (init_callback_sql zero_site))"
    by (rule runs_mono) blast
qed

end
