(* ===== verification/Percent_Decode.thy ===== *)
theory Percent_Decode
  imports Cweb_Prelude
begin

text \<open>
  \<open>percent_decode\<close> of \<open>server/backend/sql/sqlthings.c\<close>: the URL decoder the routes apply
  to form values. The result is the return code and the bytes it wrote to \<open>out\<close>, the
  terminator included.
\<close>

section \<open>The decoder\<close>

text \<open>The table \<open>tbl\<close>: hexadecimal digits to their value, everything else to -1.\<close>

definition pd_tbl :: "int list" where
  "pd_tbl =
     replicate 48 (-1) @ [0, 1, 2, 3, 4, 5, 6, 7, 8, 9] @ replicate 7 (-1)
     @ [10, 11, 12, 13, 14, 15] @ replicate 26 (-1)
     @ [10, 11, 12, 13, 14, 15] @ replicate 153 (-1)"

definition pd_val :: "char \<Rightarrow> int" where
  "pd_val c = pd_tbl ! byte c"

definition pd_byte :: "int \<Rightarrow> int \<Rightarrow> char" where
  "pd_byte v1 v2 = char_of (push_bit 4 (nat v1) OR nat v2)"

text \<open>On a bad digit the error path overwrites the first byte written with NUL.\<close>

definition pd_fail :: "bytes \<Rightarrow> int \<times> bytes" where
  "pd_fail out = (- 1, NUL # tl out)"

text \<open>
  The loop over the string at \<open>in\<close>: the first argument is the rest of it, without its
  terminator (so \<open>[]\<close> is the point where the code reads the terminating NUL, for which
  \<open>tbl\<close> holds -1); the second is what has been written to \<open>out\<close>.
\<close>

fun pd_loop :: "bytes \<Rightarrow> bytes \<Rightarrow> int \<times> bytes" where
  "pd_loop [] out = (0, out @ [NUL])"
| "pd_loop (c # inp) out =
     (if c = NUL then (0, out @ [NUL])
      else if c = CHR ''%'' then
        (case inp of
          [] \<Rightarrow> pd_fail out
        | h # inp1 \<Rightarrow>
            if pd_val h < 0 then pd_fail out
            else (case inp1 of
                [] \<Rightarrow> pd_fail out
              | l # inp2 \<Rightarrow>
                  if pd_val l < 0 then pd_fail out
                  else pd_loop inp2 (out @ [pd_byte (pd_val h) (pd_val l)])))
      else pd_loop inp (out @ [c]))"

definition percent_decode :: "bytes option \<Rightarrow> int \<times> bytes" where
  "percent_decode inp = (case inp of None \<Rightarrow> (0, [NUL]) | Some s \<Rightarrow> pd_loop s [])"

section \<open>The table\<close>

definition hex_value :: "nat \<Rightarrow> int" where
  "hex_value n =
     (if 48 \<le> n \<and> n \<le> 57 then int n - 48
      else if 65 \<le> n \<and> n \<le> 70 then int n - 55
      else if 97 \<le> n \<and> n \<le> 102 then int n - 87 else -1)"

lemma pd_tbl_hex: "list_all (\<lambda>n. pd_tbl ! n = hex_value n) [0..<256]"
  by code_simp

lemma pd_val_hex: "pd_val c = hex_value (byte c)"
  using pd_tbl_hex by (simp add: pd_val_def list_all_iff)

lemma pd_val_range: "- 1 \<le> pd_val c \<and> pd_val c \<le> 15"
  by (auto simp: pd_val_hex hex_value_def)

section \<open>One equation per kind of input\<close>

lemma pd_loop_NUL [simp]: "pd_loop (NUL # s) out = (0, out @ [NUL])"
  by simp

lemma pd_loop_plain [simp]:
  "c \<noteq> NUL \<Longrightarrow> c \<noteq> CHR ''%'' \<Longrightarrow> pd_loop (c # s) out = pd_loop s (out @ [c])"
  by simp

lemma pd_loop_short [simp]:
  "pd_loop [CHR ''%''] out = pd_fail out"
  "pd_loop [CHR ''%'', h] out = pd_fail out"
  by simp_all

lemma pd_loop_escape [simp]:
  "pd_loop (CHR ''%'' # h # l # s) out =
     (if 0 \<le> pd_val h \<and> 0 \<le> pd_val l
      then pd_loop s (out @ [pd_byte (pd_val h) (pd_val l)]) else pd_fail out)"
  by auto

declare pd_loop.simps(2) [simp del]

text \<open>Induction over the input that follows these equations.\<close>

lemma pd_input_induct [case_names Nil NUL Short Escape Plain]:
  fixes P :: "bytes \<Rightarrow> bytes \<Rightarrow> bool"
  assumes "\<And>out. P [] out"
    and "\<And>s out. P (NUL # s) out"
    and "\<And>s out. length s < 2 \<Longrightarrow> P (CHR ''%'' # s) out"
    and "\<And>h l s out. (\<And>out. P s out) \<Longrightarrow> P (CHR ''%'' # h # l # s) out"
    and "\<And>c s out. c \<noteq> NUL \<Longrightarrow> c \<noteq> CHR ''%'' \<Longrightarrow> (\<And>out. P s out) \<Longrightarrow> P (c # s) out"
  shows "P s out"
proof (induction s arbitrary: out rule: length_induct)
  case (1 s)
  show ?case
  proof (cases s)
    case Nil
    then show ?thesis using assms(1) by simp
  next
    case (Cons c r)
    consider "c = NUL" | "c = CHR ''%''" "length r < 2"
      | h l t where "c = CHR ''%''" "r = h # l # t" | "c \<noteq> NUL" "c \<noteq> CHR ''%''"
      by (cases r rule: remdups_adj.cases) auto
    then show ?thesis
      using Cons 1 assms by cases simp_all
  qed
qed

lemma short_cases: "length s < 2 \<Longrightarrow> s = [] \<or> (\<exists>h. s = [h])"
  by (cases s rule: remdups_adj.cases) auto

section \<open>Length of the output\<close>

lemma pd_loop_length:
  "length (snd (pd_loop inp out)) \<le> length out + length inp + 1"
proof (induction inp out rule: pd_input_induct)
  case (Short s out)
  then show ?case by (auto simp: pd_fail_def dest!: short_cases)
next
  case (Escape h l s out)
  from Escape [of "out @ [pd_byte (pd_val h) (pd_val l)]"]
  show ?case by (auto simp: pd_fail_def)
next
  case (Plain c s out)
  from Plain(1,2) Plain(3) [of "out @ [c]"] show ?case by simp
qed simp_all

text \<open>The decoder writes at most one byte more than its input has, so the buffers of
  \<open>sdslen(value)+1\<close> bytes the routes allocate for it are never overrun, whatever the request
  holds and whether or not decoding fails.\<close>

theorem percent_decode_fits: "length (snd (percent_decode (Some s))) \<le> length s + 1"
  using pd_loop_length [of s "[]"] by (simp add: percent_decode_def)

section \<open>Round trip with percent encoding\<close>

text \<open>
  RFC 3986 encoding as the reference: bytes that \<open>keep\<close> accepts stand for themselves, any
  other byte is a percent sign and two upper case hexadecimal digits.
\<close>

definition hex_digit :: "nat \<Rightarrow> char" where
  "hex_digit n = ''0123456789ABCDEF'' ! n"

definition percent_encode :: "(char \<Rightarrow> bool) \<Rightarrow> bytes \<Rightarrow> bytes" where
  "percent_encode keep s =
     concat (map (\<lambda>c. if keep c then [c]
       else [CHR ''%'', hex_digit (byte c div 16), hex_digit (byte c mod 16)]) s)"

lemma hex_digit_value: "n < 16 \<Longrightarrow> pd_val (hex_digit n) = int n"
proof -
  have "list_all (\<lambda>n. pd_val (hex_digit n) = int n) [0..<16]" by code_simp
  then show "n < 16 \<Longrightarrow> pd_val (hex_digit n) = int n" by (simp add: list_all_iff)
qed

lemma pd_byte_digits: "pd_byte (int (byte c div 16)) (int (byte c mod 16)) = c"
proof -
  have "push_bit 4 (byte c div 16) OR byte c mod 16 = byte c"
    using or_disjoint [of "byte c mod 16" 4 "byte c div 16"] by (simp add: push_bit_eq_mult)
  then show ?thesis by (simp add: pd_byte_def byte_def)
qed

lemma pd_loop_encode:
  assumes "\<not> keep (CHR ''%'')" "\<not> keep NUL"
  shows "pd_loop (percent_encode keep s) out = (0, out @ s @ [NUL])"
proof (induction s arbitrary: out)
  case Nil
  then show ?case by (simp add: percent_encode_def)
next
  case (Cons c s)
  have "byte c div 16 < 16" by (simp add: div_less_iff_less_mult)
  then have "pd_val (hex_digit (byte c div 16)) = int (byte c div 16)"
    "pd_val (hex_digit (byte c mod 16)) = int (byte c mod 16)"
    by (simp_all add: hex_digit_value)
  moreover have "keep c \<Longrightarrow> c \<noteq> NUL \<and> c \<noteq> CHR ''%''" using assms by auto
  ultimately show ?case
    using Cons pd_byte_digits [of c] by (auto simp: percent_encode_def)
qed

text \<open>C29: Decoding inverts percent encoding: for every choice of the bytes an encoder leaves
  unescaped (never the percent sign or NUL), decoding an encoded string succeeds and writes
  exactly the original bytes and the terminator, NUL bytes of the original included.\<close>

theorem percent_decode_encode:
  assumes "\<not> keep (CHR ''%'')" "\<not> keep NUL"
  shows "percent_decode (Some (percent_encode keep s)) = (0, s @ [NUL])"
  using pd_loop_encode [OF assms, of s "[]"] by (simp add: percent_decode_def)

theorem percent_decode_encode_witness:
  "percent_decode (Some (percent_encode (\<lambda>c. c = CHR ''a'') ''a b'')) = (0, ''a b'' @ [NUL])"
  by (rule percent_decode_encode) simp_all

section \<open>Errors\<close>

text \<open>An escape is well formed when two hexadecimal digits follow the percent sign.\<close>

fun well_escaped :: "bytes \<Rightarrow> bool" where
  "well_escaped [] = True"
| "well_escaped (c # s) =
     (if c = NUL then True
      else if c = CHR ''%'' then
        (case s of h # l # s' \<Rightarrow>
            0 \<le> hex_value (byte h) \<and> 0 \<le> hex_value (byte l) \<and> well_escaped s'
         | _ \<Rightarrow> False)
      else well_escaped s)"

lemma pd_loop_error_iff: "fst (pd_loop inp out) = (if well_escaped inp then 0 else - 1)"
  by (induction inp out rule: pd_input_induct)
    (auto simp: pd_fail_def pd_val_hex dest!: short_cases)

lemma pd_loop_error_empty:
  "fst (pd_loop inp out) = - 1 \<Longrightarrow> cstr (snd (pd_loop inp out)) = []"
  by (induction inp out rule: pd_input_induct)
    (auto simp: pd_fail_def cstr_def split: if_splits dest!: short_cases)

text \<open>The decoder fails exactly on the strings that hold, before their end, a percent sign
  without two hexadecimal digits after it; on failure the caller sees the empty string, and it
  never reads past the terminator of its input.\<close>

theorem percent_decode_error:
  "fst (percent_decode (Some s)) = (if well_escaped s then 0 else - 1)
   \<and> (\<not> well_escaped s \<longrightarrow> cstr (snd (percent_decode (Some s))) = [])"
  using pd_loop_error_iff [of s "[]"] pd_loop_error_empty [of s "[]"]
  by (auto simp: percent_decode_def)

theorem percent_decode_error_witness:
  "\<not> well_escaped ''a%4'' \<and> cstr (snd (percent_decode (Some ''a%4''))) = []"
  using percent_decode_error [of "''a%4''"] by simp

end
