(* ===== verification/Base64.thy ===== *)
theory Base64
  imports Cweb_Prelude
begin

text \<open>
  \<open>server/base64.h\<close>: the encoder the update route answers with and the decoder the save
  route applies to the article it receives. Buffers are lists of cells, fresh ones
  uninitialised; \<open>al n\<close> says whether \<open>malloc(n)\<close> succeeds. A result \<open>None\<close> is
  undefined behaviour (the overflow of an \<open>int\<close> among them), \<open>Some (None, flen)\<close> the
  returned NULL pointer.
\<close>

section \<open>Encoder\<close>

definition b64 :: bytes where
  "b64 = ''ABCDEFGHIJKLMNOPQRSTUVWXYZabcdefghijklmnopqrstuvwxyz0123456789+/''"

definition b64_pad :: "nat \<Rightarrow> nat" where
  "b64_pad len =
     (let modulusLen = len mod 3
      in push_bit 1 (modulusLen AND 1) + drop_bit 1 (modulusLen AND 2))"

definition b64_len :: "nat \<Rightarrow> nat" where
  "b64_len len = 4 * (len + b64_pad len) div 3"

text \<open>The four characters of a full group, and those of a final group of one or two bytes.\<close>

definition enc3 :: "char \<Rightarrow> char \<Rightarrow> char \<Rightarrow> bytes" where
  "enc3 c0 c1 c2 =
     (let BYTE0 = byte c0; BYTE1 = byte c1; BYTE2 = byte c2
      in [b64 ! drop_bit 2 BYTE0,
          b64 ! (push_bit 4 (3 AND BYTE0) + drop_bit 4 BYTE1),
          b64 ! (push_bit 2 (15 AND BYTE1) + drop_bit 6 BYTE2),
          b64 ! (63 AND BYTE2)])"

definition enc1 :: "char \<Rightarrow> bytes" where
  "enc1 c0 = [b64 ! drop_bit 2 (byte c0), b64 ! push_bit 4 (3 AND byte c0), CHR ''='', CHR ''='']"

definition enc2 :: "char \<Rightarrow> char \<Rightarrow> bytes" where
  "enc2 c0 c1 =
     [b64 ! drop_bit 2 (byte c0),
      b64 ! (push_bit 4 (3 AND byte c0) + drop_bit 4 (byte c1)),
      b64 ! push_bit 2 (15 AND byte c1), CHR ''='']"

text \<open>The loop over the full groups: what it writes, and the bytes left at \<open>byteNo\<close>.\<close>

fun base64_loop :: "bytes \<Rightarrow> bytes \<times> bytes" where
  "base64_loop (c0 # c1 # c2 # rest) =
     (let (out, left) = base64_loop rest in (enc3 c0 c1 c2 @ out, left))"
| "base64_loop left = ([], left)"

definition base64_tail :: "nat \<Rightarrow> bytes \<Rightarrow> bytes run" where
  "base64_tail pad left =
     (if pad = 2 then do { c0 \<leftarrow> rd left 0; Some (enc1 c0) }
      else if pad = 1 then do { c0 \<leftarrow> rd left 0; c1 \<leftarrow> rd left 1; Some (enc2 c0 c1) }
      else Some [])"

definition base64 :: "(nat \<Rightarrow> bool) \<Rightarrow> bytes \<Rightarrow> (cell list option \<times> nat) run" where
  "base64 al bin =
     (let len = length bin; pad = b64_pad len; flen = b64_len len in
      if 2 ^ 31 \<le> 4 * (len + pad) then None
      else if \<not> al (flen + 1) then Some (None, flen)
      else do {
        let (out, left) = base64_loop bin;
        res \<leftarrow> puts (replicate (flen + 1) None) 0 out;
        t \<leftarrow> base64_tail pad left;
        res \<leftarrow> puts res (length out) t;
        res \<leftarrow> put res (length out + length t) NUL;
        Some (Some res, flen)
      })"

section \<open>Decoder\<close>

definition unb64 :: "nat list" where
  "unb64 =
     replicate 43 0 @ [62, 0, 0, 0, 63, 52, 53, 54, 55, 56, 57, 58, 59, 60, 61]
     @ replicate 7 0 @ [0..<26] @ replicate 6 0 @ [26..<52] @ replicate 133 0"

definition unb64_of :: "char \<Rightarrow> nat" where
  "unb64_of c = unb64 ! byte c"

definition dec3 :: "nat \<Rightarrow> nat \<Rightarrow> nat \<Rightarrow> nat \<Rightarrow> bytes" where
  "dec3 A B C D =
     [char_of (push_bit 2 A OR drop_bit 4 B), char_of (push_bit 4 B OR drop_bit 2 C),
      char_of (push_bit 6 C OR D)]"

text \<open>\<open>unbase64\<close>: the loop runs while \<open>charNo <= len - 4 - pad\<close>.\<close>

function unbase64_loop ::
  "bytes \<Rightarrow> int \<Rightarrow> nat \<Rightarrow> cell list \<Rightarrow> nat \<Rightarrow> (nat \<times> cell list \<times> nat) run" where
  "unbase64_loop ascii bound charNo bin cb =
     (if int charNo \<le> bound then do {
        a \<leftarrow> rd ascii charNo;
        b \<leftarrow> rd ascii (charNo + 1);
        c \<leftarrow> rd ascii (charNo + 2);
        d \<leftarrow> rd ascii (charNo + 3);
        bin' \<leftarrow> puts bin cb (dec3 (unb64_of a) (unb64_of b) (unb64_of c) (unb64_of d));
        unbase64_loop ascii bound (charNo + 4) bin' (cb + 3)
      }
      else Some (charNo, bin, cb))"
  by pat_completeness auto
termination
  by (relation "measure (\<lambda>(ascii, bound, charNo, bin, cb). nat (bound + 1 - int charNo))") auto

declare unbase64_loop.simps [simp del]

definition unbase64_tail :: "bytes \<Rightarrow> nat \<Rightarrow> nat \<Rightarrow> cell list \<Rightarrow> nat \<Rightarrow> cell list run" where
  "unbase64_tail ascii pad charNo bin cb =
     (if pad = 1 then do {
        a \<leftarrow> rd ascii charNo;
        b \<leftarrow> rd ascii (charNo + 1);
        c \<leftarrow> rd ascii (charNo + 2);
        puts bin cb (take 2 (dec3 (unb64_of a) (unb64_of b) (unb64_of c) 0))
      }
      else if pad = 2 then do {
        a \<leftarrow> rd ascii charNo;
        b \<leftarrow> rd ascii (charNo + 1);
        puts bin cb (take 1 (dec3 (unb64_of a) (unb64_of b) 0 0))
      }
      else Some bin)"

definition unb_pad :: "char \<Rightarrow> char \<Rightarrow> nat" where
  "unb_pad e1 e2 = of_bool (e1 = CHR ''='') + of_bool (e2 = CHR ''='')"

text \<open>
  The buffer is set to zero before the code looks whether \<open>malloc\<close> succeeded, with a length
  of \<open>*flen\<close> converted to \<open>size_t\<close>: a negative \<open>flen\<close> or a failed allocation is
  undefined behaviour there. The \<open>memset\<close> covers \<open>flen\<close> of the \<open>flen + 1\<close> bytes.
\<close>

definition unbase64 :: "(nat \<Rightarrow> bool) \<Rightarrow> bytes \<Rightarrow> nat \<Rightarrow> (cell list option \<times> int) run" where
  "unbase64 al ascii len =
     (if len < 2 then Some (None, 0)
      else if 2 ^ 31 \<le> 3 * len then None
      else do {
        e1 \<leftarrow> rd ascii (len - 1);
        e2 \<leftarrow> rd ascii (len - 2);
        let pad = unb_pad e1 e2;
        let flen = int (3 * len div 4) - int pad;
        if flen < 0 \<or> \<not> al (nat (flen + 1)) then None
        else do {
          let bin = replicate (nat flen) (Some NUL) @ [None];
          (charNo, bin, cb) \<leftarrow> unbase64_loop ascii (int len - 4 - int pad) 0 bin 0;
          bin \<leftarrow> unbase64_tail ascii pad charNo bin cb;
          Some (Some bin, flen)
        }
      })"

section \<open>The encoder against RFC 4648\<close>

text \<open>
  The reference: the bits of the input, most significant first, in groups of six (the last one
  filled with zero bits), each written as a character of the alphabet, and equals signs up to a
  multiple of four characters.
\<close>

fun byte_bits :: "char \<Rightarrow> bool list" where
  "byte_bits (Char b0 b1 b2 b3 b4 b5 b6 b7) = [b7, b6, b5, b4, b3, b2, b1, b0]"

definition bits_value :: "bool list \<Rightarrow> nat" where
  "bits_value bs = foldl (\<lambda>v b. 2 * v + of_bool b) 0 bs"

function sextets :: "bool list \<Rightarrow> nat list" where
  "sextets bs =
     (if bs = [] then []
      else bits_value (take 6 (bs @ replicate 5 False)) # sextets (drop 6 bs))"
  by pat_completeness auto
termination by (relation "measure length") auto

declare sextets.simps [simp del]

definition rfc4648 :: "bytes \<Rightarrow> bytes" where
  "rfc4648 bin =
     map (\<lambda>n. b64 ! n) (sextets (concat (map byte_bits bin)))
     @ replicate ((3 - length bin mod 3) mod 3) (CHR ''='')"

lemma byte_Char:
  "byte (Char b0 b1 b2 b3 b4 b5 b6 b7) =
     of_bool b0 + 2 * of_bool b1 + 4 * of_bool b2 + 8 * of_bool b3
     + 16 * of_bool b4 + 32 * of_bool b5 + 64 * of_bool b6 + 128 * of_bool b7"
  by (simp add: byte_def of_char_Char)

lemma byte_parts:
  fixes b0 b1 b2 b3 b4 b5 b6 b7 :: bool
  defines "n \<equiv> byte (Char b0 b1 b2 b3 b4 b5 b6 b7)"
  shows "n div 4 = bits_value [b7, b6, b5, b4, b3, b2]"
    "n mod 4 = bits_value [b1, b0]"
    "n div 16 = bits_value [b7, b6, b5, b4]"
    "n mod 16 = bits_value [b3, b2, b1, b0]"
    "n div 64 = bits_value [b7, b6]"
    "n mod 64 = bits_value [b5, b4, b3, b2, b1, b0]"
  by (cases b0; cases b1; cases b2; cases b3; cases b4; cases b5; cases b6; cases b7;
      simp add: n_def byte_Char bits_value_def)+

lemma bits_value_append:
  "bits_value (xs @ ys) = bits_value xs * 2 ^ length ys + bits_value ys"
proof -
  have "foldl (\<lambda>v b. 2 * v + of_bool b) v ys
      = v * 2 ^ length ys + foldl (\<lambda>v b. 2 * v + of_bool b) (0::nat) ys" for v
  proof (induction ys arbitrary: v)
    case (Cons y ys)
    show ?case
      using Cons.IH [of "2 * v + of_bool y"] Cons.IH [of "of_bool y"]
      by (simp add: algebra_simps)
  qed simp
  from this [of "bits_value xs"] show ?thesis by (simp add: bits_value_def)
qed

lemma sextets_Nil [simp]: "sextets [] = []"
  by (simp add: sextets.simps)

lemma sextets_Cons6 [simp]:
  "sextets (a # b # c # d # e # f # bs) = bits_value [a, b, c, d, e, f] # sextets bs"
  by (simp add: sextets.simps [of "a # b # c # d # e # f # bs"])

lemma sextets_rest [simp]:
  "sextets [a, b] = [bits_value [a, b, False, False, False, False]]"
  "sextets [a, b, c, d] = [bits_value [a, b, c, d, False, False]]"
  by (simp_all add: sextets.simps [of "[a, b]"] sextets.simps [of "[a, b, c, d]"]
      eval_nat_numeral)

lemmas enc_simps =
  and.commute [of _ "byte _"] and_mask_mod drop_bit_eq_div push_bit_eq_mult byte_parts

lemma enc3_sextets:
  "map ((!) b64) (sextets (byte_bits c0 @ byte_bits c1 @ byte_bits c2 @ bs))
     = enc3 c0 c1 c2 @ map ((!) b64) (sextets bs)"
  by (cases c0; cases c1; cases c2)
    (simp add: enc3_def Let_def enc_simps, simp add: bits_value_def)

lemma enc1_sextets: "map ((!) b64) (sextets (byte_bits c0)) @ ''=='' = enc1 c0"
  by (cases c0) (simp add: enc1_def enc_simps, simp add: bits_value_def)

lemma enc2_sextets: "map ((!) b64) (sextets (byte_bits c0 @ byte_bits c1)) @ ''='' = enc2 c0 c1"
  by (cases c0; cases c1) (simp add: enc2_def enc_simps, simp add: bits_value_def)

lemma base64_loop_props:
  "base64_loop bin = (out, left) \<Longrightarrow>
     length left = length bin mod 3 \<and> length out = 4 * (length bin div 3)
     \<and> map ((!) b64) (sextets (concat (map byte_bits bin)))
       = out @ map ((!) b64) (sextets (concat (map byte_bits left)))"
proof (induction bin arbitrary: out left rule: base64_loop.induct)
  case (1 c0 c1 c2 rest)
  obtain o' l' where r: "base64_loop rest = (o', l')" by fastforce
  with "1.prems" have "out = enc3 c0 c1 c2 @ o'" "left = l'" by auto
  moreover have "(3 + length rest) div 3 = Suc (length rest div 3)" by simp
  moreover have "length (enc3 c0 c1 c2) = 4" by (simp add: enc3_def Let_def)
  ultimately show ?case
    using "1.IH" [OF r] by (simp add: enc3_sextets)
qed auto

lemma b64_pad_cases:
  "b64_pad len = (if len mod 3 = 0 then 0 else if len mod 3 = 1 then 2 else 1)"
proof -
  have "len mod 3 < 3" by simp
  then consider "len mod 3 = 0" | "len mod 3 = 1" | "len mod 3 = 2" by linarith
  then show ?thesis by cases (simp_all add: b64_pad_def Let_def)
qed

lemma div3_cases:
  obtains (zero) q where "(n::nat) = 3 * q" | (one) q where "n = 3 * q + 1"
  | (two) q where "n = 3 * q + 2"
proof -
  have "n = 3 * (n div 3) + n mod 3" "n mod 3 < 3" by simp_all
  then show thesis using zero [of "n div 3"] one [of "n div 3"] two [of "n div 3"] by linarith
qed

lemma div3_simps [simp]:
  "Suc (3 * q) div 3 = q" "Suc (Suc (3 * q)) div 3 = q"
  "Suc (3 * q) mod 3 = 1" "Suc (Suc (3 * q)) mod 3 = 2"
  by presburger+

lemma b64_len_eq: "b64_len len = 4 * ((len + 2) div 3)"
  by (cases len rule: div3_cases) (simp_all add: b64_len_def b64_pad_cases)

lemma base64_tail_sextets:
  assumes "length left < 3"
  shows "base64_tail (b64_pad (length left)) left =
     Some (map ((!) b64) (sextets (concat (map byte_bits left)))
           @ replicate ((3 - length left) mod 3) (CHR ''=''))"
proof -
  consider "left = []" | c where "left = [c]" | c d where "left = [c, d]"
    using assms by (cases left rule: remdups_adj.cases) auto
  then show ?thesis
  proof cases
    case 1
    then show ?thesis by (simp add: base64_tail_def b64_pad_cases)
  next
    case 2
    have "b64_pad 1 = 2" "replicate 2 (CHR ''='') = ''==''"
      by (simp_all add: b64_pad_cases numeral_2_eq_2)
    with 2 enc1_sextets [of c] show ?thesis by (simp add: base64_tail_def)
  next
    case 3
    have "b64_pad (Suc (Suc 0)) = 1" by (simp add: b64_pad_cases)
    with 3 enc2_sextets [of c d] show ?thesis by (simp add: base64_tail_def)
  qed
qed

lemma base64_tail_length:
  "base64_tail pad left = Some t \<Longrightarrow> length t = (if pad = 1 \<or> pad = 2 then 4 else 0)"
  by (auto simp: base64_tail_def enc1_def enc2_def split: if_splits bind_splits)

lemma b64_pad_mod: "b64_pad (n mod 3) = b64_pad n"
  by (simp add: b64_pad_cases)

lemma base64_shape:
  assumes "base64_loop bin = (out, left)"
  obtains t where "base64_tail (b64_pad (length bin)) left = Some t"
    "rfc4648 bin = out @ t" "length (out @ t) = b64_len (length bin)"
proof -
  note props = base64_loop_props [OF assms]
  let ?t = "map ((!) b64) (sextets (concat (map byte_bits left)))
    @ replicate ((3 - length left) mod 3) (CHR ''='')"
  have t: "base64_tail (b64_pad (length bin)) left = Some ?t"
    using base64_tail_sextets [of left] props b64_pad_mod [of "length bin"] by simp
  have "length ?t = (if b64_pad (length bin) = 1 \<or> b64_pad (length bin) = 2 then 4 else 0)"
    by (rule base64_tail_length [OF t])
  moreover have "length out = 4 * (length bin div 3)" using props by simp
  ultimately have "length (out @ ?t) = b64_len (length bin)"
    by (cases "length bin" rule: div3_cases) (simp_all add: b64_len_eq b64_pad_cases)
  moreover have "rfc4648 bin = out @ ?t" using props by (simp add: rfc4648_def)
  ultimately show thesis using t that by blast
qed

lemma base64_computes:
  assumes "4 * (length bin + 2) < 2 ^ 31"
  shows "base64 al bin =
     Some (if al (b64_len (length bin) + 1)
           then Some (map Some (rfc4648 bin) @ [Some NUL]) else None,
           b64_len (length bin))
   \<and> length (rfc4648 bin) = b64_len (length bin)"
proof -
  obtain out left where loop: "base64_loop bin = (out, left)" by fastforce
  obtain t where t: "base64_tail (b64_pad (length bin)) left = Some t"
    "rfc4648 bin = out @ t" "length (out @ t) = b64_len (length bin)"
    by (rule base64_shape [OF loop])
  let ?n = "b64_len (length bin)"
  let ?fresh = "replicate (?n + 1) None :: cell list"
  have p1: "puts ?fresh 0 out = Some (overwrite ?fresh 0 out)"
    using t(3) by (intro puts_fits) simp
  have p2: "puts (overwrite ?fresh 0 out) (length out) t = Some (map Some (out @ t) @ [None])"
  proof -
    have "puts (overwrite ?fresh 0 out) (0 + length out) t
        = Some (overwrite (overwrite ?fresh 0 out) (0 + length out) t)"
      using t(3) by (intro puts_fits) simp
    also have "overwrite (overwrite ?fresh 0 out) (0 + length out) t = overwrite ?fresh 0 (out @ t)"
      using t(3) by (intro overwrite_append) simp
    also have "\<dots> = map Some (out @ t) @ [None]"
      using t(3) by (subst overwrite_0_fresh) simp_all
    finally show ?thesis by simp
  qed
  have p3: "put (map Some (out @ t) @ [None]) (length out + length t) NUL
      = Some (map Some (out @ t) @ [Some NUL])"
    by (simp add: put_def list_update_append)
  have "\<not> 2 ^ 31 \<le> 4 * (length bin + b64_pad (length bin))"
    using assms b64_pad_cases [of "length bin"] by (simp split: if_splits)
  then show ?thesis
    using t(2,3) by (simp only: base64_def Let_def loop case_prod_conv p1 p2 p3 t(1)
        bind.bind_lunit option.simps not_not if_distrib cong: if_cong) simp
qed

text \<open>C26: The encoder computes the RFC 4648 encoding: for every input, when the allocation
  succeeds, it returns a buffer that holds the reference encoding and a terminating NUL, sets
  \<open>*flen\<close> to the length of the encoding, and never writes outside the buffer or reads
  outside the input; when the allocation fails it returns NULL. The bound on the input is the
  one under which \<open>4*(len + pad)\<close> fits an \<open>int\<close>.\<close>

theorem base64_rfc4648:
  assumes "4 * (length bin + 2) < 2 ^ 31"
  shows "base64 al bin =
     Some (if al (b64_len (length bin) + 1)
           then Some (map Some (rfc4648 bin) @ [Some NUL]) else None,
           b64_len (length bin))
   \<and> length (rfc4648 bin) = b64_len (length bin)"
  by (rule base64_computes [OF assms])

section \<open>The decoder undoes the encoder\<close>

lemma bits_value_less: "bits_value bs < 2 ^ length bs"
proof (induction bs rule: rev_induct)
  case (snoc b bs)
  then show ?case by (cases b) (simp_all add: bits_value_def)
qed (simp add: bits_value_def)

lemma bits_value_join:
  assumes "k = length ys" "l = length zs"
  shows "push_bit k (bits_value xs) OR drop_bit l (bits_value (ys @ zs)) = bits_value (xs @ ys)"
proof -
  have "drop_bit l (bits_value (ys @ zs)) = bits_value ys"
    using bits_value_less [of zs] assms by (simp add: drop_bit_eq_div bits_value_append)
  then show ?thesis
    using or_disjoint [OF bits_value_less, of ys "bits_value xs"] assms
    by (simp add: bits_value_append push_bit_eq_mult)
qed

lemma bits_value_byte: "char_of (bits_value (xs @ byte_bits c)) = c"
proof -
  have "bits_value (byte_bits c) = byte c"
    by (cases c) (simp add: bits_value_def byte_Char)
  moreover have "length (byte_bits c) = 8" by (cases c) simp
  ultimately have "bits_value (xs @ byte_bits c) mod 256 = byte c"
    by (simp add: bits_value_append)
  then show ?thesis
    by (metis byte_def char_of_char char_of_mod_256)
qed

lemma unb64_table: "map unb64_of b64 = [0..<64]" "CHR ''='' \<notin> set b64"
  by code_simp+

lemma length_b64 [simp]: "length b64 = 64"
  by (simp add: b64_def)

lemma unb64_of_b64 [simp]:
  assumes "n < 64" shows "unb64_of (b64 ! n) = n" "b64 ! n \<noteq> CHR ''=''"
proof -
  have "unb64_of (b64 ! n) = map unb64_of b64 ! n" using assms by simp
  then show "unb64_of (b64 ! n) = n" using assms unb64_table(1) by simp
  show "b64 ! n \<noteq> CHR ''=''" using assms unb64_table(2) by (metis length_b64 nth_mem)
qed

lemma unb64_of_bits [simp]:
  "unb64_of (b64 ! bits_value [a, b, c, d, e, f]) = bits_value [a, b, c, d, e, f]"
  "b64 ! bits_value [a, b, c, d, e, f] \<noteq> CHR ''=''"
  using bits_value_less [of "[a, b, c, d, e, f]"] by simp_all

lemma dec3_bits:
  "dec3 (bits_value [a7, a6, a5, a4, a3, a2]) (bits_value [a1, a0, b7, b6, b5, b4])
     (bits_value [b3, b2, b1, b0, c7, c6]) (bits_value [c5, c4, c3, c2, c1, c0])
   = [Char a0 a1 a2 a3 a4 a5 a6 a7, Char b0 b1 b2 b3 b4 b5 b6 b7, Char c0 c1 c2 c3 c4 c5 c6 c7]"
proof -
  have "push_bit 2 (bits_value [a7, a6, a5, a4, a3, a2])
        OR drop_bit 4 (bits_value ([a1, a0] @ [b7, b6, b5, b4]))
      = bits_value ([] @ byte_bits (Char a0 a1 a2 a3 a4 a5 a6 a7))"
    by (subst bits_value_join) simp_all
  moreover have "push_bit 4 (bits_value [a1, a0, b7, b6, b5, b4])
        OR drop_bit 2 (bits_value ([b3, b2, b1, b0] @ [c7, c6]))
      = bits_value ([a1, a0] @ byte_bits (Char b0 b1 b2 b3 b4 b5 b6 b7))"
    by (subst bits_value_join) simp_all
  moreover have "push_bit 6 (bits_value [b3, b2, b1, b0, c7, c6])
        OR drop_bit 0 (bits_value ([c5, c4, c3, c2, c1, c0] @ []))
      = bits_value ([b3, b2, b1, b0] @ byte_bits (Char c0 c1 c2 c3 c4 c5 c6 c7))"
    by (subst bits_value_join) simp_all
  ultimately show ?thesis
    using bits_value_byte [of "[]" "Char a0 a1 a2 a3 a4 a5 a6 a7"]
      bits_value_byte [of "[a1, a0]" "Char b0 b1 b2 b3 b4 b5 b6 b7"]
      bits_value_byte [of "[b3, b2, b1, b0]" "Char c0 c1 c2 c3 c4 c5 c6 c7"]
    by (simp add: dec3_def)
qed

text \<open>The bytes the full groups of an encoded text stand for.\<close>

fun dec_groups :: "bytes \<Rightarrow> bytes" where
  "dec_groups (a # b # c # d # rest) =
     dec3 (unb64_of a) (unb64_of b) (unb64_of c) (unb64_of d) @ dec_groups rest"
| "dec_groups _ = []"

lemma length_dec3 [simp]: "length (dec3 A B C D) = 3"
  by (simp add: dec3_def)

lemma length_dec_groups: "length s = 4 * k \<Longrightarrow> length (dec_groups s) = 3 * k"
proof (induction s arbitrary: k rule: dec_groups.induct)
  case (1 a b c d rest)
  then show ?case by (cases k) simp_all
qed simp_all

lemma unbase64_loop_groups:
  assumes "pre @ mid @ post = ascii" "length mid = 4 * k"
    "4 * int (length mid div 4) - 4 + int (length pre) \<le> bound"
    "bound < 4 * int (length mid div 4) + int (length pre)"
    "cb + 3 * k \<le> length bin"
  shows "unbase64_loop ascii bound (length pre) bin cb =
     Some (length pre + length mid, overwrite bin cb (dec_groups mid), cb + 3 * k)"
  using assms
proof (induction k arbitrary: pre mid bin cb)
  case 0
  then show ?case by (subst unbase64_loop.simps) simp
next
  case (Suc k)
  then obtain a b c d rest where mid: "mid = a # b # c # d # rest" "length rest = 4 * k"
    by (cases mid rule: dec_groups.cases) auto
  let ?D = "dec3 (unb64_of a) (unb64_of b) (unb64_of c) (unb64_of d)"
  have nth: "rd ascii (length pre) = Some a" "rd ascii (length pre + 1) = Some b"
    "rd ascii (length pre + 2) = Some c" "rd ascii (length pre + 3) = Some d"
    using Suc.prems(1) mid(1) by (auto simp: rd_def nth_append)
  have four: "length (pre @ [a, b, c, d]) = length pre + 4" by simp
  have IH: "unbase64_loop ascii bound (length (pre @ [a, b, c, d])) (overwrite bin cb ?D) (cb + 3) =
     Some (length (pre @ [a, b, c, d]) + length rest,
           overwrite (overwrite bin cb ?D) (cb + 3) (dec_groups rest), cb + 3 + 3 * k)"
    using Suc.prems mid by (intro Suc.IH) auto
  note IH [unfolded four]
  moreover have "overwrite (overwrite bin cb ?D) (cb + 3) (dec_groups rest)
      = overwrite bin cb (dec_groups mid)"
    using Suc.prems(5) mid overwrite_append [of cb ?D "dec_groups rest" bin]
      length_dec_groups [OF mid(2)] by simp
  moreover have "int (length pre) \<le> bound" using Suc.prems(3) mid by simp
  ultimately show ?case
    using nth Suc.prems(5) mid by (subst unbase64_loop.simps) (simp add: add.commute add.left_commute)
qed

lemma enc3_bits:
  "enc3 (Char a0 a1 a2 a3 a4 a5 a6 a7) (Char b0 b1 b2 b3 b4 b5 b6 b7)
        (Char c0 c1 c2 c3 c4 c5 c6 c7)
   = map ((!) b64) [bits_value [a7, a6, a5, a4, a3, a2], bits_value [a1, a0, b7, b6, b5, b4],
       bits_value [b3, b2, b1, b0, c7, c6], bits_value [c5, c4, c3, c2, c1, c0]]"
  using enc3_sextets [of "Char a0 a1 a2 a3 a4 a5 a6 a7" "Char b0 b1 b2 b3 b4 b5 b6 b7"
      "Char c0 c1 c2 c3 c4 c5 c6 c7" "[]"] by simp

lemma dec_groups_enc3 [simp]: "dec_groups (enc3 x y z @ s) = x # y # z # dec_groups s"
  by (cases x; cases y; cases z) (simp add: enc3_bits dec3_bits)

lemma enc3_no_equals: "CHR ''='' \<notin> set (enc3 x y z)"
  by (cases x; cases y; cases z) (auto simp: enc3_bits dest: sym)

lemma base64_loop_decodes:
  "base64_loop bin = (out, left) \<Longrightarrow> bin = dec_groups out @ left \<and> CHR ''='' \<notin> set out"
proof (induction bin arbitrary: out left rule: base64_loop.induct)
  case (1 x y z rest)
  obtain o' l' where r: "base64_loop rest = (o', l')" by fastforce
  with "1.prems" have "out = enc3 x y z @ o'" "left = l'" by auto
  with "1.IH" [OF r] show ?case using enc3_no_equals by auto
qed auto

lemma bits_value_zero [simp]: "bits_value [False, False, False, False, False, False] = 0"
  by (simp add: bits_value_def)

lemma enc1_bits:
  "enc1 (Char a0 a1 a2 a3 a4 a5 a6 a7)
   = map ((!) b64) [bits_value [a7, a6, a5, a4, a3, a2],
       bits_value [a1, a0, False, False, False, False]] @ ''==''"
  by (simp flip: enc1_sextets)

lemma enc2_bits:
  "enc2 (Char a0 a1 a2 a3 a4 a5 a6 a7) (Char b0 b1 b2 b3 b4 b5 b6 b7)
   = map ((!) b64) [bits_value [a7, a6, a5, a4, a3, a2], bits_value [a1, a0, b7, b6, b5, b4],
       bits_value [b3, b2, b1, b0, False, False]] @ ''=''"
  by (simp flip: enc2_sextets)

lemma dec3_enc1: "\<exists>a b. enc1 x = [a, b, CHR ''='', CHR ''='']
    \<and> take 1 (dec3 (unb64_of a) (unb64_of b) 0 0) = [x]"
proof (cases x)
  case (Char a0 a1 a2 a3 a4 a5 a6 a7)
  then show ?thesis
    using dec3_bits [of a7 a6 a5 a4 a3 a2 a1 a0 False False False False False False False False
        False False False False False False False False]
    by (simp add: enc1_bits)
qed

lemma dec3_enc2: "\<exists>a b c. enc2 x y = [a, b, c, CHR ''=''] \<and> c \<noteq> CHR ''=''
    \<and> take 2 (dec3 (unb64_of a) (unb64_of b) (unb64_of c) 0) = [x, y]"
proof (cases x; cases y)
  fix a0 a1 a2 a3 a4 a5 a6 a7 b0 b1 b2 b3 b4 b5 b6 b7
  assume "x = Char a0 a1 a2 a3 a4 a5 a6 a7" "y = Char b0 b1 b2 b3 b4 b5 b6 b7"
  then show ?thesis
    using dec3_bits [of a7 a6 a5 a4 a3 a2 a1 a0 b7 b6 b5 b4 b3 b2 b1 b0 False False
        False False False False False False]
    by (simp add: enc2_bits)
qed

lemma unbase64_loop_all:
  assumes "length mid = 4 * k" "4 * int k - 4 \<le> bound" "bound < 4 * int k" "3 * k \<le> length bin"
  shows "unbase64_loop (mid @ post) bound 0 bin 0
     = Some (4 * k, overwrite bin 0 (dec_groups mid), 3 * k)"
  using unbase64_loop_groups [of "[]" mid post "mid @ post" k bound 0 bin] assms by simp

lemma base64_left:
  assumes "base64_loop bin = (out, left)"
  obtains (zero) "left = []" "rfc4648 bin = out" "length bin = 3 * (length bin div 3)"
  | (one) x where "left = [x]" "rfc4648 bin = out @ enc1 x" "length bin = 3 * (length bin div 3) + 1"
  | (two) x y where "left = [x, y]" "rfc4648 bin = out @ enc2 x y" "length bin = 3 * (length bin div 3) + 2"
proof -
  obtain t where t: "base64_tail (b64_pad (length bin)) left = Some t" "rfc4648 bin = out @ t"
    by (rule base64_shape [OF assms])
  have "length left = length bin mod 3" using base64_loop_props [OF assms] by simp
  then have n: "length bin = 3 * (length bin div 3) + length left" "length left < 3"
    "length bin mod 3 = length left" by simp_all
  then show thesis
    using t b64_pad_cases [of "length bin"] that
    by (cases left rule: remdups_adj.cases)
      (auto simp: base64_tail_def split: if_splits)
qed


lemma out_length:
  "base64_loop bin = (out, left) \<Longrightarrow> length out = 4 * (length bin div 3)"
  using base64_loop_props by blast

lemma puts_whole:
  assumes "length (cs @ ds) = n" "length cs = i"
  shows "puts (overwrite (replicate n (Some NUL) @ [None]) 0 cs) i ds
    = Some (map Some (cs @ ds) @ [None])"
proof -
  let ?bin = "replicate n (Some NUL) @ [None]"
  have "puts (overwrite ?bin 0 cs) i ds = Some (overwrite (overwrite ?bin 0 cs) (0 + length cs) ds)"
    using assms by simp
  also have "overwrite (overwrite ?bin 0 cs) (0 + length cs) ds = overwrite ?bin 0 (cs @ ds)"
    using assms by (intro overwrite_append) simp
  finally show ?thesis using assms by (simp add: overwrite_def)
qed

lemma unbase64_to_tail:
  assumes "2 \<le> len" "3 * len < 2 ^ 31" "rd ascii (len - 1) = Some e1"
    "rd ascii (len - 2) = Some e2" "unb_pad e1 e2 = pad"
    "int (3 * len div 4) - int pad = int n" "al (n + 1)"
    "unbase64_loop ascii (int len - 4 - int pad) 0 (replicate n (Some NUL) @ [None]) 0
       = Some (charNo, bin, cb)"
  shows "unbase64 al ascii len =
    map_option (\<lambda>b. (Some b, int n)) (unbase64_tail ascii pad charNo bin cb)"
proof -
  have "nat (int n + 1) = n + 1" by simp
  with assms show ?thesis
    by (cases "unbase64_tail ascii pad charNo bin cb") (simp_all add: unbase64_def)
qed

lemma unbase64_run:
  assumes "2 \<le> len" "3 * len < 2 ^ 31" "rd ascii (len - 1) = Some e1"
    "rd ascii (len - 2) = Some e2" "unb_pad e1 e2 = pad"
    "int (3 * len div 4) - int pad = int n" "al (n + 1)"
    "unbase64_loop ascii (int len - 4 - int pad) 0 (replicate n (Some NUL) @ [None]) 0
       = Some (charNo, bin, cb)"
    "unbase64_tail ascii pad charNo bin cb = Some bin'"
  shows "unbase64 al ascii len = Some (Some bin', int n)"
  by (subst unbase64_to_tail, (rule assms(1-8))+) (simp add: assms(9))

lemma unbase64_pad0:
  assumes "length s = 4 * Suc m" "CHR ''='' \<notin> set s" "3 * length s < 2 ^ 31"
    "al (3 * Suc m + 1)"
  shows "unbase64 al (s @ z) (length s) =
     Some (Some (map Some (dec_groups s) @ [None]), int (3 * Suc m))"
proof (rule unbase64_run)
  show "rd (s @ z) (length s - 1) = Some (s ! (length s - 1))"
    "rd (s @ z) (length s - 2) = Some (s ! (length s - 2))"
    using assms(1) by (simp_all add: rd_def nth_append)
  have "s ! (length s - 1) \<in> set s" "s ! (length s - 2) \<in> set s"
    using assms(1) by (intro nth_mem; simp)+
  then show "unb_pad (s ! (length s - 1)) (s ! (length s - 2)) = 0"
    using assms(2) by (auto simp: unb_pad_def)
  let ?bin = "replicate (3 * Suc m) (Some NUL) @ [None]"
  show "unbase64_loop (s @ z) (int (length s) - 4 - int 0) 0 ?bin 0
      = Some (4 * Suc m, overwrite ?bin 0 (dec_groups s), 3 * Suc m)"
    using assms(1) by (intro unbase64_loop_all) auto
  show "unbase64_tail (s @ z) 0 (4 * Suc m) (overwrite ?bin 0 (dec_groups s)) (3 * Suc m)
      = Some (map Some (dec_groups s) @ [None])"
    using length_dec_groups [OF assms(1)] by (simp add: unbase64_tail_def overwrite_def)
qed (use assms in simp_all)

lemma unbase64_pad2:
  assumes "length s = 4 * m" "3 * (length s + 4) < 2 ^ 31" "al (3 * m + 1 + 1)"
  shows "unbase64 al (s @ enc1 x @ z) (length s + 4) =
     Some (Some (map Some (dec_groups s @ [x]) @ [None]), int (3 * m + 1))"
proof -
  obtain a b where e: "enc1 x = [a, b, CHR ''='', CHR ''='']"
    "take 1 (dec3 (unb64_of a) (unb64_of b) 0 0) = [x]" using dec3_enc1 [of x] by blast
  let ?s = "s @ enc1 x @ z" and ?bin = "replicate (3 * m + 1) (Some NUL) @ [None]"
  show ?thesis
  proof (rule unbase64_run)
    show "rd ?s (length s + 4 - 1) = Some (CHR ''='')" "rd ?s (length s + 4 - 2) = Some (CHR ''='')"
      by (simp_all add: rd_def nth_append e)
    show "unb_pad (CHR ''='') (CHR ''='') = 2" by (simp add: unb_pad_def)
    show "unbase64_loop ?s (int (length s + 4) - 4 - int 2) 0 ?bin 0
        = Some (4 * m, overwrite ?bin 0 (dec_groups s), 3 * m)"
      using assms(1) by (intro unbase64_loop_all) auto
    have "rd ?s (4 * m) = Some a" "rd ?s (4 * m + 1) = Some b"
      using assms(1) by (simp_all add: rd_def nth_append e)
    moreover have "puts (overwrite ?bin 0 (dec_groups s)) (3 * m) [x]
        = Some (map Some (dec_groups s @ [x]) @ [None])"
      using length_dec_groups [OF assms(1)] by (intro puts_whole) simp_all
    ultimately show "unbase64_tail ?s 2 (4 * m) (overwrite ?bin 0 (dec_groups s)) (3 * m)
        = Some (map Some (dec_groups s @ [x]) @ [None])"
      by (simp add: unbase64_tail_def e(2) [simplified] del: puts.simps)
  qed (use assms in simp_all)
qed

lemma unbase64_pad1:
  assumes "length s = 4 * m" "3 * (length s + 4) < 2 ^ 31" "al (3 * m + 2 + 1)"
  shows "unbase64 al (s @ enc2 x y @ z) (length s + 4) =
     Some (Some (map Some (dec_groups s @ [x, y]) @ [None]), int (3 * m + 2))"
proof -
  obtain a b c where e: "enc2 x y = [a, b, c, CHR ''='']" "c \<noteq> CHR ''=''"
    "take 2 (dec3 (unb64_of a) (unb64_of b) (unb64_of c) 0) = [x, y]"
    using dec3_enc2 [of x y] by blast
  let ?s = "s @ enc2 x y @ z" and ?bin = "replicate (3 * m + 2) (Some NUL) @ [None]"
  show ?thesis
  proof (rule unbase64_run)
    show "rd ?s (length s + 4 - 1) = Some (CHR ''='')" "rd ?s (length s + 4 - 2) = Some c"
      by (simp_all add: rd_def nth_append e)
    show "unb_pad (CHR ''='') c = 1" using e(2) by (simp add: unb_pad_def)
    show "unbase64_loop ?s (int (length s + 4) - 4 - int 1) 0 ?bin 0
        = Some (4 * m, overwrite ?bin 0 (dec_groups s), 3 * m)"
      using assms(1) by (intro unbase64_loop_all) auto
    have "rd ?s (4 * m) = Some a" "rd ?s (4 * m + 1) = Some b" "rd ?s (4 * m + 2) = Some c"
      using assms(1) by (simp_all add: rd_def nth_append e)
    moreover have "puts (overwrite ?bin 0 (dec_groups s)) (3 * m) [x, y]
        = Some (map Some (dec_groups s @ [x, y]) @ [None])"
      using length_dec_groups [OF assms(1)] by (intro puts_whole) simp_all
    ultimately show "unbase64_tail ?s 1 (4 * m) (overwrite ?bin 0 (dec_groups s)) (3 * m)
        = Some (map Some (dec_groups s @ [x, y]) @ [None])"
      by (simp add: unbase64_tail_def e(3) del: puts.simps)
  qed (use assms in simp_all)
qed

lemma unbase64_inverts:
  assumes "bin \<noteq> []" "4 * (length bin + 2) < 2 ^ 31" "al (length bin + 1)"
  shows "unbase64 al (rfc4648 bin @ [NUL]) (length (rfc4648 bin)) =
     Some (Some (map Some bin @ [None]), int (length bin))"
proof -
  obtain out left where loop: "base64_loop bin = (out, left)" by fastforce
  have bin: "bin = dec_groups out @ left" and eq: "CHR ''='' \<notin> set out"
    using base64_loop_decodes [OF loop] by auto
  have out: "length out = 4 * (length bin div 3)" using base64_loop_props [OF loop] by blast
  show ?thesis
  using loop
  proof (cases rule: base64_left)
    case zero
    then obtain m where m: "length bin div 3 = Suc m"
      using assms(1) by (metis Suc_pred length_greater_0_conv mult_0_right gr0I)
    then show ?thesis
      using zero unbase64_pad0 [of out m al "[NUL]"] out eq assms bin by simp
  next
    case (one x)
    have "length (rfc4648 bin) = length out + 4" using one by (simp add: enc1_def)
    then show ?thesis
      using unbase64_pad2 [OF out, of al x "[NUL]"] one assms bin out
      by (simp del: length_append)
  next
    case (two x y)
    have "length (rfc4648 bin) = length out + 4" using two by (simp add: enc2_def)
    then show ?thesis
      using unbase64_pad1 [OF out, of al x y "[NUL]"] two assms bin out
      by (simp del: length_append)
  qed
qed

text \<open>What a caller gets that encodes and decodes: the text is the initialised cells of the encoder's
  buffer, its length is what the encoder reports.\<close>

definition decode_encoded :: "(nat \<Rightarrow> bool) \<Rightarrow> bytes \<Rightarrow> (cell list option \<times> int) run" where
  "decode_encoded al bin = do {
     (res, flen) \<leftarrow> base64 al bin;
     buf \<leftarrow> res;
     if None \<in> set buf then None else unbase64 al (map the buf) flen
   }"

lemma decode_encoded_eq:
  assumes "bin \<noteq> []" "4 * (length bin + 2) < 2 ^ 31" "al (b64_len (length bin) + 1)" "al (length bin + 1)"
  shows "decode_encoded al bin = Some (Some (map Some bin @ [None]), int (length bin))"
proof -
  have "base64 al bin = Some (Some (map Some (rfc4648 bin) @ [Some NUL]), length (rfc4648 bin))"
    using base64_computes [OF assms(2), of al] assms(3) by simp
  then show ?thesis
    using unbase64_inverts [where al = al and bin = bin, OF assms(1,2,4)] by (simp add: decode_encoded_def comp_def)
qed

text \<open>C25: Decoding undoes encoding: for every non-empty input short enough for the \<open>int\<close>
  arithmetic, when both allocations succeed, \<open>unbase64\<close> applied to the text and the length that
  \<open>base64\<close> returns gives back exactly the input bytes and their number, with no access outside
  either buffer. The last byte of the buffer, where a terminator would be, is left uninitialised.\<close>

theorem unbase64_base64:
  assumes "bin \<noteq> []" "4 * (length bin + 2) < 2 ^ 31" "al (b64_len (length bin) + 1)" "al (length bin + 1)"
  shows "do {
      (res, flen) \<leftarrow> base64 al bin;
      buf \<leftarrow> res;
      if None \<in> set buf then None else unbase64 al (map the buf) flen
    } = Some (Some (map Some bin @ [None]), int (length bin))"
  using decode_encoded_eq [OF assms] unfolding decode_encoded_def .

theorem unbase64_base64_witness:
  "do {
      (res, flen) \<leftarrow> base64 (\<lambda>n. n \<le> 64) ''cwe'';
      buf \<leftarrow> res;
      if None \<in> set buf then None else unbase64 (\<lambda>n. n \<le> 64) (map the buf) flen
    } = Some (Some (map Some ''cwe'' @ [None]), 3)"
  using unbase64_base64 [of "''cwe''" "\<lambda>n. n \<le> 64"] by (simp add: b64_len_eq)

theorem base64_rfc4648_witness:
  "base64 (\<lambda>n. n \<le> 64) ''ab'' =
     Some (Some (map Some (rfc4648 ''ab'') @ [Some NUL]), 4)"
  using base64_rfc4648 [of "''ab''" "\<lambda>n. n \<le> 64"] by (simp add: b64_len_eq)


section \<open>What the decoder does on other inputs\<close>

lemma unbase64_groups_any:
  assumes "length s = 4 * m" "length t = 4" "3 * (length s + 4) < 2 ^ 31"
    "unb_pad (t ! 3) (t ! 2) = pad" "al (3 * m + 3 - pad + 1)"
  shows "\<exists>ds. length ds = 3 * m + 3 - pad
    \<and> unbase64 al (s @ t @ z) (length s + 4) = Some (Some (map Some ds @ [None]), int (length ds))"
proof -
  let ?ascii = "s @ t @ z" and ?n = "3 * m + 3 - pad"
  let ?bin = "replicate ?n (Some NUL) @ [None]"
  obtain a b c d where t: "t = [a, b, c, d]"
    using assms(2) by (cases t rule: dec_groups.cases) auto
  have le: "pad \<le> 2" using assms(4) by (auto simp: unb_pad_def of_bool_def)
  note run = unbase64_run [of "length s + 4" ?ascii "t ! 3" "t ! 2" pad ?n al, OF _ assms(3) _ _ assms(4) _ assms(5)]
  have rds: "rd ?ascii (length s + 4 - 1) = Some (t ! 3)" "rd ?ascii (length s + 4 - 2) = Some (t ! 2)"
    "rd ?ascii (4 * m) = Some a" "rd ?ascii (4 * m + 1) = Some b" "rd ?ascii (4 * m + 2) = Some c"
    using assms(1) by (simp_all add: rd_def nth_append t)
  have flen: "int (3 * (length s + 4) div 4) - int pad = int ?n" using assms(1) le by simp
  show ?thesis
  proof (cases "pad = 0")
    case True
    have "unbase64_loop ((s @ t) @ z) (int (length s + 4) - 4 - int pad) 0 ?bin 0
        = Some (4 * Suc m, overwrite ?bin 0 (dec_groups (s @ t)), 3 * Suc m)"
      using assms(1,2) True by (intro unbase64_loop_all) auto
    moreover have len: "length (dec_groups (s @ t)) = 3 * Suc m"
      using assms(1,2) by (intro length_dec_groups) simp
    moreover have "overwrite ?bin 0 (dec_groups (s @ t)) = map Some (dec_groups (s @ t)) @ [None]"
      using len True by (simp add: overwrite_def)
    ultimately show ?thesis
      using run rds flen True by (intro exI [of _ "dec_groups (s @ t)"]) (simp add: unbase64_tail_def)
  next
    case False
    define ds where "ds = take (3 - pad) (dec3 (unb64_of a) (unb64_of b) (if pad = 1 then unb64_of c else 0) 0)"
    have loop: "unbase64_loop ?ascii (int (length s + 4) - 4 - int pad) 0 ?bin 0
        = Some (4 * m, overwrite ?bin 0 (dec_groups s), 3 * m)"
      using assms(1) le False by (intro unbase64_loop_all) auto
    have len: "length (dec_groups s @ ds) = ?n" "length (dec_groups s) = 3 * m"
      using length_dec_groups [OF assms(1)] le by (simp_all add: ds_def)
    have "puts (overwrite ?bin 0 (dec_groups s)) (3 * m) ds = Some (map Some (dec_groups s @ ds) @ [None])"
      by (rule puts_whole [OF len])
    then have "unbase64_tail ?ascii pad (4 * m) (overwrite ?bin 0 (dec_groups s)) (3 * m)
        = Some (map Some (dec_groups s @ ds) @ [None])"
      using rds le False by (auto simp: unbase64_tail_def ds_def le_Suc_eq numeral_2_eq_2)
    with run [OF _ rds(1,2) flen loop] len show ?thesis by (intro exI [of _ "dec_groups s @ ds"]) simp
  qed
qed

text \<open>C27: Decoding is memory safe on every text whose length is a positive multiple of four,
  whatever its characters are (equals signs in odd places included), when the allocation
  succeeds: the decoder returns a buffer of \<open>*flen + 1\<close> bytes of which it wrote exactly
  the first \<open>*flen\<close>. The byte after them, which a caller that treats the result as a C
  string reads, is uninitialised.\<close>

theorem unbase64_safe:
  assumes "length s = 4 * m" "m \<noteq> 0" "3 * length s < 2 ^ 31"
    "\<And>n. n \<le> 3 * m + 1 \<Longrightarrow> al n"
  shows "\<exists>ds. unbase64 al (s @ [NUL]) (length s) =
           Some (Some (map Some ds @ [None]), int (length ds))
    \<and> 3 * m \<le> length ds + 2 \<and> length ds \<le> 3 * m"
proof -
  obtain k where k: "m = Suc k" using assms(2) by (cases m) auto
  have split: "take (4 * k) s @ drop (4 * k) s @ [NUL] = s @ [NUL]" by simp
  have pad: "unb_pad x y \<le> 2" for x y by (simp add: unb_pad_def of_bool_def)
  then obtain ds where "length ds = 3 * k + 3 - unb_pad (drop (4 * k) s ! 3) (drop (4 * k) s ! 2)"
    "unbase64 al (s @ [NUL]) (4 * k + 4) = Some (Some (map Some ds @ [None]), int (length ds))"
    using unbase64_groups_any [of "take (4 * k) s" k "drop (4 * k) s" _ al "[NUL]"] assms k split
    by auto
  moreover have "length s = 4 * k + 4" using assms(1) k by simp
  ultimately show ?thesis
    using k pad [of "drop (4 * k) s ! 3" "drop (4 * k) s ! 2"] by (intro exI [of _ ds]) auto
qed

theorem unbase64_safe_witness:
  "\<exists>ds. unbase64 (\<lambda>n. n \<le> 64) (''a=?!'' @ [NUL]) (length ''a=?!'') =
      Some (Some (map Some ds @ [None]), int (length ds)) \<and> 3 \<le> length ds + 2 \<and> length ds \<le> 3"
  using unbase64_safe [of "''a=?!''" 1 "\<lambda>n. n \<le> 64"] by simp

text \<open>C28: The decoder overruns its buffer on a text of \<open>4m + 2\<close> characters that ends in
  exactly one equals sign: it allocates \<open>3m + 1\<close> bytes and writes two bytes from position
  \<open>3m\<close> on, whatever the rest of the text is. The text comes from a form value.\<close>

theorem unbase64_overflow:
  assumes "length s = 4 * m" "c \<noteq> CHR ''=''" "3 * (4 * m + 2) < 2 ^ 31" "al (3 * m + 1)"
  shows "unbase64 al (s @ [c, CHR ''='', NUL]) (length s + 2) = None"
proof -
  let ?ascii = "s @ [c, CHR ''='', NUL]" and ?bin = "replicate (3 * m) (Some NUL) @ [None]"
  have rds: "rd ?ascii (4 * m + 1) = Some (CHR ''='')" "rd ?ascii (4 * m) = Some c"
    "rd ?ascii (4 * m + 2) = Some NUL"
    using assms(1) by (simp_all add: rd_def nth_append)
  have pad: "unb_pad (CHR ''='') c = 1" using assms(2) by (simp add: unb_pad_def)
  have loop: "unbase64_loop ?ascii (4 * int m - 3) 0 ?bin 0
      = Some (4 * m, overwrite ?bin 0 (dec_groups s), 3 * m)"
    using assms(1) by (intro unbase64_loop_all) auto
  have "puts (overwrite ?bin 0 (dec_groups s)) (3 * m) (take 2 (dec3 A B C 0)) = None" for A B C
    using length_dec_groups [OF assms(1)] by (intro puts_overflow) (auto simp: dec3_def)
  then have "unbase64_tail ?ascii 1 (4 * m) (overwrite ?bin 0 (dec_groups s)) (3 * m) = None"
    using rds by (simp add: unbase64_tail_def)
  then show ?thesis
    using unbase64_to_tail [of "length s + 2" ?ascii "CHR ''=''" c 1 "3 * m" al] rds pad loop assms
    by simp
qed

theorem unbase64_overflow_witness: "unbase64 (\<lambda>n. n \<le> 64) (''Q='' @ [NUL]) (length ''Q='') = None"
  using unbase64_overflow [of "[]" 0 "CHR ''Q''" "\<lambda>n. n \<le> 64"] by simp

end
