(* ===== verification/Routes.thy ===== *)
theory Routes
  imports Server Sql_Queries Percent_Decode Base64
begin

text \<open>
  The routes of the site (\<open>dev/routing/routes.c\<close>) that do not use templates: the language
  cookie and the three routes of the administration. The hash function and the password file are
  parameters, as the database is.
\<close>

record 'd outside =
  sqlite :: "'d sqlite"
  sha512 :: "bytes \<Rightarrow> bytes option"
  password_file :: "bytes option"

section \<open>Authentication\<close>

definition SHA512_DIGEST_LENGTH :: nat where "SHA512_DIGEST_LENGTH = 64"

text \<open>The digest, or what was on the stack if one of the calls failed.\<close>

definition simpleSHA512 :: "'d outside \<Rightarrow> bytes \<Rightarrow> bytes run" where
  "simpleSHA512 O1 inp =
     (case sha512 O1 inp of
        None \<Rightarrow> None
      | Some md \<Rightarrow> if length md = SHA512_DIGEST_LENGTH then Some md else None)"

definition hex_digest :: "bytes \<Rightarrow> bytes" where
  "hex_digest md = concat (map print_02x md)"

text \<open>The first word of the file, read into an array of 255 bytes that was cleared before.\<close>

definition stored_password :: "'d outside \<Rightarrow> bytes run" where
  "stored_password O1 = do {
     content \<leftarrow> password_file O1;
     let pwbuff = takeWhile (\<lambda>c. \<not> isspace c) (dropWhile isspace content);
     if 255 \<le> length pwbuff then None else Some (cstr pwbuff)
   }"

datatype auth = Missing | Bad | Passed

fun auth_loop :: "'d outside \<Rightarrow> keyvaluepair list \<Rightarrow> bool \<Rightarrow> auth run" where
  "auth_loop O1 [] authentication_exist = Some (if authentication_exist then Passed else Missing)"
| "auth_loop O1 (h # hs) authentication_exist = do {
     k \<leftarrow> deref (kv_key h);
     name \<leftarrow> c_string k;
     if name = ''Authentication'' then do {
       v \<leftarrow> deref (kv_value h);
       bs \<leftarrow> sds_bytes v;
       md \<leftarrow> simpleSHA512 O1 bs;
       pw \<leftarrow> stored_password O1;
       if pw \<noteq> hex_digest md then Some Bad else auth_loop O1 hs True
     }
     else auth_loop O1 hs authentication_exist
   }"

definition authenticate :: "'d outside \<Rightarrow> http_request \<Rightarrow> auth run" where
  "authenticate O1 r =
     (if length (req_headers r) < headercount r then None
      else auth_loop O1 (take (headercount r) (req_headers r)) False)"

definition html_text :: "bytes \<Rightarrow> bytes" where
  "html_text t = ''HTTP/1.1 200 OK'' @ CRLF @ ''Content-Type: text/html'' @ CRLF @ CRLF @ t"

definition bad_password_text :: bytes where "bad_password_text = html_text ''BAD PASSWORD''"
definition please_text :: bytes where "please_text = html_text ''PLEASE AUTHENTICATE''"

text \<open>What the three routes have in common: \<open>body\<close> is what follows the check.\<close>

definition authenticated ::
  "(nat \<Rightarrow> bool) \<Rightarrow> 'd outside \<Rightarrow> http_request \<Rightarrow> 's \<Rightarrow> (sds option \<times> 's) run \<Rightarrow> (sds option \<times> 's) run" where
  "authenticated al O1 r st body = do {
     a \<leftarrow> authenticate O1 r;
     case a of
       Bad \<Rightarrow> do { p \<leftarrow> sdsnew al (Some bad_password_text); Some (p, st) }
     | Missing \<Rightarrow> do { p \<leftarrow> sdsnew al (Some please_text); Some (p, st) }
     | Passed \<Rightarrow> body
   }"

section \<open>Variables of the request\<close>

definition used_vars :: "http_request \<Rightarrow> keyvaluepair list run" where
  "used_vars r =
     (if length (req_body r) < bodycount r then None else Some (take (bodycount r) (req_body r)))"

text \<open>The value of the first variable with a name, compared as C strings or with \<open>sdscmp\<close>.\<close>

fun find_var :: "bytes \<Rightarrow> keyvaluepair list \<Rightarrow> sds option run" where
  "find_var nm [] = Some None"
| "find_var nm (x # xs) = do {
     k \<leftarrow> deref (kv_key x);
     t \<leftarrow> c_string k;
     if t = nm then do { v \<leftarrow> deref (kv_value x); Some (Some v) } else find_var nm xs
   }"

fun find_var_sds :: "sds option \<Rightarrow> keyvaluepair list \<Rightarrow> sds option run" where
  "find_var_sds nm [] = Some None"
| "find_var_sds nm (x # xs) = do {
     k \<leftarrow> deref (kv_key x);
     n \<leftarrow> deref nm;
     c \<leftarrow> sdscmp k n;
     if c = 0 then do { v \<leftarrow> deref (kv_value x); Some (Some v) } else find_var_sds nm xs
   }"

text \<open>A value decoded into a block of its own: the C string in it.\<close>

definition decode_value :: "(nat \<Rightarrow> bool) \<Rightarrow> sds \<Rightarrow> bytes run" where
  "decode_value al v =
     (if \<not> al (sdslen v + 1) then None
      else do {
        inp \<leftarrow> c_string v;
        let out = snd (percent_decode (Some inp));
        if sdslen v + 1 < length out then None else Some (cstr out)
      })"

section \<open>The language\<close>

definition language_text :: "bytes \<Rightarrow> bytes" where
  "language_text lang = ''HTTP/1.1 301 Moved Permanently'' @ CRLF @ ''Location: /'' @ CRLF
     @ ''Set-Cookie: lang='' @ lang @ CRLF
     @ ''Cache-Control: no-cache, no-store, must-revalidate'' @ CRLF
     @ ''Pragma: no-cache'' @ CRLF @ ''Expires: 0'' @ CRLF @ CRLF"

definition languageroute :: "(nat \<Rightarrow> bool) \<Rightarrow> http_request \<Rightarrow> sds option run" where
  "languageroute al r = do {
     lang \<leftarrow> sdsnew al (Some ''lang'');
     vars \<leftarrow> used_vars r;
     v \<leftarrow> find_var_sds lang vars;
     urldecoded \<leftarrow> (case v of
        None \<Rightarrow> Some None
      | Some s \<Rightarrow> do { t \<leftarrow> decode_value al s; Some (Some t) });
     hun \<leftarrow> sdsnew al (Some ''HUN'');
     sdsurldecoded \<leftarrow> sdsnew al urldecoded;
     d \<leftarrow> deref sdsurldecoded;
     h \<leftarrow> deref hun;
     c \<leftarrow> sdscmp d h;
     if c = 0 then sdsnew al (Some (language_text ''HUN''))
     else sdsnew al (Some (language_text ''EN''))
   }"

section \<open>Deleting a post\<close>

definition deleted_text :: bytes where
  "deleted_text = html_text ''I tried to delete Check what happened...''"

definition deleteroute ::
  "(nat \<Rightarrow> bool) \<Rightarrow> 'd outside \<Rightarrow> http_request \<Rightarrow> 'd site \<Rightarrow> (sds option \<times> 'd site) run" where
  "deleteroute al O1 r w = authenticated al O1 r w (do {
     vars \<leftarrow> used_vars r;
     v \<leftarrow> find_var ''title'' vars;
     w \<leftarrow> (case v of
        None \<Rightarrow> Some w
      | Some s \<Rightarrow> do {
          t \<leftarrow> c_string s;
          free_callback_sql (delete_post (sqlite O1) (Some t) (init_callback_sql w))
        });
     p \<leftarrow> sdsnew al (Some deleted_text);
     Some (p, w)
   })"

section \<open>Reading a post\<close>

definition json_text :: bytes where
  "json_text = ''HTTP/1.1 200 OK'' @ CRLF @ ''Content-Type: application/json'' @ CRLF @ CRLF @ ''{''"

definition not_there_text :: bytes where
  "not_there_text = html_text ''Probably not found, but maybe other error!''"

text \<open>One column: its name and its value in base64; after the last one the comma becomes the
  closing brace.\<close>

definition json_column :: "(nat \<Rightarrow> bool) \<Rightarrow> nat \<Rightarrow> sds \<Rightarrow> sds \<Rightarrow> sds option \<Rightarrow> sds option run" where
  "json_column al i k v response = do {
     s \<leftarrow> deref response;
     response \<leftarrow> sdscat al s [CHR 0x22];
     s \<leftarrow> deref response;
     response \<leftarrow> sdscatsds al s k;
     s \<leftarrow> deref response;
     response \<leftarrow> sdscat al s [CHR 0x22, CHR '':'', CHR 0x22];
     bs \<leftarrow> sds_bytes v;
     (b, flen) \<leftarrow> base64 al bs;
     cells \<leftarrow> deref b;
     b64_value \<leftarrow> loads cells 0 flen;
     s \<leftarrow> deref response;
     response \<leftarrow> sdscatlen al s b64_value flen;
     s \<leftarrow> deref response;
     response \<leftarrow> sdscat al s [CHR 0x22, CHR '','' ];
     if i = 4 then do {
       s \<leftarrow> deref response;
       cells \<leftarrow> put (sbuf s) (sdslen s - 1) (CHR ''}'');
       Some (Some (s\<lparr>sbuf := cells\<rparr>))
     }
     else Some response
   }"

fun json_loop ::
  "(nat \<Rightarrow> bool) \<Rightarrow> nat list \<Rightarrow> 'd site \<Rightarrow> sds option \<Rightarrow> (sds option \<times> 'd site) run" where
  "json_loop al [] w response = do { w \<leftarrow> free_callback_sql w; Some (response, w) }"
| "json_loop al (i # is) w response = do {
     kv \<leftarrow> sqldata w i;
     (case (kv_key kv, kv_value kv) of
        (Some k, Some v) \<Rightarrow> do {
          response \<leftarrow> json_column al i k v response;
          json_loop al is w response
        }
      | _ \<Rightarrow> do {
          w \<leftarrow> free_callback_sql w;
          p \<leftarrow> sdsnew al (Some not_there_text);
          Some (p, w)
        })
   }"

definition updateroute ::
  "(nat \<Rightarrow> bool) \<Rightarrow> 'd outside \<Rightarrow> http_request \<Rightarrow> 'd site \<Rightarrow> (sds option \<times> 'd site) run" where
  "updateroute al O1 r w = authenticated al O1 r w (do {
     vars \<leftarrow> used_vars r;
     v \<leftarrow> find_var ''title'' vars;
     w \<leftarrow> (case v of
        None \<Rightarrow> Some w
      | Some s \<Rightarrow> do {
          t \<leftarrow> c_string s;
          select_top1_by_name al (sqlite O1) (Some t) (init_callback_sql w)
        });
     response \<leftarrow> sdsnew al (Some json_text);
     json_loop al [0..<5] w response
   })"

section \<open>Saving a post\<close>

text \<open>A decoded block read as a C string, and as an argument of a query.\<close>

definition cells_string :: "cell list \<Rightarrow> bytes run" where
  "cells_string cs = do { n \<leftarrow> cell_strlen cs; loads cs 0 n }"

definition sql_arg :: "cell list option \<Rightarrow> bytes option run" where
  "sql_arg p = (case p of None \<Rightarrow> Some None | Some cs \<Rightarrow> do { t \<leftarrow> cells_string cs; Some (Some t) })"

record post_vars =
  content_hun :: "cell list option"
  content_en :: "cell list option"
  title_hun :: "cell list option"
  title_en :: "cell list option"
  category :: "sds option"

definition no_vars :: post_vars where
  "no_vars = \<lparr>content_hun = None, content_en = None, title_hun = None, title_en = None, category = None\<rparr>"

text \<open>Decoding a value; three of the four are printed right after.\<close>

definition decode_post :: "(nat \<Rightarrow> bool) \<Rightarrow> sds \<Rightarrow> cell list option run" where
  "decode_post al v = do {
     bs \<leftarrow> sds_bytes v;
     (bin, n) \<leftarrow> unbase64 al (bs @ [NUL]) (sdslen v);
     Some bin
   }"

definition decode_printed :: "(nat \<Rightarrow> bool) \<Rightarrow> sds \<Rightarrow> cell list option run" where
  "decode_printed al v = do {
     p \<leftarrow> decode_post al v;
     cs \<leftarrow> deref p;
     t \<leftarrow> cells_string cs;
     Some p
   }"

fun save_loop ::
  "(nat \<Rightarrow> bool) \<Rightarrow> 'd outside \<Rightarrow> keyvaluepair list \<Rightarrow> post_vars \<Rightarrow> 'd site \<Rightarrow> (post_vars \<times> 'd site) run" where
  "save_loop al O1 [] pv w = Some (pv, w)"
| "save_loop al O1 (x # xs) pv w = do {
     k \<leftarrow> deref (kv_key x);
     name \<leftarrow> c_string k;
     v \<leftarrow> deref (kv_value x);
     shown \<leftarrow> c_string v;
     (if name = ''content_hun'' then do {
        p \<leftarrow> decode_printed al v;
        save_loop al O1 xs (pv\<lparr>content_hun := p\<rparr>) w
      }
      else if name = ''content_eng'' then do {
        p \<leftarrow> decode_printed al v;
        save_loop al O1 xs (pv\<lparr>content_en := p\<rparr>) w
      }
      else if name = ''title_hun'' then do {
        p \<leftarrow> decode_printed al v;
        save_loop al O1 xs (pv\<lparr>title_hun := p\<rparr>) w
      }
      else if name = ''title_en'' then do {
        p \<leftarrow> decode_post al v;
        t \<leftarrow> sql_arg p;
        w \<leftarrow> free_callback_sql (delete_post (sqlite O1) t (init_callback_sql w));
        save_loop al O1 xs (pv\<lparr>title_en := p\<rparr>) w
      }
      else if name = ''category'' then do {
        c \<leftarrow> sdsnew al (Some shown);
        save_loop al O1 xs (pv\<lparr>category := c\<rparr>) w
      }
      else save_loop al O1 xs pv w)
   }"

definition saved_text :: bytes where
  "saved_text = html_text ''Saved! Yaay, Backend C u! :)''"

definition saveroute ::
  "(nat \<Rightarrow> bool) \<Rightarrow> 'd outside \<Rightarrow> http_request \<Rightarrow> 'd site \<times> page_cache
     \<Rightarrow> (sds option \<times> 'd site \<times> page_cache) run" where
  "saveroute al O1 r st = authenticated al O1 r st (do {
     vars \<leftarrow> used_vars r;
     (pv, w) \<leftarrow> save_loop al O1 vars no_vars (fst st);
     th \<leftarrow> sql_arg (title_hun pv);
     te \<leftarrow> sql_arg (title_en pv);
     ct \<leftarrow> (case category pv of None \<Rightarrow> Some None | Some s \<Rightarrow> do { t \<leftarrow> c_string s; Some (Some t) });
     ch \<leftarrow> sql_arg (content_hun pv);
     ce \<leftarrow> sql_arg (content_en pv);
     w \<leftarrow> free_callback_sql (insert_post (sqlite O1) th te ct ch ce (init_callback_sql w));
     c \<leftarrow> globalinit_cache al (snd st);
     p \<leftarrow> sdsnew al (Some saved_text);
     Some (p, w, c)
   })"

section \<open>The table\<close>

datatype site_route =
    listincategory_fn | root_fn | save_fn | delete_fn | update_fn | onepost_fn | language_fn

definition controllercall :: "(nat \<Rightarrow> bool) \<Rightarrow> site_route routing_table \<Rightarrow> site_route routing_table run" where
  "controllercall al tb = do {
     tb \<leftarrow> create_route al ''listincategory'' listincategory_fn tb;
     tb \<leftarrow> create_route al '''' root_fn tb;
     tb \<leftarrow> create_route al ''admin/save'' save_fn tb;
     tb \<leftarrow> create_route al ''admin/delete'' delete_fn tb;
     tb \<leftarrow> create_route al ''admin/update'' update_fn tb;
     tb \<leftarrow> create_route al ''onepost'' onepost_fn tb;
     create_route al ''language'' language_fn tb
   }"

end
