(* ===== verification/Routes_Spec.thy ===== *)
theory Routes_Spec
  imports Routes Request_Contract Response_Spec
begin

text \<open>
  What the routes without templates answer and do: the check of the password in front of the
  administration, deleting and reading posts, the language cookie, and what saving a post reads.
\<close>

section \<open>Authentication\<close>

text \<open>The values of the headers that are looked at, and the outcome for them.\<close>

definition auth_values :: "(bytes \<times> bytes) list \<Rightarrow> bytes list" where
  "auth_values hs = map snd (filter (\<lambda>h. cstr (fst h) = ''Authentication'') hs)"

definition outcome_of :: "(bytes \<Rightarrow> bytes) \<Rightarrow> bytes \<Rightarrow> bytes list \<Rightarrow> auth" where
  "outcome_of H pw vs =
     (if vs = [] then Missing else if \<forall>v \<in> set vs. hex_digest (H v) = pw then Passed else Bad)"

text \<open>The environment answers: the hash never fails and there is a password.\<close>

definition outside_ok :: "'d outside \<Rightarrow> (bytes \<Rightarrow> bytes) \<Rightarrow> bytes \<Rightarrow> bool" where
  "outside_ok O1 H pw \<longleftrightarrow>
     (\<forall>v. sha512 O1 v = Some (H v) \<and> length (H v) = SHA512_DIGEST_LENGTH) \<and> stored_password O1 = Some pw"

lemma auth_values_simps [simp]:
  "auth_values [] = []"
  "auth_values (h # hs) = (if cstr (fst h) = ''Authentication'' then snd h # auth_values hs else auth_values hs)"
  by (simp_all add: auth_values_def)

lemma auth_loop_eq:
  assumes "outside_ok O1 H pw" "list_all2 kv_rep kvs hs"
  shows "auth_loop O1 kvs e = Some
     (if \<exists>v \<in> set (auth_values hs). hex_digest (H v) \<noteq> pw then Bad
      else if e \<or> auth_values hs \<noteq> [] then Passed else Missing)"
  using assms(2)
proof (induction kvs hs arbitrary: e rule: list_all2_induct)
  case (Cons kv kvs h hs)
  obtain k v where "kv_key kv = Some k" "kv_value kv = Some v" "sds_rep k (fst h)" "sds_rep v (snd h)"
    using Cons.hyps(1) by (auto simp: kv_rep_def sees_def)
  moreover have "simpleSHA512 O1 (snd h) = Some (H (snd h))" "stored_password O1 = Some pw"
    using assms(1) by (simp_all add: outside_ok_def simpleSHA512_def)
  ultimately show ?case by (auto simp: Cons.IH)
qed simp

lemma authenticate_eq:
  assumes "outside_ok O1 H pw" "pairs_rep (req_headers r) (headercount r) hs"
  shows "authenticate O1 r = Some (outcome_of H pw (auth_values hs))"
  using auth_loop_eq [OF assms(1), of "take (headercount r) (req_headers r)" hs False] assms(2)
  by (auto simp: authenticate_def outcome_of_def pairs_rep_def)

definition refusal :: "auth \<Rightarrow> bytes" where
  "refusal a = (if a = Missing then please_text else bad_password_text)"

lemma refusal_texts:
  "cstr please_text = please_text" "length please_text < sds_limit"
  "cstr bad_password_text = bad_password_text" "length bad_password_text < sds_limit"
  by (simp_all add: please_text_def bad_password_text_def html_text_def CRLF_def cstr_def sds_limit_def)

lemma authenticated_eq:
  assumes "outside_ok O1 H pw" "pairs_rep (req_headers r) (headercount r) hs"
  shows "outcome_of H pw (auth_values hs) = Passed \<Longrightarrow> authenticated mem O1 r st body = body"
    "outcome_of H pw (auth_values hs) \<noteq> Passed \<Longrightarrow>
      runs (\<lambda>(p, st'). sees (refusal (outcome_of H pw (auth_values hs))) p \<and> st' = st) (authenticated mem O1 r st body)"
proof -
  note eq = authenticate_eq [OF assms]
  show "authenticated mem O1 r st body = body" if "outcome_of H pw (auth_values hs) = Passed"
    using that by (simp add: authenticated_def eq)
  have "runs (sees please_text) (sdsnew mem (Some please_text))"
    "runs (sees bad_password_text) (sdsnew mem (Some bad_password_text))"
    using runs_sdsnew [of please_text] runs_sdsnew [of bad_password_text] by (simp_all add: refusal_texts)
  then show "runs (\<lambda>(p, st'). sees (refusal (outcome_of H pw (auth_values hs))) p \<and> st' = st)
      (authenticated mem O1 r st body)" if "outcome_of H pw (auth_values hs) \<noteq> Passed"
    using that
    by (cases "outcome_of H pw (auth_values hs)") (auto simp: authenticated_def eq refusal_def runs_def)
qed

lemma authenticated_refused:
  assumes "outside_ok O1 H pw" "pairs_rep (req_headers r) (headercount r) hs"
    "auth_values hs = [] \<or> (\<exists>v \<in> set (auth_values hs). hex_digest (H v) \<noteq> pw)"
  shows "runs (\<lambda>(p, st'). st' = st \<and> sees (if auth_values hs = [] then please_text else bad_password_text) p)
    (authenticated mem O1 r st body)"
proof -
  have a: "outcome_of H pw (auth_values hs) \<noteq> Passed" using assms(3) by (auto simp: outcome_of_def)
  have b: "refusal (outcome_of H pw (auth_values hs)) = (if auth_values hs = [] then please_text else bad_password_text)"
    using assms(3) by (auto simp: outcome_of_def refusal_def)
  show ?thesis by (rule runs_mono [OF authenticated_eq(2) [OF assms(1,2) a, unfolded b]]) auto
qed

section \<open>Variables\<close>

lemma used_vars_eq:
  assumes "pairs_rep (req_body r) (bodycount r) bs"
  obtains kvs where "used_vars r = Some kvs" "list_all2 kv_rep kvs bs"
  using assms that by (auto simp: used_vars_def pairs_rep_def MAX_LIST_LENGTH_def)

text \<open>The value of the first variable with a name.\<close>

definition var_of :: "bytes \<Rightarrow> (bytes \<times> bytes) list \<Rightarrow> bytes option" where
  "var_of nm bs = map_option snd (find (\<lambda>b. cstr (fst b) = nm) bs)"

definition sees_opt :: "bytes option \<Rightarrow> sds option \<Rightarrow> bool" where
  "sees_opt t p \<longleftrightarrow> (case t of None \<Rightarrow> p = None | Some v \<Rightarrow> sees v p)"

lemma find_var_runs:
  "list_all2 kv_rep kvs bs \<Longrightarrow> runs (sees_opt (var_of nm bs)) (find_var nm kvs)"
proof (induction kvs bs rule: list_all2_induct)
  case (Cons kv kvs b bs)
  obtain k v where "kv_key kv = Some k" "kv_value kv = Some v" "sds_rep k (fst b)" "sds_rep v (snd b)"
    using Cons.hyps(1) by (auto simp: kv_rep_def sees_def)
  with Cons.IH show ?case by (simp add: var_of_def sees_opt_def)
qed (simp add: var_of_def sees_opt_def)

lemma find_var_sds_runs:
  assumes "sees nm p" "list_all2 kv_rep kvs bs"
  shows "runs (sees_opt (map_option snd (find (\<lambda>b. fst b = nm) bs))) (find_var_sds p kvs)"
  using assms(2)
proof (induction kvs bs rule: list_all2_induct)
  case (Cons kv kvs b bs)
  obtain k v where kv: "kv_key kv = Some k" "kv_value kv = Some v" "sds_rep k (fst b)" "sds_rep v (snd b)"
    using Cons.hyps(1) by (auto simp: kv_rep_def sees_def)
  obtain n where n: "p = Some n" "sds_rep n nm" using assms(1) by (auto simp: sees_def)
  have "find_var_sds p (kv # kvs) = (if fst b = nm then Some (Some v) else find_var_sds p kvs)"
    using kv(1,2) n(1) by (simp add: sdscmp_if [OF kv(3) n(2)])
  with Cons.IH kv(4) show ?case by (simp add: sees_opt_def)
qed (simp add: sees_opt_def)

section \<open>Deleting\<close>

definition delete_statement :: "bytes \<Rightarrow> bytes" where
  "delete_statement t = ''DELETE from posts where title_EN='' @ sql_text (Some t) @ '' or title_HUN=''
     @ sql_text (Some t) @ '';''"

lemma delete_post_eq:
  "delete_post exec (Some t) w = w\<lparr>db := fst (exec (delete_statement t) (db w))\<rparr>"
  by (simp add: delete_post_def delete_statement_def sql_execute_def)

lemma deleted_literal: "cstr deleted_text = deleted_text" "length deleted_text < sds_limit"
  by (simp_all add: deleted_text_def html_text_def CRLF_def cstr_def sds_limit_def)

lemma delete_body_runs:
  assumes "pairs_rep (req_body r) (bodycount r) bs" "outside_ok O1 H pw"
    "pairs_rep (req_headers r) (headercount r) hs" "outcome_of H pw (auth_values hs) = Passed"
  shows "runs (\<lambda>(p, w'). sees deleted_text p
      \<and> db w' = (case var_of ''title'' bs of None \<Rightarrow> db w
          | Some t \<Rightarrow> fst (sqlite O1 (delete_statement (cstr t)) (db w)))) (deleteroute mem O1 r w)"
proof -
  obtain kvs where kvs: "used_vars r = Some kvs" "list_all2 kv_rep kvs bs" by (rule used_vars_eq [OF assms(1)])
  obtain v where v: "find_var ''title'' kvs = Some v" "sees_opt (var_of ''title'' bs) v"
    using find_var_runs [OF kvs(2)] by (auto simp: runs_def)
  obtain p where p: "sdsnew mem (Some deleted_text) = Some p" "sees deleted_text p"
    using runs_sdsnew [of deleted_text] by (auto simp: runs_def deleted_literal)
  have eq: "deleteroute mem O1 r w = do {
      w \<leftarrow> (case v of None \<Rightarrow> Some w
        | Some s \<Rightarrow> do { t \<leftarrow> c_string s; free_callback_sql (delete_post (sqlite O1) (Some t) (init_callback_sql w)) });
      Some (p, w) }"
    by (simp add: deleteroute_def authenticated_eq(1) [OF assms(2-4)] kvs(1) v(1) p(1))
  show ?thesis
    unfolding eq using v(2) p(2)
    by (cases "var_of ''title'' bs")
      (auto simp: sees_opt_def sees_def delete_post_eq free_callback_sql_def init_callback_sql_def no_pair_def Let_def)
qed

section \<open>The rows of a query\<close>

lemma select_rep:
  assumes "exec sql (db w) = (d, rows)" "\<forall>r \<in> set rows. row_fits r" "length (concat rows) \<le> MAXPOSTSSHOWN"
  shows "runs (\<lambda>w'. rows_rep w' (map cell_text (concat rows)) \<and> db w' = d)
    (sql_select mem exec sql (init_callback_sql w))"
proof -
  have "rows_rep ((init_callback_sql w)\<lparr>db := d\<rparr>) []" using init_rows [of w] by (simp add: rows_rep_def)
  from callbacks_runs [OF this assms(2)] assms(1,3) show ?thesis
    by (simp add: sql_select_def init_callback_sql_def)
qed

lemma sqldata_rep:
  assumes "rows_rep w ps" "i < MAXPOSTSSHOWN"
  shows "i < length ps \<Longrightarrow> runs (\<lambda>kv. kv_rep kv (ps ! i)) (sqldata w i)"
    "length ps \<le> i \<Longrightarrow> sqldata w i = Some no_pair"
proof -
  have i: "i < length (kvp_array_sqldata w)" "\<not> dangling w" using assms by (simp_all add: rows_rep_def)
  then have eq: "sqldata w i = Some (kvp_array_sqldata w ! i)" by (simp add: sqldata_def rd_def)
  show "runs (\<lambda>kv. kv_rep kv (ps ! i)) (sqldata w i)" if "i < length ps"
  proof -
    have "list_all2 kv_rep (take (length ps) (kvp_array_sqldata w)) ps" using assms(1) by (simp add: rows_rep_def)
    then have "kv_rep (take (length ps) (kvp_array_sqldata w) ! i) (ps ! i)"
      using that list_all2_nthD2 by blast
    then show ?thesis using that eq by simp
  qed
  show "sqldata w i = Some no_pair" if "length ps \<le> i"
    using assms that eq by (simp add: rows_rep_def)
qed

lemma free_rows: "\<not> dangling w \<Longrightarrow> runs (\<lambda>w'. db w' = db w) (free_callback_sql w)"
  by (simp add: free_callback_sql_def Let_def)

section \<open>Reading a post\<close>

text \<open>The object that is sent: names as they are, values in base64.\<close>

definition json_member :: "bytes \<times> bytes \<Rightarrow> bytes" where
  "json_member p = [CHR 0x22] @ fst p @ [CHR 0x22, CHR '':'', CHR 0x22] @ rfc4648 (snd p) @ [CHR 0x22]"

definition json_fits :: "(bytes \<times> bytes) list \<Rightarrow> bool" where
  "json_fits ps \<longleftrightarrow> (\<forall>p \<in> set ps. length (fst p) < 2 ^ 28 \<and> length (snd p) < 2 ^ 28)"

lemma sds_rep_put_last:
  assumes "sds_rep s (t @ [c])"
  shows "runs (\<lambda>cells. sds_rep (s\<lparr>sbuf := cells\<rparr>) (t @ [d])) (put (sbuf s) (sdslen s - 1) d)"
proof -
  have n: "sdslen s = length t + 1" using sds_repD(2) [OF assms] by simp
  have lt: "length t + 1 < length (sbuf s)" using sds_repD(5) [OF assms] by simp
  have "take (length t + 2) (sbuf s) = map Some t @ [Some c, Some NUL]" using assms by (simp add: sds_rep_def)
  then have "take (length t + 2) ((sbuf s)[length t := Some d]) = map Some t @ [Some d, Some NUL]"
    by (simp add: take_update_swap list_update_append)
  then show ?thesis using assms lt n by (simp add: put_def sds_rep_def)
qed

lemma rfc4648_length:
  assumes "length v < 2 ^ 28"
  shows "4 * (length v + 2) < 2 ^ 31" "length (rfc4648 v) = b64_len (length v)" "b64_len (length v) < 2 ^ 31"
proof -
  show l: "4 * (length v + 2) < 2 ^ 31" using assms by simp
  show e: "length (rfc4648 v) = b64_len (length v)"
  proof -
    obtain out left where loop: "base64_loop v = (out, left)" by fastforce
    show ?thesis by (rule base64_shape [OF loop]) simp
  qed
  show "b64_len (length v) < 2 ^ 31"
  proof -
    have "b64_len (length v) = 4 * ((length v + 2) div 3)" by (rule b64_len_eq)
    also have "\<dots> \<le> 4 * (length v + 2)" by simp
    finally show ?thesis using l by linarith
  qed
qed


lemma json_column_runs:
  assumes "sees t p" "sds_rep k (fst c)" "sds_rep v (snd c)" "json_fits [c]" "length t + 2 ^ 32 < sds_limit"
  shows "runs (sees (t @ json_member c @ [if i = 4 then CHR ''}'' else CHR '','']))
    (json_column mem i k v p)"
proof -
  have len: "length (fst c) < 2 ^ 28" "length (snd c) < 2 ^ 28" using assms(4) by (simp_all add: json_fits_def)
  note b = rfc4648_length [OF len(2)]
  let ?e = "rfc4648 (snd c)"
  have e: "length ?e < 2 ^ 31" using b(2,3) by simp
  have b64: "base64 mem (snd c) = Some (Some (map Some ?e @ [Some NUL]), length ?e)"
    using base64_computes [OF b(1), of mem] by simp
  have ld: "loads (map Some ?e @ [Some NUL]) 0 (length ?e) = Some ?e"
    by (rule loads_Some) (simp_all add: bslice_def)
  have q: "cstr [CHR 0x22] = [CHR 0x22]" "cstr [CHR 0x22, CHR '':'', CHR 0x22] = [CHR 0x22, CHR '':'', CHR 0x22]"
    "cstr [CHR 0x22, CHR '',''] = [CHR 0x22, CHR '','']"
    by (simp_all add: cstr_def)
  obtain s0 where s0: "p = Some s0" "sds_rep s0 t" using assms(1) by (auto simp: sees_def)
  obtain s1 where s1: "sdscat mem s0 [CHR 0x22] = Some (Some s1)" "sds_rep s1 (t @ [CHR 0x22])"
    using runs_sdscat [OF s0(2), of "[CHR 0x22]"] assms(5) by (auto simp: runs_def sees_def q)
  obtain s2 where s2: "sdscatsds mem s1 k = Some (Some s2)" "sds_rep s2 (t @ [CHR 0x22] @ fst c)"
    using runs_sdscatsds [OF s1(2) assms(2)] assms(5) len by (auto simp: runs_def sees_def)
  obtain s3 where s3: "sdscat mem s2 [CHR 0x22, CHR '':'', CHR 0x22] = Some (Some s3)"
      "sds_rep s3 (t @ [CHR 0x22] @ fst c @ [CHR 0x22, CHR '':'', CHR 0x22])"
    using runs_sdscat [OF s2(2), of "[CHR 0x22, CHR '':'', CHR 0x22]"] assms(5) len by (auto simp: runs_def sees_def q)
  obtain s4 where s4: "sdscatlen mem s3 ?e (length ?e) = Some (Some s4)"
      "sds_rep s4 (t @ [CHR 0x22] @ fst c @ [CHR 0x22, CHR '':'', CHR 0x22] @ ?e)"
    using runs_sdscatlen [OF s3(2) order_refl, of ?e] assms(5) len e by (auto simp: runs_def sees_def)
  have m: "t @ json_member c = t @ [CHR 0x22] @ fst c @ [CHR 0x22, CHR '':'', CHR 0x22] @ ?e @ [CHR 0x22]"
    by (simp add: json_member_def)
  obtain s5 where s5: "sdscat mem s4 [CHR 0x22, CHR '',''] = Some (Some s5)" "sds_rep s5 ((t @ json_member c) @ [CHR '',''])"
    using runs_sdscat [OF s4(2), of "[CHR 0x22, CHR '','']"] assms(5) len e
    by (auto simp: runs_def sees_def q m)
  obtain cells where cells: "put (sbuf s5) (sdslen s5 - 1) (CHR ''}'') = Some cells"
      "sds_rep (s5\<lparr>sbuf := cells\<rparr>) ((t @ json_member c) @ [CHR ''}''])"
    using sds_rep_put_last [OF s5(2)] by (auto simp: runs_def)
  have "json_column mem i k v p = (if i = 4 then Some (Some (s5\<lparr>sbuf := cells\<rparr>)) else Some (Some s5))"
    using sds_bytes_rep [OF assms(3)] cells(1)
    by (simp add: json_column_def s0(1) s1(1) s2(1) s3(1) b64 ld s4(1) s5(1))
  then show ?thesis using s5(2) cells(2) by simp
qed

lemma json_member_length: "json_fits [c] \<Longrightarrow> length (json_member c) + 1 < 2 ^ 32"
  using rfc4648_length(2,3) [of "snd c"] by (simp add: json_member_def json_fits_def)

text \<open>The columns from \<open>i\<close> on.\<close>

fun json_rest :: "(bytes \<times> bytes) list \<Rightarrow> bytes" where
  "json_rest [] = []"
| "json_rest [c] = json_member c @ ''}''"
| "json_rest (c # cs) = json_member c @ '','' @ json_rest cs"

lemma not_there_literal: "cstr not_there_text = not_there_text" "length not_there_text < sds_limit"
  by (simp_all add: not_there_text_def html_text_def CRLF_def cstr_def sds_limit_def)

lemma json_loop_runs:
  assumes "rows_rep w ps" "length ps = 5" "json_fits ps"
  shows "i \<le> 5 \<Longrightarrow> sees t p \<Longrightarrow> length t + (5 - i) * 2 ^ 32 < sds_limit \<Longrightarrow>
    runs (\<lambda>(q, w'). sees (t @ json_rest (drop i ps)) q \<and> db w' = db w) (json_loop mem [i..<5] w p)"
proof (induction "5 - i" arbitrary: i t p)
  case 0
  have "\<not> dangling w" using assms(1) by (simp add: rows_rep_def)
  from free_rows [OF this] 0 assms(2) show ?case by (auto simp: runs_def)
next
  case (Suc n)
  then have i: "i < 5" "i < length ps" "[i..<5] = i # [Suc i..<5]" using assms(2) by (simp_all add: upt_conv_Cons)
  let ?c = "ps ! i"
  have c: "json_fits [?c]" using assms(3) i(2) by (simp add: json_fits_def)
  have "i < MAXPOSTSSHOWN" using i(1) by (simp add: MAXPOSTSSHOWN_def)
  from sqldata_rep(1) [OF assms(1) this i(2)] obtain kv where kv: "sqldata w i = Some kv" "kv_rep kv ?c"
    by (auto simp: runs_def)
  obtain k v where k: "kv_key kv = Some k" "kv_value kv = Some v" "sds_rep k (fst ?c)" "sds_rep v (snd ?c)"
    using kv(2) by (auto simp: kv_rep_def sees_def)
  have fit: "length t + 2 ^ 32 + (5 - Suc i) * 2 ^ 32 < sds_limit"
  proof -
    have "5 - i = Suc (5 - Suc i)" using i(1) by simp
    then have "(5 - i) * 2 ^ 32 = 2 ^ 32 + (5 - Suc i) * (2 ^ 32 :: nat)" by simp
    with Suc.prems(3) show ?thesis by linarith
  qed
  let ?t = "t @ json_member ?c @ [if i = 4 then CHR ''}'' else CHR '','']"
  obtain q where q: "json_column mem i k v p = Some q" "sees ?t q"
    using json_column_runs [OF Suc.prems(2) k(3,4) c] fit by (auto simp: runs_def)
  have "length ?t + (5 - Suc i) * 2 ^ 32 < sds_limit" using fit json_member_length [OF c] by simp
  moreover have "n = 5 - Suc i" "Suc i \<le> 5" using Suc.hyps(2) i(1) by simp_all
  ultimately have ih: "runs (\<lambda>(q, w'). sees (?t @ json_rest (drop (Suc i) ps)) q \<and> db w' = db w)
      (json_loop mem [Suc i..<5] w q)"
    using Suc.hyps(1) [OF _ _ q(2)] by blast
  have "drop i ps = ?c # drop (Suc i) ps" using i(2) by (simp add: Cons_nth_drop_Suc)
  moreover have "i = 4 \<longleftrightarrow> drop (Suc i) ps = []" using i assms(2) by auto
  ultimately have "?t @ json_rest (drop (Suc i) ps) = t @ json_rest (drop i ps)"
    by (cases "drop (Suc i) ps") auto
  with ih show ?case by (simp add: i(3) kv(1) k(1,2) q(1))
qed

lemma json_loop_missing:
  assumes "rows_rep w []"
  shows "runs (\<lambda>(q, w'). sees not_there_text q \<and> db w' = db w) (json_loop mem [0..<5] w p)"
proof -
  have "sqldata w 0 = Some no_pair" by (rule sqldata_rep(2) [OF assms]) (simp_all add: MAXPOSTSSHOWN_def)
  moreover have "\<not> dangling w" using assms by (simp add: rows_rep_def)
  moreover have "runs (sees not_there_text) (sdsnew mem (Some not_there_text))"
    using runs_sdsnew [of not_there_text] by (simp add: not_there_literal)
  ultimately show ?thesis
    using free_rows [of w] by (auto simp: upt_conv_Cons no_pair_def runs_def)
qed


section \<open>Reading a post through the query\<close>

definition top1_statement :: "bytes \<Rightarrow> bytes" where
  "top1_statement t = ''SELECT title_EN,category,content_EN,title_HUN,content_HUN FROM posts WHERE title_HUN=''
     @ sql_text (Some t) @ '' or title_EN='' @ sql_text (Some t) @ '' ORDER BY date(created_at) DESC LIMIT 1;''"

lemma json_text_literal: "cstr json_text = json_text" "length json_text + 5 * 2 ^ 32 < sds_limit"
  by (simp_all add: json_text_def CRLF_def cstr_def sds_limit_def)

lemma updateroute_eq:
  assumes "outside_ok O1 H pw" "pairs_rep (req_headers r) (headercount r) hs"
    "outcome_of H pw (auth_values hs) = Passed" "pairs_rep (req_body r) (bodycount r) bs"
    "var_of ''title'' bs = Some t"
  shows "\<exists>p. sees json_text p \<and> updateroute mem O1 r w
    = sql_select mem (sqlite O1) (top1_statement (cstr t)) (init_callback_sql w) \<bind> (\<lambda>w. json_loop mem [0..<5] w p)"
proof -
  obtain kvs where kvs: "used_vars r = Some kvs" "list_all2 kv_rep kvs bs" by (rule used_vars_eq [OF assms(4)])
  obtain s where s: "find_var ''title'' kvs = Some (Some s)" "sds_rep s t"
    using find_var_runs [OF kvs(2), of "''title''"] assms(5) by (auto simp: runs_def sees_opt_def sees_def)
  have "length json_text < sds_limit" using json_text_literal(2) by linarith
  then obtain p where p: "sdsnew mem (Some json_text) = Some p" "sees json_text p"
    using runs_sdsnew [of json_text] by (auto simp: runs_def json_text_literal(1))
  show ?thesis
    by (rule exI [of _ p])
      (simp add: updateroute_def authenticated_eq(1) [OF assms(1-3)] kvs(1) s(1) c_string_rep [OF s(2)] p
        select_top1_by_name_def top1_statement_def)
qed

lemma updateroute_without_title:
  assumes "outside_ok O1 H pw" "pairs_rep (req_headers r) (headercount r) hs"
    "outcome_of H pw (auth_values hs) = Passed" "pairs_rep (req_body r) (bodycount r) bs"
    "var_of ''title'' bs = None"
  shows "\<exists>p. sees json_text p \<and> updateroute mem O1 r w = json_loop mem [0..<5] w p"
proof -
  obtain kvs where kvs: "used_vars r = Some kvs" "list_all2 kv_rep kvs bs" by (rule used_vars_eq [OF assms(4)])
  have s: "find_var ''title'' kvs = Some None"
    using find_var_runs [OF kvs(2), of "''title''"] assms(5) by (auto simp: runs_def sees_opt_def)
  have "length json_text < sds_limit" using json_text_literal(2) by linarith
  then obtain p where p: "sdsnew mem (Some json_text) = Some p" "sees json_text p"
    using runs_sdsnew [of json_text] by (auto simp: runs_def json_text_literal(1))
  show ?thesis
    by (rule exI [of _ p])
      (simp add: updateroute_def authenticated_eq(1) [OF assms(1-3)] kvs(1) s p)
qed

section \<open>The language\<close>

lemma language_literal:
  "lang \<in> {''HUN'', ''EN''} \<Longrightarrow> cstr (language_text lang) = language_text lang \<and> length (language_text lang) < sds_limit"
  by (auto simp: language_text_def CRLF_def cstr_def sds_limit_def)

lemma decoded_length: "length (snd (percent_decode (Some (cstr t)))) \<le> length t + 1"
proof -
  have "length (cstr t) \<le> length t" by (simp add: cstr_def length_takeWhile_le)
  moreover have "length (snd (percent_decode (Some (cstr t)))) \<le> length (cstr t) + 1"
    using pd_loop_length [of "cstr t" "[]"] by (simp add: percent_decode_def)
  ultimately show ?thesis by linarith
qed

lemma decode_value_rep:
  assumes "sds_rep s t"
  shows "decode_value mem s = Some (cstr (snd (percent_decode (Some (cstr t)))))"
  using decoded_length [of t] assms by (simp add: decode_value_def sds_repD(2) not_less)

definition chosen_language :: "(bytes \<times> bytes) list \<Rightarrow> bytes" where
  "chosen_language bs =
     (case find (\<lambda>b. fst b = ''lang'') bs of
        Some b \<Rightarrow> if cstr (snd (percent_decode (Some (cstr (snd b))))) = ''HUN'' then ''HUN'' else ''EN''
      | None \<Rightarrow> ''EN'')"

lemma sdsnew_NULL: "runs (sees '''') (sdsnew mem None)"
proof -
  have "returns mem (\<lambda>s. sds_rep s '''' \<and> sdsalloc s = 0) (sdsnewlen mem Init_NULL 0)"
    by (rule sdsnewlen_returns [where bs = "''''"]) (simp_all add: sds_limit_def)
  then show ?thesis unfolding sdsnew_def by (intro returns_sees) (auto elim!: returns_mono)
qed

lemma languageroute_runs:
  assumes "pairs_rep (req_body r) (bodycount r) bs" "\<forall>b \<in> set bs. length (snd b) + 1 < sds_limit"
  shows "runs (sees (language_text (chosen_language bs))) (languageroute mem r)"
proof -
  obtain kvs where kvs: "used_vars r = Some kvs" "list_all2 kv_rep kvs bs" by (rule used_vars_eq [OF assms(1)])
  have lit: "cstr ''lang'' = ''lang''" "cstr ''HUN'' = ''HUN''" "length ''lang'' < sds_limit" "length ''HUN'' < sds_limit"
    by (simp_all add: cstr_def sds_limit_def)
  obtain p where p: "sdsnew mem (Some ''lang'') = Some p" "sees ''lang'' p"
    using runs_sdsnew [of "''lang''"] lit by (auto simp: runs_def)
  obtain h where h: "sdsnew mem (Some ''HUN'') = Some (Some h)" "sds_rep h ''HUN''"
    using runs_sdsnew [of "''HUN''"] lit by (auto simp: runs_def sees_def)
  let ?f = "find (\<lambda>b. fst b = ''lang'') bs"
  obtain v where v: "find_var_sds p kvs = Some v" "sees_opt (map_option snd ?f) v"
    using find_var_sds_runs [OF p(2) kvs(2)] by (auto simp: runs_def)
  let ?dec = "case v of None \<Rightarrow> Some None | Some s \<Rightarrow> do { t \<leftarrow> decode_value mem s; Some (Some t) }"
  have "\<exists>u d. ?dec = Some u \<and> sdsnew mem u = Some (Some d)
      \<and> (\<exists>t. sds_rep d t \<and> chosen_language bs = (if t = ''HUN'' then ''HUN'' else ''EN''))"
  proof (cases ?f)
    case None
    with v(2) have "v = None" by (simp add: sees_opt_def)
    with None sdsnew_NULL show ?thesis by (auto simp: chosen_language_def runs_def sees_def)
  next
    case (Some b)
    then obtain s where s: "v = Some s" "sds_rep s (snd b)" using v(2) by (auto simp: sees_opt_def sees_def)
    have "b \<in> set bs" using Some by (metis (mono_tags, lifting) find_Some_iff nth_mem)
    then have len: "length (snd b) + 1 < sds_limit" using assms(2) by blast
    let ?t = "cstr (snd (percent_decode (Some (cstr (snd b)))))"
    have "length ?t \<le> length (snd b) + 1"
      using decoded_length [of "snd b"] le_trans unfolding cstr_def [of "snd (percent_decode _)"]
      by (blast intro: length_takeWhile_le)
    with len obtain d where "sdsnew mem (Some ?t) = Some (Some d)" "sds_rep d ?t"
      using runs_sdsnew [of ?t] by (auto simp: runs_def sees_def)
    with s Some show ?thesis by (auto simp: chosen_language_def decode_value_rep)
  qed
  then obtain u d t where d: "?dec = Some u" "sdsnew mem u = Some (Some d)" "sds_rep d t"
      "chosen_language bs = (if t = ''HUN'' then ''HUN'' else ''EN'')"
    by blast
  have "languageroute mem r = sdsnew mem (Some (language_text (chosen_language bs)))"
    by (simp add: languageroute_def p(1) kvs(1) v(1) d(1,2,4) h(1) sdscmp_if [OF d(3) h(2)] cong: if_cong)
  moreover have "chosen_language bs \<in> {''HUN'', ''EN''}" using d(4) by simp
  ultimately show ?thesis using runs_sdsnew [of "language_text (chosen_language bs)"] language_literal by metis
qed


section \<open>Saving a post\<close>

lemma cells_string_unterminated: "NUL \<notin> set bin \<Longrightarrow> cells_string (map Some bin @ None # cs) = None"
proof -
  assume "NUL \<notin> set bin"
  then have "cell_strlen (map Some bin @ None # cs) = None"
    by (induction bin) auto
  then show ?thesis by (simp add: cells_string_def)
qed

definition post_names :: "bytes set" where
  "post_names = {''content_hun'', ''content_eng'', ''title_hun'', ''title_en''}"

lemma decode_post_unterminated:
  assumes "sds_rep v (rfc4648 bin)" "bin \<noteq> []" "4 * (length bin + 2) < 2 ^ 31"
  shows "decode_post mem v = Some (Some (map Some bin @ [None]))"
  using unbase64_inverts [OF assms(2,3), of mem] assms(1)
  by (simp add: decode_post_def sds_repD(2))

lemma save_loop_unterminated:
  assumes "kv_rep kv (nm, rfc4648 bin)" "cstr nm \<in> post_names" "bin \<noteq> []" "4 * (length bin + 2) < 2 ^ 31" "NUL \<notin> set bin"
  shows "save_loop mem O1 (kv # kvs) pv w = None"
proof -
  obtain k v where k: "kv_key kv = Some k" "kv_value kv = Some v" "sds_rep k nm" "sds_rep v (rfc4648 bin)"
    using assms(1) by (auto simp: kv_rep_def sees_def)
  note d = decode_post_unterminated [OF k(4) assms(3,4)]
  have "decode_printed mem v = None" by (simp add: decode_printed_def d cells_string_unterminated [OF assms(5)])
  moreover have "sql_arg (Some (map Some bin @ [None])) = None"
    by (simp add: sql_arg_def cells_string_unterminated [OF assms(5)])
  ultimately show ?thesis using assms(2) by (auto simp: k(1,2) c_string_rep [OF k(3)] c_string_rep [OF k(4)] d post_names_def)
qed

lemma save_loop_other:
  assumes "list_all2 kv_rep kvs bs" "\<forall>b \<in> set bs. cstr (fst b) \<notin> insert ''category'' post_names"
  shows "save_loop mem O1 (kvs @ rest) pv w = save_loop mem O1 rest pv w"
  using assms
proof (induction kvs bs rule: list_all2_induct)
  case (Cons kv kvs b bs)
  obtain k v where "kv_key kv = Some k" "kv_value kv = Some v" "sds_rep k (fst b)" "sds_rep v (snd b)"
    using Cons.hyps(1) by (auto simp: kv_rep_def sees_def)
  with Cons show ?case by (simp add: post_names_def)
qed simp


section \<open>Properties\<close>

text \<open>C4: The three routes of the administration do nothing without the password. If the request has
  no Authentication header, or one whose digest is not the stored one, then deleting, reading and
  saving a post leave the database, the rows and the page cache as they were and answer with a
  fixed text that says which of the two it was.\<close>

theorem admin_needs_password:
  assumes "outside_ok O1 H pw" "pairs_rep (req_headers r) (headercount r) hs"
    "auth_values hs = [] \<or> (\<exists>v \<in> set (auth_values hs). hex_digest (H v) \<noteq> pw)"
  shows "runs (\<lambda>(p, w'). w' = w \<and> sees (if auth_values hs = [] then please_text else bad_password_text) p)
      (deleteroute mem O1 r w)
    \<and> runs (\<lambda>(p, w'). w' = w \<and> sees (if auth_values hs = [] then please_text else bad_password_text) p)
      (updateroute mem O1 r w)
    \<and> runs (\<lambda>(p, st'). st' = (w, pages) \<and> sees (if auth_values hs = [] then please_text else bad_password_text) p)
      (saveroute mem O1 r (w, pages))"
  unfolding deleteroute_def updateroute_def saveroute_def
  by (intro conjI authenticated_refused [OF assms])

text \<open>C35: An authenticated read of a post sends one JSON object with the five columns of the row the
  query found, each name with the RFC 4648 encoding of its value, closed by a brace instead of the
  last comma; if the query found nothing, it sends the text for that. The database is queried once,
  with the title as a quoted literal.\<close>

theorem updateroute_sends_json:
  assumes "outside_ok O1 H pw" "pairs_rep (req_headers r) (headercount r) hs"
    "auth_values hs \<noteq> []" "\<forall>v \<in> set (auth_values hs). hex_digest (H v) = pw"
    "pairs_rep (req_body r) (bodycount r) bs" "var_of ''title'' bs = Some t"
    "sqlite O1 (top1_statement (cstr t)) (db w) = (d, rows)"
    "rows = [] \<or> (\<exists>row. rows = [row] \<and> length row = 5 \<and> row_fits row \<and> json_fits (map cell_text row))"
  shows "runs (\<lambda>(p, w'). db w' = d
      \<and> sees (case rows of [] \<Rightarrow> not_there_text | row # _ \<Rightarrow> json_text @ json_rest (map cell_text row)) p)
    (updateroute mem O1 r w)"
proof -
  have passed: "outcome_of H pw (auth_values hs) = Passed" using assms(3,4) by (simp add: outcome_of_def)
  obtain p where p: "sees json_text p" and eq: "updateroute mem O1 r w
      = sql_select mem (sqlite O1) (top1_statement (cstr t)) (init_callback_sql w) \<bind> (\<lambda>w. json_loop mem [0..<5] w p)"
    using updateroute_eq [OF assms(1,2) passed assms(5,6)] by blast
  have "\<forall>row \<in> set rows. row_fits row" "length (concat rows) \<le> MAXPOSTSSHOWN"
    using assms(8) by (auto simp: MAXPOSTSSHOWN_def)
  from select_rep [where exec = "sqlite O1" and w = w, OF assms(7) this] obtain w'
    where w': "sql_select mem (sqlite O1) (top1_statement (cstr t)) (init_callback_sql w) = Some w'"
      "rows_rep w' (map cell_text (concat rows))" "db w' = d"
    by (auto simp: runs_def)
  show ?thesis
  proof (cases rows)
    case Nil
    with json_loop_missing [of w' p] w' show ?thesis by (auto simp: eq runs_def)
  next
    case (Cons row _)
    with assms(8) have row: "rows = [row]" "length row = 5" "json_fits (map cell_text row)" by auto
    have "sees json_text p \<Longrightarrow> length json_text + (5 - 0) * 2 ^ 32 < sds_limit" using json_text_literal(2) by simp
    from json_loop_runs [OF _ _ row(3) _ p this [OF p], of w'] w'(2) row(1,2)
    have "runs (\<lambda>(q, v). sees (json_text @ json_rest (map cell_text row)) q \<and> db v = db w') (json_loop mem [0..<5] w' p)"
      by simp
    with w'(1,3) row(1) show ?thesis by (auto simp: eq runs_def)
  qed
qed

text \<open>C37: An authenticated save whose first post variable is a text in base64 has undefined behaviour:
  the decoder does not write the last byte of its buffer, and the route prints the buffer, or puts
  it into a query, as a C string.\<close>

theorem saveroute_reads_past:
  assumes "outside_ok O1 H pw" "pairs_rep (req_headers r) (headercount r) hs"
    "auth_values hs \<noteq> []" "\<forall>v \<in> set (auth_values hs). hex_digest (H v) = pw"
    "pairs_rep (req_body r) (bodycount r) (bs @ [(nm, rfc4648 bin)] @ bs')"
    "\<forall>b \<in> set bs. cstr (fst b) \<notin> insert ''category'' post_names" "cstr nm \<in> post_names"
    "bin \<noteq> []" "NUL \<notin> set bin" "4 * (length bin + 2) < 2 ^ 31"
  shows "saveroute mem O1 r st = None"
proof -
  have passed: "outcome_of H pw (auth_values hs) = Passed" using assms(3,4) by (simp add: outcome_of_def)
  obtain kvs where kvs: "used_vars r = Some kvs" "list_all2 kv_rep kvs (bs @ [(nm, rfc4648 bin)] @ bs')"
    by (rule used_vars_eq [OF assms(5)])
  then obtain ks kv ks' where k: "kvs = ks @ kv # ks'" "list_all2 kv_rep ks bs" "kv_rep kv (nm, rfc4648 bin)"
    by (auto simp: list_all2_append2 list_all2_Cons2)
  have "save_loop mem O1 kvs no_vars (fst st) = None"
    unfolding k(1) save_loop_other [OF k(2) assms(6)]
    by (rule save_loop_unterminated [OF k(3) assms(7,8,10,9)])
  then show ?thesis by (simp add: saveroute_def authenticated_eq(1) [OF assms(1,2) passed] kvs(1))
qed

text \<open>C38: The language route answers with a redirect to the start page that sets the cookie to HUN
  exactly if the first variable named lang percent-decodes to HUN, and to EN otherwise, also when
  there is none or it does not decode.\<close>

theorem languageroute_sets_cookie:
  assumes "pairs_rep (req_body r) (bodycount r) bs" "\<forall>b \<in> set bs. length (snd b) + 1 < sds_limit"
  shows "runs (sees (language_text (case find (\<lambda>b. fst b = ''lang'') bs of
      Some b \<Rightarrow> if cstr (snd (percent_decode (Some (cstr (snd b))))) = ''HUN'' then ''HUN'' else ''EN''
    | None \<Rightarrow> ''EN''))) (languageroute mem r)"
  using languageroute_runs [OF assms] by (simp add: chosen_language_def)


section \<open>A concrete site\<close>

text \<open>The database is the list of the statements it got, and has one post; the digest of the password
  is 64 times a letter.\<close>

definition the_string :: "bytes \<Rightarrow> sds" where
  "the_string t = the (the (sdsnewlen mem (Init t) (length t)))"

lemma the_string_rep: "length t < sds_limit \<Longrightarrow> sds_rep (the_string t) t"
  using runs_sdsnewlen [OF _ order_refl, of t] by (auto simp: the_string_def runs_def sees_def)

definition the_pairs :: "(bytes \<times> bytes) list \<Rightarrow> keyvaluepair list" where
  "the_pairs ps = map (\<lambda>p. \<lparr>kv_key = Some (the_string (fst p)), kv_value = Some (the_string (snd p))\<rparr>) ps
     @ replicate (MAX_LIST_LENGTH - length ps) NULL_pair"

definition request_with :: "(bytes \<times> bytes) list \<Rightarrow> (bytes \<times> bytes) list \<Rightarrow> http_request" where
  "request_with hs bs = init_threadlocalhrq
     \<lparr>req_headers := the_pairs hs, headercount := length hs, req_body := the_pairs bs, bodycount := length bs\<rparr>"

lemma the_pairs_rep:
  assumes "length ps \<le> MAX_LIST_LENGTH - 2" "\<forall>p \<in> set ps. length (fst p) < sds_limit \<and> length (snd p) < sds_limit"
  shows "pairs_rep (the_pairs ps) (length ps) ps"
proof -
  have "list_all2 kv_rep (map (\<lambda>p. \<lparr>kv_key = Some (the_string (fst p)), kv_value = Some (the_string (snd p))\<rparr>) ps) ps"
    using assms(2) by (induction ps) (simp_all add: kv_rep_def the_string_rep)
  then show ?thesis using assms(1) by (simp add: pairs_rep_def the_pairs_def MAX_LIST_LENGTH_def)
qed

lemma request_with_rep:
  assumes "length hs \<le> MAX_LIST_LENGTH - 2" "\<forall>p \<in> set hs. length (fst p) < sds_limit \<and> length (snd p) < sds_limit"
    "length bs \<le> MAX_LIST_LENGTH - 2" "\<forall>p \<in> set bs. length (fst p) < sds_limit \<and> length (snd p) < sds_limit"
  shows "pairs_rep (req_headers (request_with hs bs)) (headercount (request_with hs bs)) hs"
    "pairs_rep (req_body (request_with hs bs)) (bodycount (request_with hs bs)) bs"
  using the_pairs_rep [OF assms(1,2)] the_pairs_rep [OF assms(3,4)] by (simp_all add: request_with_def)

definition toy_hash :: "bytes \<Rightarrow> bytes" where
  "toy_hash v = replicate 64 (if v = ''secret'' then CHR ''a'' else CHR ''b'')"

definition toy_row :: row where
  "toy_row = [(''title_EN'', Some ''t''), (''category'', None), (''content_EN'', Some ''x''),
     (''title_HUN'', Some ''u''), (''content_HUN'', Some ''y'')]"

definition toy_outside :: "bytes list outside" where
  "toy_outside = \<lparr>sqlite = \<lambda>sql log. (log @ [sql], [toy_row]), sha512 = \<lambda>v. Some (toy_hash v),
     password_file = Some (hex_digest (toy_hash ''secret'') @ [CHR 0x0A])\<rparr>"

definition toy_site :: "bytes list site" where
  "toy_site = \<lparr>db = [], kvp_array_sqldata = replicate MAXPOSTSSHOWN no_pair, selectcounter = 0, dangling = False\<rparr>"

lemma toy_outside_ok: "outside_ok toy_outside toy_hash (hex_digest (toy_hash ''secret''))"
proof -
  have "stored_password toy_outside = Some (hex_digest (toy_hash ''secret''))"
    by (simp add: stored_password_def toy_outside_def) code_simp
  then show ?thesis by (simp add: outside_ok_def toy_outside_def toy_hash_def SHA512_DIGEST_LENGTH_def)
qed

lemma toy_hash_differs: "hex_digest (toy_hash ''guess'') \<noteq> hex_digest (toy_hash ''secret'')"
  by code_simp

lemma toy_auth:
  "auth_values [(''Authentication'', ''secret'')] \<noteq> []"
  "\<forall>v \<in> set (auth_values [(''Authentication'', ''secret'')]). hex_digest (toy_hash v) = hex_digest (toy_hash ''secret'')"
  by (simp_all add: cstr_def)

theorem admin_needs_password_witness:
  "runs (\<lambda>(p, w'). w' = toy_site \<and> sees bad_password_text p)
    (deleteroute mem toy_outside (request_with [(''Authentication'', ''guess'')] [(''title'', ''t'')]) toy_site)"
proof -
  let ?hs = "[(''Authentication'', ''guess'')]" and ?bs = "[(''title'', ''t'')]"
  have "pairs_rep (req_headers (request_with ?hs ?bs)) (headercount (request_with ?hs ?bs)) ?hs"
    by (rule request_with_rep(1)) (simp_all add: MAX_LIST_LENGTH_def sds_limit_def)
  from admin_needs_password [OF toy_outside_ok this] show ?thesis
    by (simp add: toy_hash_differs cstr_def)
qed

theorem updateroute_sends_json_witness:
  "runs (\<lambda>(p, w'). db w' = [top1_statement ''t''] \<and> sees (json_text @ json_rest (map cell_text toy_row)) p)
    (updateroute mem toy_outside (request_with [(''Authentication'', ''secret'')] [(''title'', ''t'')]) toy_site)"
proof -
  let ?hs = "[(''Authentication'', ''secret'')]" and ?bs = "[(''title'', ''t'')]"
  have h: "pairs_rep (req_headers (request_with ?hs ?bs)) (headercount (request_with ?hs ?bs)) ?hs"
    and b: "pairs_rep (req_body (request_with ?hs ?bs)) (bodycount (request_with ?hs ?bs)) ?bs"
    by (rule request_with_rep; simp add: MAX_LIST_LENGTH_def sds_limit_def)+
  have v: "var_of ''title'' ?bs = Some ''t''" and c: "cstr ''t'' = ''t''"
    by (simp_all add: cstr_def var_of_def)
  have q: "sqlite toy_outside (top1_statement (cstr ''t'')) (db toy_site) = ([top1_statement (cstr ''t'')], [toy_row])"
    by (simp add: toy_outside_def toy_site_def)
  have r: "length toy_row = 5 \<and> row_fits toy_row \<and> json_fits (map cell_text toy_row)"
    by (simp add: toy_row_def row_fits_def json_fits_def cell_text_def cstr_def sds_limit_def)
  from updateroute_sends_json [OF toy_outside_ok h toy_auth b v q] r show ?thesis by (simp add: c)
qed

theorem saveroute_reads_past_witness:
  "saveroute mem toy_outside
     (request_with [(''Authentication'', ''secret'')] [(''content_hun'', rfc4648 ''cwe'')]) (toy_site, zero_cache) = None"
proof -
  let ?hs = "[(''Authentication'', ''secret'')]" and ?bs = "[(''content_hun'', rfc4648 ''cwe'')]"
  have "length (rfc4648 ''cwe'') = 4" using rfc4648_length(2) [of "''cwe''"] by (simp add: b64_len_eq)
  then have h: "pairs_rep (req_headers (request_with ?hs ?bs)) (headercount (request_with ?hs ?bs)) ?hs"
    and b: "pairs_rep (req_body (request_with ?hs ?bs)) (bodycount (request_with ?hs ?bs)) ([] @ ?bs @ [])"
    by (auto intro!: request_with_rep simp: MAX_LIST_LENGTH_def sds_limit_def)
  have n: "cstr ''content_hun'' \<in> post_names" by (simp add: cstr_def post_names_def)
  show ?thesis by (rule saveroute_reads_past [OF toy_outside_ok h toy_auth b _ n]) simp_all
qed

theorem languageroute_sets_cookie_witness:
  "runs (sees (language_text ''HUN'')) (languageroute mem (request_with [] [(''lang'', ''H%55N'')]))"
proof -
  let ?bs = "[(''lang'', ''H%55N'')]"
  have "pairs_rep (req_body (request_with [] ?bs)) (bodycount (request_with [] ?bs)) ?bs"
    by (rule request_with_rep(2)) (simp_all add: MAX_LIST_LENGTH_def sds_limit_def)
  moreover have "cstr (snd (percent_decode (Some (cstr ''H%55N'')))) = ''HUN''" by code_simp
  ultimately show ?thesis using languageroute_sets_cookie [of "request_with [] ?bs" ?bs] by (simp add: sds_limit_def)
qed

end
