(* ===== verification/Server_Contract.thy ===== *)
theory Server_Contract
  imports Server_Spec Routes_Spec
begin

text \<open>
  The start of the server, and the requests that the firewall blocks.
\<close>

section \<open>Starting\<close>

definition site_routes :: "(bytes \<times> site_route) list" where
  "site_routes = [(''listincategory'', listincategory_fn), ('''', root_fn), (''admin/save'', save_fn),
     (''admin/delete'', delete_fn), (''admin/update'', update_fn), (''onepost'', onepost_fn), (''language'', language_fn)]"

lemma controllercall_runs: "runs (\<lambda>tb. table_rep tb site_routes) (controllercall mem init_table)"
proof -
  have step: "runs (\<lambda>tb. table_rep tb (ps @ [(u, f)])) (create_route mem u f tb)"
    if "table_rep tb ps" "length ps < ROUTEARRAYSIZE" "NUL \<notin> set u" "length u < sds_limit" for tb ps u and f :: site_route
    using create_route_runs [OF that(1,2), of u f] that(3,4) by (simp add: cstr_free)
  show ?thesis
    unfolding controllercall_def
    by (rule runs_bind [OF step [OF init_table_rep]],
        simp_all add: ROUTEARRAYSIZE_def sds_limit_def,
        (rule runs_bind [OF step], assumption, simp_all add: ROUTEARRAYSIZE_def sds_limit_def)+,
        rule runs_mono [OF step], assumption, simp_all add: ROUTEARRAYSIZE_def sds_limit_def site_routes_def)
qed

lemma main_init_runs:
  assumes "W w"
  shows "runs (\<lambda>s. server_ok W P fs s \<and> table_rep (table s) site_routes) (main_init mem (controllercall mem) w)"
proof -
  obtain tb where tb: "controllercall mem init_table = Some tb" "table_rep tb site_routes"
    using controllercall_runs by (auto simp: runs_def)
  obtain c where c: "globalinit_cache mem zero_cache = Some c" "pages_ok (compressor P) fs c"
  proof -
    have "counter zero_cache < CACHESIZE" "0 < file_limit" by (simp_all add: zero_cache_def CACHESIZE_def file_limit_def)
    from globalinit_cache_runs [OF this] obtain c
      where "globalinit_cache mem zero_cache = Some c" "cache_rep file_limit c (replicate CACHESIZE ('''', ''''))"
      by (auto simp: runs_def)
    with that pages_ok_init show thesis by blast
  qed
  obtain e where e: "init_file_extension mem = Some e" "list_all2 kv_rep e mime_table"
    using runs_init_file_extension by (auto simp: runs_def)
  have "\<exists>ps. table_rep tb ps" using tb(2) by blast
  with assms tb(2) c(2) e(2) show ?thesis by (simp add: main_init_def tb(1) c(1) e(1) server_ok_def)
qed


section \<open>Properties\<close>

text \<open>C5: A request with one of the banned words anywhere in its bytes gets the fixed redirect and
  nothing else happens: the server, its cache, its database and the request object are the same
  afterwards. The entry from Go does the same for what precedes the first NUL.\<close>

theorem firewall_blocks:
  assumes "allocator P = mem" "\<exists>b \<in> {''../'', ''..%2F'', ''templates/''}. sublist b data"
  shows "runs (\<lambda>(p, s'). s' = s \<and> sees blocked_text p) (answer P fs junk data s)
    \<and> (NUL \<notin> set data \<longrightarrow> runs (\<lambda>(p, s'). s' = s \<and> sees blocked_text p) (packed_function P fs junk (data @ NUL # rest) s))"
proof -
  have "simple_waf data = 1" using assms(2) by (auto simp: simple_waf_iff banned_def)
  then have "runs (\<lambda>(p, s'). s' = s \<and> sees blocked_text p) (answer P fs junk data s)"
    using runs_blocked by (auto simp: answer_def assms(1) runs_def)
  then show ?thesis by (simp add: packed_function_def cstr_append_NUL)
qed

section \<open>A concrete platform\<close>

text \<open>The handlers of all routes are the language route; the document root has one file.\<close>

definition toy_platform :: "(site_route, unit) platform" where
  "toy_platform = \<lparr>allocator = mem, compressor = copy_bytes,
     handler = \<lambda>f s. do { p \<leftarrow> languageroute mem (hrq s); Some (p, s) }\<rparr>"

definition toy_files :: "bytes \<Rightarrow> entry option" where
  "toy_files path = (if path = ROOTPATH @ ''/'' then Some Directory else small_site path)"

definition toy_request :: bytes where
  "toy_request = ''GET /a.css HTTP/1.1'' @ CRLF @ ''Host: h'' @ CRLF @ CRLF"

abbreviation toy_server :: "(site_route, unit) server run" where
  "toy_server \<equiv> main_init mem (controllercall mem) ()"

lemma toy_server_runs: "runs (server_ok (\<lambda>_. True) toy_platform toy_files) toy_server"
  by (rule runs_mono [OF main_init_runs [of "\<lambda>_. True" "()" toy_platform toy_files]]) simp_all

lemma toy_request_length: "length toy_request \<le> MAXBUF"
  by (simp add: toy_request_def CRLF_def MAXBUF_def)

theorem firewall_blocks_witness:
  "runs (\<lambda>s. runs (\<lambda>(p, s'). s' = s \<and> sees blocked_text p) (answer toy_platform toy_files False ''GET /../x'' s)) toy_server"
proof (rule runs_mono [OF toy_server_runs])
  fix s :: "(site_route, unit) server"
  have "allocator toy_platform = mem" by (simp add: toy_platform_def)
  moreover have "sublist ''../'' ''GET /../x''"
    unfolding sublist_def by (intro exI [of _ "''GET /''"] exI [of _ "''x''"]) simp
  ultimately show "runs (\<lambda>(p, s'). s' = s \<and> sees blocked_text p) (answer toy_platform toy_files False ''GET /../x'' s)"
    using firewall_blocks [of toy_platform "''GET /../x''" s toy_files False] by blast
qed

end
