(* ===== verification/Flate.thy ===== *)
theory Flate
  imports Controller
begin

text \<open>
  The template engine (\<open>html_templater/flate.c\<close>). A template is a doubly linked list of units in
  memory, with three sorted tables of pointers into it. Memory is a map from addresses to units; an
  address is not used again after \<open>free\<close>. Every allocation succeeds: the code never looks. The
  environment variable \<open>DOCUMENT_ROOT\<close> is the parameter \<open>root\<close>, whose own absence stands for
  the uninitialised variable of the code.
\<close>

section \<open>Units\<close>

definition VARSZ :: nat where "VARSZ = 100"
definition MAXFILENAMESZ :: nat where "MAXFILENAMESZ = 1024"

datatype unit_kind =
    FLATE_HTML | FLATE_VAR | FLATE_BEGINTABLE | FLATE_ENDTABLE | FLATE_BEGINZONE | FLATE_ENDZONE
  | FLATE_BEGINGENTABLE | FLATE_ENDGENTABLE | FLATE_INCLUDEFILE

type_synonym address = nat

record tempUnit =
  next_unit :: "address option"
  prev_unit :: "address option"
  unit_data :: "bytes option"
  unit_name :: "bytes option"
  tdata :: nat
  kind :: unit_kind

definition zero_unit :: tempUnit where
  "zero_unit = \<lparr>next_unit = None, prev_unit = None, unit_data = None, unit_name = None, tdata = 0, kind = FLATE_HTML\<rparr>"

type_synonym st_ptr = "bytes \<times> address"

record Flate =
  UnitInit :: "address option"
  units :: "address \<Rightarrow> tempUnit option"
  fresh :: address
  tempVar :: "st_ptr list"
  tempZone :: "st_ptr list"
  tempTable :: "st_ptr list"
  curzone :: "bytes option"
  curtable :: "bytes option"

definition store :: "address \<Rightarrow> tempUnit \<Rightarrow> Flate \<Rightarrow> Flate" where
  "store a u f = f\<lparr>units := (units f)(a \<mapsto> u)\<rparr>"

text \<open>\<open>malloc\<close> and \<open>memset\<close> of a unit, and \<open>free\<close>.\<close>

definition alloc :: "tempUnit \<Rightarrow> Flate \<Rightarrow> address \<times> Flate" where
  "alloc u f = (fresh f, (store (fresh f) u f)\<lparr>fresh := fresh f + 1\<rparr>)"

definition free_unit :: "address \<Rightarrow> Flate \<Rightarrow> Flate run" where
  "free_unit a f = do { u \<leftarrow> units f a; Some (f\<lparr>units := (units f)(a := None)\<rparr>) }"

text \<open>The first \<open>n\<close> bytes of a block.\<close>

definition load_block :: "bytes \<Rightarrow> nat \<Rightarrow> nat \<Rightarrow> bytes run" where
  "load_block b i n = (if n = 0 then Some [] else if i + n \<le> length b then Some (bslice b i n) else None)"

definition strdup :: "bytes \<Rightarrow> bytes" where "strdup s = cstr s @ [NUL]"

section \<open>The tables of names\<close>

fun strcmp :: "bytes \<Rightarrow> bytes \<Rightarrow> int" where
  "strcmp [] [] = 0"
| "strcmp [] (d # _) = - int (byte d)"
| "strcmp (c # _) [] = int (byte c)"
| "strcmp (c # s) (d # t) = (if c = d then strcmp s t else int (byte c) - int (byte d))"

text \<open>\<open>bsearch\<close> of the library, and \<open>tempsearch\<close>: the first entry with the name and the
  number of them.\<close>

function bsearch :: "bytes \<Rightarrow> st_ptr list \<Rightarrow> nat \<Rightarrow> nat \<Rightarrow> nat option" where
  "bsearch elem base l u =
     (if l < u then
        (let idx = (l + u) div 2; c = strcmp elem (fst (base ! idx)) in
         if c < 0 then bsearch elem base l idx
         else if 0 < c then bsearch elem base (idx + 1) u
         else Some idx)
      else None)"
  by pat_completeness auto
termination by (relation "measure (\<lambda>(elem, base, l, u). u - l)") auto

declare bsearch.simps [simp del]

primrec go_back :: "bytes \<Rightarrow> st_ptr list \<Rightarrow> nat \<Rightarrow> nat" where
  "go_back elem base 0 = 0"
| "go_back elem base (Suc p) = (if strcmp elem (fst (base ! p)) = 0 then go_back elem base p else Suc p)"

fun count_from :: "bytes \<Rightarrow> st_ptr list \<Rightarrow> nat" where
  "count_from elem [] = 0"
| "count_from elem (x # xs) = (if strcmp elem (fst x) = 0 then Suc (count_from elem xs) else 0)"

definition tempsearch :: "bytes \<Rightarrow> st_ptr list \<Rightarrow> (nat \<times> nat) option" where
  "tempsearch elem base =
     (case bsearch elem base 0 (length base) of
        None \<Rightarrow> None
      | Some i \<Rightarrow> (let p = go_back elem base i in Some (p, count_from elem (drop p base))))"

text \<open>The units that \<open>rec[0]\<close> to \<open>rec[nb - 1]\<close> point to.\<close>

definition found_units :: "bytes \<Rightarrow> st_ptr list \<Rightarrow> address list" where
  "found_units elem base =
     (case tempsearch elem base of
        None \<Rightarrow> []
      | Some (p, nb) \<Rightarrow> map snd (take nb (drop p base)))"

text \<open>\<open>qsort\<close> with \<open>tempcompare\<close>; the order of equal names is that of the input.\<close>

fun insert_name :: "st_ptr \<Rightarrow> st_ptr list \<Rightarrow> st_ptr list" where
  "insert_name x [] = [x]"
| "insert_name x (y # ys) = (if strcmp (fst x) (fst y) \<le> 0 then x # y # ys else y # insert_name x ys)"

definition qsort :: "st_ptr list \<Rightarrow> st_ptr list" where
  "qsort xs = foldr insert_name xs []"


section \<open>Reading a template\<close>

text \<open>\<open>start\<close> is where the text begins that is not in a unit yet, \<open>tempstart\<close> is how much of
  the text is in units, and \<open>cur\<close> is the unit to be filled.\<close>

record parsing =
  tempBuf :: bytes
  bufsize :: nat
  at_pos :: nat
  start_pos :: nat
  tempstart :: nat
  cur :: address
  tmplte :: Flate

definition memmove :: "bytes \<Rightarrow> nat \<Rightarrow> nat \<Rightarrow> nat \<Rightarrow> bytes run" where
  "memmove b dst src n =
     (if n = 0 then Some b
      else if dst + n \<le> length b \<and> src + n \<le> length b
           then Some (take dst b @ bslice b src n @ drop (dst + n) b) else None)"

text \<open>An entry of the file system as \<open>fopen\<close>, \<open>fseek\<close> and \<open>fread\<close> see it; of a directory
  they give no size.\<close>

definition read_template :: "(bytes \<Rightarrow> entry option) \<Rightarrow> bytes \<Rightarrow> bytes option run" where
  "read_template fs path =
     (case fs path of
        None \<Rightarrow> Some None
      | Some Directory \<Rightarrow> None
      | Some (File None) \<Rightarrow> Some None
      | Some (File (Some content)) \<Rightarrow> if length content < 2 ^ 31 - 1 then Some (Some content) else None)"

text \<open>\<open>snprintf\<close> of a path behind the document root.\<close>

definition rooted :: "bytes option \<Rightarrow> bytes \<Rightarrow> bytes" where
  "rooted rootdir path =
     (case rootdir of None \<Rightarrow> path | Some r \<Rightarrow> take (MAXFILENAMESZ - 1) (r @ ''/'' @ path))"

definition includefile :: "(bytes \<Rightarrow> entry option) \<Rightarrow> bytes \<Rightarrow> bytes option run" where
  "includefile fs path = read_template fs path"

text \<open>A new unit behind the current one.\<close>

definition append_unit :: "address \<Rightarrow> Flate \<Rightarrow> (address \<times> Flate) run" where
  "append_unit a f = do {
     let (n, f) = alloc (zero_unit\<lparr>prev_unit := Some a\<rparr>) f;
     u \<leftarrow> units f a;
     Some (n, store a (u\<lparr>next_unit := Some n\<rparr>) f)
   }"

text \<open>The \<open>n\<close> bytes from \<open>start\<close> become a unit of HTML.\<close>

definition html_unit :: "nat \<Rightarrow> parsing \<Rightarrow> parsing run" where
  "html_unit n p = do {
     b \<leftarrow> memmove (tempBuf p) (tempstart p) (start_pos p) n;
     (a, f) \<leftarrow> append_unit (cur p) (tmplte p);
     text \<leftarrow> load_block b (tempstart p) n;
     u \<leftarrow> units f (cur p);
     Some (p\<lparr>tempBuf := b, tempstart := tempstart p + n, cur := a,
       tmplte := store (cur p) (u\<lparr>unit_data := Some text, tdata := n, kind := FLATE_HTML\<rparr>) f\<rparr>)
   }"

definition named_unit :: "unit_kind \<Rightarrow> bytes \<Rightarrow> parsing \<Rightarrow> parsing run" where
  "named_unit ty nm p = do {
     (a, f) \<leftarrow> append_unit (cur p) (tmplte p);
     u \<leftarrow> units f (cur p);
     let f = store (cur p) (u\<lparr>unit_name := Some (cstr nm), kind := ty\<rparr>) f;
     let entry = (cstr nm, cur p);
     let f = (case ty of
         FLATE_VAR \<Rightarrow> f\<lparr>tempVar := tempVar f @ [entry]\<rparr>
       | FLATE_BEGINTABLE \<Rightarrow> f\<lparr>tempTable := tempTable f @ [entry]\<rparr>
       | FLATE_BEGINZONE \<Rightarrow> f\<lparr>tempZone := tempZone f @ [entry]\<rparr>
       | _ \<Rightarrow> f);
     Some (p\<lparr>cur := a, tmplte := f\<rparr>)
   }"

text \<open>The name of a variable: up to the next number sign.\<close>

definition name_length :: "bytes \<Rightarrow> nat" where
  "name_length s = length (takeWhile (\<lambda>c. c \<noteq> CHR ''#'') (take VARSZ s))"

definition variable :: "parsing \<Rightarrow> parsing run" where
  "variable p = do {
     p \<leftarrow> html_unit (at_pos p - start_pos p) p;
     let k = at_pos p + 2;
     let i = name_length (drop k (take (bufsize p) (tempBuf p)));
     nm \<leftarrow> load_block (tempBuf p) k i;
     p \<leftarrow> named_unit FLATE_VAR nm p;
     let k = k + i + 1;
     Some (p\<lparr>at_pos := k + 1, start_pos := k + 1\<rparr>)
   }"

text \<open>White space is skipped without looking at the size.\<close>

function skip_space :: "bytes \<Rightarrow> nat \<Rightarrow> nat run" where
  "skip_space b k =
     (if k < length b then (if isspace (b ! k) then skip_space b (k + 1) else Some k) else None)"
  by pat_completeness auto
termination by (relation "measure (\<lambda>(b, k). length b - k)") auto

declare skip_space.simps [simp del]

definition word_char :: "char \<Rightarrow> bool" where
  "word_char c \<longleftrightarrow> c \<noteq> CHR ''-'' \<and> c \<noteq> CHR ''>'' \<and> \<not> isspace c"

definition read_word :: "bytes \<Rightarrow> nat \<Rightarrow> nat \<Rightarrow> bytes" where
  "read_word b sz k = takeWhile word_char (take VARSZ (drop k (take sz b)))"

definition find_end :: "bytes \<Rightarrow> nat \<Rightarrow> nat \<Rightarrow> nat" where
  "find_end b sz k = k + length (takeWhile (\<lambda>c. c \<noteq> CHR ''>'') (drop k (take sz b)))"

definition mark_kind :: "bytes \<Rightarrow> unit_kind option" where
  "mark_kind tmp =
     (if tmp = ''#INCLUDEFILE'' then Some FLATE_INCLUDEFILE
      else if tmp = ''#BEGINTABLE'' then Some FLATE_BEGINTABLE
      else if tmp = ''#ENDTABLE'' then Some FLATE_ENDTABLE
      else if tmp = ''#BEGINZONE'' then Some FLATE_BEGINZONE
      else if tmp = ''#ENDZONE'' then Some FLATE_ENDZONE
      else None)"

text \<open>The contents of an included file in the place of the comment; the buffer is resized first, and what is new in it
  is written before it is read.\<close>

definition splice_file :: "bytes \<Rightarrow> nat \<Rightarrow> parsing \<Rightarrow> parsing run" where
  "splice_file filebuf k p = do {
     let n = length filebuf;
     tocopy \<leftarrow> (if k \<le> bufsize p then Some (bufsize p - k) else None);
     let sz = bufsize p + n - (k - start_pos p);
     b \<leftarrow> (if sz < 2 ^ 31 then Some (take sz (tempBuf p) @ replicate (sz - length (tempBuf p)) NUL) else None);
     b \<leftarrow> memmove b (start_pos p + n) k tocopy;
     b \<leftarrow> (if start_pos p + n \<le> length b then Some (take (start_pos p) b @ filebuf @ drop (start_pos p + n) b) else None);
     Some (p\<lparr>tempBuf := b, bufsize := sz, at_pos := start_pos p\<rparr>)
   }"

text \<open>A comment, from its first character.\<close>

definition comment ::
  "(bytes \<Rightarrow> entry option) \<Rightarrow> bytes option run \<Rightarrow> parsing \<Rightarrow> parsing run" where
  "comment fs root p = do {
     p \<leftarrow> html_unit (at_pos p - start_pos p) p;
     let p = p\<lparr>start_pos := at_pos p\<rparr>;
     let b = tempBuf p;
     k \<leftarrow> skip_space b (at_pos p + 4);
     let tmp = read_word b (bufsize p) k;
     k \<leftarrow> skip_space b (k + length tmp);
     let name = read_word b (bufsize p) k;
     let k = find_end b (bufsize p) (k + length name);
     filebuf \<leftarrow> (if mark_kind (cstr tmp) = Some FLATE_INCLUDEFILE
                then do { rootdir \<leftarrow> root; includefile fs (rooted rootdir (cstr name)) } else Some None);
     (case filebuf of
        Some content \<Rightarrow> splice_file content (k + 1) p
      | None \<Rightarrow> do {
          p \<leftarrow> (case mark_kind (cstr tmp) of
             Some ty \<Rightarrow> named_unit ty name p
           | None \<Rightarrow> html_unit (k + 1 - start_pos p) p);
          Some (p\<lparr>at_pos := k + 1, start_pos := k + 1\<rparr>)
        })
   }"

text \<open>One round of the loop. The characters behind the current one are looked at from left to right.\<close>

fun looks_at :: "bytes \<Rightarrow> nat \<Rightarrow> bytes \<Rightarrow> bool run" where
  "looks_at b k [] = Some True"
| "looks_at b k (c # cs) = do {
     d \<leftarrow> rd b k;
     if d = c then looks_at b (k + 1) cs else Some False
   }"

definition template_step ::
  "(bytes \<Rightarrow> entry option) \<Rightarrow> bytes option run \<Rightarrow> parsing \<Rightarrow> parsing run" where
  "template_step fs root p = do {
     let b = tempBuf p;
     c \<leftarrow> rd b (at_pos p);
     if c = CHR ''#'' then do {
       v \<leftarrow> looks_at b (at_pos p + 1) ''#'';
       if v then variable p else Some (p\<lparr>at_pos := at_pos p + 1\<rparr>)
     }
     else do {
       v \<leftarrow> looks_at b (at_pos p) ''<!--'';
       if v then comment fs root p else Some (p\<lparr>at_pos := at_pos p + 1\<rparr>)
     }
   }"

text \<open>The loop need not end: a file may include itself.\<close>

partial_function (option) template_loop ::
  "(bytes \<Rightarrow> entry option) \<Rightarrow> bytes option run \<Rightarrow> parsing \<Rightarrow> parsing run" where
  "template_loop fs root p =
     (if at_pos p < bufsize p then do { p \<leftarrow> template_step fs root p; template_loop fs root p }
      else Some p)"

text \<open>The rest of the text.\<close>

definition last_unit :: "parsing \<Rightarrow> Flate run" where
  "last_unit p =
     (if tempstart p < bufsize p then do {
        let n = at_pos p - start_pos p;
        b \<leftarrow> memmove (tempBuf p) (tempstart p) (start_pos p) n;
        text \<leftarrow> load_block b (tempstart p) n;
        u \<leftarrow> units (tmplte p) (cur p);
        Some (store (cur p) (u\<lparr>next_unit := None, unit_data := Some text, tdata := n, kind := FLATE_HTML\<rparr>) (tmplte p))
      }
      else Some (tmplte p))"

definition new_parsing :: "bytes \<Rightarrow> parsing" where
  "new_parsing content =
     \<lparr>tempBuf = content @ [NUL], bufsize = length content, at_pos = 0, start_pos = 0, tempstart = 0, cur = 0,
      tmplte = \<lparr>UnitInit = Some 0, units = [0 \<mapsto> zero_unit], fresh = 1, tempVar = [], tempZone = [],
        tempTable = [], curzone = None, curtable = None\<rparr>\<rparr>"

text \<open>The previous template is NULL, as in every call of the program.\<close>

definition flateSetFile ::
  "(bytes \<Rightarrow> entry option) \<Rightarrow> bytes option \<Rightarrow> bytes \<Rightarrow> Flate option run" where
  "flateSetFile fs docroot filename = do {
     let (root, path) = (case filename of
         CHR ''-'' # rest \<Rightarrow> (None, rest)
       | _ \<Rightarrow> (Some docroot, rooted docroot filename));
     file \<leftarrow> read_template fs path;
     (case file of
        None \<Rightarrow> Some None
      | Some content \<Rightarrow> do {
          p \<leftarrow> template_loop fs root (new_parsing content);
          f \<leftarrow> last_unit p;
          Some (Some (f\<lparr>tempVar := qsort (tempVar f), tempZone := qsort (tempZone f), tempTable := qsort (tempTable f)\<rparr>))
        })
   }"


section \<open>Variables and zones\<close>

text \<open>The length of a value goes into an \<open>int\<close>; a longer one is left undefined here.\<close>

fun set_units :: "(tempUnit \<Rightarrow> tempUnit) \<Rightarrow> address list \<Rightarrow> Flate \<Rightarrow> Flate run" where
  "set_units g [] f = Some f"
| "set_units g (a # as) f = do { u \<leftarrow> units f a; set_units g as (store a (g u) f) }"

definition flateSetVar :: "bytes \<Rightarrow> bytes option \<Rightarrow> Flate \<Rightarrow> Flate run" where
  "flateSetVar fld val f =
     (case val of
        None \<Rightarrow> Some f
      | Some v \<Rightarrow> if 2 ^ 31 \<le> length (cstr v) then None else do {
          f \<leftarrow> set_units (\<lambda>u. u\<lparr>unit_data := Some (strdup v), tdata := length (cstr v)\<rparr>) (found_units fld (tempVar f)) f;
          set_units (\<lambda>u. u\<lparr>tdata := 1\<rparr>) (found_units fld (tempZone f)) f
        })"

section \<open>Lines of a table\<close>

text \<open>A unit in front of another.\<close>

definition insert_before :: "tempUnit \<Rightarrow> address \<Rightarrow> Flate \<Rightarrow> Flate run" where
  "insert_before new p f = do {
     u \<leftarrow> units f p;
     let (n, f) = alloc (new\<lparr>next_unit := Some p, prev_unit := prev_unit u\<rparr>) f;
     f \<leftarrow> (case prev_unit u of
        None \<Rightarrow> Some f
      | Some q \<Rightarrow> do { w \<leftarrow> units f q; Some (store q (w\<lparr>next_unit := Some n\<rparr>) f) });
     u \<leftarrow> units f p;
     Some (store p (u\<lparr>prev_unit := Some n\<rparr>) f)
   }"

definition flateDumpUnit :: "address \<Rightarrow> address \<Rightarrow> Flate \<Rightarrow> Flate run" where
  "flateDumpUnit p a f = do {
     u \<leftarrow> units f a;
     if \<not> (kind u = FLATE_HTML \<or> kind u = FLATE_VAR) \<or> kind u = FLATE_VAR \<and> unit_data u = None then Some f
     else do {
       text \<leftarrow> (case unit_data u of None \<Rightarrow> if tdata u = 0 then Some [] else None | Some d \<Rightarrow> load_block d 0 (tdata u));
       insert_before (zero_unit\<lparr>unit_data := Some text, tdata := tdata u, kind := FLATE_HTML\<rparr>) p f
     }
   }"

text \<open>The units from one to another are freed, the last one too.\<close>

partial_function (option) free_until :: "address option \<Rightarrow> address \<Rightarrow> Flate \<Rightarrow> Flate run" where
  "free_until p a f = do {
     n \<leftarrow> p;
     if n = a then free_unit n f
     else do {
       u \<leftarrow> units f n;
       f \<leftarrow> free_unit n f;
       free_until (next_unit u) a f
     }
   }"

definition names :: "tempUnit \<Rightarrow> bytes \<Rightarrow> bool run" where
  "names u nm = do { n \<leftarrow> unit_name u; Some (strcmp n nm = 0) }"

text \<open>To the end of the table with a name, or NULL.\<close>

definition is_end :: "unit_kind \<Rightarrow> bytes \<Rightarrow> tempUnit \<Rightarrow> bool run" where
  "is_end ty nm u = (if kind u = ty then names u nm else Some False)"

partial_function (option) skip_table :: "bytes \<Rightarrow> address option \<Rightarrow> Flate \<Rightarrow> address option run" where
  "skip_table nm p f =
     (case p of
        None \<Rightarrow> Some None
      | Some a \<Rightarrow> do {
          u \<leftarrow> units f a;
          e \<leftarrow> is_end FLATE_ENDTABLE nm u;
          if e then Some p else skip_table nm (next_unit u) f
        })"

text \<open>The state of the loop: the unit, the beginning of generated units, and whether units are
  copied.\<close>

record dumping =
  at_unit :: "address option"
  UnitTableS :: "address option"
  pr :: bool
  flate :: Flate

definition remove_generated :: "address \<Rightarrow> tempUnit \<Rightarrow> dumping \<Rightarrow> dumping run" where
  "remove_generated a u d = do {
     let f = flate d;
     s \<leftarrow> UnitTableS d;
     us \<leftarrow> units f s;
     q \<leftarrow> prev_unit us;
     w \<leftarrow> units f q;
     let f = store q (w\<lparr>next_unit := next_unit u\<rparr>) f;
     n \<leftarrow> next_unit u;
     v \<leftarrow> units f n;
     let f = store n (v\<lparr>prev_unit := Some q\<rparr>) f;
     f \<leftarrow> free_until (Some s) a f;
     Some (d\<lparr>at_unit := Some q, flate := f\<rparr>)
   }"

definition dump_step :: "address \<Rightarrow> address \<Rightarrow> dumping \<Rightarrow> dumping run" where
  "dump_step UnitS a d = do {
     let f = flate d;
     u \<leftarrow> units f a;
     (if kind u = FLATE_BEGINGENTABLE then Some (d\<lparr>UnitTableS := Some a\<rparr>)
      else if kind u = FLATE_ENDGENTABLE then remove_generated a u d
      else if kind u = FLATE_BEGINZONE \<and> curzone f = None \<and> tdata u \<noteq> 1 then do {
        nm \<leftarrow> unit_name u;
        Some (d\<lparr>pr := False, flate := f\<lparr>curzone := Some nm\<rparr>\<rparr>)
      }
      else do {
        zone_end \<leftarrow> (case curzone f of None \<Rightarrow> Some False | Some z \<Rightarrow> is_end FLATE_ENDZONE z u);
        if zone_end then Some (d\<lparr>pr := True, flate := f\<lparr>curzone := None\<rparr>\<rparr>)
        else if kind u = FLATE_BEGINTABLE then do {
          nm \<leftarrow> unit_name u;
          e \<leftarrow> skip_table nm (next_unit u) f;
          Some (d\<lparr>at_unit := e, flate := f\<lparr>curtable := None\<rparr>\<rparr>)
        }
        else do {
          f \<leftarrow> (if pr d then flateDumpUnit UnitS a f else Some f);
          u \<leftarrow> units f a;
          let f = (if kind u = FLATE_VAR then store a (u\<lparr>unit_data := None, tdata := 0\<rparr>) f
                   else if kind u = FLATE_BEGINZONE then store a (u\<lparr>tdata := 0\<rparr>) f
                   else f);
          Some (d\<lparr>flate := f\<rparr>)
        }
      })
   }"

partial_function (option) dump_loop :: "bytes \<Rightarrow> address \<Rightarrow> dumping \<Rightarrow> dumping run" where
  "dump_loop ligne UnitS d =
     (case at_unit d of
        None \<Rightarrow> Some d
      | Some a \<Rightarrow> do {
          u \<leftarrow> units (flate d) a;
          e \<leftarrow> is_end FLATE_ENDTABLE ligne u;
          if e then Some d
          else do {
            d \<leftarrow> dump_step UnitS a d;
            (case at_unit d of
               None \<Rightarrow> Some d
             | Some b \<Rightarrow> do {
                 v \<leftarrow> units (flate d) b;
                 dump_loop ligne UnitS (d\<lparr>at_unit := next_unit v\<rparr>)
               })
          }
        })"

text \<open>A mark in front of the table. The unit in front of it is not NULL.\<close>

definition insert_mark :: "unit_kind \<Rightarrow> address \<Rightarrow> Flate \<Rightarrow> Flate run" where
  "insert_mark ty p f = do {
     u \<leftarrow> units f p;
     q \<leftarrow> prev_unit u;
     insert_before (zero_unit\<lparr>kind := ty\<rparr>) p f
   }"

fun dump_lines :: "bytes \<Rightarrow> address list \<Rightarrow> dumping \<Rightarrow> dumping run" where
  "dump_lines ligne [] d = Some d"
| "dump_lines ligne (s # ss) d = do {
     f \<leftarrow> insert_mark FLATE_BEGINGENTABLE s (flate d);
     u \<leftarrow> units f s;
     d \<leftarrow> dump_loop ligne s (d\<lparr>at_unit := next_unit u, flate := f\<rparr>);
     f \<leftarrow> insert_mark FLATE_ENDGENTABLE s (flate d);
     dump_lines ligne ss (d\<lparr>flate := f\<rparr>)
   }"

definition flateDumpTableLine :: "bytes \<Rightarrow> Flate \<Rightarrow> Flate run" where
  "flateDumpTableLine ligne f = do {
     d \<leftarrow> dump_lines ligne (found_units ligne (tempTable f))
            \<lparr>at_unit = None, UnitTableS = None, pr = True, flate = f\<rparr>;
     Some (flate d)
   }"

section \<open>The page\<close>

text \<open>The state of the loop: the unit, the page so far, and whether units are shown.\<close>

record printing =
  shown_unit :: "address option"
  tBufp :: "bytes option"
  showing :: bool
  flate_of :: Flate

definition page_step :: "address \<Rightarrow> printing \<Rightarrow> printing run" where
  "page_step a x = do {
     let f = flate_of x;
     u \<leftarrow> units f a;
     (if kind u = FLATE_BEGINTABLE then do {
        nm \<leftarrow> unit_name u;
        e \<leftarrow> skip_table nm (next_unit u) f;
        Some (x\<lparr>shown_unit := e, flate_of := f\<lparr>curtable := None\<rparr>\<rparr>)
      }
      else if kind u = FLATE_BEGINZONE \<and> curzone f = None \<and> tdata u \<noteq> 1 then do {
        nm \<leftarrow> unit_name u;
        Some (x\<lparr>showing := False, flate_of := f\<lparr>curzone := Some nm\<rparr>\<rparr>)
      }
      else do {
        zone_end \<leftarrow> (case curzone f of None \<Rightarrow> Some False | Some z \<Rightarrow> is_end FLATE_ENDZONE z u);
        if zone_end then Some (x\<lparr>showing := True, flate_of := f\<lparr>curzone := None\<rparr>\<rparr>)
        else (case unit_data u of
            Some d \<Rightarrow>
              if showing x \<and> (kind u = FLATE_HTML \<or> kind u = FLATE_VAR) then do {
                text \<leftarrow> load_block d 0 (tdata u);
                let b = (case tBufp x of None \<Rightarrow> [] | Some b \<Rightarrow> b) @ text;
                if length b + 1 < 2 ^ 31 then Some (x\<lparr>tBufp := Some b\<rparr>) else None
              }
              else Some x
          | None \<Rightarrow> Some x)
      })
   }"

partial_function (option) page_loop :: "printing \<Rightarrow> printing run" where
  "page_loop x =
     (case shown_unit x of
        None \<Rightarrow> Some x
      | Some a \<Rightarrow> do {
          x \<leftarrow> page_step a x;
          (case shown_unit x of
             None \<Rightarrow> Some x
           | Some b \<Rightarrow> do {
               v \<leftarrow> units (flate_of x) b;
               page_loop (x\<lparr>shown_unit := next_unit v\<rparr>)
             })
        })"

text \<open>The page without its terminator, or NULL, and what is left of the state.\<close>

definition flatePage :: "Flate \<Rightarrow> (bytes option \<times> Flate) run" where
  "flatePage f = do {
     x \<leftarrow> page_loop \<lparr>shown_unit = UnitInit f, tBufp = None, showing = True, flate_of = f\<rparr>;
     Some (tBufp x, flate_of x)
   }"

section \<open>Freeing a template\<close>

partial_function (option) free_units :: "address option \<Rightarrow> Flate \<Rightarrow> Flate run" where
  "free_units p f =
     (case p of
        None \<Rightarrow> Some f
      | Some a \<Rightarrow> do {
          u \<leftarrow> units f a;
          f \<leftarrow> free_unit a f;
          free_units (next_unit u) f
        })"

definition flateFreeMem :: "Flate option \<Rightarrow> unit run" where
  "flateFreeMem t =
     (case t of
        None \<Rightarrow> Some ()
      | Some f \<Rightarrow> do { f \<leftarrow> free_units (UnitInit f) f; Some () })"


text \<open>The loops, as equations to compute with.\<close>

lemmas [code] =
  template_loop.simps free_until.simps skip_table.simps dump_loop.simps page_loop.simps free_units.simps

end
