(* ===== verification/Page_Routes.thy ===== *)
theory Page_Routes
  imports Routes Flate
begin

text \<open>
  The routes of the site (\<open>dev/routing/routes.c\<close>) that show a page: the index, one post, and the
  posts of a category. Each asks the database, fills a template and puts it behind the header lines.
  The file system and the environment variable \<open>DOCUMENT_ROOT\<close> are parameters.
\<close>

section \<open>What the pages have in common\<close>

definition okcode :: bytes where "okcode = ''HTTP/1.1 200 OK'' @ CRLF"

definition page_headers :: "(bytes \<times> bytes) list" where
  "page_headers =
     [(''Connection'', ''close''), (''Content-Type'', ''text/html''),
      (''Strict-Transport-Security'', ''max-age=31536000; includeSubDomains''),
      (''X-Frame-Options'', ''deny''), (''X-XSS-Protection'', ''1; mode=block''),
      (''X-Content-Type-Options'', ''nosniff'')]"

fun add_headers :: "(nat \<Rightarrow> bool) \<Rightarrow> (bytes \<times> bytes) list \<Rightarrow> sds option \<Rightarrow> sds option run" where
  "add_headers al [] response = Some response"
| "add_headers al ((k, v) # hs) response = do { response \<leftarrow> addheader al response k v; add_headers al hs response }"

definition start_response :: "(nat \<Rightarrow> bool) \<Rightarrow> sds option run" where
  "start_response al = do { response \<leftarrow> setresponsecode al okcode; add_headers al page_headers response }"

text \<open>Whether the cookie \<open>lang\<close> is \<open>HUN\<close>.\<close>

definition hungarian :: "(nat \<Rightarrow> bool) \<Rightarrow> http_request \<Rightarrow> bool run" where
  "hungarian al r = do {
     languagecookie \<leftarrow> sdsnew al (Some ''lang'');
     nm \<leftarrow> deref languagecookie;
     cookievalue \<leftarrow> get_cookie_by_name al r nm;
     lang \<leftarrow> sdsnew al (Some ''HUN'');
     c \<leftarrow> deref cookievalue;
     l \<leftarrow> deref lang;
     d \<leftarrow> sdscmp c l;
     Some (d = 0)
   }"

text \<open>A template that must be there: the code follows the pointer.\<close>

definition open_template ::
  "(bytes \<Rightarrow> entry option) \<Rightarrow> bytes option \<Rightarrow> bytes \<Rightarrow> Flate run" where
  "open_template fs docroot filename = do { f \<leftarrow> flateSetFile fs docroot filename; deref f }"

text \<open>A value of the array, as the C string that the template engine sees.\<close>

definition set_value :: "bytes \<Rightarrow> sds option \<Rightarrow> Flate \<Rightarrow> Flate run" where
  "set_value fld v f =
     (case v of
        None \<Rightarrow> flateSetVar fld None f
      | Some s \<Rightarrow> do { t \<leftarrow> c_string s; flateSetVar fld (Some t) f })"

text \<open>The lines of a table, one for each row of four columns.\<close>

record line_names =
  link_var :: bytes
  title_var :: bytes
  table_nm :: bytes

fun list_posts :: "(nat \<Rightarrow> bool) \<Rightarrow> line_names \<Rightarrow> nat list \<Rightarrow> 'd site \<Rightarrow> Flate \<Rightarrow> Flate run" where
  "list_posts al L [] w f = Some f"
| "list_posts al L (i # is) w f = do {
     kv \<leftarrow> sqldata w i;
     f \<leftarrow> (case (kv_key kv, kv_value kv) of
        (Some k, Some v) \<Rightarrow> do {
          sdsurl \<leftarrow> sdsnew al (Some ''/onepost?tittle='');
          s \<leftarrow> deref sdsurl;
          sdsurl \<leftarrow> sdscatsds al s v;
          f \<leftarrow> set_value (link_var L) sdsurl f;
          f \<leftarrow> set_value (title_var L) (Some v) f;
          kv3 \<leftarrow> sqldata w (i + 3);
          f \<leftarrow> set_value ''createdat'' (kv_value kv3) f;
          flateDumpTableLine (table_nm L) f
        }
      | _ \<Rightarrow> Some f);
     list_posts al L is w f
   }"

definition ctf_lines :: line_names where
  "ctf_lines = \<lparr>link_var = ''LINK'', title_var = ''TITTLE'', table_nm = ''listctf''\<rparr>"

definition security_lines :: line_names where
  "security_lines = \<lparr>link_var = ''LINK2'', title_var = ''TITTLE2'', table_nm = ''listsecurity''\<rparr>"

definition linux_lines :: line_names where
  "linux_lines = \<lparr>link_var = ''LINK3'', title_var = ''TITTLE3'', table_nm = ''listnix''\<rparr>"

definition category_lines :: line_names where
  "category_lines = \<lparr>link_var = ''urlsource'', title_var = ''tittle'', table_nm = ''ullist''\<rparr>"

text \<open>The indices \<open>0, 4, \<dots>\<close> below \<open>MAXPOSTSSHOWN\<close>.\<close>

definition row_starts :: "nat list" where
  "row_starts = map (\<lambda>k. 4 * k) [0..<MAXPOSTSSHOWN div 4]"

text \<open>The page behind the header lines.\<close>

definition finish_page :: "(nat \<Rightarrow> bool) \<Rightarrow> sds option \<Rightarrow> Flate \<Rightarrow> sds option run" where
  "finish_page al response f = do {
     (buf, f) \<leftarrow> flatePage f;
     dynpage \<leftarrow> sdsnew al buf;
     flateFreeMem (Some f);
     s \<leftarrow> deref response;
     d \<leftarrow> deref dynpage;
     sdscatsds al s d
   }"

text \<open>The templates below the document root.\<close>

definition index_file :: "bool \<Rightarrow> bytes" where
  "index_file hun = (if hun then ''templates/index.html'' else ''templates/index_EN.html'')"

definition post_file :: "bool \<Rightarrow> bytes" where
  "post_file hun = (if hun then ''templates/one_post.html'' else ''/templates/one_post_EN.html'')"

definition category_file :: "bool \<Rightarrow> bytes" where
  "category_file hun = (if hun then ''templates/all_in_category.html'' else ''templates/all_in_category_EN.html'')"

section \<open>The index\<close>

definition index_list ::
  "(nat \<Rightarrow> bool) \<Rightarrow> 'd outside \<Rightarrow> bool \<Rightarrow> bytes \<Rightarrow> line_names \<Rightarrow> 'd site \<Rightarrow> Flate \<Rightarrow> ('d site \<times> Flate) run" where
  "index_list al O1 hun cat L w f = do {
     w \<leftarrow> (if hun then select_top5_by_category_hu al (sqlite O1) (Some cat) w
          else select_top5_by_category_en al (sqlite O1) (Some cat) w);
     f \<leftarrow> list_posts al L row_starts w f;
     w \<leftarrow> free_callback_sql w;
     Some (w, f)
   }"

definition rootroute ::
  "(nat \<Rightarrow> bool) \<Rightarrow> 'd outside \<Rightarrow> (bytes \<Rightarrow> entry option) \<Rightarrow> bytes option \<Rightarrow> http_request \<Rightarrow> 'd site
     \<Rightarrow> (sds option \<times> 'd site) run" where
  "rootroute al O1 fs docroot r w = do {
     response \<leftarrow> start_response al;
     response \<leftarrow> addheadersdone al response;
     let w = init_callback_sql w;
     hun \<leftarrow> hungarian al r;
     w \<leftarrow> (if hun then select_top5_by_category_hu al (sqlite O1) (Some ''CTF'') w
          else select_top5_by_category_en al (sqlite O1) (Some ''CTF'') w);
     f \<leftarrow> open_template fs docroot (ROOTPATH @ index_file hun);
     f \<leftarrow> list_posts al ctf_lines row_starts w f;
     w \<leftarrow> free_callback_sql w;
     (w, f) \<leftarrow> index_list al O1 hun ''Security'' security_lines (init_callback_sql w) f;
     (w, f) \<leftarrow> index_list al O1 hun ''Linux'' linux_lines (init_callback_sql w) f;
     p \<leftarrow> finish_page al response f;
     Some (p, w)
   }"

section \<open>One post, and a category\<close>

text \<open>The value of a variable of the request, decoded, or NULL.\<close>

definition decoded_var :: "(nat \<Rightarrow> bool) \<Rightarrow> bytes \<Rightarrow> http_request \<Rightarrow> bytes option run" where
  "decoded_var al nm r = do {
     vars \<leftarrow> used_vars r;
     v \<leftarrow> find_var nm vars;
     (case v of None \<Rightarrow> Some None | Some s \<Rightarrow> do { t \<leftarrow> decode_value al s; Some (Some t) })
   }"

definition onepostroute ::
  "(nat \<Rightarrow> bool) \<Rightarrow> 'd outside \<Rightarrow> (bytes \<Rightarrow> entry option) \<Rightarrow> bytes option \<Rightarrow> http_request \<Rightarrow> 'd site
     \<Rightarrow> (sds option \<times> 'd site) run" where
  "onepostroute al O1 fs docroot r w = do {
     urldecoded \<leftarrow> decoded_var al ''tittle'' r;
     let w = init_callback_sql w;
     hun \<leftarrow> hungarian al r;
     w \<leftarrow> (if hun then select_by_name_hu al (sqlite O1) urldecoded w else select_by_name_en al (sqlite O1) urldecoded w);
     f \<leftarrow> open_template fs docroot (ROOTPATH @ post_file hun);
     f \<leftarrow> flateSetVar ''contentzone'' (Some '''') f;
     kv \<leftarrow> sqldata w 0;
     f \<leftarrow> set_value ''title'' (kv_value kv) f;
     kv \<leftarrow> sqldata w 1;
     f \<leftarrow> set_value ''category'' (kv_value kv) f;
     kv \<leftarrow> sqldata w 2;
     f \<leftarrow> set_value ''content'' (kv_value kv) f;
     kv \<leftarrow> sqldata w 3;
     f \<leftarrow> set_value ''createdat'' (kv_value kv) f;
     w \<leftarrow> free_callback_sql w;
     response \<leftarrow> start_response al;
     p \<leftarrow> finish_page al response f;
     Some (p, w)
   }"

definition listincategoryroute ::
  "(nat \<Rightarrow> bool) \<Rightarrow> 'd outside \<Rightarrow> (bytes \<Rightarrow> entry option) \<Rightarrow> bytes option \<Rightarrow> http_request \<Rightarrow> 'd site
     \<Rightarrow> (sds option \<times> 'd site) run" where
  "listincategoryroute al O1 fs docroot r w = do {
     urldecoded \<leftarrow> decoded_var al ''category'' r;
     let w = init_callback_sql w;
     hun \<leftarrow> hungarian al r;
     w \<leftarrow> (if hun then select_by_category_hu al (sqlite O1) urldecoded w
          else select_by_category_en al (sqlite O1) urldecoded w);
     f \<leftarrow> open_template fs docroot (ROOTPATH @ category_file hun);
     f \<leftarrow> flateSetVar ''categorynamezone'' (Some '''') f;
     kv \<leftarrow> sqldata w 1;
     f \<leftarrow> set_value ''categoryname'' (kv_value kv) f;
     f \<leftarrow> list_posts al category_lines row_starts w f;
     w \<leftarrow> free_callback_sql w;
     response \<leftarrow> start_response al;
     p \<leftarrow> finish_page al response f;
     Some (p, w)
   }"

end
