(* ===== verification/Flate_Search.thy ===== *)
theory Flate_Search
  imports Flate
begin

text \<open>
  The tables of names of the template engine: sorting keeps the entries, and the binary search finds
  exactly the entries with a name.
\<close>

section \<open>The order of names\<close>

definition nul_free :: "bytes \<Rightarrow> bool" where "nul_free s \<longleftrightarrow> NUL \<notin> set s"

lemma byte_pos: "c \<noteq> NUL \<Longrightarrow> 0 < byte c"
  by (cases c) (auto simp: byte_def of_char_def)

lemma nul_free_simps [simp]: "nul_free []" "nul_free (c # s) \<longleftrightarrow> c \<noteq> NUL \<and> nul_free s" "nul_free (cstr s)"
  by (auto simp: nul_free_def)

lemma byte_eq [simp]: "byte c = byte d \<longleftrightarrow> c = d"
  by (simp add: byte_def)

lemma strcmp_swap: "strcmp s t = - strcmp t s"
  by (induction s t rule: strcmp.induct) auto

lemma strcmp_refl [simp]: "strcmp s s = 0"
  by (induction s) auto

lemma strcmp_zero [simp]: "nul_free s \<Longrightarrow> nul_free t \<Longrightarrow> strcmp s t = 0 \<longleftrightarrow> s = t"
  by (induction s t rule: strcmp.induct) (auto dest: byte_pos)

lemma strcmp_trans:
  "nul_free s \<Longrightarrow> nul_free t \<Longrightarrow> nul_free u \<Longrightarrow> strcmp s t \<le> 0 \<Longrightarrow> strcmp t u \<le> 0 \<Longrightarrow> strcmp s u \<le> 0"
proof (induction s t arbitrary: u rule: strcmp.induct)
  case (4 c s d t)
  then show ?case
    by (cases u) (auto simp: not_le dest: byte_pos split: if_splits)
qed (case_tac u; auto dest: byte_pos)+

definition name_le :: "st_ptr \<Rightarrow> st_ptr \<Rightarrow> bool" where
  "name_le x y \<longleftrightarrow> strcmp (fst x) (fst y) \<le> 0"

definition clean_names :: "st_ptr list \<Rightarrow> bool" where
  "clean_names xs \<longleftrightarrow> (\<forall>x \<in> set xs. nul_free (fst x))"

section \<open>Sorting\<close>

lemma insert_name_set [simp]: "set (insert_name x xs) = insert x (set xs)"
  by (induction xs) auto

lemma qsort_set [simp]: "set (qsort xs) = set xs"
  by (induction xs) (auto simp: qsort_def)

lemma insert_name_length [simp]: "length (insert_name x xs) = Suc (length xs)"
  by (induction xs) auto

lemma qsort_length [simp]: "length (qsort xs) = length xs"
  by (induction xs) (auto simp: qsort_def)

lemma qsort_distinct [simp]: "distinct (qsort xs) = distinct xs"
  by (metis card_distinct distinct_card qsort_length qsort_set)

lemma insert_name_sorted:
  assumes "sorted_wrt name_le xs" "nul_free (fst x)" "clean_names xs"
  shows "sorted_wrt name_le (insert_name x xs)"
  using assms
proof (induction xs)
  case (Cons y ys)
  have nul_free: "nul_free (fst y)" "clean_names ys" "\<forall>z \<in> set ys. nul_free (fst z)"
    using Cons.prems(3) by (simp_all add: clean_names_def)
  show ?case
  proof (cases "strcmp (fst x) (fst y) \<le> 0")
    case True
    have "name_le x z" if "z \<in> set ys" for z
    proof -
      have "strcmp (fst y) (fst z) \<le> 0" using Cons.prems(1) that by (simp add: name_le_def)
      from strcmp_trans [OF Cons.prems(2) nul_free(1) _ True this] nul_free(3) that show ?thesis by (simp add: name_le_def)
    qed
    with True Cons.prems(1) show ?thesis by (simp add: name_le_def)
  next
    case False
    then have "name_le y x" using strcmp_swap [of "fst x" "fst y"] by (simp add: name_le_def)
    with False Cons nul_free show ?thesis by auto
  qed
qed simp

lemma qsort_sorted: "clean_names xs \<Longrightarrow> sorted_wrt name_le (qsort xs)"
proof (induction xs)
  case (Cons x xs)
  have "sorted_wrt name_le (qsort xs)" "nul_free (fst x)" "clean_names (qsort xs)"
    using Cons by (simp_all add: clean_names_def)
  from insert_name_sorted [OF this] show ?case by (simp add: qsort_def)
qed (simp add: qsort_def)

section \<open>Searching\<close>

text \<open>A sorted table is what is before the name, the entries with the name, and what is behind.\<close>

lemma sorted_split:
  assumes "sorted_wrt name_le xs" "clean_names xs" "nul_free nm"
  obtains as bs cs where "xs = as @ bs @ cs" "\<forall>x \<in> set as. strcmp (fst x) nm < 0" "\<forall>x \<in> set bs. fst x = nm"
    "\<forall>x \<in> set cs. 0 < strcmp (fst x) nm"
proof -
  have "\<exists>as bs cs. xs = as @ bs @ cs \<and> (\<forall>x \<in> set as. strcmp (fst x) nm < 0) \<and> (\<forall>x \<in> set bs. fst x = nm)
      \<and> (\<forall>x \<in> set cs. 0 < strcmp (fst x) nm)"
    using assms
  proof (induction xs)
    case (Cons x xs)
    have nul_free: "nul_free (fst x)" "clean_names xs" using Cons.prems(2) by (simp_all add: clean_names_def)
    have above: "strcmp (fst x) (fst z) \<le> 0 \<and> nul_free (fst z)" if "z \<in> set xs" for z
      using Cons.prems(1,2) that by (simp add: name_le_def clean_names_def)
    obtain as bs cs where ih: "xs = as @ bs @ cs" "\<forall>x \<in> set as. strcmp (fst x) nm < 0" "\<forall>x \<in> set bs. fst x = nm"
        "\<forall>x \<in> set cs. 0 < strcmp (fst x) nm"
      using Cons.IH [OF _ nul_free(2) Cons.prems(3)] Cons.prems(1) by auto
    have low: "strcmp (fst x) nm \<le> 0" if "z \<in> set xs" "strcmp (fst z) nm \<le> 0" for z
      using strcmp_trans [OF nul_free(1) _ Cons.prems(3), of "fst z"] above [OF that(1)] that(2) by blast
    consider "strcmp (fst x) nm < 0" | "fst x = nm" | "0 < strcmp (fst x) nm"
      using strcmp_zero [OF nul_free(1) Cons.prems(3)] by linarith
    then show ?case
    proof cases
      case 1
      with ih show ?thesis by (intro exI [of _ "x # as"] exI [of _ bs] exI [of _ cs]) auto
    next
      case 2
      have "as = []"
      proof (cases as)
        case (Cons a as')
        then have "a \<in> set xs" "strcmp (fst a) nm < 0" using ih by auto
        with above [of a] 2 strcmp_swap [of "fst a" nm] show ?thesis by simp
      qed simp
      with ih 2 show ?thesis by (intro exI [of _ "[]"] exI [of _ "x # bs"] exI [of _ cs]) auto
    next
      case 3
      have "as = [] \<and> bs = []"
      proof -
        have "\<not> strcmp (fst z) nm \<le> 0" if "z \<in> set xs" for z using low [of z] that 3 by auto
        from this [of "hd as"] this [of "hd bs"] ih(1-3) show ?thesis by (cases as; cases bs) auto
      qed
      with ih 3 show ?thesis by (intro exI [of _ "[]"] exI [of _ "[]"] exI [of _ "x # cs"]) auto
    qed
  qed (auto intro: exI [of _ "[]"])
  then show thesis using that by blast
qed


lemma go_back_skip:
  "i \<le> length bs \<Longrightarrow> \<forall>x \<in> set as. strcmp (fst x) nm < 0 \<Longrightarrow> \<forall>x \<in> set bs. fst x = nm \<Longrightarrow>
    go_back nm (as @ bs @ cs) (length as + i) = length as"
proof (induction i)
  case 0
  show ?case
  proof (cases as rule: rev_exhaust)
    case (snoc as' a)
    then have "strcmp (fst a) nm < 0" using 0 by simp
    then have "strcmp nm (fst a) \<noteq> 0" using strcmp_swap [of nm "fst a"] by simp
    with snoc show ?thesis by simp
  qed simp
next
  case (Suc i)
  then have "(as @ bs @ cs) ! (length as + i) = bs ! i" "fst (bs ! i) = nm" by (simp_all add: nth_append)
  with Suc show ?case by simp
qed

lemma count_from_run:
  assumes "\<forall>x \<in> set bs. fst x = nm" "\<forall>x \<in> set cs. 0 < strcmp (fst x) nm"
  shows "count_from nm (bs @ cs) = length bs"
  using assms
proof (induction bs)
  case Nil
  then show ?case using strcmp_swap [of nm] by (cases cs) auto
qed simp

lemma bsearch_correct:
  assumes "\<forall>x \<in> set as. strcmp (fst x) nm < 0" "\<forall>x \<in> set bs. fst x = nm" "\<forall>x \<in> set cs. 0 < strcmp (fst x) nm"
    "l \<le> length as" "length as + length bs \<le> u" "u \<le> length (as @ bs @ cs)"
  shows "case bsearch nm (as @ bs @ cs) l u of
      None \<Rightarrow> bs = []
    | Some i \<Rightarrow> length as \<le> i \<and> i < length as + length bs"
  using assms(4-)
proof (induction "u - l" arbitrary: l u rule: less_induct)
  case less
  let ?xs = "as @ bs @ cs" and ?m = "(l + u) div 2"
  show ?case
  proof (cases "l < u")
    case False
    with less.prems have "length bs = 0" by linarith
    with False show ?thesis by (simp add: bsearch.simps [of _ _ l])
  next
    case True
    then have m: "l \<le> ?m" "?m < u" by linarith+
    consider "?m < length as" | "length as \<le> ?m" "?m < length as + length bs" | "length as + length bs \<le> ?m" by linarith
    then show ?thesis
    proof cases
      case 1
      then have "strcmp (fst (?xs ! ?m)) nm < 0" using assms(1) by (simp add: nth_append)
      then have "bsearch nm ?xs l u = bsearch nm ?xs (?m + 1) u"
        using True strcmp_swap [of nm] by (subst bsearch.simps) (simp add: Let_def)
      with less.hyps [of u "?m + 1"] 1 m less.prems show ?thesis by simp
    next
      case 2
      then have j: "\<not> ?m < length as" "?m - length as < length bs" by linarith+
      then have "?xs ! ?m = bs ! (?m - length as)" by (simp add: nth_append)
      with assms(2) j have "fst (?xs ! ?m) = nm" by simp
      then have "bsearch nm ?xs l u = Some ?m" using True by (subst bsearch.simps) (simp add: Let_def)
      with 2 show ?thesis by simp
    next
      case 3
      then have j: "\<not> ?m < length as" "\<not> ?m - length as < length bs" by linarith+
      then have "?xs ! ?m = cs ! (?m - length as - length bs)" by (simp add: nth_append)
      moreover have "?m - length as - length bs < length cs" using 3 m less.prems j by simp
      ultimately have "0 < strcmp (fst (?xs ! ?m)) nm" using assms(3) by simp
      then have "bsearch nm ?xs l u = bsearch nm ?xs l ?m"
        using True strcmp_swap [of nm] by (subst bsearch.simps) (simp add: Let_def)
      with less.hyps [of ?m l] 3 m less.prems show ?thesis by simp
    qed
  qed
qed

lemma found_units_eq:
  assumes "sorted_wrt name_le xs" "clean_names xs" "nul_free nm"
  shows "found_units nm xs = map snd (filter (\<lambda>x. fst x = nm) xs)"
proof -
  obtain as bs cs where xs: "xs = as @ bs @ cs" "\<forall>x \<in> set as. strcmp (fst x) nm < 0" "\<forall>x \<in> set bs. fst x = nm"
      "\<forall>x \<in> set cs. 0 < strcmp (fst x) nm"
    by (rule sorted_split [OF assms])
  have "\<forall>x \<in> set as. fst x \<noteq> nm" "\<forall>x \<in> set cs. fst x \<noteq> nm" using xs(2,4) by fastforce+
  then have filter: "filter (\<lambda>x. fst x = nm) xs = bs" using xs(3) by (simp add: xs(1) filter_empty_conv)
  have found: "case bsearch nm xs 0 (length xs) of None \<Rightarrow> bs = [] | Some i \<Rightarrow> length as \<le> i \<and> i < length as + length bs"
    unfolding xs(1) by (rule bsearch_correct [OF xs(2-4)]) simp_all
  show ?thesis
  proof (cases "bsearch nm xs 0 (length xs)")
    case None
    with found show ?thesis by (simp add: found_units_def tempsearch_def filter)
  next
    case (Some i)
    with found have "length as \<le> i" "i < length as + length bs" by simp_all
    then obtain j where "i = length as + j" "j \<le> length bs" by (metis add_less_cancel_left le_Suc_ex less_imp_le)
    then have "go_back nm xs i = length as" using go_back_skip [OF _ xs(2,3)] unfolding xs(1) by metis
    then have "tempsearch nm xs = Some (length as, length bs)"
      using Some count_from_run [OF xs(3,4)] by (simp add: tempsearch_def Let_def) (simp add: xs(1))
    then show ?thesis by (simp add: found_units_def filter) (simp add: xs(1))
  qed
qed

text \<open>What a lookup gives in a table that was sorted.\<close>

lemma found_units_qsort:
  assumes "clean_names xs" "nul_free nm"
  shows "set (found_units nm (qsort xs)) = {a. (nm, a) \<in> set xs}"
    "distinct (map snd xs) \<Longrightarrow> distinct (found_units nm (qsort xs))"
proof -
  have "clean_names (qsort xs)" using assms(1) by (simp add: clean_names_def)
  note eq = found_units_eq [OF qsort_sorted [OF assms(1)] this assms(2)]
  show "set (found_units nm (qsort xs)) = {a. (nm, a) \<in> set xs}"
    unfolding eq by force
  show "distinct (found_units nm (qsort xs))" if "distinct (map snd xs)"
  proof -
    have "inj_on snd (set xs)" "distinct xs" using that by (simp_all add: distinct_map)
    then have "distinct (map snd (qsort xs))" by (simp add: distinct_map)
    then show ?thesis unfolding eq by (rule distinct_map_filter)
  qed
qed

end
