(* ===== verification/Flate_Doc.thy ===== *)
theory Flate_Doc
  imports Flate_Search Keyvalue
begin

text \<open>
  Templates as lists of items. \<open>seg\<close> relates a piece of the linked list in memory to the items it
  stands for, and the functions of the template engine to functions on such lists.
\<close>

section \<open>Items\<close>

datatype item =
    Text bytes | Var bytes "bytes option" | Begin_Table bytes | End_Table bytes
  | Begin_Zone bytes bool | End_Zone bytes | Include bytes | Gen_Begin | Gen_End

definition data_is :: "tempUnit \<Rightarrow> bytes \<Rightarrow> bool" where
  "data_is u t \<longleftrightarrow> (\<exists>d. unit_data u = Some d \<and> load_block d 0 (tdata u) = Some t)"

fun is_item :: "tempUnit \<Rightarrow> item \<Rightarrow> bool" where
  "is_item u (Text t) \<longleftrightarrow> kind u = FLATE_HTML \<and> (data_is u t \<or> unit_data u = None \<and> tdata u = 0 \<and> t = [])"
| "is_item u (Var n v) \<longleftrightarrow> kind u = FLATE_VAR \<and> unit_name u = Some n \<and> nul_free n
     \<and> (case v of None \<Rightarrow> unit_data u = None | Some t \<Rightarrow> data_is u t)"
| "is_item u (Begin_Table n) \<longleftrightarrow> kind u = FLATE_BEGINTABLE \<and> unit_name u = Some n \<and> nul_free n"
| "is_item u (End_Table n) \<longleftrightarrow> kind u = FLATE_ENDTABLE \<and> unit_name u = Some n \<and> nul_free n"
| "is_item u (Begin_Zone n b) \<longleftrightarrow> kind u = FLATE_BEGINZONE \<and> unit_name u = Some n \<and> nul_free n \<and> (tdata u = 1 \<longleftrightarrow> b)"
| "is_item u (End_Zone n) \<longleftrightarrow> kind u = FLATE_ENDZONE \<and> unit_name u = Some n \<and> nul_free n"
| "is_item u (Include n) \<longleftrightarrow> kind u = FLATE_INCLUDEFILE \<and> unit_name u = Some n \<and> nul_free n"
| "is_item u Gen_Begin \<longleftrightarrow> kind u = FLATE_BEGINGENTABLE"
| "is_item u Gen_End \<longleftrightarrow> kind u = FLATE_ENDGENTABLE"

lemma is_item_pointers [simp]:
  "is_item (u\<lparr>next_unit := a\<rparr>) it = is_item u it" "is_item (u\<lparr>prev_unit := b\<rparr>) it = is_item u it"
  by (cases it; simp add: data_is_def split: option.split)+

section \<open>Segments\<close>

type_synonym memory = "address \<Rightarrow> tempUnit option"

fun seg :: "memory \<Rightarrow> address option \<Rightarrow> address option \<Rightarrow> (address \<times> item) list
    \<Rightarrow> address option \<Rightarrow> address option \<Rightarrow> bool" where
  "seg h p a [] q e \<longleftrightarrow> a = e \<and> p = q"
| "seg h p a (x # xs) q e \<longleftrightarrow> a = Some (fst x)
     \<and> (\<exists>u. h (fst x) = Some u \<and> prev_unit u = p \<and> is_item u (snd x) \<and> seg h (Some (fst x)) (next_unit u) xs q e)"

lemma seg_append: "seg h p a (xs @ ys) q e \<longleftrightarrow> (\<exists>r b. seg h p a xs r b \<and> seg h r b ys q e)"
  by (induction xs arbitrary: p a) auto

lemma seg_frame: "(\<And>x. x \<in> fst ` set xs \<Longrightarrow> h' x = h x) \<Longrightarrow> seg h' p a xs q e = seg h p a xs q e"
  by (induction xs arbitrary: p a) auto

lemma seg_cases:
  assumes "seg h p a (x # xs) q e"
  obtains u where "a = Some (fst x)" "h (fst x) = Some u" "prev_unit u = p" "is_item u (snd x)"
    "seg h (Some (fst x)) (next_unit u) xs q e"
  using assms by auto

section \<open>Skipping a table\<close>

lemma is_end_item:
  assumes "is_item u it" "nul_free nm"
  shows "is_end FLATE_ENDTABLE nm u = Some (it = End_Table nm)" "is_end FLATE_ENDZONE nm u = Some (it = End_Zone nm)"
  using assms by (cases it; auto simp: is_end_def names_def)+

fun end_of :: "bytes \<Rightarrow> (address \<times> item) list \<Rightarrow> (address \<times> item) list" where
  "end_of nm [] = []"
| "end_of nm (x # xs) = (if snd x = End_Table nm then x # xs else end_of nm xs)"

lemma skip_table_seg:
  assumes "nul_free nm" "seg (units f) p a xs q None"
  shows "\<exists>r b. skip_table nm a f = Some b \<and> seg (units f) r b (end_of nm xs) q None"
  using assms(2)
proof (induction xs arbitrary: p a)
  case Nil
  then show ?case by (auto simp: skip_table.simps)
next
  case (Cons x xs)
  then obtain u where u: "a = Some (fst x)" "units f (fst x) = Some u" "is_item u (snd x)"
      "seg (units f) (Some (fst x)) (next_unit u) xs q None"
    by (auto elim: seg_cases)
  show ?case
  proof (cases "snd x = End_Table nm")
    case True
    with Cons.prems u is_end_item(1) [OF u(3) assms(1)] show ?thesis
      by (subst skip_table.simps) auto
  next
    case False
    with Cons.IH [OF u(4)] u(1,2) is_end_item(1) [OF u(3) assms(1)] show ?thesis
      by (subst skip_table.simps) auto
  qed
qed

lemma end_of_length: "length (end_of nm xs) \<le> length xs"
  by (induction xs) auto

lemma end_of_less [simp]: "length (end_of nm xs) - Suc 0 < Suc (length xs)"
  using end_of_length [of nm xs] by simp

section \<open>The page\<close>

text \<open>The texts of a page: \<open>z\<close> is the hidden zone, \<open>sh\<close> whether units are shown.\<close>

definition after_table :: "bytes \<Rightarrow> item list \<Rightarrow> item list" where
  "after_table nm its = drop 1 (dropWhile (\<lambda>it. it \<noteq> End_Table nm) its)"

lemma after_table_length: "length (after_table nm its) \<le> length its"
  using length_dropWhile_le [of "\<lambda>it. it \<noteq> End_Table nm" its] by (simp add: after_table_def)

lemma after_table_end_of: "after_table nm (map snd xs) = map snd (drop 1 (end_of nm xs))"
  by (induction xs) (auto simp: after_table_def)

function pieces :: "bytes option \<Rightarrow> bool \<Rightarrow> item list \<Rightarrow> bytes" where
  "pieces z sh [] = []"
| "pieces z sh (it # its) =
     (case it of
        Begin_Table n \<Rightarrow> pieces z sh (after_table n its)
      | Begin_Zone n b \<Rightarrow> if z = None \<and> \<not> b then pieces (Some n) False its else pieces z sh its
      | End_Zone n \<Rightarrow> if z = Some n then pieces None True its else pieces z sh its
      | Text t \<Rightarrow> (if sh then t else []) @ pieces z sh its
      | Var n v \<Rightarrow> (if sh then (case v of None \<Rightarrow> [] | Some t \<Rightarrow> t) else []) @ pieces z sh its
      | _ \<Rightarrow> pieces z sh its)"
  by pat_completeness auto
termination
  by (relation "measure (\<lambda>(z, sh, its). length its)") (simp_all add: less_Suc_eq_le after_table_length)

definition page_text :: "bytes option \<Rightarrow> bytes" where
  "page_text t = (case t of None \<Rightarrow> [] | Some b \<Rightarrow> b)"


lemmas pieces_Cons = pieces.simps(2)

declare pieces.simps(2) [simp del]

definition clean_zone :: "Flate \<Rightarrow> bool" where
  "clean_zone f \<longleftrightarrow> (\<forall>z. curzone f = Some z \<longrightarrow> nul_free z)"

lemma page_step_plain:
  assumes "units (flate_of x) a = Some u" "is_item u it" "clean_zone (flate_of x)" "\<And>n. it \<noteq> Begin_Table n"
    "length (page_text (tBufp x)) + length (pieces (curzone (flate_of x)) (showing x) (it # ys)) + 1 < 2 ^ 31"
  shows "\<exists>x' t. page_step a x = Some x' \<and> shown_unit x' = shown_unit x
    \<and> page_text (tBufp x') = page_text (tBufp x) @ t \<and> flate_of x' = (flate_of x)\<lparr>curzone := curzone (flate_of x')\<rparr>
    \<and> clean_zone (flate_of x')
    \<and> pieces (curzone (flate_of x)) (showing x) (it # ys) = t @ pieces (curzone (flate_of x')) (showing x') ys"
proof -
  let ?z = "curzone (flate_of x)"
  have z_end: "(case ?z of None \<Rightarrow> Some False | Some z \<Rightarrow> is_end FLATE_ENDZONE z u) = Some (\<exists>z. ?z = Some z \<and> it = End_Zone z)"
    using is_end_item(2) [OF assms(2)] assms(3) by (auto simp: clean_zone_def split: option.split)
  have same: "(flate_of x)\<lparr>curzone := ?z\<rparr> = flate_of x" by simp
  have shown: "\<exists>x'. page_step a x = Some x' \<and> shown_unit x' = shown_unit x \<and> showing x' = showing x \<and> flate_of x' = flate_of x
      \<and> page_text (tBufp x') = page_text (tBufp x) @ (if showing x then t else [])"
    if "kind u = FLATE_HTML \<or> kind u = FLATE_VAR" "data_is u t \<or> unit_data u = None \<and> t = []"
      "\<And>n. it \<noteq> End_Zone n" "showing x \<Longrightarrow> length (page_text (tBufp x)) + length t + 1 < 2 ^ 31" for t
  proof -
    have k: "kind u \<noteq> FLATE_BEGINTABLE" "kind u \<noteq> FLATE_BEGINZONE" using that(1) by auto
    have "page_step a x = (case unit_data u of
        Some d \<Rightarrow>
          if showing x then do {
            text \<leftarrow> load_block d 0 (tdata u);
            let b = (case tBufp x of None \<Rightarrow> [] | Some b \<Rightarrow> b) @ text;
            if length b + 1 < 2 ^ 31 then Some (x\<lparr>tBufp := Some b\<rparr>) else None
          }
          else Some x
      | None \<Rightarrow> Some x)"
      using that(1,3) k by (simp add: page_step_def Let_def assms(1) z_end split: option.split)
    with that(2,4) show ?thesis
      by (auto simp: data_is_def page_text_def Let_def split: option.splits)
  qed
  show ?thesis
  proof (cases it)
    case (Text t)
    then have "\<exists>x'. page_step a x = Some x' \<and> shown_unit x' = shown_unit x \<and> showing x' = showing x \<and> flate_of x' = flate_of x
      \<and> page_text (tBufp x') = page_text (tBufp x) @ (if showing x then t else [])"
      using assms(2,5) by (intro shown) (auto simp: pieces_Cons)
    with Text assms(3) same show ?thesis by (auto simp: pieces_Cons)
  next
    case (Var n v)
    then have "\<exists>x'. page_step a x = Some x' \<and> shown_unit x' = shown_unit x \<and> showing x' = showing x \<and> flate_of x' = flate_of x
      \<and> page_text (tBufp x') = page_text (tBufp x) @ (if showing x then (case v of None \<Rightarrow> [] | Some t \<Rightarrow> t) else [])"
      using assms(2,5) by (intro shown) (auto simp: pieces_Cons split: option.splits)
    with Var assms(3) same show ?thesis by (auto simp: pieces_Cons)
  qed (use assms z_end in \<open>auto simp: page_step_def Let_def pieces_Cons clean_zone_def split: option.splits\<close>)
qed


lemma page_step_table:
  assumes "units (flate_of x) a = Some u" "is_item u (Begin_Table n)" "seg (units (flate_of x)) r (next_unit u) ys q None"
  shows "\<exists>s b. page_step a x = Some (x\<lparr>shown_unit := b, flate_of := (flate_of x)\<lparr>curtable := None\<rparr>\<rparr>)
    \<and> seg (units (flate_of x)) s b (end_of n ys) q None"
proof -
  have "nul_free n" using assms(2) by simp
  from skip_table_seg [OF this assms(3)] obtain s b
    where b: "skip_table n (next_unit u) (flate_of x) = Some b" "seg (units (flate_of x)) s b (end_of n ys) q None"
    by blast
  then have "page_step a x = Some (x\<lparr>shown_unit := b, flate_of := (flate_of x)\<lparr>curtable := None\<rparr>\<rparr>)"
    using assms(1,2) by (simp add: page_step_def Let_def)
  with b(2) show ?thesis by blast
qed

text \<open>What the loop leaves of the template: at most the names of the current zone and table change.\<close>

definition same_doc :: "Flate \<Rightarrow> Flate \<Rightarrow> bool" where
  "same_doc f f' \<longleftrightarrow> f' = f\<lparr>curzone := curzone f', curtable := curtable f'\<rparr>"

lemma same_doc_simps:
  "same_doc f f" "same_doc f f' \<Longrightarrow> same_doc f' f'' \<Longrightarrow> same_doc f f''"
  "same_doc f f' \<Longrightarrow> units f' = units f" "same_doc f (f\<lparr>curzone := z\<rparr>)" "same_doc f (f\<lparr>curtable := z\<rparr>)"
  by (cases f; cases f'; cases f''; simp add: same_doc_def)+

lemma page_loop_next:
  assumes "shown_unit x = Some a" "page_step a x = Some x'" "shown_unit x' = Some b" "units (flate_of x') b = Some v"
  shows "page_loop x = page_loop (x'\<lparr>shown_unit := next_unit v\<rparr>)"
  using assms by (simp add: page_loop.simps [of x])

lemma page_loop_runs:
  assumes "seg (units (flate_of x)) p (shown_unit x) xs q None" "clean_zone (flate_of x)"
    "length (page_text (tBufp x)) + length (pieces (curzone (flate_of x)) (showing x) (map snd xs)) + 1 < 2 ^ 31"
  shows "runs (\<lambda>x'. page_text (tBufp x') = page_text (tBufp x) @ pieces (curzone (flate_of x)) (showing x) (map snd xs)
    \<and> same_doc (flate_of x) (flate_of x')) (page_loop x)"
  using assms
proof (induction "length xs" arbitrary: p x xs rule: less_induct)
  case less
  show ?case
  proof (cases xs)
    case Nil
    with less.prems(1) have "shown_unit x = None" by simp
    then have "page_loop x = Some x" by (simp add: page_loop.simps)
    with Nil show ?thesis by (simp add: same_doc_simps)
  next
    case (Cons y ys)
    obtain a it where y: "y = (a, it)" by force
    obtain u where u: "shown_unit x = Some a" "units (flate_of x) a = Some u" "is_item u it"
        "seg (units (flate_of x)) (Some a) (next_unit u) ys q None"
      using less.prems(1) by (auto simp: Cons y)
    show ?thesis
    proof (cases "\<exists>n. it = Begin_Table n")
      case False
      from page_step_plain [OF u(2,3) less.prems(2), of "map snd ys"] less.prems(3) False obtain x' t
        where x': "page_step a x = Some x'" "shown_unit x' = Some a" "page_text (tBufp x') = page_text (tBufp x) @ t"
          "flate_of x' = (flate_of x)\<lparr>curzone := curzone (flate_of x')\<rparr>" "clean_zone (flate_of x')"
          "pieces (curzone (flate_of x)) (showing x) (map snd xs) = t @ pieces (curzone (flate_of x')) (showing x') (map snd ys)"
        using u(1) by (auto simp: Cons y)
      have same: "same_doc (flate_of x) (flate_of x')"
        using x'(4) same_doc_simps(4) [of "flate_of x" "curzone (flate_of x')"] by simp
      then have mem: "units (flate_of x') = units (flate_of x)" by (rule same_doc_simps(3))
      let ?x = "x'\<lparr>shown_unit := next_unit u\<rparr>"
      have loop: "page_loop x = page_loop ?x" by (rule page_loop_next [OF u(1) x'(1,2)]) (simp add: mem u(2))
      have "runs (\<lambda>z. page_text (tBufp z) = page_text (tBufp ?x) @ pieces (curzone (flate_of ?x)) (showing ?x) (map snd ys)
          \<and> same_doc (flate_of ?x) (flate_of z)) (page_loop ?x)"
        by (rule less.hyps) (use less.prems(3) u(4) x'(3,5,6) in \<open>simp_all add: Cons mem\<close>)
      then show ?thesis
        unfolding loop by (rule runs_mono) (use x'(3,6) same in \<open>auto intro: same_doc_simps(2)\<close>)
    next
      case True
      then obtain n where it: "it = Begin_Table n" by blast
      from page_step_table [OF u(2) u(3)[unfolded it] u(4)] obtain s b
        where b: "page_step a x = Some (x\<lparr>shown_unit := b, flate_of := (flate_of x)\<lparr>curtable := None\<rparr>\<rparr>)"
          "seg (units (flate_of x)) s b (end_of n ys) q None" by blast
      let ?f = "(flate_of x)\<lparr>curtable := None\<rparr>"
      have ps: "pieces (curzone (flate_of x)) (showing x) (map snd xs) = pieces (curzone (flate_of x)) (showing x) (map snd (drop 1 (end_of n ys)))"
        by (simp add: Cons y it pieces_Cons after_table_end_of)
      show ?thesis
      proof (cases "end_of n ys")
        case Nil
        with b(2) have "b = None" by simp
        with b(1) u(1) have "page_loop x = Some (x\<lparr>shown_unit := None, flate_of := ?f\<rparr>)" by (simp add: page_loop.simps [of x])
        with Nil ps show ?thesis by (simp add: same_doc_simps)
      next
        case (Cons e es)
        with b(2) obtain v where v: "b = Some (fst e)" "units (flate_of x) (fst e) = Some v"
            "seg (units (flate_of x)) (Some (fst e)) (next_unit v) es q None"
          by auto
        let ?x = "x\<lparr>shown_unit := next_unit v, flate_of := ?f\<rparr>"
        have loop: "page_loop x = page_loop ?x"
          unfolding page_loop_next [OF u(1) b(1) [unfolded v(1)], simplified, OF refl v(2)] by (cases x) simp
        have "length es < length xs" using end_of_length [of n ys] by (simp add: \<open>xs = y # ys\<close> Cons)
        then have "runs (\<lambda>z. page_text (tBufp z) = page_text (tBufp ?x) @ pieces (curzone (flate_of ?x)) (showing ?x) (map snd es)
            \<and> same_doc (flate_of ?x) (flate_of z)) (page_loop ?x)"
          by (rule less.hyps) (use less.prems(2,3) v(3) ps Cons in \<open>simp_all add: clean_zone_def\<close>)
        then show ?thesis
          unfolding loop
          by (rule runs_mono) (use ps Cons in \<open>auto intro: same_doc_simps(2) [OF same_doc_simps(5)]\<close>)
      qed
    qed
  qed
qed

section \<open>Documents\<close>

definition doc :: "Flate \<Rightarrow> (address \<times> item) list \<Rightarrow> bool" where
  "doc f xs \<longleftrightarrow> (\<exists>q. seg (units f) None (UnitInit f) xs q None) \<and> distinct (map fst xs)
     \<and> (\<forall>x \<in> set xs. fst x < fresh f) \<and> curzone f = None"

lemma flatePage_runs:
  assumes "doc f xs" "length (pieces None True (map snd xs)) + 1 < 2 ^ 31"
  shows "runs (\<lambda>(t, f'). page_text t = pieces None True (map snd xs) \<and> same_doc f f') (flatePage f)"
proof -
  obtain q where q: "seg (units f) None (UnitInit f) xs q None" "curzone f = None" using assms(1) by (auto simp: doc_def)
  have "runs (\<lambda>x'. page_text (tBufp x') = pieces None True (map snd xs) \<and> same_doc f (flate_of x'))
      (page_loop \<lparr>shown_unit = UnitInit f, tBufp = None, showing = True, flate_of = f\<rparr>)"
    using page_loop_runs [of "\<lparr>shown_unit = UnitInit f, tBufp = None, showing = True, flate_of = f\<rparr>" None xs q] q assms(2)
    by (simp add: clean_zone_def page_text_def)
  then show ?thesis by (auto simp: flatePage_def runs_def)
qed

text \<open>Freeing.\<close>

lemma free_units_seg:
  assumes "seg (units f) p a xs q None" "distinct (map fst xs)"
  shows "\<exists>f'. free_units a f = Some f'"
  using assms
proof (induction xs arbitrary: p a f)
  case (Cons x xs)
  then obtain u where u: "a = Some (fst x)" "units f (fst x) = Some u" "seg (units f) (Some (fst x)) (next_unit u) xs q None"
    by auto
  let ?f = "f\<lparr>units := (units f)(fst x := None)\<rparr>"
  have "seg (units ?f) (Some (fst x)) (next_unit u) xs q None"
  proof (subst seg_frame)
    fix y assume "y \<in> fst ` set xs"
    moreover have "fst x \<notin> fst ` set xs" using Cons.prems(2) by simp
    ultimately have "y \<noteq> fst x" by metis
    then show "units ?f y = units f y" by simp
  qed (rule u(3))
  from Cons.IH [OF this] Cons.prems(2) u(1,2) show ?case
    by (subst free_units.simps) (simp add: free_unit_def)
qed (simp add: free_units.simps)

lemma flateFreeMem_doc:
  assumes "doc f xs" "same_doc f f'"
  shows "flateFreeMem (Some f') = Some ()"
proof -
  obtain q where q: "seg (units f) None (UnitInit f) xs q None" "distinct (map fst xs)" using assms(1) by (auto simp: doc_def)
  have "units f' = units f" "UnitInit f' = UnitInit f"
    using assms(2) by (cases f; cases f'; simp add: same_doc_def)+
  with q(1) have "seg (units f') None (UnitInit f') xs q None" by simp
  from free_units_seg [OF this q(2)] show ?thesis by (auto simp: flateFreeMem_def)
qed


section \<open>The tables of a document\<close>

fun var_name :: "item \<Rightarrow> bytes option" where "var_name (Var n v) = Some n" | "var_name _ = None"
fun zone_name :: "item \<Rightarrow> bytes option" where "zone_name (Begin_Zone n b) = Some n" | "zone_name _ = None"
fun table_name :: "item \<Rightarrow> bytes option" where "table_name (Begin_Table n) = Some n" | "table_name _ = None"

definition table_ok :: "st_ptr list \<Rightarrow> (item \<Rightarrow> bytes option) \<Rightarrow> (address \<times> item) list \<Rightarrow> bool" where
  "table_ok t nm xs \<longleftrightarrow> sorted_wrt name_le t \<and> distinct (map snd t)
     \<and> set t = {(n, a). \<exists>it. (a, it) \<in> set xs \<and> nm it = Some n}"

definition tables_ok :: "Flate \<Rightarrow> (address \<times> item) list \<Rightarrow> bool" where
  "tables_ok f xs \<longleftrightarrow> table_ok (tempVar f) var_name xs \<and> table_ok (tempZone f) zone_name xs
     \<and> table_ok (tempTable f) table_name xs"

lemma seg_items: "seg h p a xs q e \<Longrightarrow> x \<in> set xs \<Longrightarrow> \<exists>u. h (fst x) = Some u \<and> is_item u (snd x)"
  by (induction xs arbitrary: p a) auto

lemma doc_items: "doc f xs \<Longrightarrow> (a, it) \<in> set xs \<Longrightarrow> \<exists>u. units f a = Some u \<and> is_item u it"
  unfolding doc_def by (fastforce dest: seg_items)

lemma doc_names:
  assumes "doc f xs" "(a, it) \<in> set xs"
  shows "var_name it = Some n \<Longrightarrow> nul_free n" "zone_name it = Some n \<Longrightarrow> nul_free n" "table_name it = Some n \<Longrightarrow> nul_free n"
  using doc_items [OF assms] by (cases it; auto)+

lemma names_clean:
  assumes "doc f xs" "tables_ok f xs"
  shows "clean_names (tempVar f)" "clean_names (tempZone f)" "clean_names (tempTable f)"
  using assms(2) doc_names [OF assms(1)] unfolding tables_ok_def table_ok_def clean_names_def by auto

lemma found_in_table:
  assumes "table_ok t nm xs" "clean_names t" "nul_free fld"
  shows "distinct (found_units fld t)" "set (found_units fld t) = {a. \<exists>it. (a, it) \<in> set xs \<and> nm it = Some fld}"
proof -
  have t: "sorted_wrt name_le t" "distinct (map snd t)"
    "set t = {(n, a). \<exists>it. (a, it) \<in> set xs \<and> nm it = Some n}"
    using assms(1) by (simp_all add: table_ok_def)
  note eq = found_units_eq [OF t(1) assms(2,3)]
  show "distinct (found_units fld t)" unfolding eq by (rule distinct_map_filter [OF t(2)])
  show "set (found_units fld t) = {a. \<exists>it. (a, it) \<in> set xs \<and> nm it = Some fld}"
    unfolding eq using t(3) by force
qed

lemma entries_map:
  assumes "map fst ys = map fst xs" "map (\<lambda>x. nm (snd x)) ys = map (\<lambda>x. nm (snd x)) xs"
  shows "(\<exists>it. (a, it) \<in> set ys \<and> nm it = Some n) \<longleftrightarrow> (\<exists>it. (a, it) \<in> set xs \<and> nm it = Some n)"
  using assms
proof (induction ys arbitrary: xs)
  case (Cons y ys)
  then obtain x zs where x: "xs = x # zs" "fst x = fst y" "nm (snd x) = nm (snd y)"
      "map fst ys = map fst zs" "map (\<lambda>x. nm (snd x)) ys = map (\<lambda>x. nm (snd x)) zs"
    by (cases xs) auto
  have split: "(\<exists>it. (a, it) \<in> set (w # ws) \<and> nm it = Some n)
      \<longleftrightarrow> fst w = a \<and> nm (snd w) = Some n \<or> (\<exists>it. (a, it) \<in> set ws \<and> nm it = Some n)" for w ws
    by (cases w) auto
  show ?case unfolding x(1) split Cons.IH [OF x(4,5)] x(2,3) ..
qed simp

lemma table_ok_map:
  assumes "table_ok t nm xs" "map fst ys = map fst xs" "map (\<lambda>x. nm (snd x)) ys = map (\<lambda>x. nm (snd x)) xs"
  shows "table_ok t nm ys"
  using assms(1) by (simp add: table_ok_def entries_map [OF assms(2,3)])

section \<open>Setting variables\<close>

definition at_units :: "address set \<Rightarrow> (item \<Rightarrow> item) \<Rightarrow> (address \<times> item) list \<Rightarrow> (address \<times> item) list" where
  "at_units A h = map (\<lambda>x. if fst x \<in> A then (fst x, h (snd x)) else x)"

lemma at_units_fst [simp]: "map fst (at_units A h xs) = map fst xs"
  by (simp add: at_units_def)

lemma store_simps [simp]:
  "units (store c u f) = (units f)(c \<mapsto> u)" "fresh (store c u f) = fresh f"
  "UnitInit (store c u f) = UnitInit f" "tempVar (store c u f) = tempVar f" "tempZone (store c u f) = tempZone f"
  "tempTable (store c u f) = tempTable f" "curzone (store c u f) = curzone f"
  by (simp_all add: store_def)

lemma seg_store:
  assumes "seg (units f) p a xs q e" "distinct (map fst xs)" "units f c = Some u"
    "next_unit v = next_unit u" "prev_unit v = prev_unit u" "\<And>it. (c, it) \<in> set xs \<Longrightarrow> is_item v (h it)"
  shows "seg (units (store c v f)) p a (at_units {c} h xs) q e"
  using assms(1,2,6)
proof (induction xs arbitrary: p a)
  case (Cons x xs)
  obtain w where w: "a = Some (fst x)" "units f (fst x) = Some w" "prev_unit w = p" "is_item w (snd x)"
      "seg (units f) (Some (fst x)) (next_unit w) xs q e"
    using Cons.prems(1) by auto
  have ih: "seg (units (store c v f)) (Some (fst x)) (next_unit w) (at_units {c} h xs) q e"
    by (rule Cons.IH [OF w(5)]) (use Cons.prems(2,3) in auto)
  have eq: "at_units {c} h (x # xs) = (fst x, if fst x = c then h (snd x) else snd x) # at_units {c} h xs"
    by (simp add: at_units_def)
  show ?case
  proof (cases "fst x = c")
    case True
    then have "(c, snd x) \<in> set (x # xs)" by (cases x) simp
    from Cons.prems(3) [OF this] have "is_item v (h (snd x))" .
    moreover have "next_unit v = next_unit w" "prev_unit v = p" "units (store c v f) (fst x) = Some v"
      using True w(2,3) assms(3-5) by simp_all
    ultimately show ?thesis using ih w(1) True unfolding eq seg.simps by simp
  next
    case False
    then have "units (store c v f) (fst x) = Some w" using w(2) by simp
    then show ?thesis using ih w(1,3,4) False unfolding eq seg.simps by simp
  qed
qed (simp add: at_units_def)

lemma set_units_seg:
  assumes "seg (units f) p a xs q e" "distinct (map fst xs)" "distinct as"
    "\<forall>c \<in> set as. \<exists>it. (c, it) \<in> set xs \<and> P it"
    "\<And>u it. P it \<Longrightarrow> is_item u it \<Longrightarrow> is_item (g u) (h it)"
    "\<And>u. next_unit (g u) = next_unit u" "\<And>u. prev_unit (g u) = prev_unit u"
  shows "\<exists>f'. set_units g as f = Some f' \<and> f' = f\<lparr>units := units f'\<rparr>
    \<and> seg (units f') p a (at_units (set as) h xs) q e"
  using assms(1-4)
proof (induction as arbitrary: f xs)
  case Nil
  then show ?case by (auto simp: at_units_def)
next
  case (Cons c as)
  obtain it where it: "(c, it) \<in> set xs" "P it" using Cons.prems(4) by auto
  obtain u where u: "units f c = Some u" "is_item u it" using seg_items [OF Cons.prems(1) it(1)] by auto
  have only: "it' = it" if "(c, it') \<in> set xs" for it'
    using eq_key_imp_eq_value [OF Cons.prems(2) that it(1)] .
  let ?f = "store c (g u) f" and ?xs = "at_units {c} h xs"
  have s: "seg (units ?f) p a ?xs q e"
    by (rule seg_store [OF Cons.prems(1,2) u(1) assms(6,7)]) (use only assms(5) [OF it(2) u(2)] in blast)
  have rest: "\<forall>d \<in> set as. \<exists>it. (d, it) \<in> set ?xs \<and> P it"
  proof
    fix d assume d: "d \<in> set as"
    then obtain it' where "(d, it') \<in> set xs" "P it'" "d \<noteq> c" using Cons.prems(3,4) by auto
    then show "\<exists>it. (d, it) \<in> set ?xs \<and> P it" by (force simp: at_units_def)
  qed
  have "distinct as" "distinct (map fst ?xs)" using Cons.prems(2,3) by simp_all
  from Cons.IH [OF s this(2,1) rest] obtain f'
    where f': "set_units g as ?f = Some f'" "f' = ?f\<lparr>units := units f'\<rparr>"
      "seg (units f') p a (at_units (set as) h ?xs) q e" by blast
  have "at_units (set as) h ?xs = at_units (set (c # as)) h xs"
    using Cons.prems(3) by (auto simp: at_units_def)
  moreover have "f' = f\<lparr>units := units f'\<rparr>" using f'(2) by (simp add: store_def)
  ultimately show ?case using f'(1,3) u(1) by simp
qed


fun set_item :: "bytes \<Rightarrow> bytes \<Rightarrow> item \<Rightarrow> item" where
  "set_item fld v (Var n w) = Var n (if n = fld then Some v else w)"
| "set_item fld v (Begin_Zone n b) = Begin_Zone n (n = fld \<or> b)"
| "set_item fld v it = it"

definition set_var :: "bytes \<Rightarrow> bytes \<Rightarrow> (address \<times> item) list \<Rightarrow> (address \<times> item) list" where
  "set_var fld v = map (\<lambda>x. (fst x, set_item fld v (snd x)))"

lemma set_var_fst [simp]: "map fst (set_var fld v xs) = map fst xs"
  by (simp add: set_var_def)

lemma set_item_names [simp]:
  "var_name (set_item fld v it) = var_name it" "zone_name (set_item fld v it) = zone_name it"
  "table_name (set_item fld v it) = table_name it"
  by (cases it; simp)+

lemma tables_ok_set_var:
  assumes "tables_ok f xs" "tempVar f' = tempVar f" "tempZone f' = tempZone f" "tempTable f' = tempTable f"
  shows "tables_ok f' (set_var fld v xs)"
proof -
  have "table_ok t nm (set_var fld v xs)" if "table_ok t nm xs" "\<And>it. nm (set_item fld v it) = nm it" for t nm
    by (rule table_ok_map [OF that(1)]) (simp_all add: set_var_def that(2))
  with assms show ?thesis by (simp add: tables_ok_def)
qed

lemma load_strdup: "load_block (strdup v) 0 (length (cstr v)) = Some (cstr v)"
  by (simp add: load_block_def strdup_def bslice_def)

lemma flateSetVar_runs:
  assumes "doc f xs" "tables_ok f xs" "nul_free fld" "length (cstr v) < 2 ^ 31"
  shows "runs (\<lambda>f'. doc f' (set_var fld (cstr v) xs) \<and> tables_ok f' (set_var fld (cstr v) xs)) (flateSetVar fld (Some v) f)"
proof -
  obtain q where seg: "seg (units f) None (UnitInit f) xs q None" and d: "distinct (map fst xs)"
    and lt: "\<forall>x \<in> set xs. fst x < fresh f" and z: "curzone f = None"
    using assms(1) by (auto simp: doc_def)
  have t: "table_ok (tempVar f) var_name xs" "table_ok (tempZone f) zone_name xs"
    using assms(2) by (simp_all add: tables_ok_def)
  note fv = found_in_table [OF t(1) names_clean(1) [OF assms(1,2)] assms(3)]
  note fz = found_in_table [OF t(2) names_clean(2) [OF assms(1,2)] assms(3)]
  let ?h = "set_item fld (cstr v)"
  let ?V = "set (found_units fld (tempVar f))" and ?Z = "set (found_units fld (tempZone f))"
  have key: "\<forall>c \<in> ?V. \<exists>it. (c, it) \<in> set xs \<and> var_name it = Some fld"
    "\<forall>c \<in> ?Z. \<exists>it. (c, it) \<in> set xs \<and> zone_name it = Some fld"
    using fv(2) fz(2) by blast+
  let ?g = "\<lambda>u. u\<lparr>unit_data := Some (strdup v), tdata := length (cstr v)\<rparr>"
  have gi: "is_item (?g u) (?h it)" if "var_name it = Some fld" "is_item u it" for u it
    using that by (cases it) (auto simp: data_is_def load_strdup)
  have gp: "next_unit (?g u) = next_unit u" "prev_unit (?g u) = prev_unit u" for u by simp_all
  from set_units_seg [where P = "\<lambda>it. var_name it = Some fld" and h = ?h and g = ?g, OF seg d fv(1) key(1) gi gp]
  obtain f1 where f1: "set_units ?g (found_units fld (tempVar f)) f = Some f1"
      "f1 = f\<lparr>units := units f1\<rparr>" "seg (units f1) None (UnitInit f) (at_units ?V ?h xs) q None"
    by blast
  let ?xs = "at_units ?V ?h xs"
  have key2: "\<forall>c \<in> ?Z. \<exists>it. (c, it) \<in> set ?xs \<and> zone_name it = Some fld"
  proof
    fix c assume "c \<in> ?Z"
    with key(2) obtain it where it: "(c, it) \<in> set xs" "zone_name it = Some fld" by blast
    then have "(c, if c \<in> ?V then ?h it else it) \<in> set ?xs" by (force simp: at_units_def)
    moreover have "zone_name (if c \<in> ?V then ?h it else it) = Some fld" using it(2) by simp
    ultimately show "\<exists>it. (c, it) \<in> set ?xs \<and> zone_name it = Some fld" by blast
  qed
  let ?k = "\<lambda>u. u\<lparr>tdata := 1\<rparr>"
  have ki: "is_item (?k u) (?h it)" if "zone_name it = Some fld" "is_item u it" for u it
    using that by (cases it) auto
  have kp: "next_unit (?k u) = next_unit u" "prev_unit (?k u) = prev_unit u" for u by simp_all
  have d1: "distinct (map fst ?xs)" using d by simp
  from set_units_seg [where P = "\<lambda>it. zone_name it = Some fld" and h = ?h and g = ?k, OF f1(3) d1 fz(1) key2 ki kp]
  obtain f2 where f2: "set_units ?k (found_units fld (tempZone f)) f1 = Some f2"
      "f2 = f1\<lparr>units := units f2\<rparr>" "seg (units f2) None (UnitInit f) (at_units ?Z ?h ?xs) q None"
    by blast
  have eq: "f2 = f\<lparr>units := units f2\<rparr>" by (subst f2(2), subst f1(2)) simp
  have fields: "UnitInit f2 = UnitInit f" "fresh f2 = fresh f" "curzone f2 = curzone f" "tempVar f2 = tempVar f"
    "tempZone f2 = tempZone f" "tempTable f2 = tempTable f"
    by (subst eq, simp)+
  have tz: "tempZone f1 = tempZone f" by (subst f1(2)) simp
  have all: "at_units ?Z ?h ?xs = set_var fld (cstr v) xs"
  proof -
    let ?y = "\<lambda>x. if fst x \<in> ?V then (fst x, ?h (snd x)) else x"
    have "(if fst (?y x) \<in> ?Z then (fst (?y x), ?h (snd (?y x))) else ?y x) = (fst x, ?h (snd x))" if x: "x \<in> set xs" for x
    proof -
      have "?h (?h it) = ?h it" for it by (cases it) simp_all
      moreover have "(fst x, snd x) \<in> set xs" using x by simp
      then have "var_name (snd x) = Some fld \<Longrightarrow> fst x \<in> ?V" "zone_name (snd x) = Some fld \<Longrightarrow> fst x \<in> ?Z"
        unfolding fv(2) fz(2) by blast+
      then have "?h (snd x) = snd x" if "fst x \<notin> ?V" "fst x \<notin> ?Z"
        using that by (cases "snd x") auto
      ultimately show ?thesis by (cases x; cases "fst x \<in> ?V"; cases "fst x \<in> ?Z") auto
    qed
    then show ?thesis unfolding at_units_def set_var_def map_map comp_def by (rule map_cong [OF refl])
  qed
  have "doc f2 (set_var fld (cstr v) xs)"
    unfolding doc_def fields using f2(3) d lt z by (auto simp: all) (auto simp: set_var_def)
  moreover have "tables_ok f2 (set_var fld (cstr v) xs)" by (rule tables_ok_set_var [OF assms(2)]) (simp_all add: fields)
  moreover have "flateSetVar fld (Some v) f = Some f2"
    using assms(4) f1(1) f2(1) by (simp add: flateSetVar_def tz)
  ultimately show ?thesis by simp
qed

end
