(* ===== verification/Flate_Table.thy ===== *)
theory Flate_Table
  imports Flate_Doc
begin

text \<open>
  Lines of a table: \<open>flateDumpTableLine\<close> on the list of items, for tables whose body has only text
  and variables, as those of the site.
\<close>

section \<open>Units in a document\<close>

definition head_addr :: "(address \<times> item) list \<Rightarrow> address option" where
  "head_addr xs = (case xs of [] \<Rightarrow> None | x # _ \<Rightarrow> Some (fst x))"

definition last_addr :: "(address \<times> item) list \<Rightarrow> address option" where
  "last_addr xs = (if xs = [] then None else Some (fst (last xs)))"

lemma head_addr_simps [simp]: "head_addr [] = None" "head_addr (x # xs) = Some (fst x)"
  by (simp_all add: head_addr_def)

lemma seg_head: "seg h p a xs q None \<Longrightarrow> a = head_addr xs"
  by (cases xs) auto

lemma seg_last: "seg h p a xs q e \<Longrightarrow> q = (if xs = [] then p else last_addr xs)"
  by (induction xs arbitrary: p a) (auto simp: last_addr_def)

lemma doc_unit:
  assumes "doc f (xs @ (a, it) # ys)"
  shows "\<exists>u. units f a = Some u \<and> is_item u it \<and> next_unit u = head_addr ys \<and> prev_unit u = last_addr xs"
proof -
  obtain q r b where s: "seg (units f) None (UnitInit f) xs r b" "seg (units f) r b ((a, it) # ys) q None"
    using assms by (auto simp: doc_def seg_append)
  then obtain u where u: "units f a = Some u" "is_item u it" "prev_unit u = r" "seg (units f) (Some a) (next_unit u) ys q None"
    by auto
  have "r = last_addr xs" using seg_last [OF s(1)] by (auto simp: last_addr_def)
  with u seg_head [OF u(4)] show ?thesis by auto
qed

lemma doc_put:
  assumes "doc f (xs @ (c, it) # ys)" "units f c = Some u" "next_unit v = next_unit u" "prev_unit v = prev_unit u" "is_item v it'"
  shows "doc (store c v f) (xs @ (c, it') # ys)"
proof -
  let ?l = "xs @ (c, it) # ys"
  obtain q where q: "seg (units f) None (UnitInit f) ?l q None" and d: "distinct (map fst ?l)"
    using assms(1) by (auto simp: doc_def)
  have "seg (units (store c v f)) None (UnitInit f) (at_units {c} (\<lambda>_. it') ?l) q None"
    by (rule seg_store [OF q d assms(2-4)]) (rule assms(5))
  moreover have "at_units {c} (\<lambda>_. it') ?l = xs @ (c, it') # ys"
  proof -
    have "map (\<lambda>x. if fst x = c then (fst x, it') else x) zs = zs" if "c \<notin> fst ` set zs" for zs :: "(address \<times> item) list"
      using that by (induction zs) auto
    moreover have "c \<notin> fst ` set xs" "c \<notin> fst ` set ys" using d by auto
    ultimately show ?thesis by (simp add: at_units_def)
  qed
  ultimately show ?thesis using assms(1) by (auto simp: doc_def)
qed

text \<open>The parts of a template that the operations on units do not touch.\<close>

definition same_tables :: "Flate \<Rightarrow> Flate \<Rightarrow> bool" where
  "same_tables f f' \<longleftrightarrow> tempVar f' = tempVar f \<and> tempZone f' = tempZone f \<and> tempTable f' = tempTable f"

lemma same_tables_simps [simp]:
  "same_tables f f" "same_tables f (store a u f')  \<longleftrightarrow> same_tables f f'"
  by (auto simp: same_tables_def)

lemma same_tables_trans: "same_tables f g \<Longrightarrow> same_tables g h \<Longrightarrow> same_tables f h"
  by (simp add: same_tables_def)

lemma fresh_notin: "\<forall>x \<in> set xs. fst x < n \<Longrightarrow> n \<notin> fst ` set (xs :: (address \<times> item) list)"
  by fastforce

lemma doc_insert:
  assumes "doc f (xs @ (p, it) # ys)" "xs \<noteq> []" "is_item new itn"
  shows "\<exists>n f'. insert_before new p f = Some f' \<and> doc f' (xs @ (n, itn) # (p, it) # ys) \<and> same_tables f f'"
proof -
  obtain zs c itc where xs: "xs = zs @ [(c, itc)]" using assms(2) by (metis rev_exhaust surj_pair)
  let ?n = "fresh f"
  obtain q where seg: "seg (units f) None (UnitInit f) (zs @ (c, itc) # (p, it) # ys) q None"
    and d: "distinct (map fst (zs @ (c, itc) # (p, it) # ys))"
    and lt: "\<forall>x \<in> set (zs @ (c, itc) # (p, it) # ys). fst x < ?n" and z: "curzone f = None"
    using assms(1) by (auto simp: doc_def xs)
  obtain r uc up where s: "seg (units f) None (UnitInit f) zs r (Some c)" "units f c = Some uc" "prev_unit uc = r" "is_item uc itc"
      "next_unit uc = Some p" "units f p = Some up" "prev_unit up = Some c" "is_item up it"
      "seg (units f) (Some p) (next_unit up) ys q None"
    using seg by (auto simp: seg_append)
  have ne: "c \<noteq> p" "c \<noteq> ?n" "p \<noteq> ?n" "?n \<notin> fst ` set zs" "?n \<notin> fst ` set ys"
    "c \<notin> fst ` set zs" "c \<notin> fst ` set ys" "p \<notin> fst ` set zs" "p \<notin> fst ` set ys"
    using d lt fresh_notin [of zs ?n] fresh_notin [of ys ?n] by auto
  let ?w = "new\<lparr>next_unit := Some p, prev_unit := Some c\<rparr>"
  let ?f1 = "(store ?n ?w f)\<lparr>fresh := ?n + 1\<rparr>"
  let ?f' = "store p (up\<lparr>prev_unit := Some ?n\<rparr>) (store c (uc\<lparr>next_unit := Some ?n\<rparr>) ?f1)"
  have ins: "insert_before new p f = Some ?f'"
    using s(2,6,7) ne(1-3) by (simp add: insert_before_def alloc_def Let_def)
  have h: "units ?f' c = Some (uc\<lparr>next_unit := Some ?n\<rparr>)" "units ?f' ?n = Some ?w" "units ?f' p = Some (up\<lparr>prev_unit := Some ?n\<rparr>)"
    using ne(1-3) by simp_all
  have frame: "units ?f' x = units f x" if "x \<noteq> c" "x \<noteq> p" "x \<noteq> ?n" for x using that by simp
  have "seg (units ?f') None (UnitInit f) zs r (Some c)"
    using s(1) by (subst seg_frame [of zs _ "units f"]) (use ne in \<open>metis frame\<close>)+
  moreover have "seg (units ?f') (Some p) (next_unit up) ys q None"
    using s(9) by (subst seg_frame [of ys _ "units f"]) (use ne in \<open>metis frame\<close>)+
  ultimately have "seg (units ?f') None (UnitInit f) (zs @ (c, itc) # (?n, itn) # (p, it) # ys) q None"
    using s(3,4,8) h assms(3) by (auto simp: seg_append simp del: store_simps(1))
  moreover have "distinct (map fst (zs @ (c, itc) # (?n, itn) # (p, it) # ys))" using d ne by auto
  moreover have "\<forall>x \<in> set (zs @ (c, itc) # (?n, itn) # (p, it) # ys). fst x < fresh ?f'"
    using lt by (simp add: ball_Un less_SucI)
  ultimately have "doc ?f' (xs @ (?n, itn) # (p, it) # ys)" using z by (auto simp: doc_def xs)
  moreover have "same_tables f ?f'" by (simp add: same_tables_def)
  ultimately show ?thesis using ins by blast
qed


section \<open>Copying the body of a table\<close>

fun copy_of :: "item \<Rightarrow> item list" where
  "copy_of (Text t) = [Text t]"
| "copy_of (Var n (Some t)) = [Text t]"
| "copy_of _ = []"

fun reset :: "item \<Rightarrow> item" where
  "reset (Var n v) = Var n None"
| "reset it = it"

fun flat :: "item \<Rightarrow> bool" where
  "flat (Text t) = True" | "flat (Var n v) = True" | "flat _ = False"

lemma load_block_length:
  assumes "load_block d 0 n = Some t"
  shows "length t = n" "load_block t 0 n = Some t"
  using assms by (auto simp: load_block_def bslice_def split: if_splits)

definition copies :: "Flate \<Rightarrow> (address \<times> item) list \<Rightarrow> item list \<Rightarrow> (address \<times> item) list \<Rightarrow> Flate \<Rightarrow> bool" where
  "copies f front its rest f' \<longleftrightarrow> (\<exists>cs. doc f' (front @ cs @ rest) \<and> map snd cs = its \<and> same_tables f f')"

lemma flateDumpUnit_runs:
  assumes "doc f (front @ (s, its) # before @ (a, it) # ys)" "front \<noteq> []" "flat it"
  shows "runs (copies f front (copy_of it) ((s, its) # before @ (a, it) # ys)) (flateDumpUnit s a f)"
proof -
  obtain u where u: "units f a = Some u" "is_item u it"
    using doc_unit [of f "front @ (s, its) # before" a it ys] assms(1) by auto
  have same: "copies f front [] ((s, its) # before @ (a, it) # ys) f"
    using assms(1) by (auto simp: copies_def intro!: exI [of _ "[]"])
  have one: "runs (copies f front [Text t] ((s, its) # before @ (a, it) # ys))
      (insert_before (zero_unit\<lparr>unit_data := Some t, tdata := length t, kind := FLATE_HTML\<rparr>) s f)" for t
  proof -
    have "is_item (zero_unit\<lparr>unit_data := Some t, tdata := length t, kind := FLATE_HTML\<rparr>) (Text t)"
      by (simp add: data_is_def load_block_def bslice_def)
    from doc_insert [OF assms(1,2) this] obtain n f'
      where "insert_before (zero_unit\<lparr>unit_data := Some t, tdata := length t, kind := FLATE_HTML\<rparr>) s f = Some f'"
        "doc f' (front @ (n, Text t) # (s, its) # before @ (a, it) # ys)" "same_tables f f'" by blast
    then show ?thesis by (auto simp: copies_def intro!: exI [of _ "[(n, Text t)]"])
  qed
  have data: "runs (copies f front [Text t] ((s, its) # before @ (a, it) # ys)) (flateDumpUnit s a f)"
    if dt: "data_is u t" and k: "kind u = FLATE_HTML \<or> kind u = FLATE_VAR" for t
  proof -
    obtain d where d: "unit_data u = Some d" "load_block d 0 (tdata u) = Some t" using dt by (auto simp: data_is_def)
    have "tdata u = length t" using load_block_length(1) [OF d(2)] by simp
    with one [of t] u(1) d k show ?thesis by (auto simp: flateDumpUnit_def)
  qed
  show ?thesis
  proof (cases it)
    case (Text t)
    with u(2) have k: "kind u = FLATE_HTML" and t: "data_is u t \<or> unit_data u = None \<and> tdata u = 0 \<and> t = []" by simp_all
    from t show ?thesis
    proof
      assume "data_is u t"
      from data [OF this] k Text show ?thesis by simp
    next
      assume "unit_data u = None \<and> tdata u = 0 \<and> t = []"
      with one [of "[]"] k u(1) Text show ?thesis by (simp add: flateDumpUnit_def)
    qed
  next
    case (Var n v)
    show ?thesis
    proof (cases v)
      case None
      with u Var same show ?thesis by (simp add: flateDumpUnit_def)
    next
      case (Some t)
      with u(2) Var have "kind u = FLATE_VAR" "data_is u t" by simp_all
      with data [of t] Var Some show ?thesis by simp
    qed
  qed (use assms(3) in simp_all)
qed

lemma dump_step_flat:
  assumes "doc (flate d) (front @ (s, its) # before @ (a, it) # ys)" "front \<noteq> []" "flat it" "pr d"
  shows "runs (\<lambda>d'. d' = d\<lparr>flate := flate d'\<rparr>
      \<and> copies (flate d) front (copy_of it) ((s, its) # before @ (a, reset it) # ys) (flate d')) (dump_step s a d)"
proof -
  let ?f = "flate d"
  obtain u where u: "units ?f a = Some u" "is_item u it"
    using doc_unit [of ?f "front @ (s, its) # before" a it ys] assms(1) by auto
  have z: "curzone ?f = None" using assms(1) by (simp add: doc_def)
  obtain f' cs where f': "flateDumpUnit s a ?f = Some f'"
      "doc f' (front @ cs @ (s, its) # before @ (a, it) # ys)" "map snd cs = copy_of it" "same_tables ?f f'"
    using flateDumpUnit_runs [OF assms(1-3)] by (auto simp: runs_def copies_def)
  obtain v where v: "units f' a = Some v" "is_item v it"
    using doc_unit [of f' "front @ cs @ (s, its) # before" a it ys] f'(2) by auto
  have step: "dump_step s a d = Some (d\<lparr>flate := (if kind v = FLATE_VAR then store a (v\<lparr>unit_data := None, tdata := 0\<rparr>) f'
      else if kind v = FLATE_BEGINZONE then store a (v\<lparr>tdata := 0\<rparr>) f' else f')\<rparr>)"
    using u assms(3,4) z v(1) f'(1) by (cases it) (simp_all add: dump_step_def Let_def)
  show ?thesis
  proof (cases it)
    case (Text t)
    then have "kind v = FLATE_HTML" using v(2) by simp
    then have "dump_step s a d = Some (d\<lparr>flate := f'\<rparr>)" using step by simp
    with Text f'(2-4) show ?thesis by (auto simp: copies_def)
  next
    case (Var n w)
    then have k: "kind v = FLATE_VAR" using v(2) by simp
    let ?v = "v\<lparr>unit_data := None, tdata := 0\<rparr>"
    have "is_item ?v (Var n None)" using v(2) Var by simp
    from doc_put [of f' "front @ cs @ (s, its) # before" a it ys v ?v, OF _ v(1) _ _ this] f'(2)
    have "doc (store a ?v f') (front @ cs @ (s, its) # before @ (a, Var n None) # ys)" by simp
    moreover have "dump_step s a d = Some (d\<lparr>flate := store a ?v f'\<rparr>)" using step k by simp
    ultimately show ?thesis using Var f'(3,4) by (auto simp: copies_def)
  qed (use assms(3) in simp_all)
qed


lemma flat_not_end: "flat it \<Longrightarrow> it \<noteq> End_Table nm" by auto

definition reset_all :: "(address \<times> item) list \<Rightarrow> (address \<times> item) list" where
  "reset_all = map (\<lambda>x. (fst x, reset (snd x)))"

lemma dump_loop_flat:
  assumes "doc (flate d) (front @ (s, its) # before @ todo @ (e, End_Table nm) # post)" "front \<noteq> []"
    "\<forall>x \<in> set todo. flat (snd x)" "pr d" "at_unit d = head_addr (todo @ (e, End_Table nm) # post)" "nul_free nm"
  shows "runs (\<lambda>d'. at_unit d' = Some e \<and> pr d'
      \<and> copies (flate d) front (concat (map (\<lambda>x. copy_of (snd x)) todo))
          ((s, its) # before @ reset_all todo @ (e, End_Table nm) # post) (flate d')) (dump_loop nm s d)"
  using assms(1-5)
proof (induction todo arbitrary: d front before)
  case Nil
  let ?f = "flate d"
  obtain u where u: "units ?f e = Some u" "is_item u (End_Table nm)"
    using doc_unit [of ?f "front @ (s, its) # before" e "End_Table nm" post] Nil.prems(1) by auto
  have "dump_loop nm s d = Some d"
    using Nil.prems(5) u is_end_item(1) [OF u(2) assms(6)] by (simp add: dump_loop.simps [of nm s d])
  with Nil.prems show ?case
    by (auto simp: copies_def reset_all_def intro!: exI [of _ "[]"])
next
  case (Cons x todo)
  obtain a it where x: "x = (a, it)" by force
  let ?f = "flate d" and ?rest = "todo @ (e, End_Table nm) # post"
  have l: "doc ?f (front @ (s, its) # before @ (a, it) # ?rest)" using Cons.prems(1) by (simp add: x)
  have flat: "flat it" using Cons.prems(3) by (simp add: x)
  obtain u where u: "units ?f a = Some u" "is_item u it"
    using doc_unit [of ?f "front @ (s, its) # before" a it ?rest] l by auto
  obtain d1 cs where d1: "dump_step s a d = Some d1" "d1 = d\<lparr>flate := flate d1\<rparr>"
      "doc (flate d1) (front @ cs @ (s, its) # before @ (a, reset it) # ?rest)" "map snd cs = copy_of it"
      "same_tables ?f (flate d1)"
    using dump_step_flat [OF l Cons.prems(2) flat Cons.prems(4)] by (auto simp: runs_def copies_def)
  have fields: "at_unit d1 = Some a" "pr d1" using Cons.prems(4,5) by (subst d1(2), simp add: x)+
  obtain v where v: "units (flate d1) a = Some v" "next_unit v = head_addr ?rest"
    using doc_unit [of "flate d1" "front @ cs @ (s, its) # before" a "reset it" ?rest] d1(3) by auto
  let ?d = "d1\<lparr>at_unit := next_unit v\<rparr>"
  have loop: "dump_loop nm s d = dump_loop nm s ?d"
    using Cons.prems(5) u(1) is_end_item(1) [OF u(2) assms(6)] flat_not_end [OF flat, of nm] d1(1) fields(1) v(1)
    by (simp add: dump_loop.simps [of nm s d] x)
  have "runs (\<lambda>d'. at_unit d' = Some e \<and> pr d'
      \<and> copies (flate ?d) (front @ cs) (concat (map (\<lambda>x. copy_of (snd x)) todo))
          ((s, its) # (before @ [(a, reset it)]) @ reset_all todo @ (e, End_Table nm) # post) (flate d')) (dump_loop nm s ?d)"
    by (rule Cons.IH) (use Cons.prems(2,3) d1(3) fields(2) v(2) in simp_all)
  then obtain d' ds where d': "dump_loop nm s ?d = Some d'" "at_unit d' = Some e" "pr d'"
      "doc (flate d') ((front @ cs) @ ds @ (s, its) # (before @ [(a, reset it)]) @ reset_all todo @ (e, End_Table nm) # post)"
      "map snd ds = concat (map (\<lambda>x. copy_of (snd x)) todo)" "same_tables (flate d1) (flate d')"
    by (auto simp: runs_def copies_def)
  have "copies ?f front (concat (map (\<lambda>x. copy_of (snd x)) (x # todo)))
      ((s, its) # before @ reset_all (x # todo) @ (e, End_Table nm) # post) (flate d')"
    unfolding copies_def
  proof (intro exI conjI)
    show "doc (flate d') (front @ (cs @ ds) @ (s, its) # before @ reset_all (x # todo) @ (e, End_Table nm) # post)"
      using d'(4) by (simp add: reset_all_def x)
    show "map snd (cs @ ds) = concat (map (\<lambda>x. copy_of (snd x)) (x # todo))" using d1(4) d'(5) by (simp add: x)
    show "same_tables ?f (flate d')" by (rule same_tables_trans [OF d1(5) d'(6)])
  qed
  with d'(1-3) show ?case by (simp add: loop)
qed

section \<open>One line\<close>

lemma insert_mark_runs:
  assumes "doc f (xs @ (p, it) # ys)" "xs \<noteq> []" "is_item (zero_unit\<lparr>kind := ty\<rparr>) itn"
  shows "\<exists>n f'. insert_mark ty p f = Some f' \<and> doc f' (xs @ (n, itn) # (p, it) # ys) \<and> same_tables f f'"
proof -
  obtain u where "units f p = Some u" "prev_unit u = last_addr xs" using doc_unit [OF assms(1)] by auto
  with assms(2) doc_insert [OF assms(1,2,3)] show ?thesis by (simp add: insert_mark_def last_addr_def)
qed

definition row_of :: "item list \<Rightarrow> item list" where
  "row_of body = [Gen_Begin] @ concat (map copy_of body) @ [Gen_End]"

lemma dump_lines_flat:
  assumes "doc (flate d) (front @ (s, Begin_Table nm) # body @ (e, End_Table nm) # post)" "front \<noteq> []"
    "\<forall>x \<in> set body. flat (snd x)" "pr d" "nul_free nm"
  shows "runs (\<lambda>d'. copies (flate d) front (row_of (map snd body))
      ((s, Begin_Table nm) # reset_all body @ (e, End_Table nm) # post) (flate d')) (dump_lines nm [s] d)"
proof -
  let ?f = "flate d" and ?t = "(s, Begin_Table nm)" and ?rest = "(e, End_Table nm) # post"
  have "is_item (zero_unit\<lparr>kind := FLATE_BEGINGENTABLE\<rparr>) Gen_Begin" by simp
  from insert_mark_runs [OF assms(1,2) this] obtain b f1
    where f1: "insert_mark FLATE_BEGINGENTABLE s ?f = Some f1" "doc f1 (front @ (b, Gen_Begin) # ?t # body @ ?rest)"
      "same_tables ?f f1" by blast
  obtain u where u: "units f1 s = Some u" "next_unit u = head_addr (body @ ?rest)"
    using doc_unit [of f1 "front @ [(b, Gen_Begin)]" s "Begin_Table nm" "body @ ?rest"] f1(2) by auto
  let ?d = "d\<lparr>at_unit := next_unit u, flate := f1\<rparr>"
  have "runs (\<lambda>d'. at_unit d' = Some e \<and> pr d'
      \<and> copies (flate ?d) (front @ [(b, Gen_Begin)]) (concat (map (\<lambda>x. copy_of (snd x)) body))
          (?t # [] @ reset_all body @ ?rest) (flate d')) (dump_loop nm s ?d)"
    by (rule dump_loop_flat) (use f1(2) u(2) assms in simp_all)
  then obtain d' cs where d': "dump_loop nm s ?d = Some d'"
      "doc (flate d') (front @ (b, Gen_Begin) # cs @ ?t # reset_all body @ ?rest)"
      "map snd cs = concat (map (\<lambda>x. copy_of (snd x)) body)" "same_tables f1 (flate d')"
    by (auto simp: runs_def copies_def)
  have "is_item (zero_unit\<lparr>kind := FLATE_ENDGENTABLE\<rparr>) Gen_End" by simp
  from insert_mark_runs [of "flate d'" "front @ (b, Gen_Begin) # cs" s "Begin_Table nm" "reset_all body @ ?rest", OF _ _ this] d'(2)
  obtain c f2
    where f2: "insert_mark FLATE_ENDGENTABLE s (flate d') = Some f2"
      "doc f2 (front @ (b, Gen_Begin) # cs @ (c, Gen_End) # ?t # reset_all body @ ?rest)" "same_tables (flate d') f2"
    by auto
  have "copies ?f front (row_of (map snd body)) (?t # reset_all body @ ?rest) f2"
    unfolding copies_def
  proof (intro exI conjI)
    show "doc f2 (front @ ((b, Gen_Begin) # cs @ [(c, Gen_End)]) @ ?t # reset_all body @ ?rest)" using f2(2) by simp
    show "map snd ((b, Gen_Begin) # cs @ [(c, Gen_End)]) = row_of (map snd body)"
      using d'(3) by (simp add: row_of_def comp_def)
    show "same_tables ?f f2" using f1(3) d'(4) f2(3) same_tables_trans by blast
  qed
  then show ?thesis by (simp add: f1(1) u(1) d'(1) f2(1))
qed

text \<open>A template as a list of items, whatever the addresses are.\<close>

definition template :: "Flate \<Rightarrow> item list \<Rightarrow> bool" where
  "template f its \<longleftrightarrow> (\<exists>xs. doc f xs \<and> tables_ok f xs \<and> map snd xs = its)"

lemma table_ok_insert:
  assumes "table_ok t nm (xs @ zs)" "\<forall>it \<in> set (map snd ys). nm it = None"
  shows "table_ok t nm (xs @ ys @ zs)"
proof -
  have "\<not> ((a, it) \<in> set ys \<and> nm it = Some n)" for a it n using assms(2) by force
  then have "(\<exists>it. (a, it) \<in> set (xs @ ys @ zs) \<and> nm it = Some n) \<longleftrightarrow> (\<exists>it. (a, it) \<in> set (xs @ zs) \<and> nm it = Some n)" for a n
    by auto
  with assms(1) show ?thesis by (simp add: table_ok_def)
qed

lemma table_ok_reset:
  assumes "table_ok t nm (xs @ body @ zs)" "\<And>it. nm (reset it) = nm it"
  shows "table_ok t nm (xs @ reset_all body @ zs)"
  by (rule table_ok_map [OF assms(1)]) (simp_all add: reset_all_def assms(2) comp_def)

lemma row_of_names:
  "\<forall>it \<in> set (row_of body). var_name it = None \<and> zone_name it = None \<and> table_name it = None"
proof -
  have "\<forall>it \<in> set (copy_of b). var_name it = None \<and> zone_name it = None \<and> table_name it = None" for b
    by (induction b rule: copy_of.induct) simp_all
  then show ?thesis by (auto simp: row_of_def)
qed

lemma reset_names [simp]:
  "var_name (reset it) = var_name it" "zone_name (reset it) = zone_name it" "table_name (reset it) = table_name it"
  by (cases it; simp)+


lemma template_doc:
  assumes "template f (as @ it # bs)"
  obtains xs a ys where "doc f (xs @ (a, it) # ys)" "tables_ok f (xs @ (a, it) # ys)" "map snd xs = as" "map snd ys = bs"
proof -
  obtain zs where zs: "doc f zs" "tables_ok f zs" "map snd zs = as @ it # bs" using assms by (auto simp: template_def)
  then obtain xs y ys where "zs = xs @ y # ys" "map snd xs = as" "snd y = it" "map snd ys = bs"
    by (auto simp: map_eq_append_conv map_eq_Cons_conv)
  with zs that [of xs "fst y" ys] show thesis by (cases y) simp
qed

lemma map_snd_appendE:
  assumes "map snd xs = as @ bs"
  obtains ys zs where "xs = ys @ zs" "map snd ys = as" "map snd zs = bs"
  using assms by (auto simp: map_eq_append_conv)

lemma singleton_list: "set as = {s} \<Longrightarrow> distinct as \<Longrightarrow> as = [s]"
  by (cases as; cases "tl as") auto

lemma flateDumpTableLine_runs:
  assumes "template f (front @ Begin_Table nm # body @ End_Table nm # post)" "front \<noteq> []"
    "\<forall>it \<in> set body. flat it" "Begin_Table nm \<notin> set front" "Begin_Table nm \<notin> set post" "nul_free nm"
  shows "runs (\<lambda>f'. template f' (front @ row_of body @ Begin_Table nm # map reset body @ End_Table nm # post))
    (flateDumpTableLine nm f)"
proof -
  obtain xs s zs where l: "doc f (xs @ (s, Begin_Table nm) # zs)" "tables_ok f (xs @ (s, Begin_Table nm) # zs)"
      "map snd xs = front" "map snd zs = body @ End_Table nm # post"
    by (rule template_doc [OF assms(1)])
  obtain bs ws where zs: "zs = bs @ ws" "map snd bs = body" "map snd ws = End_Table nm # post"
    by (rule map_snd_appendE [OF l(4)])
  then obtain e ps where ws: "ws = (e, End_Table nm) # ps" "map snd ps = post"
    by (cases ws) (auto simp: prod_eq_iff)
  let ?xs = "xs @ (s, Begin_Table nm) # bs @ (e, End_Table nm) # ps"
  have d: "doc f ?xs" and t: "tables_ok f ?xs" using l(1,2) by (simp_all add: zs(1) ws(1))
  have uniq: "a = s" if "(a, it) \<in> set ?xs" "table_name it = Some nm" for a it
  proof -
    have it: "it = Begin_Table nm" using that(2) by (cases it) auto
    have "it \<notin> set (map snd xs)" "it \<notin> set (map snd ps)" using assms(4,5) by (simp_all add: l(3) ws(2) it)
    moreover have "it \<notin> set (map snd bs)" unfolding zs(2) it using assms(3) by fastforce
    ultimately show ?thesis using that(1) by (force simp: it)
  qed
  have tt: "table_ok (tempTable f) table_name ?xs" using t by (simp add: tables_ok_def)
  note found = found_in_table [OF tt names_clean(3) [OF d t] assms(6)]
  have "set (found_units nm (tempTable f)) = {s}"
    unfolding found(2) using uniq by (auto intro!: exI [of _ "Begin_Table nm"])
  with found(1) have one: "found_units nm (tempTable f) = [s]" by (intro singleton_list)
  let ?d = "\<lparr>at_unit = None, UnitTableS = None, pr = True, flate = f\<rparr>"
  have xs: "xs \<noteq> []" using assms(2) l(3) by auto
  have fl: "\<forall>x \<in> set bs. flat (snd x)" using assms(3) unfolding zs(2) [symmetric] by simp
  have "runs (\<lambda>d'. copies (flate ?d) xs (row_of (map snd bs))
      ((s, Begin_Table nm) # reset_all bs @ (e, End_Table nm) # ps) (flate d')) (dump_lines nm [s] ?d)"
    by (rule dump_lines_flat) (use d xs fl assms(6) in simp_all)
  then obtain d' cs where d': "dump_lines nm [s] ?d = Some d'"
      "doc (flate d') (xs @ cs @ (s, Begin_Table nm) # reset_all bs @ (e, End_Table nm) # ps)"
      "map snd cs = row_of (map snd bs)" "same_tables f (flate d')"
    by (auto simp: runs_def copies_def)
  let ?ys = "xs @ cs @ (s, Begin_Table nm) # reset_all bs @ (e, End_Table nm) # ps"
  have keep: "table_ok tb nf ?ys"
    if "table_ok tb nf ?xs" "\<And>it. nf (reset it) = nf it" "\<forall>it \<in> set (row_of (map snd bs)). nf it = None" for tb nf
  proof -
    have "table_ok tb nf ((xs @ [(s, Begin_Table nm)]) @ bs @ (e, End_Table nm) # ps)" using that(1) by simp
    from table_ok_reset [OF this that(2)]
    have "table_ok tb nf (xs @ (s, Begin_Table nm) # reset_all bs @ (e, End_Table nm) # ps)" by simp
    from table_ok_insert [OF this, of cs] that(3) d'(3) show ?thesis by simp
  qed
  have "tables_ok (flate d') ?ys"
    using t d'(4) keep row_of_names [of "map snd bs"] unfolding tables_ok_def same_tables_def by simp
  moreover have "map snd (reset_all bs) = map reset body" unfolding zs(2) [symmetric] by (simp add: reset_all_def)
  then have "map snd ?ys = front @ row_of body @ Begin_Table nm # map reset body @ End_Table nm # post"
    using l(3) d'(3) zs(2) ws(2) by simp
  ultimately have "template (flate d') (front @ row_of body @ Begin_Table nm # map reset body @ End_Table nm # post)"
    using d'(2) unfolding template_def by blast
  then show ?thesis using d'(1) by (simp add: flateDumpTableLine_def one)
qed

section \<open>Templates\<close>

lemma template_set_var:
  assumes "template f its" "nul_free fld" "length (cstr v) < 2 ^ 31"
  shows "runs (\<lambda>f'. template f' (map (set_item fld (cstr v)) its)) (flateSetVar fld (Some v) f)"
proof -
  obtain xs where xs: "doc f xs" "tables_ok f xs" "map snd xs = its" using assms(1) by (auto simp: template_def)
  from flateSetVar_runs [OF xs(1,2) assms(2,3)] show ?thesis
  proof (rule runs_mono)
    fix f' assume "doc f' (set_var fld (cstr v) xs) \<and> tables_ok f' (set_var fld (cstr v) xs)"
    moreover have "map snd (set_var fld (cstr v) xs) = map (set_item fld (cstr v)) its"
      by (simp add: set_var_def xs(3) [symmetric])
    ultimately show "template f' (map (set_item fld (cstr v)) its)" by (auto simp: template_def)
  qed
qed

lemma template_page:
  assumes "template f its" "length (pieces None True its) + 1 < 2 ^ 31"
  shows "runs (\<lambda>(t, f'). page_text t = pieces None True its \<and> flateFreeMem (Some f') = Some ()) (flatePage f)"
proof -
  obtain xs where xs: "doc f xs" "map snd xs = its" using assms(1) by (auto simp: template_def)
  from flatePage_runs [OF xs(1)] assms(2) xs(2) flateFreeMem_doc [OF xs(1)] show ?thesis
    by (auto simp: runs_def)
qed

end
