(* ===== verification/Flate_Parse.thy ===== *)
theory Flate_Parse
  imports Flate_Table
begin

text \<open>
  Reading a template: the list of items that \<open>flateSetFile\<close> builds from a text, as a recursion on
  the text (\<open>items_of\<close>), and the proof that the loop over the buffer computes it.
\<close>

section \<open>The items of a text\<close>

text \<open>The parts of a comment: the word, the name, and what follows the closing bracket; \<open>s\<close> is
  the text behind the opening of the comment.\<close>

definition comment_word :: "bytes \<Rightarrow> bytes" where
  "comment_word s = takeWhile word_char (take VARSZ (dropWhile isspace s))"

definition comment_name_part :: "bytes \<Rightarrow> bytes" where
  "comment_name_part s = dropWhile isspace (drop (length (comment_word s)) (dropWhile isspace s))"

definition comment_name :: "bytes \<Rightarrow> bytes" where
  "comment_name s = takeWhile word_char (take VARSZ (comment_name_part s))"

definition comment_end_part :: "bytes \<Rightarrow> bytes" where
  "comment_end_part s = dropWhile (\<lambda>c. c \<noteq> CHR ''>'') (drop (length (comment_name s)) (comment_name_part s))"

fun mark_item :: "unit_kind \<Rightarrow> bytes \<Rightarrow> item" where
  "mark_item FLATE_VAR n = Var n None"
| "mark_item FLATE_BEGINTABLE n = Begin_Table n"
| "mark_item FLATE_ENDTABLE n = End_Table n"
| "mark_item FLATE_BEGINZONE n = Begin_Zone n False"
| "mark_item FLATE_ENDZONE n = End_Zone n"
| "mark_item _ n = Include n"

text \<open>A comment that is not a mark stays in the text, with the terminator if it is not closed.\<close>

definition comment_item :: "bytes \<Rightarrow> item" where
  "comment_item s =
     (case mark_kind (cstr (comment_word s)) of
        Some k \<Rightarrow> mark_item k (cstr (comment_name s))
      | None \<Rightarrow> Text (''<!--'' @ take (length s - length (comment_end_part s) + 1) (s @ [NUL])))"

lemma dropWhile_length: "length (dropWhile P xs) \<le> length xs"
  by (induction xs) auto

lemma comment_end_suffix: "\<exists>a. s = a @ comment_end_part s"
  unfolding comment_end_part_def comment_name_part_def
  by (metis append.assoc append_take_drop_id takeWhile_dropWhile_id)

lemma comment_end_length: "length (comment_end_part s) \<le> length s"
  using comment_end_suffix [of s] by (metis le_add2 length_append)

function items_of :: "bytes \<Rightarrow> bytes \<Rightarrow> item list" where
  "items_of acc [] = [Text acc]"
| "items_of acc (c # s) =
     (if c = CHR ''#'' \<and> take 1 s = ''#'' then
        Text acc # Var (cstr (take (name_length (drop 1 s)) (drop 1 s))) None
          # items_of [] (drop (name_length (drop 1 s) + 3) s)
      else if c = CHR ''<'' \<and> take 3 s = ''!--'' then
        Text acc # comment_item (drop 3 s) # items_of [] (drop 1 (comment_end_part (drop 3 s)))
      else items_of (acc @ [c]) s)"
  by pat_completeness auto
termination
proof (relation "measure (\<lambda>(acc, s). length s)", goal_cases)
  case (3 acc c s)
  show ?case using comment_end_length [of "drop 3 s"] by simp
qed simp_all

declare items_of.simps(2) [simp del]

section \<open>A template under construction\<close>

definition raw_ok :: "st_ptr list \<Rightarrow> (item \<Rightarrow> bytes option) \<Rightarrow> (address \<times> item) list \<Rightarrow> bool" where
  "raw_ok t nm xs \<longleftrightarrow> distinct (map snd t) \<and> set t = {(n, a). \<exists>it. (a, it) \<in> set xs \<and> nm it = Some n}"

definition raw_tables :: "Flate \<Rightarrow> (address \<times> item) list \<Rightarrow> bool" where
  "raw_tables f xs \<longleftrightarrow> raw_ok (tempVar f) var_name xs \<and> raw_ok (tempZone f) zone_name xs
     \<and> raw_ok (tempTable f) table_name xs"

definition chain :: "Flate \<Rightarrow> (address \<times> item) list \<Rightarrow> address \<Rightarrow> bool" where
  "chain f xs c \<longleftrightarrow> (\<exists>q. seg (units f) None (UnitInit f) xs q (Some c) \<and> units f c = Some (zero_unit\<lparr>prev_unit := q\<rparr>))
     \<and> distinct (map fst xs @ [c]) \<and> (\<forall>a \<in> insert c (fst ` set xs). a < fresh f) \<and> curzone f = None"

lemma chain_append:
  assumes "chain f xs c"
  shows "\<exists>n f' q. append_unit c f = Some (n, f') \<and> units f' c = Some (zero_unit\<lparr>prev_unit := q, next_unit := Some n\<rparr>)
    \<and> same_tables f f'
    \<and> (\<forall>v it. prev_unit v = q \<and> next_unit v = Some n \<and> is_item v it \<longrightarrow> chain (store c v f') (xs @ [(c, it)]) n)"
proof -
  let ?n = "fresh f"
  obtain q where q: "seg (units f) None (UnitInit f) xs q (Some c)" "units f c = Some (zero_unit\<lparr>prev_unit := q\<rparr>)"
    using assms by (auto simp: chain_def)
  have d: "distinct (map fst xs @ [c])" and lt: "c < ?n" "\<forall>a \<in> fst ` set xs. a < ?n" and z: "curzone f = None"
    using assms by (simp_all add: chain_def)
  have ne: "c \<noteq> ?n" "?n \<notin> fst ` set xs" "c \<notin> fst ` set xs" using d lt by auto
  let ?u = "zero_unit\<lparr>prev_unit := q, next_unit := Some ?n\<rparr>"
  let ?f' = "store c ?u ((store ?n (zero_unit\<lparr>prev_unit := Some c\<rparr>) f)\<lparr>fresh := ?n + 1\<rparr>)"
  have app: "append_unit c f = Some (?n, ?f')"
    using q(2) ne(1) by (simp add: append_unit_def alloc_def Let_def)
  have ch: "chain (store c v ?f') (xs @ [(c, it)]) ?n"
    if "prev_unit v = q" "next_unit v = Some ?n" "is_item v it" for v it
  proof -
    let ?g = "store c v ?f'"
    have g: "units ?g c = Some v" "units ?g ?n = Some (zero_unit\<lparr>prev_unit := Some c\<rparr>)" using ne(1) by simp_all
    have "seg (units ?g) None (UnitInit f) xs q (Some c)"
      using q(1)
    proof (subst seg_frame [of xs _ "units f"])
      fix x assume "x \<in> fst ` set xs"
      with ne have "x \<noteq> c" "x \<noteq> ?n" by metis+
      then show "units ?g x = units f x" by simp
    qed
    then have "seg (units ?g) None (UnitInit f) (xs @ [(c, it)]) (Some c) (Some ?n)"
      using g(1) that by (auto simp: seg_append simp del: store_simps(1))
    moreover have "distinct (map fst (xs @ [(c, it)]) @ [?n])" using d ne by auto
    moreover have "\<forall>a \<in> insert ?n (fst ` set (xs @ [(c, it)])). a < fresh ?g" using lt by (auto simp: less_SucI)
    ultimately show ?thesis using g(2) z by (auto simp: chain_def simp del: store_simps(1))
  qed
  have "same_tables f ?f'" by (simp add: same_tables_def)
  then show ?thesis using app ch by (intro exI [of _ ?n] exI [of _ ?f'] exI [of _ q]) auto
qed

lemma raw_ok_add:
  assumes "raw_ok t nm xs" "c \<notin> fst ` set xs"
  shows "raw_ok (case nm it of None \<Rightarrow> t | Some n \<Rightarrow> t @ [(n, c)]) nm (xs @ [(c, it)])"
proof -
  have "c \<notin> snd ` set t" using assms by (force simp: raw_ok_def)
  with assms(1) show ?thesis by (auto simp: raw_ok_def split: option.split)
qed

section \<open>Units of a text\<close>

text \<open>\<open>text_ahead p s\<close>: the text from the start is \<open>s\<close>, and the terminator of the buffer follows.\<close>

definition text_ahead :: "parsing \<Rightarrow> bytes \<Rightarrow> bool" where
  "text_ahead p s \<longleftrightarrow> drop (start_pos p) (tempBuf p) = s @ (if start_pos p \<le> bufsize p then [NUL] else [])
     \<and> length (tempBuf p) = bufsize p + 1 \<and> tempstart p \<le> start_pos p"

lemma drop_terminated:
  "drop a b = s @ [NUL] \<Longrightarrow> length b = sz + 1 \<Longrightarrow> a \<le> m
    \<Longrightarrow> drop m b = drop (m - a) s @ (if m \<le> sz then [NUL] else [])"
proof -
  assume b: "drop a b = s @ [NUL]" "length b = sz + 1" and m: "a \<le> m"
  have "length (drop a b) = length s + 1" by (simp add: b(1))
  then have "sz = a + length s" using b(2) by simp
  moreover have "drop m b = drop (m - a) (drop a b)" using m by simp
  ultimately show ?thesis using m by (simp add: b(1))
qed

definition built :: "parsing \<Rightarrow> (address \<times> item) list \<Rightarrow> bool" where
  "built p xs \<longleftrightarrow> chain (tmplte p) xs (cur p) \<and> raw_tables (tmplte p) xs"

lemma built_new: "built p xs \<Longrightarrow> cur p \<notin> fst ` set xs"
  by (auto simp: built_def chain_def)

lemma raw_tables_plain:
  assumes "raw_tables f xs" "same_tables f g" "var_name it = None" "zone_name it = None" "table_name it = None"
  shows "raw_tables g (xs @ [(c, it)])"
  using assms by (auto simp: raw_tables_def raw_ok_def same_tables_def)

lemma memmove_down:
  assumes "t \<le> s" "s + n \<le> length b \<or> n = 0"
  shows "\<exists>b'. memmove b t s n = Some b' \<and> length b' = length b \<and> drop (s + n) b' = drop (s + n) b
    \<and> load_block b' t n = Some (take n (drop s b))"
proof (cases "n = 0")
  case True
  then show ?thesis by (simp add: memmove_def load_block_def)
next
  case False
  with assms have n: "s + n \<le> length b" "t + n \<le> length b" by auto
  let ?b = "take t b @ bslice b s n @ drop (t + n) b"
  have "drop (s + n) ?b = drop (s - t) (drop (t + n) b)"
    using n assms(1) by (simp add: drop_append bslice_def)
  then have "drop (s + n) ?b = drop (s + n) b" using assms(1) by (simp add: add.commute add.left_commute)
  moreover have "load_block ?b t n = Some (take n (drop s b))"
    using n by (simp add: load_block_def bslice_def)
  ultimately show ?thesis using n by (simp add: memmove_def False)
qed

lemma html_unit_runs:
  assumes "built p xs" "tempstart p \<le> start_pos p" "start_pos p + n \<le> length (tempBuf p) \<or> n = 0"
  shows "runs (\<lambda>p'. built p' (xs @ [(cur p, Text (take n (drop (start_pos p) (tempBuf p))))])
      \<and> at_pos p' = at_pos p \<and> start_pos p' = start_pos p \<and> bufsize p' = bufsize p
      \<and> tempstart p' = tempstart p + n \<and> length (tempBuf p') = length (tempBuf p)
      \<and> drop (start_pos p + n) (tempBuf p') = drop (start_pos p + n) (tempBuf p)) (html_unit n p)"
proof -
  let ?t = "take n (drop (start_pos p) (tempBuf p))" and ?f = "tmplte p" and ?c = "cur p"
  obtain b where b: "memmove (tempBuf p) (tempstart p) (start_pos p) n = Some b" "length b = length (tempBuf p)"
      "drop (start_pos p + n) b = drop (start_pos p + n) (tempBuf p)" "load_block b (tempstart p) n = Some ?t"
    using memmove_down [OF assms(2,3)] by blast
  have ch: "chain ?f xs ?c" and tb: "raw_tables ?f xs" using assms(1) by (simp_all add: built_def)
  from chain_append [OF ch] obtain m f q where f: "append_unit ?c ?f = Some (m, f)"
      "units f ?c = Some (zero_unit\<lparr>prev_unit := q, next_unit := Some m\<rparr>)" "same_tables ?f f"
      "\<And>v it. prev_unit v = q \<Longrightarrow> next_unit v = Some m \<Longrightarrow> is_item v it \<Longrightarrow> chain (store ?c v f) (xs @ [(?c, it)]) m"
    by blast
  let ?v = "zero_unit\<lparr>prev_unit := q, next_unit := Some m, unit_data := Some ?t, tdata := n, kind := FLATE_HTML\<rparr>"
  have "length ?t = n" using assms(3) by auto
  then have "is_item ?v (Text ?t)" by (simp add: data_is_def load_block_def bslice_def)
  then have "chain (store ?c ?v f) (xs @ [(?c, Text ?t)]) m" by (intro f(4)) simp_all
  moreover have "raw_tables (store ?c ?v f) (xs @ [(?c, Text ?t)])"
    using raw_tables_plain [OF tb, of "store ?c ?v f" "Text ?t"] f(3) by (simp add: same_tables_def)
  ultimately show ?thesis using b f(1,2) by (simp add: html_unit_def runs_def built_def)
qed

lemma named_unit_runs:
  assumes "built p xs" "ty \<in> {FLATE_VAR, FLATE_BEGINTABLE, FLATE_ENDTABLE, FLATE_BEGINZONE, FLATE_ENDZONE, FLATE_INCLUDEFILE}"
  shows "\<exists>c f. named_unit ty nm p = Some (p\<lparr>cur := c, tmplte := f\<rparr>)
      \<and> built (p\<lparr>cur := c, tmplte := f\<rparr>) (xs @ [(cur p, mark_item ty (cstr nm))])"
proof -
  let ?f = "tmplte p" and ?c = "cur p" and ?it = "mark_item ty (cstr nm)"
  have ch: "chain ?f xs ?c" and tb: "raw_tables ?f xs" using assms(1) by (simp_all add: built_def)
  have t: "raw_ok (tempVar ?f) var_name xs" "raw_ok (tempZone ?f) zone_name xs" "raw_ok (tempTable ?f) table_name xs"
    using tb by (simp_all add: raw_tables_def)
  note new = built_new [OF assms(1)]
  from chain_append [OF ch] obtain m f q where f: "append_unit ?c ?f = Some (m, f)"
      "units f ?c = Some (zero_unit\<lparr>prev_unit := q, next_unit := Some m\<rparr>)" "same_tables ?f f"
      "\<And>v it. prev_unit v = q \<Longrightarrow> next_unit v = Some m \<Longrightarrow> is_item v it \<Longrightarrow> chain (store ?c v f) (xs @ [(?c, it)]) m"
    by blast
  let ?v = "zero_unit\<lparr>prev_unit := q, next_unit := Some m, unit_name := Some (cstr nm), kind := ty\<rparr>"
  let ?g = "store ?c ?v f" and ?e = "(cstr nm, ?c)"
  let ?h = "case ty of FLATE_VAR \<Rightarrow> ?g\<lparr>tempVar := tempVar ?g @ [?e]\<rparr>
       | FLATE_BEGINTABLE \<Rightarrow> ?g\<lparr>tempTable := tempTable ?g @ [?e]\<rparr>
       | FLATE_BEGINZONE \<Rightarrow> ?g\<lparr>tempZone := tempZone ?g @ [?e]\<rparr>
       | _ \<Rightarrow> ?g"
  have "is_item ?v ?it" using assms(2) by (auto simp: zero_unit_def)
  then have "chain ?g (xs @ [(?c, ?it)]) m" by (intro f(4)) simp_all
  then have "chain ?h (xs @ [(?c, ?it)]) m"
    using assms(2) by (auto simp: chain_def simp del: store_simps(1))
  moreover have "raw_tables ?h (xs @ [(?c, ?it)])"
    using raw_ok_add [OF t(1) new, of ?it] raw_ok_add [OF t(2) new, of ?it] raw_ok_add [OF t(3) new, of ?it] f(3) assms(2)
    by (auto simp: raw_tables_def same_tables_def)
  ultimately show ?thesis using f(1,2) by (intro exI [of _ m] exI [of _ ?h]) (simp add: named_unit_def built_def Let_def)
qed

section \<open>Steps\<close>

lemma name_length_le: "name_length s \<le> length s"
  unfolding name_length_def by (rule le_trans [OF length_takeWhile_le]) simp

text \<open>What a step leaves: the text behind the units is \<open>s\<close> again, and the position is at its start.\<close>

definition moved :: "parsing \<Rightarrow> (address \<times> item) list \<Rightarrow> bytes \<Rightarrow> bool" where
  "moved p xs s \<longleftrightarrow> built p xs \<and> text_ahead p s \<and> at_pos p = start_pos p"

lemma text_ahead_end:
  assumes "text_ahead p s" "s \<noteq> []"
  shows "drop (start_pos p) (tempBuf p) = s @ [NUL]" "bufsize p = start_pos p + length s" "length (tempBuf p) = bufsize p + 1"
proof -
  have l: "length (tempBuf p) = bufsize p + 1" and d: "drop (start_pos p) (tempBuf p) = s @ (if start_pos p \<le> bufsize p then [NUL] else [])"
    using assms(1) by (simp_all add: text_ahead_def)
  have "start_pos p \<le> bufsize p" using d l assms(2) by (cases "start_pos p \<le> bufsize p") auto
  with d show e: "drop (start_pos p) (tempBuf p) = s @ [NUL]" by simp
  then have "length (drop (start_pos p) (tempBuf p)) = length s + 1" by simp
  then show "bufsize p = start_pos p + length s" using l by simp
  show "length (tempBuf p) = bufsize p + 1" by (rule l)
qed

lemma take_terminated: "drop a b = s @ [NUL] \<Longrightarrow> length b = sz + 1 \<Longrightarrow> drop a (take sz b) = s"
proof -
  assume b: "drop a b = s @ [NUL]" "length b = sz + 1"
  have "length (drop a b) = length s + 1" by (simp add: b(1))
  then have "sz = a + length s" using b(2) by simp
  then show ?thesis by (simp add: drop_take b(1))
qed

lemma load_ahead:
  assumes "drop k b = s @ t" "i \<le> length s"
  shows "load_block b k i = Some (take i s)"
proof -
  have "length b - k = length s + length t" using arg_cong [OF assms(1), of length] by simp
  with assms show ?thesis by (auto simp: load_block_def bslice_def)
qed

lemma drop_ahead: "drop k b = s @ t \<Longrightarrow> i \<le> length s \<Longrightarrow> drop (k + i) b = drop i s @ t"
proof -
  assume "drop k b = s @ t" "i \<le> length s"
  moreover have "drop (k + i) b = drop i (drop k b)" by (simp add: add.commute)
  ultimately show ?thesis by simp
qed

lemma html_then:
  assumes "built p xs" "text_ahead p (acc @ s)" "s \<noteq> []" "at_pos p = start_pos p + length acc"
  shows "\<exists>p1. html_unit (at_pos p - start_pos p) p = Some p1 \<and> built p1 (xs @ [(cur p, Text acc)])
    \<and> at_pos p1 = at_pos p \<and> text_ahead (p1\<lparr>start_pos := at_pos p1\<rparr>) s"
proof -
  note e = text_ahead_end [OF assms(2)]
  have ne: "acc @ s \<noteq> []" using assms(3) by simp
  have ts: "tempstart p \<le> start_pos p" using assms(2) by (simp add: text_ahead_def)
  have "start_pos p + length acc \<le> length (tempBuf p)" using e [OF ne] by simp
  then obtain p1 where p1: "html_unit (length acc) p = Some p1" "built p1 (xs @ [(cur p, Text acc)])"
      "at_pos p1 = at_pos p" "bufsize p1 = bufsize p" "tempstart p1 = tempstart p + length acc"
      "length (tempBuf p1) = length (tempBuf p)" "drop (at_pos p) (tempBuf p1) = drop (at_pos p) (tempBuf p)"
    using html_unit_runs [OF assms(1) ts, of "length acc"] e(1) [OF ne] assms(4) by (auto simp: runs_def)
  have "drop (at_pos p) (tempBuf p) = s @ [NUL]"
    using drop_ahead [of "start_pos p" "tempBuf p" "acc @ s" "[NUL]" "length acc"] e(1) [OF ne] assms(4) by simp
  then have "text_ahead (p1\<lparr>start_pos := at_pos p1\<rparr>) s"
    using p1 e(2,3) [OF ne] ts assms(4) by (simp add: text_ahead_def)
  then show ?thesis using p1 assms(4) by auto
qed

lemma variable_runs:
  assumes "built p xs" "text_ahead p (acc @ ''##'' @ s)" "at_pos p = start_pos p + length acc"
  shows "runs (\<lambda>p'. \<exists>ys. moved p' (xs @ ys) (drop (name_length s + 2) s)
    \<and> map snd ys = [Text acc, Var (cstr (take (name_length s) s)) None]) (variable p)"
proof -
  let ?k = "at_pos p + 2" and ?i = "name_length s"
  obtain p1 where p1: "html_unit (at_pos p - start_pos p) p = Some p1" "built p1 (xs @ [(cur p, Text acc)])"
      "at_pos p1 = at_pos p" "text_ahead (p1\<lparr>start_pos := at_pos p1\<rparr>) (''##'' @ s)"
    using html_then [OF assms(1,2) _ assms(3)] by auto
  note e = text_ahead_end [OF p1(4)]
  have dk: "drop ?k (tempBuf p1) = s @ [NUL]" using drop_ahead [of "at_pos p" "tempBuf p1" "''##'' @ s" "[NUL]" 2] e(1) p1(3) by simp
  have l: "length (tempBuf p1) = bufsize p1 + 1" using e(3) by simp
  have i: "?i \<le> length s" by (rule name_length_le)
  have "load_block (tempBuf p1) ?k ?i = Some (take ?i s)" by (rule load_ahead [OF dk i])
  note lb = this
  obtain c f where p2: "named_unit FLATE_VAR (take ?i s) p1 = Some (p1\<lparr>cur := c, tmplte := f\<rparr>)"
      "built (p1\<lparr>cur := c, tmplte := f\<rparr>) ((xs @ [(cur p, Text acc)]) @ [(cur p1, Var (cstr (take ?i s)) None)])"
    using named_unit_runs [OF p1(2), of FLATE_VAR "take ?i s"] by auto
  let ?p = "p1\<lparr>cur := c, tmplte := f, at_pos := ?k + ?i + 1 + 1, start_pos := ?k + ?i + 1 + 1\<rparr>"
  have "variable p = Some ?p"
    using lb p2(1) p1(1,3) take_terminated [OF dk l] by (simp add: variable_def Let_def)
  moreover have "text_ahead ?p (drop (?i + 2) s)"
    using drop_terminated [OF dk l, of "?k + ?i + 2"] p1(3,4) by (simp add: text_ahead_def)
  moreover have "built ?p (xs @ [(cur p, Text acc), (cur p1, Var (cstr (take ?i s)) None)])"
    using p2(2) by (simp add: built_def)
  ultimately show ?thesis by (auto simp: runs_def moved_def intro!: exI [of _ "[(cur p, Text acc), (cur p1, Var (cstr (take ?i s)) None)]"])
qed

lemma skip_space_ahead:
  assumes "drop k b = s @ [NUL]"
  shows "skip_space b k = Some (k + (length s - length (dropWhile isspace s)))"
    "drop (k + (length s - length (dropWhile isspace s))) b = dropWhile isspace s @ [NUL]"
proof -
  show "skip_space b k = Some (k + (length s - length (dropWhile isspace s)))"
    using assms
  proof (induction s arbitrary: k)
    case Nil
    then have "k < length b" "b ! k = NUL"
      by (metis append_Nil drop_eq_Nil2 leI list.distinct(1), metis append_Nil drop_eq_Nil2 hd_drop_conv_nth leI list.distinct(1) list.sel(1))
    then show ?case by (simp add: skip_space.simps [of b k] isspace_def byte_def)
  next
    case (Cons c s)
    then have k: "k < length b" "b ! k = c"
      by (metis append_Cons drop_eq_Nil2 leI list.distinct(1), metis append_Cons drop_eq_Nil2 hd_drop_conv_nth leI list.distinct(1) list.sel(1))
    have "drop (k + 1) b = s @ [NUL]" using drop_ahead [of k b "[c]" "s @ [NUL]" 1] Cons.prems by simp
    from Cons.IH [OF this] k dropWhile_length [of isspace s] show ?case
      by (simp add: skip_space.simps [of b k] Suc_diff_le)
  qed
  have "drop (length s - length (dropWhile isspace s)) s = dropWhile isspace s"
    by (metis add_diff_cancel_right' append_eq_conv_conj length_append takeWhile_dropWhile_id)
  then show "drop (k + (length s - length (dropWhile isspace s))) b = dropWhile isspace s @ [NUL]"
    using drop_ahead [OF assms, of "length s - length (dropWhile isspace s)"] by simp
qed

text \<open>A comment whose file cannot be included.\<close>

definition no_include :: "(bytes \<Rightarrow> entry option) \<Rightarrow> bytes option run \<Rightarrow> bytes \<Rightarrow> bool" where
  "no_include fs root s \<longleftrightarrow> mark_kind (cstr (comment_word s)) = Some FLATE_INCLUDEFILE \<longrightarrow>
     (\<exists>r. root = Some r \<and> includefile fs (rooted r (cstr (comment_name s))) = Some None)"

text \<open>Where the parts of a comment are.\<close>

lemma comment_parts:
  assumes "drop k b = s @ [NUL]" "length b = sz + 1"
  shows "\<exists>k1 k2. skip_space b k = Some k1 \<and> read_word b sz k1 = comment_word s
    \<and> skip_space b (k1 + length (comment_word s)) = Some k2 \<and> read_word b sz k2 = comment_name s
    \<and> find_end b sz (k2 + length (comment_name s)) = k + (length s - length (comment_end_part s))"
proof -
  note a = skip_space_ahead [OF assms(1)]
  let ?s1 = "dropWhile isspace s" and ?w = "comment_word s"
  let ?k1 = "k + (length s - length ?s1)"
  have r1: "read_word b sz ?k1 = ?w" by (simp add: read_word_def take_terminated [OF a(2) assms(2)] comment_word_def)
  have w: "length ?w \<le> length ?s1"
    unfolding comment_word_def by (rule le_trans [OF length_takeWhile_le]) simp
  let ?s2 = "drop (length ?w) ?s1" and ?s3 = "comment_name_part s" and ?n = "comment_name s"
  note c = skip_space_ahead [OF drop_ahead [OF a(2) w]]
  have s3: "dropWhile isspace ?s2 = ?s3" by (simp add: comment_name_part_def)
  note c' = c [unfolded s3]
  let ?k2 = "?k1 + length ?w + (length ?s2 - length ?s3)"
  have r2: "read_word b sz ?k2 = ?n" by (simp only: read_word_def take_terminated [OF c'(2) assms(2)] comment_name_def)
  have n: "length ?n \<le> length ?s3"
    unfolding comment_name_def by (rule le_trans [OF length_takeWhile_le]) simp
  let ?s4 = "drop (length ?n) ?s3"
  have d4: "drop (?k2 + length ?n) b = ?s4 @ [NUL]" by (rule drop_ahead [OF c'(2) n])
  have "length (takeWhile (\<lambda>c. c \<noteq> CHR ''>'') ?s4) + length (comment_end_part s) = length ?s4"
    unfolding comment_end_part_def by (metis length_append takeWhile_dropWhile_id)
  moreover have "length ?s3 \<le> length ?s2" unfolding s3 [symmetric] by (rule dropWhile_length)
  moreover have "length ?s1 \<le> length s" by (rule dropWhile_length)
  ultimately have "find_end b sz (?k2 + length ?n) = k + (length s - length (comment_end_part s))"
    using w n unfolding find_end_def take_terminated [OF d4 assms(2)] by simp
  with a(1) r1 c'(1) r2 show ?thesis by blast
qed

text \<open>A comment at the current position: the text before it is a unit, and where it ends.\<close>

lemma comment_at:
  assumes "built p xs" "text_ahead p (acc @ ''<!--'' @ s)" "at_pos p = start_pos p + length acc"
  obtains p1 where "built p1 (xs @ [(cur p, Text acc)])" "text_ahead p1 (''<!--'' @ s)" "start_pos p1 = at_pos p"
    "comment fs root p = (let k = at_pos p + 4 + (length s - length (comment_end_part s)); ty = mark_kind (cstr (comment_word s)) in do {
       filebuf \<leftarrow> (if ty = Some FLATE_INCLUDEFILE
                  then do { rootdir \<leftarrow> root; includefile fs (rooted rootdir (cstr (comment_name s))) } else Some None);
       (case filebuf of
          Some content \<Rightarrow> splice_file content (k + 1) p1
        | None \<Rightarrow> do {
            p \<leftarrow> (case ty of Some ty \<Rightarrow> named_unit ty (comment_name s) p1 | None \<Rightarrow> html_unit (k + 1 - at_pos p) p1);
            Some (p\<lparr>at_pos := k + 1, start_pos := k + 1\<rparr>)
          })
     })"
proof -
  obtain p1 where p1: "html_unit (at_pos p - start_pos p) p = Some p1" "built p1 (xs @ [(cur p, Text acc)])"
      "at_pos p1 = at_pos p" "text_ahead (p1\<lparr>start_pos := at_pos p1\<rparr>) (''<!--'' @ s)"
    using html_then [OF assms(1,2) _ assms(3)] by auto
  let ?p = "p1\<lparr>start_pos := at_pos p\<rparr>" and ?b = "tempBuf p1" and ?sz = "bufsize p1"
  note e = text_ahead_end [OF p1(4)]
  have da: "drop (at_pos p) ?b = ''<!--'' @ s @ [NUL]" using e(1) p1(3) by simp
  have dk: "drop (at_pos p + 4) ?b = s @ [NUL]" using drop_ahead [of "at_pos p" ?b "''<!--'' @ s" "[NUL]" 4] da by simp
  have l: "length ?b = ?sz + 1" using e(3) by simp
  let ?k = "at_pos p + 4 + (length s - length (comment_end_part s))"
  obtain k1 k2 where k: "skip_space ?b (at_pos p + 4) = Some k1" "read_word ?b ?sz k1 = comment_word s"
      "skip_space ?b (k1 + length (comment_word s)) = Some k2" "read_word ?b ?sz k2 = comment_name s"
      "find_end ?b ?sz (k2 + length (comment_name s)) = ?k"
    using comment_parts [OF dk l] by blast
  show thesis
  proof (rule that [of ?p])
    show "built ?p (xs @ [(cur p, Text acc)])" using p1(2) by (simp add: built_def)
    show "text_ahead ?p (''<!--'' @ s)" using p1(3,4) by simp
  qed (use p1(3) k in \<open>simp_all add: comment_def p1(1) Let_def cong: option.case_cong\<close>)
qed

lemma comment_runs:
  assumes "built p xs" "text_ahead p (acc @ ''<!--'' @ s)" "at_pos p = start_pos p + length acc" "no_include fs root s"
  shows "runs (\<lambda>p'. \<exists>ys. moved p' (xs @ ys) (drop 1 (comment_end_part s))
    \<and> map snd ys = [Text acc, comment_item s]) (comment fs root p)"
proof -
  let ?k = "at_pos p + 4 + (length s - length (comment_end_part s))" and ?ty = "mark_kind (cstr (comment_word s))"
  obtain p1 where p1: "built p1 (xs @ [(cur p, Text acc)])" "text_ahead p1 (''<!--'' @ s)" "start_pos p1 = at_pos p"
    and step: "comment fs root p = (let k = ?k; ty = ?ty in do {
       filebuf \<leftarrow> (if ty = Some FLATE_INCLUDEFILE
                  then do { rootdir \<leftarrow> root; includefile fs (rooted rootdir (cstr (comment_name s))) } else Some None);
       (case filebuf of
          Some content \<Rightarrow> splice_file content (k + 1) p1
        | None \<Rightarrow> do {
            p \<leftarrow> (case ty of Some ty \<Rightarrow> named_unit ty (comment_name s) p1 | None \<Rightarrow> html_unit (k + 1 - at_pos p) p1);
            Some (p\<lparr>at_pos := k + 1, start_pos := k + 1\<rparr>)
          })
     })"
    by (rule comment_at [OF assms(1-3)])
  note e = text_ahead_end [OF p1(2)]
  let ?b = "tempBuf p1"
  have da: "drop (at_pos p) ?b = ''<!--'' @ s @ [NUL]" using e(1) p1(3) by simp
  have dk: "drop (at_pos p + 4) ?b = s @ [NUL]" using drop_ahead [of "at_pos p" ?b "''<!--'' @ s" "[NUL]" 4] da by simp
  have l: "length ?b = bufsize p1 + 1" using e(3) by simp
  let ?rest = "case ?ty of Some ty \<Rightarrow> named_unit ty (comment_name s) p1 | None \<Rightarrow> html_unit (?k + 1 - at_pos p) p1"
  have inc: "(if ?ty = Some FLATE_INCLUDEFILE
      then do { r \<leftarrow> root; includefile fs (rooted r (cstr (comment_name s))) } else Some None) = Some None"
    using assms(4) by (auto simp: no_include_def)
  have eq: "comment fs root p = do { p \<leftarrow> ?rest; Some (p\<lparr>at_pos := ?k + 1, start_pos := ?k + 1\<rparr>) }"
    unfolding step Let_def inc by simp
  have "bufsize p1 = at_pos p + 4 + length s" using e(2) p1(3) by simp
  then have kl: "?k \<le> bufsize p1" by simp
  have "runs (\<lambda>p2. built p2 ((xs @ [(cur p, Text acc)]) @ [(cur p1, comment_item s)])
      \<and> bufsize p2 = bufsize p1 \<and> length (tempBuf p2) = length ?b \<and> tempstart p2 \<le> ?k + 1
      \<and> drop (?k + 1) (tempBuf p2) = drop (?k + 1) ?b) ?rest"
  proof (cases ?ty)
    case None
    have t: "take (?k + 1 - at_pos p) (drop (at_pos p) ?b)
        = ''<!--'' @ take (length s - length (comment_end_part s) + 1) (s @ [NUL])"
      by (simp add: da numeral_eq_Suc)
    have le: "tempstart p1 \<le> start_pos p1" using p1(2) by (simp add: text_ahead_def)
    have "start_pos p1 + (?k + 1 - at_pos p) \<le> length ?b" using kl l p1(3) by simp
    from html_unit_runs [OF p1(1) le disjI1, OF this] show ?thesis
      using None t le p1(3) by (auto simp: runs_def comment_item_def add.left_commute)
  next
    case (Some ty)
    then have ty: "ty \<in> {FLATE_VAR, FLATE_BEGINTABLE, FLATE_ENDTABLE, FLATE_BEGINZONE, FLATE_ENDZONE, FLATE_INCLUDEFILE}"
      by (auto simp: mark_kind_def split: if_splits)
    from named_unit_runs [OF p1(1) ty, of "comment_name s"] show ?thesis
      using Some p1(2,3) by (auto simp: runs_def comment_item_def text_ahead_def)
  qed
  then obtain p2 where p2: "?rest = Some p2" "built p2 ((xs @ [(cur p, Text acc)]) @ [(cur p1, comment_item s)])"
      "bufsize p2 = bufsize p1" "length (tempBuf p2) = length ?b" "tempstart p2 \<le> ?k + 1"
      "drop (?k + 1) (tempBuf p2) = drop (?k + 1) ?b"
    by (auto simp: runs_def)
  let ?q = "p2\<lparr>at_pos := ?k + 1, start_pos := ?k + 1\<rparr>"
  have "drop (length s - length (comment_end_part s)) s = comment_end_part s"
    using comment_end_suffix [of s] by (metis add_diff_cancel_right' append_eq_conv_conj length_append)
  then have "drop (length s - length (comment_end_part s) + 1) s = drop 1 (comment_end_part s)"
    by (metis add.commute drop_drop)
  then have "text_ahead ?q (drop 1 (comment_end_part s))"
    using drop_terminated [OF dk l, of "?k + 1"] p2(3-6) l by (simp add: text_ahead_def)
  moreover have "built ?q (xs @ [(cur p, Text acc), (cur p1, comment_item s)])" using p2(2) by (simp add: built_def)
  ultimately show ?thesis
    unfolding eq p2(1)
    by (auto simp: runs_def moved_def intro!: exI [of _ "[(cur p, Text acc), (cur p1, comment_item s)]"])
qed

section \<open>The loop\<close>

lemma looks_at_ahead:
  assumes "drop k b = s @ [NUL]" "NUL \<notin> set cs"
  shows "looks_at b k cs = Some (take (length cs) s = cs)"
  using assms
proof (induction cs arbitrary: k s)
  case (Cons c cs)
  have k: "k < length b" "b ! k = hd (s @ [NUL])"
    using Cons.prems(1) by (metis append_is_Nil_conv drop_eq_Nil2 leI list.distinct(1),
      metis append_is_Nil_conv drop_eq_Nil2 hd_drop_conv_nth leI list.distinct(1))
  show ?case
  proof (cases s)
    case Nil
    with k Cons.prems(2) show ?thesis by (auto simp: rd_def)
  next
    case (Cons d s')
    then have "drop (k + 1) b = s' @ [NUL]" using drop_ahead [of k b "[d]" "s' @ [NUL]" 1] Cons.prems(1) by simp
    from Cons.IH [OF this] Cons.prems(2) k Cons show ?thesis by (auto simp: rd_def)
  qed
qed simp

declare looks_at.simps(2) [simp del]

definition missing_files :: "(bytes \<Rightarrow> entry option) \<Rightarrow> bytes option run \<Rightarrow> item list \<Rightarrow> bool" where
  "missing_files fs root its \<longleftrightarrow>
     (\<forall>n. Include n \<in> set its \<longrightarrow> (\<exists>r. root = Some r \<and> includefile fs (rooted r n) = Some None))"

lemma missing_no_include: "missing_files fs root (a # comment_item s # its) \<Longrightarrow> no_include fs root s"
  by (simp add: missing_files_def no_include_def comment_item_def)

text \<open>What the loop leaves: the units of all items but the last, which is the text behind them.\<close>

definition leaves :: "(address \<times> item) list \<Rightarrow> item list \<Rightarrow> parsing \<Rightarrow> bool" where
  "leaves xs its p \<longleftrightarrow> (\<exists>ys acc. built p (xs @ ys) \<and> text_ahead p acc \<and> at_pos p = start_pos p + length acc
     \<and> map snd ys @ [Text acc] = its)"

lemma leaves_more: "leaves (xs @ ys) its p \<Longrightarrow> leaves xs (map snd ys @ its) p"
proof -
  assume "leaves (xs @ ys) its p"
  then obtain zs acc where "built p ((xs @ ys) @ zs)" "text_ahead p acc" "at_pos p = start_pos p + length acc"
      "map snd zs @ [Text acc] = its"
    unfolding leaves_def by blast
  then show ?thesis unfolding leaves_def by (intro exI [of _ "ys @ zs"] exI [of _ acc]) auto
qed

lemma template_loop_step:
  assumes "at_pos p < bufsize p" "runs R (template_step fs root p)" "\<And>p'. R p' \<Longrightarrow> runs Q (template_loop fs root p')"
  shows "runs Q (template_loop fs root p)"
  using assms by (subst template_loop.simps) (auto simp: runs_def)

lemma template_loop_mark:
  assumes "at_pos p < bufsize p"
    "runs (\<lambda>p'. \<exists>ys. moved p' (xs @ ys) s \<and> map snd ys = front) (template_step fs root p)"
    "\<And>p' ys. moved p' (xs @ ys) s \<Longrightarrow> runs (leaves (xs @ ys) its) (template_loop fs root p')"
  shows "runs (leaves xs (front @ its)) (template_loop fs root p)"
proof (rule template_loop_step [OF assms(1,2)])
  fix p' assume "\<exists>ys. moved p' (xs @ ys) s \<and> map snd ys = front"
  then obtain ys where ys: "moved p' (xs @ ys) s" "map snd ys = front" by blast
  show "runs (leaves xs (front @ its)) (template_loop fs root p')"
    using assms(3) [OF ys(1)] leaves_more [of xs ys its, unfolded ys(2)] by (rule runs_mono)
qed

lemma template_loop_runs:
  assumes "built p xs" "text_ahead p (acc @ s)" "at_pos p = start_pos p + length acc" "missing_files fs root (items_of acc s)"
  shows "runs (leaves xs (items_of acc s)) (template_loop fs root p)"
  using assms
proof (induction acc s arbitrary: p xs rule: items_of.induct)
  case (1 acc)
  have "length (drop (start_pos p) (tempBuf p)) = length acc + (if start_pos p \<le> bufsize p then 1 else 0)"
    "length (tempBuf p) = bufsize p + 1" using 1(2) by (simp_all add: text_ahead_def)
  then have "\<not> at_pos p < bufsize p" using 1(3) by (simp split: if_splits)
  then have "template_loop fs root p = Some p" by (subst template_loop.simps) simp
  moreover have "leaves xs [Text acc] p"
    unfolding leaves_def using 1 by (intro exI [of _ "[]"] exI [of _ acc]) simp
  ultimately show ?case by (simp add: runs_def)
next
  case (2 acc c s)
  note e = text_ahead_end [OF 2(5)]
  have lt: "at_pos p < bufsize p" using e(2) 2(6) by simp
  have d: "drop (at_pos p) (tempBuf p) = (c # s) @ [NUL]"
    using drop_ahead [OF e(1), of "length acc"] 2(6) by simp
  have d1: "drop (at_pos p + 1) (tempBuf p) = s @ [NUL]" using drop_ahead [of "at_pos p" "tempBuf p" "c # s" "[NUL]" 1] d by simp
  have c: "rd (tempBuf p) (at_pos p) = Some c" using lt e(3) d by (auto simp: rd_def nth_via_drop)
  have hash: "looks_at (tempBuf p) (at_pos p + 1) ''#'' = Some (take 1 s = ''#'')"
    using looks_at_ahead [OF d1, of "''#''"] by simp
  have angle: "looks_at (tempBuf p) (at_pos p) ''<!--'' = Some (c = CHR ''<'' \<and> take 3 s = ''!--'')"
    using looks_at_ahead [OF d, of "''<!--''"] by (simp add: numeral_eq_Suc)
  consider (var) "c = CHR ''#''" "take 1 s = ''#''" | (com) "c = CHR ''<''" "take 3 s = ''!--''"
    | (plain) "\<not> (c = CHR ''#'' \<and> take 1 s = ''#'')" "\<not> (c = CHR ''<'' \<and> take 3 s = ''!--'')" by blast
  then show ?case
  proof cases
    case var
    let ?s = "drop 1 s" and ?r = "drop (name_length (drop 1 s) + 3) s"
    let ?front = "[Text acc, Var (cstr (take (name_length ?s) ?s)) None]"
    have s: "s = CHR ''#'' # ?s" using var(2) by (cases s) auto
    have tk: "items_of acc (c # s) = ?front @ items_of [] ?r" using var by (simp add: items_of.simps(2))
    have r: "drop (name_length ?s + 2) ?s = ?r" by (simp add: numeral_eq_Suc)
    have "text_ahead p (acc @ ''##'' @ ?s)" using 2(5) s var(1) by simp
    from variable_runs [OF 2(4) this 2(6)] hash var c
    have step: "runs (\<lambda>p'. \<exists>ys. moved p' (xs @ ys) ?r \<and> map snd ys = ?front) (template_step fs root p)"
      unfolding r by (simp add: template_step_def)
    have miss: "missing_files fs root (items_of [] ?r)" using 2(7) unfolding tk by (simp add: missing_files_def)
    show ?thesis
      unfolding tk
      by (rule template_loop_mark [OF lt step]) (rule 2(1) [OF _ _ _ _ miss], use var in \<open>auto simp: moved_def\<close>)
  next
    case com
    let ?s = "drop 3 s" and ?r = "drop 1 (comment_end_part (drop 3 s))"
    let ?front = "[Text acc, comment_item ?s]"
    have s: "s = ''!--'' @ ?s" using com(2) by (metis append_take_drop_id)
    have tk: "items_of acc (c # s) = ?front @ items_of [] ?r" using com by (simp add: items_of.simps(2))
    have "text_ahead p (acc @ ''<!--'' @ ?s)" using 2(5) s com(1) by simp
    moreover have "no_include fs root ?s" using missing_no_include 2(7) unfolding tk by simp
    ultimately have "runs (\<lambda>p'. \<exists>ys. moved p' (xs @ ys) ?r \<and> map snd ys = ?front) (comment fs root p)"
      by (intro comment_runs [OF 2(4) _ 2(6)])
    with angle com c
    have step: "runs (\<lambda>p'. \<exists>ys. moved p' (xs @ ys) ?r \<and> map snd ys = ?front) (template_step fs root p)"
      by (simp add: template_step_def)
    have miss: "missing_files fs root (items_of [] ?r)" using 2(7) unfolding tk by (simp add: missing_files_def)
    show ?thesis
      unfolding tk
      by (rule template_loop_mark [OF lt step]) (rule 2(2) [OF _ _ _ _ _ miss], use com in \<open>auto simp: moved_def\<close>)
  next
    case plain
    let ?p = "p\<lparr>at_pos := at_pos p + 1\<rparr>"
    have tk: "items_of acc (c # s) = items_of (acc @ [c]) s" using plain by (auto simp: items_of.simps(2))
    have step: "runs (\<lambda>p'. p' = ?p) (template_step fs root p)"
      using plain c hash angle by (simp add: template_step_def runs_def Let_def) auto
    have "runs (leaves xs (items_of (acc @ [c]) s)) (template_loop fs root ?p)"
      by (rule 2(3)) (use plain 2(4-7) in \<open>auto simp: tk built_def text_ahead_def\<close>)
    then show ?thesis unfolding tk by (intro template_loop_step [OF lt step]) simp
  qed
qed

section \<open>The template\<close>

lemma seg_snoc_store:
  assumes "seg (units f) p a xs q (Some c)" "c \<notin> fst ` set xs" "prev_unit u = q" "next_unit u = None" "is_item u it"
  shows "seg (units (store c u f)) p a (xs @ [(c, it)]) (Some c) None"
proof -
  have "seg (units (store c u f)) p a xs q (Some c)"
    using assms(1)
  proof (subst seg_frame [of xs _ "units f"])
    fix x assume "x \<in> fst ` set xs"
    with assms(2) have "x \<noteq> c" by metis
    then show "units (store c u f) x = units f x" by simp
  qed
  then show ?thesis using assms(3-5) by (auto simp: seg_append)
qed

lemma last_unit_runs:
  assumes "built p xs" "text_ahead p acc" "at_pos p = start_pos p + length acc"
  shows "runs (\<lambda>f. doc f (xs @ [(cur p, Text acc)]) \<and> raw_tables f (xs @ [(cur p, Text acc)])) (last_unit p)"
proof -
  let ?f = "tmplte p" and ?c = "cur p"
  obtain q where q: "seg (units ?f) None (UnitInit ?f) xs q (Some ?c)" "units ?f ?c = Some (zero_unit\<lparr>prev_unit := q\<rparr>)"
    using assms(1) by (auto simp: built_def chain_def)
  have ch: "distinct (map fst xs @ [?c])" "\<forall>a \<in> insert ?c (fst ` set xs). a < fresh ?f" "curzone ?f = None"
    and tb: "raw_tables ?f xs"
    using assms(1) by (simp_all add: built_def chain_def)
  have docI: "doc (store ?c u ?f) (xs @ [(?c, it)]) \<and> raw_tables (store ?c u ?f) (xs @ [(?c, it)])"
    if "prev_unit u = q" "next_unit u = None" "is_item u it" "it = Text t" for u it t
  proof
    have "seg (units (store ?c u ?f)) None (UnitInit ?f) (xs @ [(?c, it)]) (Some ?c) None"
      using ch(1) by (intro seg_snoc_store [OF q(1) _ that(1-3)]) auto
    then show "doc (store ?c u ?f) (xs @ [(?c, it)])" using ch by (auto simp: doc_def simp del: store_simps(1))
    show "raw_tables (store ?c u ?f) (xs @ [(?c, it)])"
      using raw_tables_plain [OF tb, of "store ?c u ?f" it] that(4) by (simp add: same_tables_def)
  qed
  show ?thesis
  proof (cases "tempstart p < bufsize p")
    case True
    have d: "drop (start_pos p) (tempBuf p) = acc @ (if start_pos p \<le> bufsize p then [NUL] else [])"
      "tempstart p \<le> start_pos p" using assms(2) by (simp_all add: text_ahead_def)
    have "length acc \<le> length (tempBuf p) - start_pos p" using arg_cong [OF d(1), of length] by simp
    then have "start_pos p + length acc \<le> length (tempBuf p) \<or> length acc = 0" by linarith
    from memmove_down [OF d(2) this] obtain b where b: "memmove (tempBuf p) (tempstart p) (start_pos p) (length acc) = Some b"
        "load_block b (tempstart p) (length acc) = Some acc" by (auto simp: d(1))
    let ?u = "zero_unit\<lparr>prev_unit := q, next_unit := None, unit_data := Some acc, tdata := length acc, kind := FLATE_HTML\<rparr>"
    have "is_item ?u (Text acc)" by (simp add: data_is_def load_block_def bslice_def)
    with docI [of ?u "Text acc"] have "doc (store ?c ?u ?f) (xs @ [(?c, Text acc)]) \<and> raw_tables (store ?c ?u ?f) (xs @ [(?c, Text acc)])"
      by simp
    then show ?thesis using True assms(3) b q(2) by (simp add: last_unit_def runs_def)
  next
    case False
    then have "acc = []" using assms(2) text_ahead_end(2) [OF assms(2)] by (cases acc) (auto simp: text_ahead_def)
    let ?u = "zero_unit\<lparr>prev_unit := q\<rparr>"
    have "store ?c ?u ?f = ?f" using q(2) by (simp add: store_def fun_upd_idem)
    moreover have "is_item ?u (Text acc)" "next_unit ?u = None" by (simp_all add: zero_unit_def \<open>acc = []\<close>)
    ultimately show ?thesis using False docI [of ?u "Text acc" acc] by (simp add: last_unit_def runs_def)
  qed
qed

lemma built_new_parsing: "built (new_parsing content) []" "text_ahead (new_parsing content) content"
proof -
  have "zero_unit\<lparr>prev_unit := None\<rparr> = zero_unit" by (simp add: zero_unit_def)
  then show "built (new_parsing content) []"
    by (simp add: built_def chain_def new_parsing_def raw_tables_def raw_ok_def)
  show "text_ahead (new_parsing content) content" by (simp add: text_ahead_def new_parsing_def)
qed

lemma qsort_table:
  assumes "raw_ok t nm xs" "\<And>a it n. (a, it) \<in> set xs \<Longrightarrow> nm it = Some n \<Longrightarrow> nul_free n"
  shows "table_ok (qsort t) nm xs"
proof -
  have "clean_names t" using assms by (auto simp: raw_ok_def clean_names_def)
  moreover have "distinct (map snd (qsort t)) = distinct (map snd t)" by (simp add: distinct_map)
  ultimately show ?thesis using assms(1) qsort_sorted [of t] by (simp add: table_ok_def raw_ok_def)
qed

lemma qsort_tables:
  assumes "doc f xs" "raw_tables f xs"
  shows "template (f\<lparr>tempVar := qsort (tempVar f), tempZone := qsort (tempZone f), tempTable := qsort (tempTable f)\<rparr>) (map snd xs)"
proof -
  let ?g = "f\<lparr>tempVar := qsort (tempVar f), tempZone := qsort (tempZone f), tempTable := qsort (tempTable f)\<rparr>"
  have "tables_ok ?g xs"
    using assms(2) doc_names [OF assms(1)] by (auto simp: tables_ok_def raw_tables_def intro!: qsort_table)
  moreover have "doc ?g xs" using assms(1) by (simp add: doc_def)
  ultimately show ?thesis by (auto simp: template_def)
qed

lemma flateSetFile_runs:
  assumes "filename = [] \<or> hd filename \<noteq> CHR ''-''" "fs (rooted docroot filename) = Some (File (Some content))"
    "length content < 2 ^ 31 - 1" "missing_files fs (Some docroot) (items_of [] content)"
  shows "runs (\<lambda>t. \<exists>f. t = Some f \<and> template f (items_of [] content)) (flateSetFile fs docroot filename)"
proof -
  have "runs (leaves [] (items_of [] content)) (template_loop fs (Some docroot) (new_parsing content))"
    using built_new_parsing by (intro template_loop_runs) (simp_all add: assms(4), simp add: new_parsing_def)
  then obtain p ys acc where p: "template_loop fs (Some docroot) (new_parsing content) = Some p"
      "built p ys" "text_ahead p acc" "at_pos p = start_pos p + length acc" "map snd ys @ [Text acc] = items_of [] content"
    by (auto simp: runs_def leaves_def)
  obtain f where f: "last_unit p = Some f" "doc f (ys @ [(cur p, Text acc)])" "raw_tables f (ys @ [(cur p, Text acc)])"
    using last_unit_runs [OF p(2-4)] by (auto simp: runs_def)
  have "(case filename of CHR ''-'' # rest \<Rightarrow> (None, rest) | _ \<Rightarrow> (Some docroot, rooted docroot filename))
      = (Some docroot, rooted docroot filename)"
    using assms(1) by (auto split: list.split char.split bool.split)
  then show ?thesis
    using qsort_tables [OF f(2,3)] p(1,5) f(1) assms(2,3) by (simp add: flateSetFile_def read_template_def runs_def Let_def)
qed

end
