(* ===== verification/Flate_Contract.thy ===== *)
theory Flate_Contract
  imports Flate_Parse
begin

text \<open>
  What the template engine promises: the calls that a route makes between reading a template and
  printing the page are edits of the list of its items, and the page is the text of that list.
\<close>

section \<open>Edits\<close>

datatype edit = Set_Var bytes bytes | Dump_Line bytes

text \<open>The parts of a template around a table: what is before it, its lines, and what is behind it.
  There is one table with the name, it is not at the very beginning, and nothing is nested in it.\<close>

definition table_parts :: "bytes \<Rightarrow> item list \<Rightarrow> (item list \<times> item list \<times> item list) option" where
  "table_parts nm its =
     (let front = takeWhile (\<lambda>it. it \<noteq> Begin_Table nm) its;
          rest = drop (length front + 1) its;
          body = takeWhile (\<lambda>it. it \<noteq> End_Table nm) rest;
          post = drop (length body + 1) rest in
      if Begin_Table nm \<in> set its \<and> End_Table nm \<in> set rest \<and> front \<noteq> [] \<and> list_all flat body
         \<and> Begin_Table nm \<notin> set post
      then Some (front, body, post) else None)"

fun apply_edit :: "edit \<Rightarrow> item list \<Rightarrow> item list option" where
  "apply_edit (Set_Var fld v) its = Some (map (set_item fld (cstr v)) its)"
| "apply_edit (Dump_Line nm) its = do {
     (front, body, post) \<leftarrow> table_parts nm its;
     Some (front @ row_of body @ Begin_Table nm # map reset body @ End_Table nm # post)
   }"

fun apply_edits :: "edit list \<Rightarrow> item list \<Rightarrow> item list option" where
  "apply_edits [] its = Some its"
| "apply_edits (e # es) its = do { its \<leftarrow> apply_edit e its; apply_edits es its }"

fun edit_ok :: "edit \<Rightarrow> bool" where
  "edit_ok (Set_Var fld v) \<longleftrightarrow> nul_free fld \<and> length (cstr v) < 2 ^ 31"
| "edit_ok (Dump_Line nm) \<longleftrightarrow> nul_free nm"

text \<open>The calls.\<close>

fun run_edit :: "edit \<Rightarrow> Flate \<Rightarrow> Flate run" where
  "run_edit (Set_Var fld v) f = flateSetVar fld (Some v) f"
| "run_edit (Dump_Line nm) f = flateDumpTableLine nm f"

fun run_edits :: "edit list \<Rightarrow> Flate \<Rightarrow> Flate run" where
  "run_edits [] f = Some f"
| "run_edits (e # es) f = do { f \<leftarrow> run_edit e f; run_edits es f }"

lemma table_partsD:
  assumes "table_parts nm its = Some (front, body, post)"
  shows "its = front @ Begin_Table nm # body @ End_Table nm # post" "front \<noteq> []" "\<forall>it \<in> set body. flat it"
    "Begin_Table nm \<notin> set front" "Begin_Table nm \<notin> set post"
proof -
  have split: "takeWhile P xs @ x # drop (length (takeWhile P xs) + 1) xs = xs"
    if "x \<in> set xs" "\<And>y. P y \<longleftrightarrow> y \<noteq> x" for P x and xs :: "item list"
    using that by (induction xs) auto
  have front: "front = takeWhile (\<lambda>it. it \<noteq> Begin_Table nm) its"
    and body: "body = takeWhile (\<lambda>it. it \<noteq> End_Table nm) (drop (length front + 1) its)"
    and post: "post = drop (length body + 1) (drop (length front + 1) its)"
    and ok: "Begin_Table nm \<in> set its" "End_Table nm \<in> set (drop (length front + 1) its)" "front \<noteq> []"
      "list_all flat body" "Begin_Table nm \<notin> set post"
    using assms by (auto simp: table_parts_def Let_def split: if_splits)
  have "its = front @ Begin_Table nm # drop (length front + 1) its"
    using split [OF ok(1), of "\<lambda>it. it \<noteq> Begin_Table nm"] by (simp add: front [symmetric])
  moreover have "drop (length front + 1) its = body @ End_Table nm # post"
    using split [OF ok(2), of "\<lambda>it. it \<noteq> End_Table nm"] by (simp only: body [symmetric] post)
  ultimately show "its = front @ Begin_Table nm # body @ End_Table nm # post" by metis
  show "front \<noteq> []" "\<forall>it \<in> set body. flat it" "Begin_Table nm \<notin> set post" using ok by (simp_all add: list_all_iff)
  show "Begin_Table nm \<notin> set front" unfolding front by (auto dest: set_takeWhileD)
qed

lemma run_edit_runs:
  assumes "template f its" "edit_ok e" "apply_edit e its = Some its'"
  shows "runs (\<lambda>f'. template f' its') (run_edit e f)"
proof (cases e)
  case (Set_Var fld v)
  with template_set_var [OF assms(1)] assms(2,3) show ?thesis by auto
next
  case (Dump_Line nm)
  with assms(3) obtain front body post where p: "table_parts nm its = Some (front, body, post)"
      "its' = front @ row_of body @ Begin_Table nm # map reset body @ End_Table nm # post" by (auto simp: bind_eq_Some_conv)
  note d = table_partsD [OF p(1)]
  from flateDumpTableLine_runs [OF assms(1) [unfolded d(1)] d(2-5)] assms(2) Dump_Line p(2) show ?thesis by simp
qed

lemma run_edits_runs:
  "template f its \<Longrightarrow> list_all edit_ok es \<Longrightarrow> apply_edits es its = Some its'
    \<Longrightarrow> runs (\<lambda>f'. template f' its') (run_edits es f)"
proof (induction es arbitrary: f its)
  case (Cons e es)
  from Cons.prems(3) obtain its1 where i: "apply_edit e its = Some its1" "apply_edits es its1 = Some its'" by (auto simp: bind_eq_Some_conv)
  with run_edit_runs [OF Cons.prems(1) _ i(1)] Cons.prems(2) obtain f1 where "run_edit e f = Some f1" "template f1 its1"
    by (auto simp: runs_def)
  with Cons.IH [of f1 its1] Cons.prems(2) i(2) show ?case by simp
qed (simp add: runs_def)

section \<open>The page of a template\<close>

text \<open>Reading, editing, printing and freeing, as the routes do it.\<close>

definition render ::
  "(bytes \<Rightarrow> entry option) \<Rightarrow> bytes option \<Rightarrow> bytes \<Rightarrow> edit list \<Rightarrow> bytes option run" where
  "render fs docroot filename es = do {
     t \<leftarrow> flateSetFile fs docroot filename;
     f \<leftarrow> deref t;
     f \<leftarrow> run_edits es f;
     (page, f) \<leftarrow> flatePage f;
     flateFreeMem (Some f);
     Some page
   }"

lemma render_runs:
  assumes "filename = [] \<or> hd filename \<noteq> CHR ''-''" "fs (rooted docroot filename) = Some (File (Some content))"
    "length content < 2 ^ 31 - 1" "missing_files fs (Some docroot) (items_of [] content)"
    "list_all edit_ok es" "apply_edits es (items_of [] content) = Some its" "length (pieces None True its) + 1 < 2 ^ 31"
  shows "runs (\<lambda>page. page_text page = pieces None True its) (render fs docroot filename es)"
proof -
  obtain f where f: "flateSetFile fs docroot filename = Some (Some f)" "template f (items_of [] content)"
    using flateSetFile_runs [OF assms(1-4)] by (auto simp: runs_def)
  obtain g where g: "run_edits es f = Some g" "template g its"
    using run_edits_runs [OF f(2) assms(5,6)] by (auto simp: runs_def)
  from template_page [OF g(2) assms(7)] f(1) g(1) show ?thesis by (auto simp: render_def runs_def deref_def)
qed

section \<open>A page with a table\<close>

text \<open>A line of the table is given by the values of its variables, the last one for a name.\<close>

type_synonym line = "(bytes \<times> bytes) list"

definition value_of :: "line \<Rightarrow> bytes \<Rightarrow> bytes option" where
  "value_of r n = map_option cstr (map_of (rev r) n)"

fun item_text :: "item \<Rightarrow> bytes" where
  "item_text (Text t) = t"
| "item_text (Var n (Some t)) = t"
| "item_text _ = []"

definition line_text :: "item list \<Rightarrow> line \<Rightarrow> bytes" where
  "line_text body r =
     concat (map (\<lambda>it. case it of Var n v \<Rightarrow> page_text (value_of r n) | _ \<Rightarrow> item_text it) body)"

definition line_edits :: "bytes \<Rightarrow> line \<Rightarrow> edit list" where
  "line_edits nm r = map (\<lambda>(fld, v). Set_Var fld v) r @ [Dump_Line nm]"

text \<open>Items that show themselves, in any place, and are not a field of the lines.\<close>

fun settled :: "bytes set \<Rightarrow> item \<Rightarrow> bool" where
  "settled A (Text t) = True" | "settled A (Var n v) = (n \<notin> A)" | "settled A Gen_Begin = True" | "settled A Gen_End = True"
| "settled A _ = False"

lemma pieces_quiet: "list_all (settled A) xs \<Longrightarrow> pieces None True (xs @ ys) = concat (map item_text xs) @ pieces None True ys"
proof (induction xs)
  case (Cons it xs)
  then show ?case by (cases it) (auto simp: pieces_Cons split: option.split)
qed simp

lemma set_quiet: "list_all (settled A) xs \<Longrightarrow> fld \<in> A \<Longrightarrow> map (set_item fld v) xs = xs"
proof (induction xs)
  case (Cons it xs)
  then show ?case by (cases it) auto
qed simp

lemma apply_edits_append: "apply_edits (es @ es') its = apply_edits es its \<bind> apply_edits es'"
  by (induction es arbitrary: its) (simp, auto split: Option.bind_splits)

lemma apply_sets: "apply_edits (map (\<lambda>(fld, v). Set_Var fld v) r) its
    = Some (fold (\<lambda>(fld, v). map (set_item fld (cstr v))) r its)"
  by (induction r arbitrary: its) auto

definition line_items :: "line \<Rightarrow> item list \<Rightarrow> item list" where
  "line_items r = map (\<lambda>it. case it of Var n v \<Rightarrow> Var n (case value_of r n of None \<Rightarrow> v | x \<Rightarrow> x) | _ \<Rightarrow> it)"

lemma fold_sets_flat:
  "list_all flat body \<Longrightarrow> fold (\<lambda>(fld, v). map (set_item fld (cstr v))) r body = line_items r body"
proof (induction r rule: rev_induct)
  case Nil
  then have "line_items [] body = body" by (induction body) (auto simp: line_items_def value_of_def split: item.split)
  then show ?case by simp
next
  case (snoc x r)
  have "set_item (fst x) (cstr (snd x)) (case it of Var n v \<Rightarrow> Var n (case value_of r n of None \<Rightarrow> v | y \<Rightarrow> y) | _ \<Rightarrow> it)
      = (case it of Var n v \<Rightarrow> Var n (case value_of (r @ [x]) n of None \<Rightarrow> v | y \<Rightarrow> y) | _ \<Rightarrow> it)" if "flat it" for it
    using that by (cases it) (auto simp: value_of_def)
  with snoc show ?case by (auto simp: line_items_def list_all_iff split: prod.split)
qed

lemma fold_sets_table:
  assumes "list_all (settled A) front" "list_all (settled A) post" "\<forall>x \<in> set r. fst x \<in> A" "list_all flat body"
  shows "fold (\<lambda>(fld, v). map (set_item fld (cstr v))) r (front @ Begin_Table nm # body @ End_Table nm # post)
    = front @ Begin_Table nm # line_items r body @ End_Table nm # post"
proof -
  have "fold (\<lambda>(fld, v). map (set_item fld (cstr v))) r (front @ Begin_Table nm # b @ End_Table nm # post)
      = front @ Begin_Table nm # fold (\<lambda>(fld, v). map (set_item fld (cstr v))) r b @ End_Table nm # post" for b
    using assms(3)
  proof (induction r arbitrary: b)
    case (Cons x r)
    then show ?case by (auto simp: set_quiet [OF assms(1)] set_quiet [OF assms(2)] split: prod.split)
  qed simp
  then show ?thesis by (simp add: fold_sets_flat [OF assms(4)])
qed

lemma quiet_not_table: "list_all (settled A) xs \<Longrightarrow> Begin_Table nm \<notin> set xs"
  by (auto simp: list_all_iff)

lemma table_parts_at:
  assumes "Begin_Table nm \<notin> set front" "front \<noteq> []" "list_all flat body" "Begin_Table nm \<notin> set post"
  shows "table_parts nm (front @ Begin_Table nm # body @ End_Table nm # post) = Some (front, body, post)"
proof -
  have tw: "takeWhile (\<lambda>it. it \<noteq> x) (xs @ x # ys) = xs" if "x \<notin> set xs" for x and xs ys :: "item list"
    using that by (induction xs) auto
  have "End_Table nm \<notin> set body" using assms(3) by (auto simp: list_all_iff)
  with assms show ?thesis by (simp add: table_parts_def tw)
qed

lemma line_row_text:
  "list_all flat body \<Longrightarrow> map reset body = body
    \<Longrightarrow> concat (map item_text (row_of (line_items r body))) = line_text body r"
proof (induction body)
  case (Cons it body)
  then show ?case
    by (cases it) (auto simp: row_of_def line_items_def line_text_def page_text_def split: option.split)
qed (simp add: row_of_def line_items_def line_text_def)

text \<open>Every line appears behind the lines before it, and the body is as before.\<close>

lemma apply_lines:
  assumes "list_all (settled A) front" "list_all (settled A) post" "\<forall>r \<in> set rows. \<forall>x \<in> set r. fst x \<in> A"
    "list_all flat body" "map reset body = body" "front \<noteq> []"
  shows "\<exists>gen. apply_edits (concat (map (line_edits nm) rows)) (front @ Begin_Table nm # body @ End_Table nm # post)
      = Some ((front @ gen) @ Begin_Table nm # body @ End_Table nm # post)
    \<and> list_all (settled A) gen \<and> concat (map item_text gen) = concat (map (line_text body) rows)"
  using assms
proof (induction rows arbitrary: front)
  case Nil
  then show ?case by (intro exI [of _ "[]"]) simp
next
  case (Cons r rows)
  let ?b = "line_items r body" and ?g = "row_of (line_items r body)"
  have fl: "list_all flat ?b" using Cons.prems(4) by (auto simp: line_items_def list_all_iff split: item.split)
  have "map reset ?b = map reset body" by (auto simp: line_items_def split: item.split)
  then have rs: "map reset ?b = body" using Cons.prems(5) by simp
  have qg: "list_all (settled A) ?g" 
  proof -
    have "list_all (settled A) (copy_of it)" for it by (induction it rule: copy_of.induct) simp_all
    then show ?thesis by (auto simp: row_of_def list_all_iff)
  qed
  note tx = line_row_text [OF Cons.prems(4,5), of r]
  have "apply_edits (line_edits nm r) (front @ Begin_Table nm # body @ End_Table nm # post)
      = Some ((front @ ?g) @ Begin_Table nm # body @ End_Table nm # post)"
    using fold_sets_table [of A front post r body nm] Cons.prems
      table_parts_at [OF quiet_not_table [OF Cons.prems(1)] Cons.prems(6) fl quiet_not_table [OF Cons.prems(2)]] rs
    by (simp add: line_edits_def apply_edits_append apply_sets)
  moreover have "list_all (settled A) (front @ ?g)" using Cons.prems(1) qg by simp
  from Cons.IH [OF this Cons.prems(2) _ Cons.prems(4,5)] Cons.prems(3,6) obtain gen where
    "apply_edits (concat (map (line_edits nm) rows)) ((front @ ?g) @ Begin_Table nm # body @ End_Table nm # post)
      = Some (((front @ ?g) @ gen) @ Begin_Table nm # body @ End_Table nm # post)"
    "list_all (settled A) gen" "concat (map item_text gen) = concat (map (line_text body) rows)" by auto
  ultimately show ?case using qg tx
    by (intro exI [of _ "?g @ gen"]) (simp add: apply_edits_append)
qed

lemma lines_page:
  assumes "list_all (settled A) front" "list_all (settled A) post" "\<forall>r \<in> set rows. \<forall>x \<in> set r. fst x \<in> A"
    "list_all flat body" "map reset body = body" "front \<noteq> []"
  shows "\<exists>its. apply_edits (concat (map (line_edits nm) rows)) (front @ Begin_Table nm # body @ End_Table nm # post) = Some its
    \<and> pieces None True its = concat (map item_text front) @ concat (map (line_text body) rows) @ concat (map item_text post)"
proof -
  obtain gen where gen: "apply_edits (concat (map (line_edits nm) rows)) (front @ Begin_Table nm # body @ End_Table nm # post)
      = Some ((front @ gen) @ Begin_Table nm # body @ End_Table nm # post)"
    "list_all (settled A) gen" "concat (map item_text gen) = concat (map (line_text body) rows)"
    using apply_lines [OF assms, of nm] by blast
  have "after_table nm (body @ End_Table nm # post) = post" if "list_all flat body" for body
    using that by (induction body) (auto simp: after_table_def)
  then have "pieces None True (Begin_Table nm # body @ End_Table nm # post) = pieces None True post"
    using assms(4) by (simp add: pieces_Cons)
  moreover have "pieces None True post = concat (map item_text post)"
    using pieces_quiet [OF assms(2), of "[]"] by simp
  moreover have "list_all (settled A) (front @ gen)" using assms(1) gen(2) by simp
  ultimately have "pieces None True ((front @ gen) @ Begin_Table nm # body @ End_Table nm # post)
      = concat (map item_text front) @ concat (map (line_text body) rows) @ concat (map item_text post)"
    by (subst pieces_quiet) (simp_all add: gen(3))
  with gen(1) show ?thesis by blast
qed

section \<open>Included files\<close>

text \<open>A text that has no mark is passed over.\<close>

lemma template_loop_skip:
  assumes "text_ahead p (acc @ pre @ s)" "at_pos p = start_pos p + length acc" "\<forall>c \<in> set pre. c \<noteq> CHR ''#'' \<and> c \<noteq> CHR ''<''"
  shows "template_loop fs root p = template_loop fs root (p\<lparr>at_pos := at_pos p + length pre\<rparr>)"
  using assms
proof (induction pre arbitrary: p acc)
  case (Cons c pre)
  have ne: "acc @ (c # pre) @ s \<noteq> []" by simp
  note e = text_ahead_end [OF Cons.prems(1) ne]
  have d: "drop (at_pos p) (tempBuf p) = c # (pre @ s) @ [NUL]"
    using drop_ahead [OF e(1), of "length acc"] Cons.prems(2) by simp
  have lt: "at_pos p < bufsize p" using e(2) Cons.prems(2) by simp
  then have "rd (tempBuf p) (at_pos p) = Some c" using e(3) d by (auto simp: rd_def nth_via_drop)
  then have "template_step fs root p = Some (p\<lparr>at_pos := at_pos p + 1\<rparr>)"
    using Cons.prems(3) by (simp add: template_step_def looks_at.simps(2))
  then have "template_loop fs root p = template_loop fs root (p\<lparr>at_pos := at_pos p + 1\<rparr>)"
    using lt by (subst template_loop.simps) simp
  also have "\<dots> = template_loop fs root (p\<lparr>at_pos := at_pos p + 1, at_pos := at_pos p + 1 + length pre\<rparr>)"
    using Cons.IH [of "p\<lparr>at_pos := at_pos p + 1\<rparr>" "acc @ [c]"] Cons.prems by (simp add: text_ahead_def)
  finally show ?case by simp
next
  case Nil
  then show ?case by (cases p) simp
qed

text \<open>A file that is shorter than the comment that includes it makes the buffer smaller before the rest of
  the text is moved.\<close>

lemma splice_short:
  assumes "length filebuf < k - start_pos p" "k < bufsize p" "start_pos p \<le> k"
  shows "splice_file filebuf k p = None"
proof -
  let ?sz = "bufsize p + length filebuf - (k - start_pos p)"
  let ?b = "take ?sz (tempBuf p) @ replicate (?sz - length (tempBuf p)) NUL"
  have "length ?b = ?sz" by simp
  moreover have "?sz < k + (bufsize p - k)" "bufsize p - k \<noteq> 0" using assms by linarith+
  ultimately have m: "memmove ?b (start_pos p + length filebuf) k (bufsize p - k) = None"
    unfolding memmove_def by presburger
  have "k \<le> bufsize p" using assms(2) by simp
  then show ?thesis
    unfolding splice_file_def Let_def by (simp only: if_True m Option.bind.simps split: if_split) simp
qed

lemma short_include:
  assumes "filename = [] \<or> hd filename \<noteq> CHR ''-''" "fs (rooted docroot filename) = Some (File (Some (pre @ ''<!--'' @ s)))"
    "\<forall>c \<in> set pre. c \<noteq> CHR ''#'' \<and> c \<noteq> CHR ''<''" "mark_kind (cstr (comment_word s)) = Some FLATE_INCLUDEFILE"
    "comment_end_part s = CHR ''>'' # rest" "rest \<noteq> []"
    "fs (rooted docroot (cstr (comment_name s))) = Some (File (Some inc))" "length inc + length rest < length s + 4"
  shows "flateSetFile fs docroot filename = None"
proof -
  let ?content = "pre @ ''<!--'' @ s" and ?root = "Some docroot"
  let ?p = "(new_parsing ?content)\<lparr>at_pos := length pre\<rparr>"
  have "template_loop fs ?root (new_parsing ?content) = template_loop fs ?root ?p"
    using template_loop_skip [of "new_parsing ?content" "[]" pre "''<!--'' @ s" fs ?root]
      built_new_parsing(2) [of ?content] assms(3) by (simp add: new_parsing_def)
  moreover have "template_loop fs ?root ?p = None"
  proof -
    have b: "built ?p []" "text_ahead ?p (pre @ ''<!--'' @ s)" "at_pos ?p = start_pos ?p + length pre"
      using built_new_parsing [of ?content] by (simp_all add: built_def text_ahead_def new_parsing_def)
    obtain p1 where p1: "text_ahead p1 (''<!--'' @ s)" "start_pos p1 = at_pos ?p"
      and c: "comment fs ?root ?p = (let k = at_pos ?p + 4 + (length s - length (comment_end_part s));
          ty = mark_kind (cstr (comment_word s)) in do {
         filebuf \<leftarrow> (if ty = Some FLATE_INCLUDEFILE
                    then do { rootdir \<leftarrow> ?root; includefile fs (rooted rootdir (cstr (comment_name s))) } else Some None);
         (case filebuf of
            Some content \<Rightarrow> splice_file content (k + 1) p1
          | None \<Rightarrow> do {
              p \<leftarrow> (case ty of Some ty \<Rightarrow> named_unit ty (comment_name s) p1 | None \<Rightarrow> html_unit (k + 1 - at_pos ?p) p1);
              Some (p\<lparr>at_pos := k + 1, start_pos := k + 1\<rparr>)
            })
       })"
      by (rule comment_at [OF b])
    let ?k = "at_pos ?p + 4 + (length s - length (comment_end_part s)) + 1"
    have len: "Suc (length rest) \<le> length s" using comment_end_length [of s] by (simp add: assms(5))
    have sz: "bufsize p1 = at_pos ?p + 4 + length s" using text_ahead_end(2) [OF p1(1)] p1(2) by simp
    have "splice_file inc ?k p1 = None"
    proof (rule splice_short)
      have k: "?k = at_pos ?p + 4 + (length s - Suc (length rest)) + 1" by (simp add: assms(5))
      have "0 < length rest" using assms(6) by simp
      then show "length inc < ?k - start_pos p1" "?k < bufsize p1" "start_pos p1 \<le> ?k"
        unfolding k p1(2) sz using assms(8) len by linarith+
    qed
    moreover have "includefile fs (rooted docroot (cstr (comment_name s))) \<in> {None, Some (Some inc)}"
      by (simp add: includefile_def read_template_def assms(7))
    ultimately have none: "comment fs ?root ?p = None" unfolding c assms(4) Let_def by auto
    have d: "drop (at_pos ?p) (tempBuf ?p) = (''<!--'' @ s) @ [NUL]" by (simp add: new_parsing_def)
    have "looks_at (tempBuf ?p) (at_pos ?p) ''<!--'' = Some True" using looks_at_ahead [OF d, of "''<!--''"] by simp
    moreover have "rd (tempBuf ?p) (at_pos ?p) = Some CHR ''<''" by (simp add: new_parsing_def rd_def nth_append)
    ultimately have "template_step fs ?root ?p = None" using none by (simp add: template_step_def Let_def)
    then show ?thesis by (subst template_loop.simps) (simp add: new_parsing_def)
  qed
  moreover have "(case filename of CHR ''-'' # rest \<Rightarrow> (None, rest) | _ \<Rightarrow> (Some docroot, rooted docroot filename))
      = (Some docroot, rooted docroot filename)"
    using assms(1) by (auto split: list.split char.split bool.split)
  ultimately show ?thesis by (simp add: flateSetFile_def read_template_def assms(2) Let_def)
qed

section \<open>Properties\<close>

text \<open>C21: Reading a template, any sequence of variables and table lines, printing and freeing it go
  through without undefined behaviour, follow no pointer to a unit that was freed, and give the text
  of the items that the file stands for after the same edits, as long as no file is included and every
  table that is used has one place and no marks inside.\<close>

theorem template_rendered:
  assumes "filename = [] \<or> hd filename \<noteq> CHR ''-''" "fs (rooted docroot filename) = Some (File (Some content))"
    "length content < 2 ^ 31 - 1" "missing_files fs (Some docroot) (items_of [] content)"
    "list_all edit_ok es" "apply_edits es (items_of [] content) = Some its" "length (pieces None True its) + 1 < 2 ^ 31"
  shows "runs (\<lambda>page. page_text page = pieces None True its) (render fs docroot filename es)"
  by (rule render_runs [OF assms])

text \<open>C22: A table shows one line for each time it is dumped, in that order, behind what is in front
  of the table: the body with each variable replaced by the last value it was given for the line, and
  by nothing when it got none; nothing is left of the body itself.\<close>

theorem table_shows_lines:
  assumes "filename = [] \<or> hd filename \<noteq> CHR ''-''" "fs (rooted docroot filename) = Some (File (Some content))"
    "length content < 2 ^ 31 - 1" "missing_files fs (Some docroot) (items_of [] content)"
    "items_of [] content = front @ Begin_Table nm # body @ End_Table nm # post" "nul_free nm" "front \<noteq> []"
    "list_all (settled A) front" "list_all (settled A) post" "list_all flat body" "map reset body = body"
    "\<forall>r \<in> set rows. \<forall>(fld, v) \<in> set r. fld \<in> A \<and> nul_free fld \<and> length (cstr v) < 2 ^ 31"
    "length (concat (map item_text front) @ concat (map (line_text body) rows) @ concat (map item_text post)) + 1 < 2 ^ 31"
  shows "runs (\<lambda>page. page_text page
      = concat (map item_text front) @ concat (map (line_text body) rows) @ concat (map item_text post))
    (render fs docroot filename (concat (map (line_edits nm) rows)))"
proof -
  have "\<forall>r \<in> set rows. \<forall>x \<in> set r. fst x \<in> A" using assms(12) by fastforce
  from lines_page [OF assms(8,9) this assms(10,11,7), of nm] obtain its
    where its: "apply_edits (concat (map (line_edits nm) rows)) (items_of [] content) = Some its"
      "pieces None True its = concat (map item_text front) @ concat (map (line_text body) rows) @ concat (map item_text post)"
    by (auto simp: assms(5))
  have "list_all edit_ok (concat (map (line_edits nm) rows))"
    using assms(6,12) by (fastforce simp: list_all_iff line_edits_def)
  from render_runs [OF assms(1-4) this its(1)] assms(13) show ?thesis by (simp add: its(2))
qed

text \<open>C40: A file that is shorter than the comment that includes it overruns the buffer: it is made
  smaller before the text behind the comment, which is still at its old place, is moved.\<close>

theorem short_include_overruns:
  assumes "filename = [] \<or> hd filename \<noteq> CHR ''-''" "fs (rooted docroot filename) = Some (File (Some (pre @ ''<!--'' @ s)))"
    "\<forall>c \<in> set pre. c \<noteq> CHR ''#'' \<and> c \<noteq> CHR ''<''" "mark_kind (cstr (comment_word s)) = Some FLATE_INCLUDEFILE"
    "comment_end_part s = CHR ''>'' # rest" "rest \<noteq> []"
    "fs (rooted docroot (cstr (comment_name s))) = Some (File (Some inc))" "length inc + length rest < length s + 4"
  shows "flateSetFile fs docroot filename = None"
  by (rule short_include [OF assms])

text \<open>A file with a table of one variable.\<close>

definition table_file :: "bytes \<Rightarrow> entry option" where
  "table_file path =
     (if path = ''/t'' then Some (File (Some ''a<!-- #BEGINTABLE t --><b>##v##<!-- #ENDTABLE t -->##w##c''))
      else if path = ''/i'' then Some (File (Some ''a<!-- #INCLUDEFILE s -->e''))
      else if path = ''s'' then Some (File (Some ''x'')) else None)"

lemma table_file_items:
  "items_of [] ''a<!-- #BEGINTABLE t --><b>##v##<!-- #ENDTABLE t -->##w##c''
    = [Text ''a''] @ Begin_Table ''t'' # [Text ''<b>'', Var ''v'' None, Text ''''] @ End_Table ''t''
        # [Text '''', Var ''w'' None, Text ''c'']"
  by code_simp

theorem template_rendered_witness:
  "runs (\<lambda>page. page_text page = ''a<b>1zc'')
    (render table_file None ''/t'' [Set_Var ''v'' ''1'', Dump_Line ''t'', Set_Var ''w'' ''z''])"
proof -
  let ?es = "[Set_Var ''v'' ''1'', Dump_Line ''t'', Set_Var ''w'' ''z'']" and
    ?c = "''a<!-- #BEGINTABLE t --><b>##v##<!-- #ENDTABLE t -->##w##c''"
  obtain its where its: "apply_edits ?es (items_of [] ?c) = Some its" "pieces None True its = ''a<b>1zc''"
    by (simp add: table_file_items table_parts_def row_of_def cstr_def pieces_Cons after_table_def)
  have "table_file (rooted None ''/t'') = Some (File (Some ?c))" "missing_files table_file (Some None) (items_of [] ?c)"
    by (simp_all add: table_file_def rooted_def missing_files_def table_file_items)
  from template_rendered [OF _ this(1) _ this(2) _ its(1)] its(2) show ?thesis by (simp add: cstr_def)
qed

theorem table_shows_lines_witness:
  "runs (\<lambda>page. page_text page = ''a<b>1<b>2c'')
    (render table_file None ''/t'' (concat (map (line_edits ''t'') [[(''v'', ''1'')], [(''v'', ''0''), (''v'', ''2'')]])))"
proof -
  let ?c = "''a<!-- #BEGINTABLE t --><b>##v##<!-- #ENDTABLE t -->##w##c''" and
    ?rows = "[[(''v'', ''1'')], [(''v'', ''0''), (''v'', ''2'')]]"
  have "table_file (rooted None ''/t'') = Some (File (Some ?c))" "missing_files table_file (Some None) (items_of [] ?c)"
    by (simp_all add: table_file_def rooted_def missing_files_def table_file_items)
  from table_shows_lines [OF _ this(1) _ this(2) table_file_items, where A = "{''v''}" and rows = ?rows]
  show ?thesis by (simp add: cstr_def line_text_def value_of_def page_text_def)
qed

theorem short_include_overruns_witness: "flateSetFile table_file None ''/i'' = None"
proof -
  let ?s = "'' #INCLUDEFILE s -->e''"
  have "mark_kind (cstr (comment_word ?s)) = Some FLATE_INCLUDEFILE" "comment_end_part ?s = ''>e''" "cstr (comment_name ?s) = ''s''"
    by code_simp+
  moreover have "table_file (rooted None ''/i'') = Some (File (Some (''a'' @ ''<!--'' @ ?s)))"
    "table_file (rooted None ''s'') = Some (File (Some ''x''))" by (simp_all add: table_file_def rooted_def)
  ultimately show ?thesis
    using short_include_overruns [of "''/i''" table_file None "''a''" ?s "''e''" "''x''"] by simp
qed

end
