(* ===== verification/Page_Spec.thy ===== *)
theory Page_Spec
  imports Page_Routes Flate_Contract Routes_Spec
begin

text \<open>
  What the pages of the site show: the calls to the template engine that a route makes are the edits
  that the rows of its query stand for, and the response is the header lines, a blank line on the index
  only, and the page of the edited template.
\<close>

section \<open>The header lines and the cookie\<close>

definition header_text :: "(bytes \<times> bytes) list \<Rightarrow> bytes" where
  "header_text hs = concat (map (\<lambda>(k, v). k @ '': '' @ v @ CRLF) hs)"

definition page_head :: bytes where "page_head = okcode @ header_text page_headers"

lemma add_headers_runs:
  assumes "sees t p" "length t + length (header_text hs) < sds_limit" "\<forall>(k, v) \<in> set hs. cstr k = k \<and> cstr v = v"
  shows "runs (sees (t @ header_text hs)) (add_headers mem hs p)"
  using assms
proof (induction hs arbitrary: t p)
  case (Cons h hs)
  obtain k v where h: "h = (k, v)" by force
  have c: "cstr k = k" "cstr v = v" using Cons.prems(3) by (simp_all add: h)
  have len: "length CRLF = 2" by (simp add: CRLF_def)
  have "length t + length (cstr k) + length (cstr v) + 4 < sds_limit"
    using Cons.prems(2) by (simp add: h c header_text_def len)
  from runs_addheader [OF Cons.prems(1) this] obtain q
    where q: "addheader mem p k v = Some q" "sees (t @ k @ '': '' @ v @ CRLF) q" by (auto simp: runs_def c)
  from Cons.IH [OF q(2)] Cons.prems(2,3) q(1) show ?case by (simp add: h header_text_def)
qed (simp add: header_text_def)

lemma page_head_literal: "length page_head < 1000" "cstr okcode = okcode" "\<forall>(k, v) \<in> set page_headers. cstr k = k \<and> cstr v = v"
  by (simp_all add: page_head_def header_text_def page_headers_def okcode_def CRLF_def cstr_def)

lemma start_response_runs: "runs (sees page_head) (start_response mem)"
proof -
  have len: "length okcode + length (header_text page_headers) < 1000" using page_head_literal(1) by (simp add: page_head_def)
  then obtain p where p: "setresponsecode mem okcode = Some p" "sees okcode p"
    using runs_sdsnew [of okcode] page_head_literal(2) by (auto simp: runs_def setresponsecode_def sds_limit_def)
  from add_headers_runs [OF p(2) _ page_head_literal(3)] len p(1) show ?thesis
    by (simp add: start_response_def page_head_def sds_limit_def)
qed

lemma blank_line_runs: "sees t p \<Longrightarrow> length t + 2 < sds_limit \<Longrightarrow> runs (sees (t @ CRLF)) (addheadersdone mem p)"
proof -
  assume "sees t p" "length t + 2 < sds_limit"
  moreover have "cstr CRLF = CRLF" "length CRLF = 2" by (simp_all add: CRLF_def cstr_def)
  ultimately show ?thesis using runs_sdscat [of _ t CRLF] by (auto simp: addheadersdone_def sees_def)
qed

text \<open>Requests whose headers hold no NUL, and whether they ask for Hungarian.\<close>

definition headers_clean :: "http_request \<Rightarrow> (bytes \<times> bytes) list \<Rightarrow> bool" where
  "headers_clean r hs \<longleftrightarrow> pairs_rep (req_headers r) (headercount r) hs
     \<and> (\<forall>h \<in> set hs. NUL \<notin> set (fst h) \<and> NUL \<notin> set (snd h) \<and> length (snd h) < sds_limit)"

definition wants_hun :: "(bytes \<times> bytes) list \<Rightarrow> bool" where
  "wants_hun hs \<longleftrightarrow> cookie_of ''lang'' hs = ''HUN''"

lemma hungarian_runs:
  assumes "headers_clean r hs"
  shows "hungarian mem r = Some (wants_hun hs)"
proof -
  have lit: "cstr ''lang'' = ''lang''" "cstr ''HUN'' = ''HUN''" "length ''lang'' < sds_limit" "length ''HUN'' < sds_limit"
    by (simp_all add: cstr_def sds_limit_def)
  obtain p where p: "sdsnew mem (Some ''lang'') = Some (Some p)" "sds_rep p ''lang''"
    using runs_sdsnew [of "''lang''"] lit by (auto simp: runs_def sees_def)
  obtain h where h: "sdsnew mem (Some ''HUN'') = Some (Some h)" "sds_rep h ''HUN''"
    using runs_sdsnew [of "''HUN''"] lit by (auto simp: runs_def sees_def)
  obtain c where c: "get_cookie_by_name mem r p = Some (Some c)" "sds_rep c (cookie_of ''lang'' hs)"
    using get_cookie_runs [of r hs p "''lang''"] p(2) assms by (auto simp: headers_clean_def runs_def sees_def)
  obtain d where d: "sdscmp c h = Some d" "d = 0 \<longleftrightarrow> cookie_of ''lang'' hs = ''HUN''"
    using runs_sdscmp [OF c(2) h(2)] by (auto simp: runs_def)
  show ?thesis by (simp add: hungarian_def p(1) h(1) c(1) d wants_hun_def)
qed

section \<open>The lines of the posts\<close>

text \<open>The post in a row is its title and when it was created.\<close>

definition post_line :: "line_names \<Rightarrow> bytes \<times> bytes \<Rightarrow> line" where
  "post_line L p = [(link_var L, ''/onepost?tittle='' @ fst p), (title_var L, fst p), (''createdat'', snd p)]"

definition post_edits :: "line_names \<Rightarrow> (bytes \<times> bytes) list \<Rightarrow> edit list" where
  "post_edits L posts = concat (map (line_edits (table_nm L)) (map (post_line L) posts))"

definition row_post :: "row \<Rightarrow> bytes \<times> bytes" where
  "row_post r = (snd (cell_text (r ! 0)), snd (cell_text (r ! 3)))"

lemma set_value_eq: "sees t p \<Longrightarrow> set_value fld p f = flateSetVar fld (Some t) f"
proof -
  have "flateSetVar fld (Some (cstr t)) f = flateSetVar fld (Some t) f" by (simp add: flateSetVar_def strdup_def)
  then show "sees t p \<Longrightarrow> set_value fld p f = flateSetVar fld (Some t) f" by (auto simp: set_value_def sees_def)
qed

text \<open>Rows of four columns, at most 25 of them, whose texts are not too long.\<close>

definition posts_fit :: "row list \<Rightarrow> bool" where
  "posts_fit rows \<longleftrightarrow> length rows \<le> 25
     \<and> (\<forall>r \<in> set rows. length r = 4 \<and> row_fits r \<and> (\<forall>c \<in> set r. length (snd (cell_text c)) < 2 ^ 30))"

lemma concat_nth4:
  "\<forall>r \<in> set rows. length r = 4 \<Longrightarrow> k < length rows \<Longrightarrow> j < 4 \<Longrightarrow> concat rows ! (4 * k + j) = rows ! k ! j"
proof (induction rows arbitrary: k)
  case (Cons r rows)
  then show ?case by (cases k) (simp_all add: nth_append)
qed simp

lemma concat_length4: "\<forall>r \<in> set rows. length r = 4 \<Longrightarrow> length (concat rows) = 4 * length rows"
  by (induction rows) simp_all

lemma post_value:
  assumes "rows_rep w (map cell_text (concat rows))" "posts_fit rows" "k < length rows" "j < 4"
  shows "\<exists>kv. sqldata w (4 * k + j) = Some kv \<and> kv_key kv \<noteq> None \<and> sees (snd (cell_text (rows ! k ! j))) (kv_value kv)"
proof -
  have four: "\<forall>r \<in> set rows. length r = 4" and n: "length rows \<le> 25" using assms(2) by (auto simp: posts_fit_def)
  have lt: "4 * k + j < length (concat rows)" "4 * k + j < MAXPOSTSSHOWN"
    using concat_length4 [OF four] assms(3,4) n by (simp_all add: MAXPOSTSSHOWN_def)
  from sqldata_rep(1) [OF assms(1) lt(2)] lt(1) concat_nth4 [OF four assms(3,4)] show ?thesis
    by (auto simp: runs_def kv_rep_def sees_def)
qed

lemma no_post:
  assumes "rows_rep w (map cell_text (concat rows))" "posts_fit rows" "length rows \<le> k" "4 * k + j < MAXPOSTSSHOWN"
  shows "sqldata w (4 * k + j) = Some no_pair"
proof -
  have "\<forall>r \<in> set rows. length r = 4" using assms(2) by (auto simp: posts_fit_def)
  from sqldata_rep(2) [OF assms(1,4)] concat_length4 [OF this] assms(3) show ?thesis by simp
qed

lemma list_posts_step:
  assumes "rows_rep w (map cell_text (concat rows))" "posts_fit rows" "k < length rows"
  shows "list_posts mem L (4 * k # is) w f
    = run_edits (line_edits (table_nm L) (post_line L (row_post (rows ! k)))) f \<bind> list_posts mem L is w"
proof -
  obtain kv where kv: "sqldata w (4 * k) = Some kv" "kv_key kv \<noteq> None" "sees (snd (cell_text (rows ! k ! 0))) (kv_value kv)"
    using post_value [OF assms, of 0] by auto
  obtain kv3 where kv3: "sqldata w (4 * k + 3) = Some kv3" "sees (snd (cell_text (rows ! k ! 3))) (kv_value kv3)"
    using post_value [OF assms, of 3] by auto
  let ?t = "snd (cell_text (rows ! k ! 0))"
  obtain key v where v: "kv_key kv = Some key" "kv_value kv = Some v" "sds_rep v ?t" using kv(2,3) by (auto simp: sees_def)
  have lit: "cstr ''/onepost?tittle='' = ''/onepost?tittle=''" "length ''/onepost?tittle='' < sds_limit"
    by (simp_all add: cstr_def sds_limit_def)
  obtain s where s: "sdsnew mem (Some ''/onepost?tittle='') = Some (Some s)" "sds_rep s ''/onepost?tittle=''"
    using runs_sdsnew [of "''/onepost?tittle=''"] lit by (auto simp: runs_def sees_def)
  have "rows ! k \<in> set rows" "rows ! k ! 0 \<in> set (rows ! k)" using assms(2,3) by (auto simp: posts_fit_def)
  then have "length ?t < 2 ^ 30" using assms(2) unfolding posts_fit_def by blast
  then obtain url where url: "sdscatsds mem s v = Some url" "sees (''/onepost?tittle='' @ ?t) url"
    using runs_sdscatsds [OF s(2) v(3)] by (auto simp: runs_def sds_limit_def)
  have sv: "sees ?t (Some v)" using v(3) by simp
  show ?thesis
    by (simp add: kv(1) v(1,2) s(1) url(1) kv3(1) set_value_eq [OF url(2)] set_value_eq [OF sv] set_value_eq [OF kv3(2)]
      line_edits_def post_line_def row_post_def Option.bind_assoc)
qed

lemma run_edits_append: "run_edits (es @ es') f = run_edits es f \<bind> run_edits es'"
  by (induction es arbitrary: f) (simp, auto split: Option.bind_splits)

lemma run_edits_fun: "run_edits [] = Some" "run_edits (es @ es') = (\<lambda>f. run_edits es f \<bind> run_edits es')"
  by (simp_all add: fun_eq_iff run_edits_append)

lemma list_posts_eq:
  assumes "rows_rep w (map cell_text (concat rows))" "posts_fit rows"
  shows "list_posts mem L row_starts w f = run_edits (post_edits L (map row_post rows)) f"
proof -
  have tail: "list_posts mem L (map (\<lambda>k. 4 * k) ks) w f = Some f" if "\<forall>k \<in> set ks. length rows \<le> k \<and> k < 25" for ks f
    using that
  proof (induction ks)
    case (Cons k ks)
    then have "sqldata w (4 * k) = Some no_pair"
      using no_post [OF assms, of k 0] by (simp add: MAXPOSTSSHOWN_def)
    with Cons show ?case by (simp add: no_pair_def)
  qed simp
  have "list_posts mem L (map (\<lambda>k. 4 * k) ([k..<length rows] @ ks)) w f
      = run_edits (post_edits L (map row_post (drop k rows))) f"
    if "k \<le> length rows" "\<forall>k \<in> set ks. length rows \<le> k \<and> k < 25" for k ks f
    using that(1)
  proof (induction "length rows - k" arbitrary: k f)
    case 0
    with tail [OF that(2)] show ?case by (simp add: post_edits_def)
  next
    case (Suc n)
    then have k: "k < length rows" "n = length rows - Suc k" "Suc k \<le> length rows" by simp_all
    have "drop k rows = rows ! k # drop (Suc k) rows" using k(1) by (simp add: Cons_nth_drop_Suc)
    then have "post_edits L (map row_post (drop k rows))
        = line_edits (table_nm L) (post_line L (row_post (rows ! k))) @ post_edits L (map row_post (drop (Suc k) rows))"
      by (simp add: post_edits_def)
    moreover have "list_posts mem L (map (\<lambda>k. 4 * k) ([Suc k..<length rows] @ ks)) w
        = run_edits (post_edits L (map row_post (drop (Suc k) rows)))"
      using Suc.hyps(1) [OF k(2,3)] by (simp add: fun_eq_iff)
    ultimately show ?case
      using list_posts_step [OF assms k(1)] k(1) by (simp add: upt_conv_Cons run_edits_append del: list_posts.simps(2))
  qed
  from this [of 0 "[length rows..<25]" f]
  have "list_posts mem L (map (\<lambda>k. 4 * k) ([0..<length rows] @ [length rows..<25])) w f
      = run_edits (post_edits L (map row_post rows)) f" by simp
  moreover have "[0..<25] = [0..<length rows] @ [length rows..<25]"
    using upt_add_eq_append [of 0 "length rows" "25 - length rows"] assms(2) by (simp add: posts_fit_def)
  ultimately show ?thesis by (simp add: row_starts_def MAXPOSTSSHOWN_def)
qed

lemma post_edits_ok:
  assumes "posts_fit rows" "nul_free (link_var L)" "nul_free (title_var L)" "nul_free (table_nm L)"
  shows "list_all edit_ok (post_edits L (map row_post rows))"
proof -
  have small: "length (cstr t) < 2 ^ 31" if "length t < 2 ^ 30 + 100" for t
  proof -
    have "length (cstr t) \<le> length t" by (simp add: cstr_def length_takeWhile_le)
    moreover have "length t < 2 ^ 31" using that by simp
    ultimately show ?thesis by (rule le_less_trans)
  qed
  have "list_all edit_ok (line_edits (table_nm L) (post_line L (row_post r)))" if "r \<in> set rows" for r
  proof -
    have "length r = 4" "\<forall>c \<in> set r. length (snd (cell_text c)) < 2 ^ 30" using assms(1) that by (auto simp: posts_fit_def)
    then have "length (fst (row_post r)) < 2 ^ 30" "length (snd (row_post r)) < 2 ^ 30" by (auto simp: row_post_def)
    then show ?thesis using assms(2-4)
      by (auto simp: line_edits_def post_line_def intro!: small simp del: power_numeral)
  qed
  then show ?thesis by (auto simp: post_edits_def list_all_iff)
qed

section \<open>Templates and pages\<close>

text \<open>A file that is a template: it can be read, and it includes nothing that can be opened.\<close>

definition is_template :: "(bytes \<Rightarrow> entry option) \<Rightarrow> bytes option \<Rightarrow> bytes \<Rightarrow> bytes \<Rightarrow> bool" where
  "is_template fs docroot path content \<longleftrightarrow> fs (rooted docroot path) = Some (File (Some content))
     \<and> length content < 2 ^ 31 - 1 \<and> missing_files fs (Some docroot) (items_of [] content)"

lemma open_template_runs:
  assumes "is_template fs docroot (ROOTPATH @ path) content"
  shows "runs (\<lambda>f. template f (items_of [] content)) (open_template fs docroot (ROOTPATH @ path))"
  using flateSetFile_runs [of "ROOTPATH @ path" fs docroot content] assms
  by (auto simp: is_template_def open_template_def ROOTPATH_def runs_def)

lemma finish_page_runs:
  assumes "template f its" "length (pieces None True its) + 1 < 2 ^ 31" "sees t p" "length t < 2000"
  shows "runs (sees (t @ cstr (pieces None True its))) (finish_page mem p f)"
proof -
  obtain buf f' where page: "flatePage f = Some (buf, f')" "page_text buf = pieces None True its" "flateFreeMem (Some f') = Some ()"
    using template_page [OF assms(1,2)] by (auto simp: runs_def)
  let ?u = "cstr (pieces None True its)"
  have "length ?u \<le> length (pieces None True its)" by (simp add: cstr_def length_takeWhile_le)
  with assms(2) have len: "length ?u < 2 ^ 31" by linarith
  have "runs (sees ?u) (sdsnew mem buf)"
  proof (cases buf)
    case None
    with page(2) sdsnew_NULL show ?thesis by (simp add: page_text_def cstr_def)
  next
    case (Some b)
    with page(2) len runs_sdsnew [of b] show ?thesis by (simp add: page_text_def sds_limit_def)
  qed
  then obtain d where d: "sdsnew mem buf = Some (Some d)" "sds_rep d ?u" by (auto simp: runs_def sees_def)
  obtain s where s: "p = Some s" "sds_rep s t" using assms(3) by (auto simp: sees_def)
  have "length t + length ?u < sds_limit" using len assms(4) by (simp add: sds_limit_def)
  from runs_sdscatsds [OF s(2) d(2) this] show ?thesis by (simp add: finish_page_def page(1,3) d(1) s(1))
qed

section \<open>The index\<close>

definition top5_statement :: "bool \<Rightarrow> bytes \<Rightarrow> bytes" where
  "top5_statement hun cat =
     (if hun then ''SELECT title_HUN,category,content_HUN,created_at from posts WHERE category='' @ sql_text (Some cat)
        @ '' ORDER BY date(created_at) DESC LIMIT 5;''
      else ''SELECT title_EN,category,content_EN,created_at FROM posts WHERE category='' @ sql_text (Some cat)
        @ '' ORDER BY date(created_at) DESC LIMIT 5;'')"

lemma top5_eq:
  "(if hun then select_top5_by_category_hu al exec (Some cat) w else select_top5_by_category_en al exec (Some cat) w)
    = sql_select al exec (top5_statement hun cat) w"
  by (simp add: top5_statement_def select_top5_by_category_hu_def select_top5_by_category_en_def)

lemma select_posts:
  assumes "exec sql (db w) = (d, rows)" "posts_fit rows"
  shows "runs (\<lambda>w'. rows_rep w' (map cell_text (concat rows)) \<and> db w' = d) (sql_select mem exec sql (init_callback_sql w))"
proof -
  have "\<forall>r \<in> set rows. row_fits r" "\<forall>r \<in> set rows. length r = 4" "length rows \<le> 25" using assms(2) by (auto simp: posts_fit_def)
  with concat_length4 [of rows] show ?thesis by (intro select_rep [where exec = exec and w = w, OF assms(1)]) (simp_all add: MAXPOSTSSHOWN_def)
qed

lemma free_posts: "rows_rep w ps \<Longrightarrow> runs (\<lambda>w'. db w' = db w) (free_callback_sql w)"
  by (rule free_rows) (simp add: rows_rep_def)

lemma index_list_runs:
  assumes "sqlite O1 (top5_statement hun cat) (db w) = (d, rows)" "posts_fit rows" "template f its"
    "nul_free (link_var L)" "nul_free (title_var L)" "nul_free (table_nm L)"
    "apply_edits (post_edits L (map row_post rows)) its = Some its'"
  shows "runs (\<lambda>(w', f'). db w' = d \<and> template f' its') (index_list mem O1 hun cat L (init_callback_sql w) f)"
proof -
  obtain w1 where w1: "sql_select mem (sqlite O1) (top5_statement hun cat) (init_callback_sql w) = Some w1"
      "rows_rep w1 (map cell_text (concat rows))" "db w1 = d"
    using select_posts [where exec = "sqlite O1" and w = w, OF assms(1,2)] by (auto simp: runs_def)
  obtain f' where f': "run_edits (post_edits L (map row_post rows)) f = Some f'" "template f' its'"
    using run_edits_runs [OF assms(3) post_edits_ok [OF assms(2,4-6)] assms(7)] by (auto simp: runs_def)
  obtain w2 where "free_callback_sql w1 = Some w2" "db w2 = d" using free_posts [OF w1(2)] w1(3) by (auto simp: runs_def)
  then show ?thesis
    using f' w1(1) by (simp add: index_list_def top5_eq list_posts_eq [OF w1(2) assms(2)] runs_def)
qed

lemma lines_clean:
  assumes "L \<in> {ctf_lines, security_lines, linux_lines, category_lines}"
  shows "nul_free (link_var L)" "nul_free (title_var L)" "nul_free (table_nm L)"
  using assms by (auto simp: ctf_lines_def security_lines_def linux_lines_def category_lines_def)

text \<open>What the index does to the items of its template.\<close>

definition index_edits :: "row list \<Rightarrow> row list \<Rightarrow> row list \<Rightarrow> edit list" where
  "index_edits ctf security linux = post_edits ctf_lines (map row_post ctf)
     @ post_edits security_lines (map row_post security) @ post_edits linux_lines (map row_post linux)"

lemma rootroute_runs:
  assumes "hungarian mem r = Some hun" "is_template fs docroot (ROOTPATH @ index_file hun) content"
    "sqlite O1 (top5_statement hun ''CTF'') (db w) = (d1, ctf)"
    "sqlite O1 (top5_statement hun ''Security'') d1 = (d2, security)"
    "sqlite O1 (top5_statement hun ''Linux'') d2 = (d3, linux)"
    "posts_fit ctf" "posts_fit security" "posts_fit linux"
    "apply_edits (index_edits ctf security linux) (items_of [] content) = Some its"
    "length (pieces None True its) + 1 < 2 ^ 31"
  shows "runs (\<lambda>(p, w'). sees (page_head @ CRLF @ cstr (pieces None True its)) p \<and> db w' = d3)
    (rootroute mem O1 fs docroot r w)"
proof -
  obtain p where p: "start_response mem = Some p" "sees page_head p" using start_response_runs by (auto simp: runs_def)
  have "length page_head + 2 < sds_limit" using page_head_literal(1) by (simp add: sds_limit_def)
  from blank_line_runs [OF p(2) this] obtain q where q: "addheadersdone mem p = Some q" "sees (page_head @ CRLF) q"
    by (auto simp: runs_def)
  obtain its1 its2 where its: "apply_edits (post_edits ctf_lines (map row_post ctf)) (items_of [] content) = Some its1"
      "apply_edits (post_edits security_lines (map row_post security)) its1 = Some its2"
      "apply_edits (post_edits linux_lines (map row_post linux)) its2 = Some its"
    using assms(9) by (auto simp: index_edits_def apply_edits_append bind_eq_Some_conv)
  obtain w1 where w1: "sql_select mem (sqlite O1) (top5_statement hun ''CTF'') (init_callback_sql w) = Some w1"
      "rows_rep w1 (map cell_text (concat ctf))" "db w1 = d1"
    using select_posts [where exec = "sqlite O1" and w = w, OF assms(3,6)] by (auto simp: runs_def)
  obtain f where f: "open_template fs docroot (ROOTPATH @ index_file hun) = Some f" "template f (items_of [] content)"
    using open_template_runs [OF assms(2)] by (auto simp: runs_def)
  obtain f1 where f1: "run_edits (post_edits ctf_lines (map row_post ctf)) f = Some f1" "template f1 its1"
    using run_edits_runs [OF f(2) post_edits_ok [OF assms(6) lines_clean] its(1)] by (auto simp: runs_def)
  obtain w2 where w2: "free_callback_sql w1 = Some w2" "db w2 = d1" using free_posts [OF w1(2)] w1(3) by (auto simp: runs_def)
  have "sqlite O1 (top5_statement hun ''Security'') (db w2) = (d2, security)" using assms(4) w2(2) by simp
  from index_list_runs [OF this assms(7) f1(2) lines_clean its(2)] obtain w3 f3
    where f3: "index_list mem O1 hun ''Security'' security_lines (init_callback_sql w2) f1 = Some (w3, f3)"
      "db w3 = d2" "template f3 its2" by (auto simp: runs_def)
  have "sqlite O1 (top5_statement hun ''Linux'') (db w3) = (d3, linux)" using assms(5) f3(2) by simp
  from index_list_runs [OF this assms(8) f3(3) lines_clean its(3)] obtain w4 f4
    where f4: "index_list mem O1 hun ''Linux'' linux_lines (init_callback_sql w3) f3 = Some (w4, f4)"
      "db w4 = d3" "template f4 its" by (auto simp: runs_def)
  have "length (page_head @ CRLF) < 2000" using page_head_literal(1) by (simp add: CRLF_def)
  from finish_page_runs [OF f4(3) assms(10) q(2) this] obtain u
    where u: "finish_page mem q f4 = Some u" "sees ((page_head @ CRLF) @ cstr (pieces None True its)) u" by (auto simp: runs_def)
  have "rootroute mem O1 fs docroot r w = Some (u, w4)"
    by (simp add: rootroute_def p(1) q(1) assms(1) top5_eq w1(1) f(1) Let_def
      list_posts_eq [OF w1(2) assms(6)] f1(1) w2(1) f3(1) f4(1) u(1))
  with u(2) f4(2) show ?thesis by simp
qed

section \<open>One post, and a category\<close>

lemma decoded_var_runs:
  assumes "pairs_rep (req_body r) (bodycount r) bs"
  shows "decoded_var mem nm r
    = Some (map_option (\<lambda>t. cstr (snd (percent_decode (Some (cstr t))))) (var_of nm bs))"
proof -
  obtain kvs where kvs: "used_vars r = Some kvs" "list_all2 kv_rep kvs bs" by (rule used_vars_eq [OF assms])
  obtain v where v: "find_var nm kvs = Some v" "sees_opt (var_of nm bs) v"
    using find_var_runs [OF kvs(2)] by (auto simp: runs_def)
  then show ?thesis
    by (cases "var_of nm bs") (auto simp: decoded_var_def kvs(1) sees_opt_def sees_def decode_value_rep)
qed

definition name_statement :: "bool \<Rightarrow> bytes option \<Rightarrow> bytes" where
  "name_statement hun nm =
     (if hun then ''SELECT title_HUN,category,content_HUN,created_at from posts WHERE title_HUN='' @ sql_text nm
      else ''SELECT title_EN,category,content_EN,created_at from posts WHERE title_EN='' @ sql_text nm)"

definition category_statement :: "bool \<Rightarrow> bytes option \<Rightarrow> bytes" where
  "category_statement hun cat =
     (if hun then ''SELECT title_HUN,category,content_HUN,created_at from posts WHERE category='' @ sql_text cat
      else ''SELECT title_EN,category,content_EN,created_at from posts WHERE category='' @ sql_text cat)"

lemma statements_eq:
  "(if hun then select_by_name_hu al exec nm w else select_by_name_en al exec nm w)
    = sql_select al exec (name_statement hun nm) w"
  "(if hun then select_by_category_hu al exec nm w else select_by_category_en al exec nm w)
    = sql_select al exec (category_statement hun nm) w"
  by (simp_all add: name_statement_def category_statement_def select_by_name_hu_def select_by_name_en_def
    select_by_category_hu_def select_by_category_en_def)

text \<open>The first row in the variables of the template; nothing is set without a row.\<close>

fun first_row :: "(nat \<times> bytes) list \<Rightarrow> row list \<Rightarrow> edit list" where
  "first_row cs [] = []"
| "first_row cs (r # rs) = map (\<lambda>(i, fld). Set_Var fld (snd (cell_text (r ! i)))) cs"

definition one_post_edits :: "row list \<Rightarrow> edit list" where
  "one_post_edits rows = Set_Var ''contentzone'' ''''
     # first_row [(0, ''title''), (1, ''category''), (2, ''content''), (3, ''createdat'')] rows"

definition category_edits :: "row list \<Rightarrow> edit list" where
  "category_edits rows = Set_Var ''categorynamezone'' '''' # first_row [(1, ''categoryname'')] rows
     @ post_edits category_lines (map row_post rows)"

text \<open>The variable whose value is what the request asks for.\<close>

definition asked_for :: "bytes \<Rightarrow> (bytes \<times> bytes) list \<Rightarrow> bytes option" where
  "asked_for nm bs = map_option (\<lambda>t. cstr (snd (percent_decode (Some (cstr t))))) (var_of nm bs)"

lemma column_value:
  assumes "rows_rep w (map cell_text (concat rows))" "posts_fit rows" "j < 4"
  shows "\<exists>kv. sqldata w j = Some kv \<and> (\<forall>fld f. set_value fld (kv_value kv) f = run_edits (first_row [(j, fld)] rows) f)"
proof (cases rows)
  case Nil
  then have "sqldata w (4 * 0 + j) = Some no_pair"
    by (intro no_post [OF assms(1,2)]) (use assms(3) in \<open>simp_all add: MAXPOSTSSHOWN_def\<close>)
  then show ?thesis by (simp add: Nil no_pair_def set_value_def flateSetVar_def)
next
  case (Cons r rs)
  with post_value [OF assms(1,2), of 0 j] assms(3) obtain kv where "sqldata w j = Some kv" "sees (snd (cell_text (r ! j))) (kv_value kv)"
    by auto
  then show ?thesis by (simp add: Cons set_value_eq run_edits_fun(1))
qed

lemma first_row_Cons: "first_row ((i, fld) # cs) rows = first_row [(i, fld)] rows @ first_row cs rows"
  by (cases rows) simp_all

lemma first_row_ok:
  assumes "posts_fit rows" "\<forall>(i, fld) \<in> set cs. i < 4 \<and> nul_free fld"
  shows "list_all edit_ok (first_row cs rows)"
proof (cases rows)
  case (Cons r rs)
  have "length (cstr (snd (cell_text (r ! i)))) < 2 ^ 31" if "i < 4" for i
  proof -
    have "length (snd (cell_text (r ! i))) < 2 ^ 30" using assms(1) that by (auto simp: posts_fit_def Cons)
    moreover have "cstr (snd (cell_text (r ! i))) = snd (cell_text (r ! i))" by (simp add: cell_text_def)
    ultimately show ?thesis by simp
  qed
  with assms(2) show ?thesis by (auto simp: Cons list_all_iff)
qed simp

lemma onepostroute_runs:
  assumes "hungarian mem r = Some hun" "pairs_rep (req_body r) (bodycount r) bs"
    "is_template fs docroot (ROOTPATH @ post_file hun) content"
    "sqlite O1 (name_statement hun (asked_for ''tittle'' bs)) (db w) = (d, rows)" "posts_fit rows"
    "apply_edits (one_post_edits rows) (items_of [] content) = Some its" "length (pieces None True its) + 1 < 2 ^ 31"
  shows "runs (\<lambda>(p, w'). sees (page_head @ cstr (pieces None True its)) p \<and> db w' = d)
    (onepostroute mem O1 fs docroot r w)"
proof -
  let ?cs = "[(0, ''title''), (1, ''category''), (2, ''content''), (3, ''createdat'')]"
  have var: "decoded_var mem ''tittle'' r = Some (asked_for ''tittle'' bs)"
    by (simp add: decoded_var_runs [OF assms(2)] asked_for_def)
  obtain w1 where w1: "sql_select mem (sqlite O1) (name_statement hun (asked_for ''tittle'' bs)) (init_callback_sql w) = Some w1"
      "rows_rep w1 (map cell_text (concat rows))" "db w1 = d"
    using select_posts [where exec = "sqlite O1" and w = w, OF assms(4,5)] by (auto simp: runs_def)
  obtain f where f: "open_template fs docroot (ROOTPATH @ post_file hun) = Some f" "template f (items_of [] content)"
    using open_template_runs [OF assms(3)] by (auto simp: runs_def)
  have "list_all edit_ok (one_post_edits rows)"
    using first_row_ok [OF assms(5), of ?cs] by (simp add: one_post_edits_def cstr_def)
  from run_edits_runs [OF f(2) this assms(6)] obtain f1 where f1: "run_edits (one_post_edits rows) f = Some f1" "template f1 its"
    by (auto simp: runs_def)
  obtain k0 k1 k2 k3 where k:
    "sqldata w1 0 = Some k0" "\<And>fld f. set_value fld (kv_value k0) f = run_edits (first_row [(0, fld)] rows) f"
    "sqldata w1 1 = Some k1" "\<And>fld f. set_value fld (kv_value k1) f = run_edits (first_row [(1, fld)] rows) f"
    "sqldata w1 2 = Some k2" "\<And>fld f. set_value fld (kv_value k2) f = run_edits (first_row [(2, fld)] rows) f"
    "sqldata w1 3 = Some k3" "\<And>fld f. set_value fld (kv_value k3) f = run_edits (first_row [(3, fld)] rows) f"
    using column_value [OF w1(2) assms(5), of 0] column_value [OF w1(2) assms(5), of 1]
      column_value [OF w1(2) assms(5), of 2] column_value [OF w1(2) assms(5), of 3] by auto
  have all: "run_edits (one_post_edits rows) f = flateSetVar ''contentzone'' (Some '''') f
      \<bind> run_edits (first_row [(0, ''title'')] rows) \<bind> run_edits (first_row [(1, ''category'')] rows)
      \<bind> run_edits (first_row [(2, ''content'')] rows) \<bind> run_edits (first_row [(3, ''createdat'')] rows)"
    by (simp add: one_post_edits_def first_row_Cons [of _ _ "_ # _"] run_edits_fun(2) Option.bind_assoc)
  obtain w2 where w2: "free_callback_sql w1 = Some w2" "db w2 = d" using free_posts [OF w1(2)] w1(3) by (auto simp: runs_def)
  obtain p where p: "start_response mem = Some p" "sees page_head p" using start_response_runs by (auto simp: runs_def)
  have "length page_head < 2000" using page_head_literal(1) by simp
  from finish_page_runs [OF f1(2) assms(7) p(2) this] obtain u
    where u: "finish_page mem p f1 = Some u" "sees (page_head @ cstr (pieces None True its)) u" by (auto simp: runs_def)
  have "onepostroute mem O1 fs docroot r w = Some (u, w2)"
    unfolding onepostroute_def var assms(1) Let_def Option.bind.simps statements_eq w1(1) f(1) k
    using f1(1) [unfolded all] by (auto simp: bind_eq_Some_conv w2(1) p(1) u(1))
  with u(2) w2(2) show ?thesis by simp
qed

lemma listincategoryroute_runs:
  assumes "hungarian mem r = Some hun" "pairs_rep (req_body r) (bodycount r) bs"
    "is_template fs docroot (ROOTPATH @ category_file hun) content"
    "sqlite O1 (category_statement hun (asked_for ''category'' bs)) (db w) = (d, rows)" "posts_fit rows"
    "apply_edits (category_edits rows) (items_of [] content) = Some its" "length (pieces None True its) + 1 < 2 ^ 31"
  shows "runs (\<lambda>(p, w'). sees (page_head @ cstr (pieces None True its)) p \<and> db w' = d)
    (listincategoryroute mem O1 fs docroot r w)"
proof -
  have var: "decoded_var mem ''category'' r = Some (asked_for ''category'' bs)"
    by (simp add: decoded_var_runs [OF assms(2)] asked_for_def)
  obtain w1 where w1: "sql_select mem (sqlite O1) (category_statement hun (asked_for ''category'' bs)) (init_callback_sql w) = Some w1"
      "rows_rep w1 (map cell_text (concat rows))" "db w1 = d"
    using select_posts [where exec = "sqlite O1" and w = w, OF assms(4,5)] by (auto simp: runs_def)
  obtain f where f: "open_template fs docroot (ROOTPATH @ category_file hun) = Some f" "template f (items_of [] content)"
    using open_template_runs [OF assms(3)] by (auto simp: runs_def)
  have "list_all edit_ok (category_edits rows)"
    using first_row_ok [OF assms(5), of "[(1, ''categoryname'')]"] post_edits_ok [OF assms(5) lines_clean, of category_lines]
    by (simp add: category_edits_def cstr_def)
  from run_edits_runs [OF f(2) this assms(6)] obtain f1 where f1: "run_edits (category_edits rows) f = Some f1" "template f1 its"
    by (auto simp: runs_def)
  obtain k1 where k: "sqldata w1 1 = Some k1" "\<And>fld f. set_value fld (kv_value k1) f = run_edits (first_row [(1, fld)] rows) f"
    using column_value [OF w1(2) assms(5), of 1] by auto
  have all: "run_edits (category_edits rows) f = flateSetVar ''categorynamezone'' (Some '''') f
      \<bind> run_edits (first_row [(1, ''categoryname'')] rows) \<bind> run_edits (post_edits category_lines (map row_post rows))"
    by (simp add: category_edits_def run_edits_fun(2) Option.bind_assoc)
  obtain w2 where w2: "free_callback_sql w1 = Some w2" "db w2 = d" using free_posts [OF w1(2)] w1(3) by (auto simp: runs_def)
  obtain p where p: "start_response mem = Some p" "sees page_head p" using start_response_runs by (auto simp: runs_def)
  have "length page_head < 2000" using page_head_literal(1) by simp
  from finish_page_runs [OF f1(2) assms(7) p(2) this] obtain u
    where u: "finish_page mem p f1 = Some u" "sees (page_head @ cstr (pieces None True its)) u" by (auto simp: runs_def)
  have "listincategoryroute mem O1 fs docroot r w = Some (u, w2)"
    unfolding listincategoryroute_def var assms(1) Let_def Option.bind.simps statements_eq w1(1) f(1) k
    using f1(1) [unfolded all] by (auto simp: bind_eq_Some_conv list_posts_eq [OF w1(2) assms(5)] w2(1) p(1) u(1))
  with u(2) w2(2) show ?thesis by simp
qed

section \<open>Properties\<close>

text \<open>C20: The index shows the posts of its three categories: the response is the header lines, a blank
  line, and the template of the language of the cookie with one line for each row that the three
  queries found, its link, title and date filled in; the queries ask for the five newest posts of each
  category, the names being quoted literals.\<close>

theorem rootroute_shows_posts:
  assumes "headers_clean r hs" "is_template fs docroot (ROOTPATH @ index_file (wants_hun hs)) content"
    "sqlite O1 (top5_statement (wants_hun hs) ''CTF'') (db w) = (d1, ctf)"
    "sqlite O1 (top5_statement (wants_hun hs) ''Security'') d1 = (d2, security)"
    "sqlite O1 (top5_statement (wants_hun hs) ''Linux'') d2 = (d3, linux)"
    "posts_fit ctf" "posts_fit security" "posts_fit linux"
    "apply_edits (index_edits ctf security linux) (items_of [] content) = Some its"
    "length (pieces None True its) + 1 < 2 ^ 31"
  shows "runs (\<lambda>(p, w'). sees (page_head @ CRLF @ cstr (pieces None True its)) p \<and> db w' = d3)
    (rootroute mem O1 fs docroot r w)"
  by (rule rootroute_runs [OF hungarian_runs [OF assms(1)] assms(2-)])

text \<open>C23: The page of a category shows every post that the query found for the decoded variable
  \<open>category\<close>, up to 25, in the template of the language. The header lines are not closed by a blank
  line: the page begins right behind the last of them.\<close>

theorem listincategoryroute_shows_posts:
  assumes "headers_clean r hs" "pairs_rep (req_body r) (bodycount r) bs"
    "is_template fs docroot (ROOTPATH @ category_file (wants_hun hs)) content"
    "sqlite O1 (category_statement (wants_hun hs) (asked_for ''category'' bs)) (db w) = (d, rows)" "posts_fit rows"
    "apply_edits (category_edits rows) (items_of [] content) = Some its" "length (pieces None True its) + 1 < 2 ^ 31"
  shows "runs (\<lambda>(p, w'). sees (page_head @ cstr (pieces None True its)) p \<and> db w' = d)
    (listincategoryroute mem O1 fs docroot r w)"
  by (rule listincategoryroute_runs [OF hungarian_runs [OF assms(1)] assms(2-)])

text \<open>C39: The page of a post shows the first row that the query found for the decoded variable
  \<open>tittle\<close> in the template of the language; the texts are put in as they are, and no blank line
  separates them from the header lines.\<close>

theorem onepostroute_shows_post:
  assumes "headers_clean r hs" "pairs_rep (req_body r) (bodycount r) bs"
    "is_template fs docroot (ROOTPATH @ post_file (wants_hun hs)) content"
    "sqlite O1 (name_statement (wants_hun hs) (asked_for ''tittle'' bs)) (db w) = (d, rows)" "posts_fit rows"
    "apply_edits (one_post_edits rows) (items_of [] content) = Some its" "length (pieces None True its) + 1 < 2 ^ 31"
  shows "runs (\<lambda>(p, w'). sees (page_head @ cstr (pieces None True its)) p \<and> db w' = d)
    (onepostroute mem O1 fs docroot r w)"
  by (rule onepostroute_runs [OF hungarian_runs [OF assms(1)] assms(2-)])

section \<open>A concrete site\<close>

text \<open>The database counts the statements and has one post for the first; there is one template of a
  line.\<close>

definition small_row :: row where
  "small_row = [(''title_EN'', Some ''t''), (''category'', Some ''c''), (''content_EN'', Some ''<b>''), (''created_at'', Some ''d'')]"

definition small_outside :: "nat outside" where
  "small_outside = \<lparr>sqlite = \<lambda>sql n. (n + 1, if n = 0 then [small_row] else []), sha512 = \<lambda>v. None, password_file = None\<rparr>"

definition small_db :: "nat site" where
  "small_db = \<lparr>db = 0, kvp_array_sqldata = replicate MAXPOSTSSHOWN no_pair, selectcounter = 0, dangling = False\<rparr>"

definition small_templates :: "bytes \<Rightarrow> entry option" where
  "small_templates path =
     (if path = ROOTPATH @ index_file False then Some (File (Some ''I<!--#BEGINTABLE listctf-->##TITTLE##;<!--#ENDTABLE listctf-->E''))
      else if path = ROOTPATH @ category_file False then Some (File (Some ''C##categoryname##<!--#BEGINTABLE ullist-->##createdat##;<!--#ENDTABLE ullist-->E''))
      else if path = ROOTPATH @ post_file False then Some (File (Some ''P##content##E''))
      else None)"

lemma small_row_fits: "posts_fit [small_row]" "posts_fit []"
  by (simp_all add: posts_fit_def small_row_def row_fits_def cell_text_def cstr_def sds_limit_def)

lemma small_items:
  "items_of [] ''I<!--#BEGINTABLE listctf-->##TITTLE##;<!--#ENDTABLE listctf-->E''
    = [Text ''I'', Begin_Table ''listctf'', Text '''', Var ''TITTLE'' None, Text '';'', End_Table ''listctf'', Text ''E'']"
  "items_of [] ''C##categoryname##<!--#BEGINTABLE ullist-->##createdat##;<!--#ENDTABLE ullist-->E''
    = [Text ''C'', Var ''categoryname'' None, Text '''', Begin_Table ''ullist'', Text '''', Var ''createdat'' None, Text '';'',
       End_Table ''ullist'', Text ''E'']"
  "items_of [] ''P##content##E'' = [Text ''P'', Var ''content'' None, Text ''E'']"
  by code_simp+

lemma small_edits:
  "\<exists>its. apply_edits (index_edits [small_row] [] [])
      [Text ''I'', Begin_Table ''listctf'', Text '''', Var ''TITTLE'' None, Text '';'', End_Table ''listctf'', Text ''E''] = Some its
    \<and> pieces None True its = ''It;E''"
  "\<exists>its. apply_edits (category_edits [small_row])
      [Text ''C'', Var ''categoryname'' None, Text '''', Begin_Table ''ullist'', Text '''', Var ''createdat'' None, Text '';'',
       End_Table ''ullist'', Text ''E''] = Some its
    \<and> pieces None True its = ''Ccd;E''"
  "\<exists>its. apply_edits (one_post_edits [small_row]) [Text ''P'', Var ''content'' None, Text ''E''] = Some its
    \<and> pieces None True its = ''P<b>E''"
  by (simp_all add: index_edits_def category_edits_def one_post_edits_def post_edits_def post_line_def line_edits_def
    ctf_lines_def category_lines_def row_post_def small_row_def cell_text_def cstr_def table_parts_def row_of_def pieces_Cons
    after_table_def)

lemma small_template:
  "is_template small_templates None (ROOTPATH @ index_file (wants_hun [])) ''I<!--#BEGINTABLE listctf-->##TITTLE##;<!--#ENDTABLE listctf-->E''"
  "is_template small_templates None (ROOTPATH @ category_file (wants_hun []))
     ''C##categoryname##<!--#BEGINTABLE ullist-->##createdat##;<!--#ENDTABLE ullist-->E''"
  "is_template small_templates None (ROOTPATH @ post_file (wants_hun [])) ''P##content##E''"
  by (simp_all add: is_template_def small_templates_def rooted_def index_file_def category_file_def post_file_def
    missing_files_def small_items wants_hun_def)

lemma small_request:
  assumes "length bs \<le> 98" "\<forall>p \<in> set bs. length (fst p) < sds_limit \<and> length (snd p) < sds_limit"
  shows "headers_clean (request_with [] bs) []" "\<not> wants_hun []"
    "pairs_rep (req_body (request_with [] bs)) (bodycount (request_with [] bs)) bs"
  using request_with_rep [of "[]" bs] assms by (simp_all add: headers_clean_def wants_hun_def MAX_LIST_LENGTH_def)

theorem rootroute_shows_posts_witness:
  "runs (\<lambda>(p, w'). sees (page_head @ CRLF @ ''It;E'') p \<and> db w' = 3)
    (rootroute mem small_outside small_templates None (request_with [] []) small_db)"
proof -
  have r: "headers_clean (request_with [] []) []" "wants_hun [] = False" using small_request [of "[]"] by simp_all
  obtain its where its: "apply_edits (index_edits [small_row] [] [])
      (items_of [] ''I<!--#BEGINTABLE listctf-->##TITTLE##;<!--#ENDTABLE listctf-->E'') = Some its" "pieces None True its = ''It;E''"
    using small_edits(1) by (auto simp: small_items)
  have q: "sqlite small_outside (top5_statement (wants_hun []) ''CTF'') (db small_db) = (1, [small_row])"
    "sqlite small_outside (top5_statement (wants_hun []) ''Security'') 1 = (2, [])"
    "sqlite small_outside (top5_statement (wants_hun []) ''Linux'') 2 = (3, [])"
    by (simp_all add: small_outside_def small_db_def)
  have "length (pieces None True its) + 1 < 2 ^ 31" "cstr ''It;E'' = ''It;E''" by (simp_all add: its(2) cstr_def)
  with rootroute_shows_posts [OF r(1) small_template(1) q small_row_fits(1,2,2) its(1)] its(2)
  show ?thesis by simp
qed

theorem listincategoryroute_shows_posts_witness:
  "runs (\<lambda>(p, w'). sees (page_head @ ''Ccd;E'') p \<and> db w' = 1)
    (listincategoryroute mem small_outside small_templates None (request_with [] [(''category'', ''c'')]) small_db)"
proof -
  let ?bs = "[(''category'', ''c'')]"
  have r: "headers_clean (request_with [] ?bs) []" "wants_hun [] = False"
    "pairs_rep (req_body (request_with [] ?bs)) (bodycount (request_with [] ?bs)) ?bs"
    using small_request [of ?bs] by (simp_all add: sds_limit_def)
  obtain its where its: "apply_edits (category_edits [small_row])
      (items_of [] ''C##categoryname##<!--#BEGINTABLE ullist-->##createdat##;<!--#ENDTABLE ullist-->E'') = Some its"
      "pieces None True its = ''Ccd;E''"
    using small_edits(2) by (auto simp: small_items)
  have q: "sqlite small_outside (category_statement (wants_hun []) (asked_for ''category'' ?bs)) (db small_db) = (1, [small_row])"
    by (simp add: small_outside_def small_db_def)
  have "length (pieces None True its) + 1 < 2 ^ 31" "cstr ''Ccd;E'' = ''Ccd;E''" by (simp_all add: its(2) cstr_def)
  with listincategoryroute_shows_posts [OF r(1,3) small_template(2) q small_row_fits(1) its(1)] its(2)
  show ?thesis by simp
qed

theorem onepostroute_shows_post_witness:
  "runs (\<lambda>(p, w'). sees (page_head @ ''P<b>E'') p \<and> db w' = 1)
    (onepostroute mem small_outside small_templates None (request_with [] [(''tittle'', ''t'')]) small_db)"
proof -
  let ?bs = "[(''tittle'', ''t'')]"
  have r: "headers_clean (request_with [] ?bs) []" "wants_hun [] = False"
    "pairs_rep (req_body (request_with [] ?bs)) (bodycount (request_with [] ?bs)) ?bs"
    using small_request [of ?bs] by (simp_all add: sds_limit_def)
  obtain its where its: "apply_edits (one_post_edits [small_row]) (items_of [] ''P##content##E'') = Some its"
      "pieces None True its = ''P<b>E''"
    using small_edits(3) by (auto simp: small_items)
  have q: "sqlite small_outside (name_statement (wants_hun []) (asked_for ''tittle'' ?bs)) (db small_db) = (1, [small_row])"
    by (simp add: small_outside_def small_db_def)
  have "length (pieces None True its) + 1 < 2 ^ 31" "cstr ''P<b>E'' = ''P<b>E''" by (simp_all add: its(2) cstr_def)
  with onepostroute_shows_post [OF r(1,3) small_template(3) q small_row_fits(1) its(1)] its(2)
  show ?thesis by simp
qed

end
