(* ===== verification/Site.thy ===== *)
theory Site
  imports Page_Routes Server
begin

text \<open>
  The server of the site: the function pointers of \<open>controllercall\<close> (\<open>dev/routing/routes.c\<close>) as
  handlers. A route works on the request, the database and the page cache, which are global variables
  of the program.
\<close>

type_synonym 'd site_server = "(site_route, 'd site) server"

definition with_world :: "'d site_server \<Rightarrow> (sds option \<times> 'd site) run \<Rightarrow> (sds option \<times> 'd site_server) run" where
  "with_world s m = do { (p, w) \<leftarrow> m; Some (p, s\<lparr>world := w\<rparr>) }"

definition site_handler ::
  "(nat \<Rightarrow> bool) \<Rightarrow> 'd outside \<Rightarrow> (bytes \<Rightarrow> entry option) \<Rightarrow> bytes option \<Rightarrow> site_route \<Rightarrow> 'd site_server
     \<Rightarrow> (sds option \<times> 'd site_server) run" where
  "site_handler al O1 fs docroot f s =
     (case f of
        listincategory_fn \<Rightarrow> with_world s (listincategoryroute al O1 fs docroot (hrq s) (world s))
      | root_fn \<Rightarrow> with_world s (rootroute al O1 fs docroot (hrq s) (world s))
      | save_fn \<Rightarrow> do {
          (p, w, c) \<leftarrow> saveroute al O1 (hrq s) (world s, cache s);
          Some (p, s\<lparr>world := w, cache := c\<rparr>)
        }
      | delete_fn \<Rightarrow> with_world s (deleteroute al O1 (hrq s) (world s))
      | update_fn \<Rightarrow> with_world s (updateroute al O1 (hrq s) (world s))
      | onepost_fn \<Rightarrow> with_world s (onepostroute al O1 fs docroot (hrq s) (world s))
      | language_fn \<Rightarrow> do { p \<leftarrow> languageroute al (hrq s); Some (p, s) })"

definition site_platform ::
  "(nat \<Rightarrow> bool) \<Rightarrow> (bytes \<Rightarrow> nat \<Rightarrow> bytes) \<Rightarrow> 'd outside \<Rightarrow> (bytes \<Rightarrow> entry option) \<Rightarrow> bytes option
     \<Rightarrow> (site_route, 'd site) platform" where
  "site_platform al deflate O1 fs docroot =
     \<lparr>allocator = al, compressor = deflate, handler = site_handler al O1 fs docroot\<rparr>"

end
