(* ===== verification/Site_Contract.thy ===== *)
theory Site_Contract
  imports Site Page_Spec Server_Contract
begin

text \<open>
  The whole program: the routes of the site are handlers as the server asks for them. They always leave
  a well-formed server, and they return for every request but the authenticated ones to the
  administration; so every other request to the site is answered.
\<close>

section \<open>Requests of any bytes\<close>

lemma cookie_loop_safe:
  assumes "list_all2 kv_rep kvs hs" "sds_rep nm n" "NUL \<notin> set n" "\<forall>h \<in> set hs. length (snd h) < sds_limit"
  shows "runs (\<lambda>p. \<exists>t. sees t p) (cookie_loop mem nm kvs)"
  using assms(1,4)
proof (induction rule: list_all2_induct)
  case Nil
  then show ?case using runs_sdsempty by (auto simp: runs_def)
next
  case (Cons kv kvs h hs)
  obtain sk sv where kv: "kv_key kv = Some sk" "sds_rep sk (fst h)" "kv_value kv = Some sv" "sds_rep sv (snd h)"
    using Cons.hyps(1) by (auto simp: kv_rep_def sees_def)
  have cn: "cstr n = n" using assms(3) by (rule cstr_free)
  have ih: "runs (\<lambda>p. \<exists>t. sees t p) (cookie_loop mem nm kvs)" using Cons by simp
  show ?case
  proof (cases "cstr (fst h) = ''Cookie''")
    case False
    then show ?thesis using kv(1,2) ih by simp
  next
    case True
    have st: "strstr (cstr (snd h)) n = memmem (cstr (snd h)) n" using assms(3) by (simp add: strstr_def cn cstr_free)
    show ?thesis
    proof (cases "memmem (cstr (snd h)) n")
      case None
      then show ?thesis using True kv assms(2) st runs_sdsempty by (auto simp: cn runs_def)
    next
      case (Some i)
      have "i + length n \<le> length (cstr (snd h))" using memmem_SomeD [OF Some] by blast
      also have "\<dots> \<le> length (snd h)" by (simp add: cstr_def length_takeWhile_le)
      finally have fit: "i + length n \<le> length (snd h)" .
      have "length (snd h) < sds_limit" using Cons.prems by simp
      from cookie_in_eq [OF kv(4) assms(2) fit this] True Some kv assms(2) st ih
      show ?thesis by (auto simp: cn split: list.splits char.splits bool.splits)
    qed
  qed
qed

lemma hungarian_safe:
  assumes "request_ready r"
  shows "\<exists>hun. hungarian mem r = Some hun"
proof -
  obtain hs where hs: "pairs_rep (req_headers r) (headercount r) hs" "short MAXBUF hs"
    using assms by (auto simp: request_ready_def)
  have lit: "cstr ''lang'' = ''lang''" "cstr ''HUN'' = ''HUN''" "length ''lang'' < sds_limit" "length ''HUN'' < sds_limit"
    by (simp_all add: cstr_def sds_limit_def)
  obtain p where p: "sdsnew mem (Some ''lang'') = Some (Some p)" "sds_rep p ''lang''"
    using runs_sdsnew [of "''lang''"] lit by (auto simp: runs_def sees_def)
  obtain h where h: "sdsnew mem (Some ''HUN'') = Some (Some h)" "sds_rep h ''HUN''"
    using runs_sdsnew [of "''HUN''"] lit by (auto simp: runs_def sees_def)
  have len: "\<forall>h \<in> set hs. length (snd h) < sds_limit"
    using hs(2) by (fastforce simp: short_def MAXBUF_def sds_limit_def)
  have "headercount r \<le> length (req_headers r)" "list_all2 kv_rep (take (headercount r) (req_headers r)) hs"
    using hs(1) by (auto simp: pairs_rep_def)
  then have "runs (\<lambda>p. \<exists>t. sees t p) (get_cookie_by_name mem r p)"
    using cookie_loop_safe [OF _ p(2) _ len] by (simp add: get_cookie_by_name_def)
  then obtain c t where c: "get_cookie_by_name mem r p = Some (Some c)" "sds_rep c t" by (auto simp: runs_def sees_def)
  obtain d where "sdscmp c h = Some d" using runs_sdscmp [OF c(2) h(2)] by (auto simp: runs_def)
  then show ?thesis by (simp add: hungarian_def p(1) h(1) c(1))
qed

section \<open>What the site needs\<close>

text \<open>The statements of the pages, and the rows the database can give for them.\<close>

definition page_statements :: "bytes set" where
  "page_statements = {sql. \<exists>hun t u. sql = top5_statement hun t \<or> sql = name_statement hun u \<or> sql = category_statement hun u}"

definition page_rows :: "'d outside \<Rightarrow> row list set" where
  "page_rows O1 = {rows. \<exists>sql \<in> page_statements. \<exists>d. rows = snd (sqlite O1 sql d)}"

text \<open>A template takes some edits, and the length of the page with the header is an \<open>int\<close>.\<close>

definition takes_edits ::
  "(bytes \<Rightarrow> entry option) \<Rightarrow> bytes option \<Rightarrow> bytes \<Rightarrow> edit list set \<Rightarrow> bool" where
  "takes_edits fs docroot path E \<longleftrightarrow> (\<exists>content. is_template fs docroot (ROOTPATH @ path) content
     \<and> (\<forall>es \<in> E. \<exists>its. apply_edits es (items_of [] content) = Some its \<and> length (pieces None True its) + 1200 < 2 ^ 31))"

definition site_ok :: "'d outside \<Rightarrow> (bytes \<Rightarrow> entry option) \<Rightarrow> bytes option \<Rightarrow> bool" where
  "site_ok O1 fs docroot \<longleftrightarrow> (let R = page_rows O1 in
     (\<forall>rows \<in> R. posts_fit rows)
     \<and> (\<forall>hun. takes_edits fs docroot (index_file hun) {es. \<exists>a \<in> R. \<exists>b \<in> R. \<exists>c \<in> R. es = index_edits a b c}
        \<and> takes_edits fs docroot (post_file hun) (one_post_edits ` R)
        \<and> takes_edits fs docroot (category_file hun) (category_edits ` R)))"

section \<open>The routes\<close>

definition good :: "sds option \<times> 'a \<Rightarrow> bool" where "good = (\<lambda>(p, w). int_response p)"

text \<open>The header lines and a page.\<close>

lemma page_response:
  assumes "sees (page_head @ xs @ cstr page) p" "length xs \<le> 2" "length page + 1200 < 2 ^ 31"
  shows "int_response p"
proof -
  have "length (cstr page) \<le> length page" by simp
  with assms(2,3) page_head_literal(1) have "length page_head + (length xs + length (cstr page)) < 2 ^ 31" by linarith
  then have "length (page_head @ xs @ cstr page) < 2 ^ 31" by simp
  with assms(1) show ?thesis by (rule int_responseI)
qed

lemma rootroute_good:
  assumes "site_ok O1 fs docroot" "request_ready r"
  shows "runs good (rootroute mem O1 fs docroot r w)"
proof -
  obtain hun where hun: "hungarian mem r = Some hun" using hungarian_safe [OF assms(2)] by blast
  obtain d1 a where a: "sqlite O1 (top5_statement hun ''CTF'') (db w) = (d1, a)" by force
  obtain d2 b where b: "sqlite O1 (top5_statement hun ''Security'') d1 = (d2, b)" by force
  obtain d3 c where c: "sqlite O1 (top5_statement hun ''Linux'') d2 = (d3, c)" by force
  have R: "snd (sqlite O1 (top5_statement hun t) d) \<in> page_rows O1" for t d
    by (auto simp: page_rows_def page_statements_def)
  have abc: "a \<in> page_rows O1" "b \<in> page_rows O1" "c \<in> page_rows O1"
    using R [of "''CTF''" "db w"] R [of "''Security''" d1] R [of "''Linux''" d2] a b c by simp_all
  then have fit: "posts_fit a" "posts_fit b" "posts_fit c" using assms(1) by (simp_all add: site_ok_def Let_def)
  obtain content its where t: "is_template fs docroot (ROOTPATH @ index_file hun) content"
      "apply_edits (index_edits a b c) (items_of [] content) = Some its" "length (pieces None True its) + 1200 < 2 ^ 31"
    using assms(1) abc unfolding site_ok_def Let_def takes_edits_def by blast
  have fits: "length (pieces None True its) + 1 < 2 ^ 31" using t(3) by simp
  show ?thesis
    by (rule runs_mono [OF rootroute_runs [where w = w, OF hun t(1) a b c fit t(2) fits]])
      (auto simp: good_def CRLF_def intro: page_response [where xs = CRLF, OF _ _ t(3)])
qed

lemma ready_body:
  assumes "request_ready r"
  obtains bs where "pairs_rep (req_body r) (bodycount r) bs" "short MAXBUF bs"
  using assms by (auto simp: request_ready_def)

lemma onepostroute_good:
  assumes "site_ok O1 fs docroot" "request_ready r"
  shows "runs good (onepostroute mem O1 fs docroot r w)"
proof -
  obtain hun where hun: "hungarian mem r = Some hun" using hungarian_safe [OF assms(2)] by blast
  obtain bs where bs: "pairs_rep (req_body r) (bodycount r) bs" by (rule ready_body [OF assms(2)])
  obtain d a where a: "sqlite O1 (name_statement hun (asked_for ''tittle'' bs)) (db w) = (d, a)" by force
  have "snd (sqlite O1 (name_statement hun (asked_for ''tittle'' bs)) (db w)) \<in> page_rows O1"
    by (auto simp: page_rows_def page_statements_def)
  with a have R: "a \<in> page_rows O1" by simp
  then have fit: "posts_fit a" using assms(1) by (simp add: site_ok_def Let_def)
  obtain content its where t: "is_template fs docroot (ROOTPATH @ post_file hun) content"
      "apply_edits (one_post_edits a) (items_of [] content) = Some its" "length (pieces None True its) + 1200 < 2 ^ 31"
    using assms(1) R unfolding site_ok_def Let_def takes_edits_def by blast
  have fits: "length (pieces None True its) + 1 < 2 ^ 31" using t(3) by simp
  show ?thesis
    by (rule runs_mono [OF onepostroute_runs [where w = w, OF hun bs t(1) a fit t(2) fits]])
      (auto simp: good_def intro: page_response [where xs = "[]", OF _ _ t(3)])
qed

lemma listincategoryroute_good:
  assumes "site_ok O1 fs docroot" "request_ready r"
  shows "runs good (listincategoryroute mem O1 fs docroot r w)"
proof -
  obtain hun where hun: "hungarian mem r = Some hun" using hungarian_safe [OF assms(2)] by blast
  obtain bs where bs: "pairs_rep (req_body r) (bodycount r) bs" by (rule ready_body [OF assms(2)])
  obtain d a where a: "sqlite O1 (category_statement hun (asked_for ''category'' bs)) (db w) = (d, a)" by force
  have "snd (sqlite O1 (category_statement hun (asked_for ''category'' bs)) (db w)) \<in> page_rows O1"
    by (auto simp: page_rows_def page_statements_def)
  with a have R: "a \<in> page_rows O1" by simp
  then have fit: "posts_fit a" using assms(1) by (simp add: site_ok_def Let_def)
  obtain content its where t: "is_template fs docroot (ROOTPATH @ category_file hun) content"
      "apply_edits (category_edits a) (items_of [] content) = Some its" "length (pieces None True its) + 1200 < 2 ^ 31"
    using assms(1) R unfolding site_ok_def Let_def takes_edits_def by blast
  have fits: "length (pieces None True its) + 1 < 2 ^ 31" using t(3) by simp
  show ?thesis
    by (rule runs_mono [OF listincategoryroute_runs [where w = w, OF hun bs t(1) a fit t(2) fits]])
      (auto simp: good_def intro: page_response [where xs = "[]", OF _ _ t(3)])
qed

lemma languageroute_good:
  assumes "request_ready r"
  shows "runs int_response (languageroute mem r)"
proof -
  obtain bs where bs: "pairs_rep (req_body r) (bodycount r) bs" "short MAXBUF bs" by (rule ready_body [OF assms])
  have "\<forall>b \<in> set bs. length (snd b) + 1 < sds_limit" using bs(2) by (fastforce simp: short_def MAXBUF_def sds_limit_def)
  note runs = languageroute_runs [OF bs(1) this]
  have "length (language_text (chosen_language bs)) < 2 ^ 31"
    by (simp add: language_text_def chosen_language_def CRLF_def split: option.split)
  then show ?thesis by (intro runs_mono [OF runs] int_responseI)
qed

text \<open>Without the password a route of the administration changes nothing.\<close>

definition refused :: "'d outside \<Rightarrow> http_request \<Rightarrow> bool" where
  "refused O1 r \<longleftrightarrow> authenticate O1 r \<noteq> Some Passed"

lemma refused_good:
  assumes "outside_ok O1 H pw" "request_ready r" "refused O1 r"
  shows "runs (\<lambda>(p, st'). int_response p \<and> st' = st) (authenticated mem O1 r st body)"
proof -
  obtain hs where hs: "pairs_rep (req_headers r) (headercount r) hs" using assms(2) by (auto simp: request_ready_def)
  have no: "outcome_of H pw (auth_values hs) \<noteq> Passed"
    using assms(3) authenticate_eq [OF assms(1) hs] by (simp add: refused_def)
  have "length (refusal a) < 2 ^ 31" for a
    by (simp add: refusal_def please_text_def bad_password_text_def html_text_def CRLF_def)
  then show ?thesis
    by (intro runs_mono [OF authenticated_eq(2) [OF assms(1) hs no]]) (auto intro: int_responseI)
qed

lemma site_handler_runs:
  assumes "site_ok O1 fs docroot" "outside_ok O1 H pw" "request_ready (hrq s)" "refused O1 (hrq s)"
  shows "runs (\<lambda>(p, s'). int_response p) (site_handler mem O1 fs docroot f s)"
proof -
  have world: "runs (\<lambda>(p, s'). int_response p) (with_world s m)" if "runs good m" for m
    using that by (auto simp: with_world_def good_def runs_def)
  have admin: "runs good (authenticated mem O1 (hrq s) (world s) body)" for body
    using refused_good [OF assms(2-4), of "world s" body] by (auto simp: good_def elim!: runs_mono)
  show ?thesis
  proof (cases f)
    case listincategory_fn
    then show ?thesis using world [OF listincategoryroute_good [OF assms(1,3)]] by (simp add: site_handler_def)
  next
    case root_fn
    then show ?thesis using world [OF rootroute_good [OF assms(1,3)]] by (simp add: site_handler_def)
  next
    case save_fn
    have "runs (\<lambda>(p, st'). int_response p \<and> st' = (world s, cache s)) (saveroute mem O1 (hrq s) (world s, cache s))"
      unfolding saveroute_def by (rule refused_good [OF assms(2-4)])
    then show ?thesis by (auto simp: site_handler_def save_fn runs_def)
  next
    case delete_fn
    then show ?thesis using world [OF admin] by (simp add: site_handler_def deleteroute_def)
  next
    case update_fn
    then show ?thesis using world [OF admin] by (simp add: site_handler_def updateroute_def)
  next
    case onepost_fn
    then show ?thesis using world [OF onepostroute_good [OF assms(1,3)]] by (simp add: site_handler_def)
  next
    case language_fn
    then show ?thesis using languageroute_good [OF assms(3)] by (auto simp: site_handler_def runs_def)
  qed
qed

text \<open>With or without the password, a route that returns leaves a coherent cache: the one it got, or a
  new one.\<close>

lemma saveroute_cache:
  assumes "saveroute mem O1 r (w, c) = Some (p, w', c')"
  shows "c' = c \<or> globalinit_cache mem c = Some c'"
proof -
  obtain a where "authenticate O1 r = Some a"
    using assms by (auto simp: saveroute_def authenticated_def bind_eq_Some_conv)
  then show ?thesis
    using assms by (cases a) (auto simp: saveroute_def authenticated_def bind_eq_Some_conv)
qed

lemma new_cache_ok:
  assumes "pages_ok deflate fs c" "globalinit_cache mem c = Some c'"
  shows "pages_ok deflate fs c'"
proof -
  have "counter c < CACHESIZE" using assms(1) by (auto simp: pages.coherent_def cache_holds_def cache_rep_def)
  from globalinit_cache_runs [OF this, of file_limit] assms(2) pages_ok_init show ?thesis
    by (auto simp: file_limit_def)
qed

lemma site_handler_keeps:
  assumes "site_handler mem O1 fs docroot f s = Some (p, s')" "server_ok (\<lambda>_. True) P fs s"
  shows "server_ok (\<lambda>_. True) P fs s'"
proof -
  have world: "server_ok (\<lambda>_. True) P fs s'" if "with_world s m = Some (p, s')" for m
    using that assms(2) by (auto simp: with_world_def bind_eq_Some_conv server_ok_def)
  show ?thesis
  proof (cases f)
    case save_fn
    with assms(1) obtain w c where c: "saveroute mem O1 (hrq s) (world s, cache s) = Some (p, w, c)"
        "s' = s\<lparr>world := w, cache := c\<rparr>"
      by (auto simp: site_handler_def bind_eq_Some_conv)
    have "pages_ok (compressor P) fs (cache s)" using assms(2) by (simp add: server_ok_def)
    with saveroute_cache [OF c(1)] new_cache_ok have "pages_ok (compressor P) fs c" by blast
    with assms(2) show ?thesis by (simp add: c(2) server_ok_def)
  qed (use assms world in \<open>auto simp: site_handler_def bind_eq_Some_conv\<close>)
qed

section \<open>The server\<close>

definition site_setup :: "(bytes \<Rightarrow> nat \<Rightarrow> bytes) \<Rightarrow> 'd outside \<Rightarrow> (bytes \<Rightarrow> entry option) \<Rightarrow> bytes option \<Rightarrow> bool" where
  "site_setup deflate O1 fs docroot \<longleftrightarrow>
     deflate_fits deflate \<and> files_small fs \<and> fs (ROOTPATH @ ''/'') = Some Directory
     \<and> site_ok O1 fs docroot \<and> (\<exists>H pw. outside_ok O1 H pw)"

abbreviation the_site ::
  "(bytes \<Rightarrow> nat \<Rightarrow> bytes) \<Rightarrow> 'd outside \<Rightarrow> (bytes \<Rightarrow> entry option) \<Rightarrow> bytes option \<Rightarrow> (site_route, 'd site) platform" where
  "the_site \<equiv> site_platform mem"

abbreviation any_world :: "'w \<Rightarrow> bool" where "any_world \<equiv> \<lambda>_. True"

lemma site_platform_ok:
  assumes "site_setup deflate O1 fs docroot"
  shows "platform_ok (refused O1) any_world (the_site deflate O1 fs docroot) fs"
proof -
  let ?P = "the_site deflate O1 fs docroot"
  obtain H pw where st: "site_ok O1 fs docroot" "outside_ok O1 H pw" using assms by (auto simp: site_setup_def)
  have P: "handler ?P = site_handler mem O1 fs docroot" "allocator ?P = mem" "compressor ?P = deflate"
    by (simp_all add: site_platform_def)
  have "handlers_ok (refused O1) any_world ?P fs"
    unfolding handlers_ok_def P using site_handler_keeps site_handler_runs [OF st] by blast
  moreover have "refused O1 (r\<lparr>url := u, rawurl := w\<rparr>) = refused O1 r" for r u w
    by (simp add: refused_def authenticate_def)
  ultimately show ?thesis using assms by (simp add: platform_ok_def site_setup_def P(2,3))
qed

section \<open>Properties\<close>

text \<open>C1: The site answers every request that fits the read buffer and does not carry the password, whatever
  its bytes are: through the firewall, the parser, the routing table, the routes with their queries
  and templates, and the static files nothing is undefined, the response is a string with a length
  that is an \<open>int\<close>, and the server stays well formed. The same holds for the entry from Go. The
  templates have to take the edits of the rows that the database can give, at most 25 rows of four
  columns for a query, files are shorter than 2 GiB by room for a header, and \<open>main\<close> makes a server
  that is well formed.\<close>

theorem site_answers:
  assumes "site_setup deflate O1 fs docroot"
    "length data \<le> MAXBUF" "\<forall>r. portable_requester mem data = Some r \<longrightarrow> authenticate O1 r \<noteq> Some Passed"
  shows "runs (server_ok any_world (the_site deflate O1 fs docroot) fs) (main_init mem (controllercall mem) w)
    \<and> (\<forall>s junk. server_ok any_world (the_site deflate O1 fs docroot) fs s \<longrightarrow>
        runs (\<lambda>(p, s'). (\<exists>t. sees t p \<and> length t < 2 ^ 31) \<and> server_ok any_world (the_site deflate O1 fs docroot) fs s')
          (answer (the_site deflate O1 fs docroot) fs junk data s)
        \<and> (NUL \<notin> set data \<longrightarrow>
          runs (\<lambda>(p, s'). (\<exists>t. sees t p \<and> length t < 2 ^ 31) \<and> server_ok any_world (the_site deflate O1 fs docroot) fs s')
            (packed_function (the_site deflate O1 fs docroot) fs junk (data @ NUL # rest) s)))"
proof
  let ?P = "the_site deflate O1 fs docroot"
  show "runs (server_ok any_world ?P fs) (main_init mem (controllercall mem) w)"
    by (rule runs_mono [OF main_init_runs [where W = any_world and w = w and P = ?P and fs = fs]]) simp_all
  have "admits (refused O1) data" using assms(3) by (simp add: admits_def refused_def)
  then have "runs (responds any_world ?P fs) (answer ?P fs junk data s)" if "server_ok any_world ?P fs s" for s junk
    using servesD(2) [OF answer_serves [OF site_platform_ok [OF assms(1)] that assms(2)]] by blast
  then show "\<forall>s junk. server_ok any_world ?P fs s \<longrightarrow>
        runs (\<lambda>(p, s'). (\<exists>t. sees t p \<and> length t < 2 ^ 31) \<and> server_ok any_world ?P fs s') (answer ?P fs junk data s)
        \<and> (NUL \<notin> set data \<longrightarrow>
          runs (\<lambda>(p, s'). (\<exists>t. sees t p \<and> length t < 2 ^ 31) \<and> server_ok any_world ?P fs s')
            (packed_function ?P fs junk (data @ NUL # rest) s))"
    by (simp add: responds_def int_response_def packed_function_def cstr_append_NUL)
qed

section \<open>A concrete site\<close>

text \<open>The database has one post for the first statement; no word of the password file is a digest.
  The index has its three lists, the other pages a variable or a list.\<close>

definition demo_outside :: "nat outside" where
  "demo_outside = small_outside\<lparr>sha512 := \<lambda>v. Some (toy_hash v), password_file := Some ''none''\<rparr>"

definition demo_index :: bytes where
  "demo_index = ''I<!--#BEGINTABLE listctf-->##TITTLE##;<!--#ENDTABLE listctf-->S<!--#BEGINTABLE listsecurity-->##TITTLE2##<!--#ENDTABLE listsecurity-->L<!--#BEGINTABLE listnix-->##TITTLE3##<!--#ENDTABLE listnix-->E''"

definition demo_files :: "bytes \<Rightarrow> entry option" where
  "demo_files path =
     (if path = ROOTPATH @ ''/'' then Some Directory
      else if path = ROOTPATH @ index_file False \<or> path = ROOTPATH @ index_file True then Some (File (Some demo_index))
      else if path = ROOTPATH @ post_file False \<or> path = ROOTPATH @ post_file True then Some (File (Some ''P##content##E''))
      else if path = ROOTPATH @ category_file False \<or> path = ROOTPATH @ category_file True
        then Some (File (Some ''C<!--#BEGINTABLE ullist-->##createdat##;<!--#ENDTABLE ullist-->E''))
      else None)"

lemma demo_outside_ok: "outside_ok demo_outside toy_hash ''none''"
proof -
  have "stored_password demo_outside = Some ''none''"
    by (simp add: stored_password_def demo_outside_def) code_simp
  then show ?thesis by (simp add: outside_ok_def demo_outside_def toy_hash_def SHA512_DIGEST_LENGTH_def)
qed

lemma demo_rows: "page_rows demo_outside \<subseteq> {[small_row], []}"
  by (auto simp: page_rows_def demo_outside_def small_outside_def)

lemma demo_refuses:
  assumes "length data < sds_limit" "portable_requester mem data = Some r"
  shows "authenticate demo_outside r \<noteq> Some Passed"
proof -
  obtain hs where hs: "pairs_rep (req_headers r) (headercount r) hs"
    using portable_requester_runs [OF assms(1)] assms(2) by (auto simp: runs_def request_ok_def)
  have "hex_digest (toy_hash v) \<noteq> ''none''" for v
    by (cases "v = ''secret''") (simp_all only: toy_hash_def if_True if_False, code_simp+)
  then have "outcome_of toy_hash ''none'' (auth_values hs) \<noteq> Passed"
    by (cases "auth_values hs") (auto simp: outcome_of_def)
  then show ?thesis using authenticate_eq [OF demo_outside_ok hs] by simp
qed

lemma demo_items:
  "items_of [] demo_index = [Text ''I'', Begin_Table ''listctf'', Text '''', Var ''TITTLE'' None, Text '';'', End_Table ''listctf'',
     Text ''S'', Begin_Table ''listsecurity'', Text '''', Var ''TITTLE2'' None, Text '''', End_Table ''listsecurity'',
     Text ''L'', Begin_Table ''listnix'', Text '''', Var ''TITTLE3'' None, Text '''', End_Table ''listnix'', Text ''E'']"
  "items_of [] ''C<!--#BEGINTABLE ullist-->##createdat##;<!--#ENDTABLE ullist-->E''
    = [Text ''C'', Begin_Table ''ullist'', Text '''', Var ''createdat'' None, Text '';'', End_Table ''ullist'', Text ''E'']"
  by code_simp+

lemma demo_template:
  "is_template demo_files None (ROOTPATH @ index_file hun) demo_index"
  "is_template demo_files None (ROOTPATH @ post_file hun) ''P##content##E''"
  "is_template demo_files None (ROOTPATH @ category_file hun) ''C<!--#BEGINTABLE ullist-->##createdat##;<!--#ENDTABLE ullist-->E''"
  by (cases hun; simp add: is_template_def demo_files_def rooted_def index_file_def category_file_def post_file_def
    missing_files_def demo_items small_items demo_index_def [THEN arg_cong, of length])+

definition short_page :: "edit list \<Rightarrow> item list \<Rightarrow> bool" where
  "short_page es its = (case apply_edits es its of None \<Rightarrow> False | Some its \<Rightarrow> length (pieces None True its) \<le> 20)"

lemma short_page_takes:
  assumes "is_template fs docroot (ROOTPATH @ path) content" "\<forall>es \<in> E. short_page es (items_of [] content)"
  shows "takes_edits fs docroot path E"
  using assms unfolding takes_edits_def short_page_def
  by (intro exI [of _ content] conjI ballI) (auto split: option.splits dest!: bspec)

lemma demo_short:
  assumes "a \<in> {[small_row], []}" "b \<in> {[small_row], []}" "c \<in> {[small_row], []}"
  shows "short_page (index_edits a b c) (items_of [] demo_index)"
    "short_page (one_post_edits a) (items_of [] ''P##content##E'')"
    "short_page (category_edits a) (items_of [] ''C<!--#BEGINTABLE ullist-->##createdat##;<!--#ENDTABLE ullist-->E'')"
proof -
  have "list_all (\<lambda>a. list_all (\<lambda>b. list_all (\<lambda>c. short_page (index_edits a b c) (items_of [] demo_index))
      [[small_row], []]) [[small_row], []]) [[small_row], []]"
    by code_simp
  then show "short_page (index_edits a b c) (items_of [] demo_index)" using assms by auto
  have "list_all (\<lambda>a. short_page (one_post_edits a) (items_of [] ''P##content##E'')) [[small_row], []]"
    "list_all (\<lambda>a. short_page (category_edits a) (items_of [] ''C<!--#BEGINTABLE ullist-->##createdat##;<!--#ENDTABLE ullist-->E'')) [[small_row], []]"
    by code_simp+
  then show "short_page (one_post_edits a) (items_of [] ''P##content##E'')"
    "short_page (category_edits a) (items_of [] ''C<!--#BEGINTABLE ullist-->##createdat##;<!--#ENDTABLE ullist-->E'')"
    using assms(1) by auto
qed

lemma demo_site_ok: "site_ok demo_outside demo_files None"
proof -
  have fit: "posts_fit rows" if "rows \<in> page_rows demo_outside" for rows
    using that demo_rows small_row_fits by auto
  have "takes_edits demo_files None (index_file hun)
      {es. \<exists>a \<in> page_rows demo_outside. \<exists>b \<in> page_rows demo_outside. \<exists>c \<in> page_rows demo_outside. es = index_edits a b c}" for hun
    by (rule short_page_takes [OF demo_template(1)]) (use demo_short(1) [OF demo_rows [THEN subsetD] demo_rows [THEN subsetD] demo_rows [THEN subsetD]] in auto)
  moreover have "takes_edits demo_files None (post_file hun) (one_post_edits ` page_rows demo_outside)" for hun
    by (rule short_page_takes [OF demo_template(2)]) (use demo_short(2) [OF demo_rows [THEN subsetD]] in auto)
  moreover have "takes_edits demo_files None (category_file hun) (category_edits ` page_rows demo_outside)" for hun
    by (rule short_page_takes [OF demo_template(3)]) (use demo_short(3) [OF demo_rows [THEN subsetD]] in auto)
  ultimately show ?thesis using fit by (simp add: site_ok_def Let_def)
qed

lemma chosen_file:
  "(if P then Some Directory else if Q then Some (File (Some a)) else if R then Some (File (Some b))
     else if S then Some (File (Some c)) else None) = Some (File (Some d)) \<Longrightarrow> d \<in> {a, b, c}"
  by (auto split: if_split_asm)

lemma demo_files_ok: "files_small demo_files" "demo_files (ROOTPATH @ ''/'') = Some Directory"
proof -
  let ?cat = "''C<!--#BEGINTABLE ullist-->##createdat##;<!--#ENDTABLE ullist-->E''"
  have short: "\<forall>c \<in> {demo_index, ''P##content##E'', ?cat}. length c < file_limit"
    by (simp add: demo_index_def file_limit_def)
  have "length c < file_limit" if "demo_files path = Some (File (Some c))" for path c
    by (rule bspec [OF short chosen_file [OF that [unfolded demo_files_def]]])
  then show "files_small demo_files" by (auto simp: files_small_def fopen_def split: option.splits entry.splits)
  show "demo_files (ROOTPATH @ ''/'') = Some Directory" by (simp add: demo_files_def)
qed

lemma demo_setup: "site_setup copy_bytes demo_outside demo_files None"
  using small_site_ok(1) demo_files_ok demo_site_ok demo_outside_ok by (auto simp: site_setup_def)

lemma toy_request_refused: "\<forall>r. portable_requester mem toy_request = Some r \<longrightarrow> authenticate demo_outside r \<noteq> Some Passed"
  using demo_refuses [of toy_request] toy_request_length by (auto simp: MAXBUF_def sds_limit_def)

abbreviation demo_server :: "(site_route, nat site) server run" where
  "demo_server \<equiv> main_init mem (controllercall mem) small_db"

theorem site_answers_witness:
  "runs (\<lambda>s. runs (\<lambda>(p, s'). \<exists>t. sees t p) (answer (the_site copy_bytes demo_outside demo_files None) demo_files False toy_request s)
      \<and> runs (\<lambda>(p, s'). \<exists>t. sees t p)
          (packed_function (the_site copy_bytes demo_outside demo_files None) demo_files False (toy_request @ [NUL]) s))
    demo_server"
proof -
  have nul: "NUL \<notin> set toy_request" by (simp add: toy_request_def CRLF_def)
  note ans = site_answers [OF demo_setup toy_request_length toy_request_refused, of small_db "[]"]
  show ?thesis
  proof (rule runs_mono [OF conjunct1 [OF ans]])
    fix s assume "server_ok any_world (the_site copy_bytes demo_outside demo_files None) demo_files s"
    note s = conjunct2 [OF ans, rule_format, OF this, of False]
    from conjunct1 [OF s] mp [OF conjunct2 [OF s] nul]
    show "runs (\<lambda>(p, s'). \<exists>t. sees t p) (answer (the_site copy_bytes demo_outside demo_files None) demo_files False toy_request s)
      \<and> runs (\<lambda>(p, s'). \<exists>t. sees t p)
          (packed_function (the_site copy_bytes demo_outside demo_files None) demo_files False (toy_request @ [NUL]) s)"
      by (auto elim!: runs_mono)
  qed
qed

end
