(* ===== verification/Site_Loop.thy ===== *)
theory Site_Loop
  imports Site_Contract
begin

text \<open>
  The epoll loop around the site: the descriptors in every state of it, whatever the requests are, and
  the events of a batch.
\<close>

section \<open>Properties\<close>

text \<open>C7: From the start of the server on, in every state of its loop, whatever the requests were: the
  listening socket is watched, the epoll descriptor is not, the open descriptors are exactly these two
  and the connections that are watched, the connections are watched edge triggered and do not block,
  the events that wait to be handled are different watched descriptors, and the server is well formed.
  A step that is undefined has no state after it.\<close>

theorem loop_descriptors:
  assumes "site_setup deflate O1 fs docroot" "main_init mem (controllercall mem) w = Some s" "l \<noteq> e"
    "run_start (Some l) bound listening (Some e) added s = Running st0"
    "reachable (the_site deflate O1 fs docroot) fs st0 st"
  shows "listen_sock st \<in> interest st \<and> epoll_fd st \<notin> interest st
    \<and> descriptors st = insert (epoll_fd st) (interest st)
    \<and> edge st = interest st - {listen_sock st} \<and> nonblock st = interest st - {listen_sock st}
    \<and> distinct (events st) \<and> set (events st) \<subseteq> interest st
    \<and> server_ok any_world (the_site deflate O1 fs docroot) fs (srv st)"
proof -
  have "server_ok any_world (the_site deflate O1 fs docroot) fs s"
    using main_init_runs [where W = any_world and w = w and P = "the_site deflate O1 fs docroot" and fs = fs] assms(2) by simp
  from reachable_inv [OF assms(5) site_platform_ok [OF assms(1)] run_start_inv [OF assms(4,3) this]] show ?thesis
    by (simp add: loop_inv_def)
qed

text \<open>C3: A batch of events is handled to its end without undefined behaviour and without leaving the
  process: every connection in it gets one response, in the order of the events, and is closed,
  and of the descriptors that were open before, exactly these are closed. What the loop does to
  the batch are steps of its step relation. The kernel has to answer: it accepts with fresh
  descriptors, and receives do not fail; and what is received does not carry the password.\<close>

theorem events_served:
  assumes "site_setup deflate O1 fs docroot" "loop_inv any_world (the_site deflate O1 fs docroot) fs st"
    "events st = map fst evs" "supply_ok (admits (refused O1)) evs (descriptors st)"
  shows "runs (\<lambda>r. \<exists>st' out. r = Running st' \<and> reachable (the_site deflate O1 fs docroot) fs st st' \<and> events st' = []
      \<and> sent st' = sent st @ out \<and> map fst out = filter (\<lambda>fd. fd \<noteq> listen_sock st) (map fst evs)
      \<and> descriptors st \<inter> descriptors st' = descriptors st - fst ` set out)
    (for_events (the_site deflate O1 fs docroot) fs evs st)"
proof -
  have "supply_ok (admits (refused O1)) evs (descriptors st \<union> descriptors st)" using assms(4) by simp
  from for_events_served [OF site_platform_ok [OF assms(1)] assms(2,3) this] show ?thesis unfolding served_def by simp
qed

section \<open>The concrete site\<close>

abbreviation demo_platform :: "(site_route, nat site) platform" where
  "demo_platform \<equiv> the_site copy_bytes demo_outside demo_files None"

lemma demo_server_runs: "runs (server_ok any_world demo_platform demo_files) demo_server"
  by (rule runs_mono [OF main_init_runs [where W = any_world and w = small_db and P = demo_platform and fs = demo_files]]) simp_all

lemma toy_request_admitted: "admits (refused demo_outside) toy_request"
  using toy_request_refused by (simp add: admits_def refused_def)

theorem loop_descriptors_witness:
  "runs (\<lambda>s. \<exists>st0. run_start (Some 3) True True (Some 4) True s = Running st0
      \<and> descriptors (st0\<lparr>events := [3]\<rparr>) = insert 4 {3}) demo_server"
proof -
  obtain s where s: "demo_server = Some s" using demo_server_runs by (auto simp: runs_def)
  obtain st0 where st0: "run_start (Some 3) True True (Some 4) True s = Running st0"
      "events st0 = []" "interest st0 = {3}" "epoll_fd st0 = 4"
    by (simp add: run_start_def)
  have "reports st0 [3]" by (simp add: reports_def st0 MAX_EVENTS_def)
  from reachable.step [OF reachable.start loop_step.wait [OF st0(2) this]]
  have "reachable demo_platform demo_files st0 (st0\<lparr>events := [3]\<rparr>)" .
  from loop_descriptors [OF demo_setup s _ st0(1) this] st0 s show ?thesis by simp
qed

theorem events_served_witness:
  "runs (\<lambda>s. runs (\<lambda>r. \<exists>st' x. r = Running st' \<and> sent st' = [(5, x)] \<and> 5 \<notin> descriptors st' \<and> 3 \<in> descriptors st')
      (for_events demo_platform demo_files [(5, \<lparr>accepts = Some 6, receives = Some toy_request, garbage = False\<rparr>)]
        \<lparr>srv = s, listen_sock = 3, epoll_fd = 4, interest = {3, 5}, edge = {5}, nonblock = {5}, descriptors = {3, 4, 5},
          events = [5], sent = []\<rparr>))
    demo_server"
proof (rule runs_mono [OF demo_server_runs])
  fix s assume s: "server_ok any_world demo_platform demo_files s"
  let ?st = "\<lparr>srv = s, listen_sock = 3, epoll_fd = 4, interest = {3, 5}, edge = {5}, nonblock = {5}, descriptors = {3, 4, 5},
      events = [5], sent = []\<rparr>"
  let ?evs = "[(5::nat, \<lparr>accepts = Some 6, receives = Some toy_request, garbage = False\<rparr>)]"
  have inv: "loop_inv any_world demo_platform demo_files ?st" using s by (auto simp: loop_inv_def)
  have ev: "events ?st = map fst ?evs" by simp
  have sup: "supply_ok (admits (refused demo_outside)) ?evs (descriptors ?st)"
    by (simp add: supply_ok_def toy_request_length toy_request_admitted)
  from events_served [OF demo_setup inv ev sup] obtain st' out
    where r: "for_events demo_platform demo_files ?evs ?st = Some (Running st')" "sent st' = out"
      "map fst out = [5]" "{3, 4, 5} \<inter> descriptors st' = {3, 4, 5} - fst ` set out"
    by (auto simp: runs_def)
  from r(3) obtain x where out: "out = [(5, x)]" by (cases out) auto
  have "5 \<notin> descriptors st' \<and> 3 \<in> descriptors st'"
    using arg_cong [OF r(4), of "\<lambda>A. 5 \<in> A"] arg_cong [OF r(4), of "\<lambda>A. 3 \<in> A"] by (simp add: out)
  with r(2) show "runs (\<lambda>r. \<exists>st' x. r = Running st' \<and> sent st' = [(5, x)] \<and> 5 \<notin> descriptors st' \<and> 3 \<in> descriptors st')
      (for_events demo_platform demo_files ?evs ?st)"
    unfolding r(1) out runs_simps by blast
qed

end
