(* ===== verification/Kqueue.thy ===== *)
theory Kqueue
  imports Site_Loop
begin

text \<open>
  The kqueue server (\<open>server/socket_handlers/kqueue.c\<close>), the same program for another kernel
  interface. Its functions for a request and a response are those of \<open>Server\<close>; the handlers of
  events and the loop are its own. A descriptor that a failed call left at \<open>-1\<close> is \<open>None\<close>.
\<close>

unbundle bit_operations_syntax

section \<open>State\<close>

datatype event_filter = EVFILT_READ | Other_filter

record kevent =
  udata :: nat
  flt :: event_filter

record ('f, 'w) kq_state =
  ksrv :: "('f, 'w) server"
  listenfd :: "nat option"
  kqfd :: "nat option"
  watched :: "nat set"
  opened :: "nat set"
  nonblocking :: "nat set"
  ksent :: "(nat \<times> bytes) list"

section \<open>Events\<close>

definition kReadEvent :: "32 word" where "kReadEvent = 1"

text \<open>\<open>kevent\<close> changes nothing when the queue or the descriptor is not open; its result is not
  looked at.\<close>

definition updateEvents ::
  "nat option \<Rightarrow> nat option \<Rightarrow> 32 word \<Rightarrow> bool \<Rightarrow> ('f, 'w) kq_state \<Rightarrow> ('f, 'w) kq_state" where
  "updateEvents efd fd evts modify st =
     (case (efd, fd) of
        (Some q, Some c) \<Rightarrow>
          if q \<notin> opened st \<or> c \<notin> opened st then st
          else if evts AND kReadEvent \<noteq> 0 then st\<lparr>watched := insert c (watched st)\<rparr>
          else if modify then st\<lparr>watched := watched st - {c}\<rparr>
          else st
      | _ \<Rightarrow> st)"

text \<open>A new connection. When \<open>accept\<close> fails, the address that is printed was never written. On the
  systems that have kqueue, an accepted socket inherits \<open>O_NONBLOCK\<close> from the listening socket; what
  \<open>fcntl\<close> then makes nonblocking is the listening socket.\<close>

definition handleAccept ::
  "nat option \<Rightarrow> nat option \<Rightarrow> nat \<Rightarrow> ('f, 'w) kq_state \<Rightarrow> ('f, 'w) kq_state run" where
  "handleAccept conn efd fd st =
     (case conn of
        None \<Rightarrow> None
      | Some cfd \<Rightarrow>
          let st = st\<lparr>opened := insert cfd (opened st),
                nonblocking := (if fd \<in> nonblocking st then insert cfd (nonblocking st) else nonblocking st)\<rparr>;
              st = st\<lparr>nonblocking := insert fd (nonblocking st)\<rparr> in
          Some (updateEvents efd (Some cfd) kReadEvent False st))"

text \<open>Closing a descriptor takes it out of the queue.\<close>

definition send_close :: "nat \<Rightarrow> bytes \<Rightarrow> ('f, 'w) kq_state \<Rightarrow> ('f, 'w) kq_state" where
  "send_close fd response st = st\<lparr>ksent := ksent st @ [(fd, response)],
     watched := watched st - {fd}, opened := opened st - {fd}, nonblocking := nonblocking st - {fd}\<rparr>"

text \<open>A connection with data. When \<open>read\<close> fails, its result \<open>-1\<close> is the length that the firewall
  searches, which is more than the buffer has.\<close>

definition handleRead ::
  "('f, 'w) platform \<Rightarrow> (bytes \<Rightarrow> entry option) \<Rightarrow> bool \<Rightarrow> bytes option \<Rightarrow> nat \<Rightarrow> ('f, 'w) kq_state
     \<Rightarrow> ('f, 'w) kq_state run" where
  "handleRead P fs junk received fd st =
     (case received of
        None \<Rightarrow> None
      | Some data \<Rightarrow>
          if simple_waf data = 1 then Some (send_close fd blocked_text st)
          else do {
            r \<leftarrow> portable_requester (allocator P) data;
            (p, s) \<leftarrow> portable_responser P fs junk ((ksrv st)\<lparr>hrq := r\<rparr>);
            let s = s\<lparr>hrq := requestfree (hrq s)\<rparr>;
            r \<leftarrow> deref p;
            response \<leftarrow> sds_bytes r;
            Some (send_close fd response (st\<lparr>ksrv := s\<rparr>))
          })"

section \<open>The loop\<close>

text \<open>\<open>main\<close> up to the loop, when \<open>s\<close> is the server after its first calls: the results of
  \<open>bind\<close> and \<open>listen\<close> are not looked at.\<close>

definition kq_start :: "nat option \<Rightarrow> nat option \<Rightarrow> ('f, 'w) server \<Rightarrow> ('f, 'w) kq_state" where
  "kq_start sock queue s =
     (let st = \<lparr>ksrv = s, listenfd = sock, kqfd = queue, watched = {},
        opened = set_option sock \<union> set_option queue, nonblocking = set_option sock, ksent = []\<rparr> in
      updateEvents queue sock kReadEvent False st)"

definition kq_event ::
  "('f, 'w) platform \<Rightarrow> (bytes \<Rightarrow> entry option) \<Rightarrow> kevent \<Rightarrow> kernel \<Rightarrow> ('f, 'w) kq_state \<Rightarrow> ('f, 'w) kq_state run" where
  "kq_event P fs e k st =
     (if flt e \<noteq> EVFILT_READ then Some st
      else if Some (udata e) = listenfd st then handleAccept (accepts k) (kqfd st) (udata e) st
      else handleRead P fs (garbage k) (receives k) (udata e) st)"

text \<open>The \<open>for\<close> loop over the events that \<open>kevent\<close> reports.\<close>

fun kq_events ::
  "('f, 'w) platform \<Rightarrow> (bytes \<Rightarrow> entry option) \<Rightarrow> (kevent \<times> kernel) list \<Rightarrow> ('f, 'w) kq_state \<Rightarrow> ('f, 'w) kq_state run" where
  "kq_events P fs [] st = Some st"
| "kq_events P fs ((e, k) # evs) st = do { st \<leftarrow> kq_event P fs e k st; kq_events P fs evs st }"

text \<open>The \<open>while\<close> loop over the calls of \<open>kevent\<close>: whether the signal had arrived before it, and
  what it reports, which is an error without a queue.\<close>

fun kq_loop ::
  "('f, 'w) platform \<Rightarrow> (bytes \<Rightarrow> entry option) \<Rightarrow> (bool \<times> (kevent \<times> kernel) list) list \<Rightarrow> ('f, 'w) kq_state
     \<Rightarrow> ('f, 'w) kq_state run" where
  "kq_loop P fs [] st = Some st"
| "kq_loop P fs ((out, evs) # turns) st =
     (if out then Some st
      else do {
        st \<leftarrow> kq_events P fs (if kqfd st = None then [] else evs) st;
        kq_loop P fs turns st
      })"

section \<open>The state of the other loop\<close>

text \<open>The state that the epoll loop has for the same server, with \<open>es\<close> the events it has yet to look at.
  That loop leaves its listening socket blocking, and asks for edge triggered events of connections,
  which are closed at their first event.\<close>

definition epoll_view :: "nat list \<Rightarrow> ('f, 'w) kq_state \<Rightarrow> ('f, 'w) loop_state" where
  "epoll_view es st = \<lparr>srv = ksrv st, listen_sock = the (listenfd st), epoll_fd = the (kqfd st),
     interest = watched st, edge = watched st - set_option (listenfd st),
     nonblock = nonblocking st - set_option (listenfd st),
     descriptors = opened st, events = es, sent = ksent st\<rparr>"

lemma epoll_view_simps [simp]:
  "srv (epoll_view es st) = ksrv st" "listen_sock (epoll_view es st) = the (listenfd st)"
  "interest (epoll_view es st) = watched st" "edge (epoll_view es st) = watched st - set_option (listenfd st)"
  "nonblock (epoll_view es st) = nonblocking st - set_option (listenfd st)" "descriptors (epoll_view es st) = opened st"
  "events (epoll_view es st) = es" "sent (epoll_view es st) = ksent st"
  "epoll_fd (epoll_view es st) = the (kqfd st)" "epoll_view es st\<lparr>events := es'\<rparr> = epoll_view es' st"
  by (simp_all add: epoll_view_def)

lemma blocked_bytes:
  assumes "sdsnew mem (Some blocked_text) = Some p"
  shows "\<exists>r. p = Some r \<and> sds_bytes r = Some blocked_text"
  using runs_blocked assms by (auto simp: runs_def sees_def)

lemma Diff_swap: "A - B - C = A - C - B" for A B C :: "'a set" by blast

lemma handleRead_refines:
  assumes "allocator P = mem" "fd \<in> watched st" "runs (\<lambda>(p, s). int_response p) (answer P fs junk data (ksrv st))"
  shows "do_use_fd P fs junk (Some data) fd (epoll_view es st)
    = map_option (\<lambda>st. Running (epoll_view es st)) (handleRead P fs junk (Some data) fd st)"
proof -
  obtain p s t where p: "answer P fs junk data (ksrv st) = Some (p, s)" "sees t p" "length t < 2 ^ 31"
    using assms(3) by (auto simp: runs_def int_response_def)
  then obtain r where r: "p = Some r" "sds_bytes r = Some t" by (auto simp: sees_def)
  have "handleRead P fs junk (Some data) fd st = Some (send_close fd t (st\<lparr>ksrv := s\<rparr>))"
  proof (cases "simple_waf data = 1")
    case True
    with p(1) have b: "sdsnew mem (Some blocked_text) = Some p" "s = ksrv st"
      by (auto simp: answer_def assms(1) bind_eq_Some_conv)
    from blocked_bytes [OF b(1)] r have "t = blocked_text" by simp
    with True b(2) show ?thesis by (simp add: handleRead_def)
  next
    case False
    with p(1) obtain r' s' where "portable_requester mem data = Some r'"
        "portable_responser P fs junk ((ksrv st)\<lparr>hrq := r'\<rparr>) = Some (p, s')" "s = s'\<lparr>hrq := requestfree (hrq s')\<rparr>"
      by (auto simp: answer_def assms(1) bind_eq_Some_conv)
    with False r assms(1) show ?thesis by (simp add: handleRead_def Let_def)
  qed
  then show ?thesis
    using p(1) r assms(2)
    by (simp add: do_use_fd_def send_close_def epoll_view_def Let_def int_send_all [OF p(3)] Diff_swap)
qed

lemma handleAccept_refines:
  assumes "kqfd st = Some q" "listenfd st = Some l" "q \<in> opened st" "c \<notin> watched st" "c \<noteq> l" "l \<in> nonblocking st"
  shows "\<exists>st'. handleAccept (Some c) (kqfd st) l st = Some st'
    \<and> accept_connection (Some c) (epoll_view es st) = Running (epoll_view es st')"
proof -
  have "insert c A - {l} = insert c (A - {l})" for A using assms(5) by auto
  then show ?thesis
    using assms
    by (simp add: handleAccept_def updateEvents_def accept_connection_def setnonblocking_def epoll_view_def kReadEvent_def
      Let_def insert_absorb)
qed

lemma kq_event_refines:
  assumes P: "allocator P = mem" and e: "flt e = EVFILT_READ" "udata e \<in> watched st"
    and k: "accepts k = Some c" "c \<notin> watched st" "receives k = Some data"
    and ans: "runs (\<lambda>(p, s). int_response p) (answer P fs (garbage k) data (ksrv st))"
    and st: "kqfd st = Some q" "listenfd st = Some l" "q \<in> opened st" "l \<in> nonblocking st" "l \<in> watched st"
  shows "handle_event P fs (udata e) k (epoll_view es st)
    = map_option (\<lambda>st. Running (epoll_view es st)) (kq_event P fs e k st)"
proof (cases "udata e = l")
  case True
  have "c \<noteq> l" using k(2) st(5) by blast
  from handleAccept_refines [OF st(1-3) k(2) this st(4), of es] True e(1) k(1) st(2) show ?thesis
    by (auto simp: handle_event_def kq_event_def)
next
  case False
  with handleRead_refines [OF P e(2) ans, of es] e(1) k(3) st(2) show ?thesis
    by (simp add: handle_event_def kq_event_def)
qed

text \<open>The queue and the listening socket never change, and the listening socket stays nonblocking unless
  it is closed.\<close>

lemma kq_event_frame:
  assumes "kq_event P fs e k st = Some st'"
  shows "kqfd st' = kqfd st" "listenfd st' = listenfd st"
    "listenfd st = Some l \<Longrightarrow> l \<in> nonblocking st \<Longrightarrow> l \<in> nonblocking st'"
  using assms
  by (auto simp: kq_event_def handleAccept_def updateEvents_def handleRead_def send_close_def Let_def bind_eq_Some_conv
    split: if_splits option.splits)

lemma kq_event_opened:
  assumes "kq_event P fs e k st = Some st'" "accepts k = Some c"
  shows "opened st' \<subseteq> insert c (opened st)"
  using assms
  by (auto simp: kq_event_def handleAccept_def updateEvents_def handleRead_def send_close_def Let_def bind_eq_Some_conv
    split: if_splits option.splits)

lemma kq_events_frame: "kq_events P fs evs st = Some st' \<Longrightarrow> kqfd st' = kqfd st \<and> listenfd st' = listenfd st"
proof (induction evs arbitrary: st)
  case (Cons ek evs)
  obtain e k where ek: "ek = (e, k)" by force
  with Cons.prems obtain st1 where "kq_event P fs e k st = Some st1" "kq_events P fs evs st1 = Some st'"
    by (auto simp: bind_eq_Some_conv)
  with kq_event_frame(1,2) [OF this(1)] Cons.IH [OF this(2)] show ?case by auto
qed simp

text \<open>The batch as the epoll loop gets it.\<close>

definition as_epoll :: "(kevent \<times> kernel) list \<Rightarrow> (nat \<times> kernel) list" where
  "as_epoll = map (\<lambda>(e, k). (udata e, k))"

lemma as_epoll_simps [simp]: "as_epoll [] = []" "as_epoll ((e, k) # evs) = (udata e, k) # as_epoll evs"
  by (simp_all add: as_epoll_def)

lemma kq_events_refines:
  assumes "platform_ok A W P fs" "kqfd st = Some q" "listenfd st = Some l" "l \<in> nonblocking st"
    "loop_inv W P fs (epoll_view (map fst (as_epoll evs)) st)" "\<forall>(e, k) \<in> set evs. flt e = EVFILT_READ"
    "supply_ok (admits A) (as_epoll evs) (opened st)"
  shows "for_events P fs (as_epoll evs) (epoll_view (map fst (as_epoll evs)) st)
    = map_option (\<lambda>st. Running (epoll_view [] st)) (kq_events P fs evs st)"
  using assms(2-)
proof (induction evs arbitrary: st)
  case (Cons ek evs)
  obtain e k where ek: "ek = (e, k)" by force
  let ?es = "map fst (as_epoll evs)"
  have inv: "loop_inv W P fs (epoll_view (udata e # ?es) st)" using Cons.prems(4) by (simp add: ek)
  then have e: "udata e \<in> watched st" "q \<in> opened st" "watched st \<subseteq> opened st" "l \<in> watched st"
    and srv: "server_ok W P fs (ksrv st)"
    using Cons.prems(1,2) by (auto simp: loop_inv_def)
  have sup: "supply_ok (admits A) ((udata e, k) # as_epoll evs) (opened st)" using Cons.prems(6) by (simp add: ek)
  then obtain c data where k: "accepts k = Some c" "c \<notin> opened st" "receives k = Some data" "length data \<le> MAXBUF"
      "admits A data"
    by (auto simp: supply_ok_def)
  have read: "flt e = EVFILT_READ" "\<forall>(e, k) \<in> set evs. flt e = EVFILT_READ" using Cons.prems(5) by (simp_all add: ek)
  have ans: "runs (\<lambda>(p, s). int_response p) (answer P fs (garbage k) data (ksrv st))"
    using servesD(2) [OF answer_serves [OF assms(1) srv k(4), of "garbage k"] k(5)] by (auto simp: responds_def runs_def)
  have c: "c \<notin> watched st" using k(2) e(3) by blast
  note step = kq_event_refines [OF platform_okD(1) [OF assms(1)] read(1) e(1) k(1) c k(3) ans Cons.prems(1,2) e(2) Cons.prems(3) e(4),
      of "udata e # ?es"]
  show ?case
  proof (cases "kq_event P fs e k st")
    case None
    then show ?thesis using step by (simp add: ek)
  next
    case (Some st1)
    have h: "handle_event P fs (udata e) k (epoll_view (udata e # ?es) st) = Some (Running (epoll_view (udata e # ?es) st1))"
      using step Some by simp
    have "kernel_ok k (epoll_view (udata e # ?es) st)" using k by (simp add: kernel_ok_def)
    from handle_event_inv [OF assms(1) inv _ this h] have inv1: "loop_inv W P fs (epoll_view ?es st1)" by simp
    have "supply_ok (admits A) (as_epoll evs) (opened st1)"
      by (rule supply_ok_rest [OF sup k(1) kq_event_opened [OF Some k(1)]])
    from Cons.IH [OF _ _ _ inv1 read(2) this] kq_event_frame [OF Some] Cons.prems(1-3)
    show ?thesis by (simp add: ek h Some)
  qed
qed simp

text \<open>How the loop starts.\<close>

lemma kq_start_inv:
  assumes "server_ok W P fs s" "l \<noteq> q"
  shows "loop_inv W P fs (epoll_view [] (kq_start (Some l) (Some q) s))"
  using assms by (auto simp: loop_inv_def kq_start_def updateEvents_def kReadEvent_def Let_def)

section \<open>Properties\<close>

text \<open>C8: The kqueue loop does to a batch of read events what the epoll loop does: the same responses in
  the same order, the same server, the same descriptors open and watched, and so every connection of
  the batch is answered and closed; and the connections that are left do not block, since they inherit
  the flag from the listening socket. The kernel has to answer: it accepts with fresh descriptors, and
  reads do not fail; and what is read does not carry the password.\<close>

theorem kq_events_as_epoll:
  assumes "site_setup deflate O1 fs docroot" "kqfd st = Some q" "listenfd st = Some l" "l \<in> nonblocking st"
    "loop_inv any_world (the_site deflate O1 fs docroot) fs (epoll_view (map fst (as_epoll evs)) st)"
    "\<forall>(e, k) \<in> set evs. flt e = EVFILT_READ" "supply_ok (admits (refused O1)) (as_epoll evs) (opened st)"
  shows "runs (\<lambda>st'. for_events (the_site deflate O1 fs docroot) fs (as_epoll evs) (epoll_view (map fst (as_epoll evs)) st)
        = Some (Running (epoll_view [] st'))
      \<and> (\<exists>out. ksent st' = ksent st @ out \<and> map fst out = filter (\<lambda>fd. fd \<noteq> l) (map (udata \<circ> fst) evs))
      \<and> nonblocking st' - {l} = watched st' - {l})
    (kq_events (the_site deflate O1 fs docroot) fs evs st)"
proof -
  let ?P = "the_site deflate O1 fs docroot" and ?st = "epoll_view (map fst (as_epoll evs)) st"
  note P = site_platform_ok [OF assms(1)]
  have fds: "map fst (as_epoll evs) = map (udata \<circ> fst) evs" by (simp add: as_epoll_def case_prod_beta comp_def)
  have "supply_ok (admits (refused O1)) (as_epoll evs) (opened st \<union> descriptors ?st)" using assms(7) by simp
  from for_events_served [OF P assms(5) _ this] obtain st2 out
    where r: "for_events ?P fs (as_epoll evs) ?st = Some (Running st2)" "sent st2 = ksent st @ out"
      "map fst out = filter (\<lambda>fd. fd \<noteq> l) (map fst (as_epoll evs))" "reachable ?P fs ?st st2"
    by (auto simp: runs_def served_def assms(3))
  from kq_events_refines [OF P assms(2-)] r(1) obtain st'
    where st': "kq_events ?P fs evs st = Some st'" "st2 = epoll_view [] st'"
    by (auto simp: map_option_case split: option.splits)
  have "listenfd st' = Some l" using kq_events_frame [OF st'(1)] assms(3) by simp
  moreover have "loop_inv any_world ?P fs st2" by (rule reachable_inv [OF r(4) P assms(5)])
  ultimately have "nonblocking st' - {l} = watched st' - {l}" by (simp add: st'(2) loop_inv_def)
  with r st' show ?thesis by (auto simp: runs_def fds)
qed

text \<open>A batch with a new connection and a connection that has sent a request.\<close>

definition two_events :: "(kevent \<times> kernel) list" where
  "two_events = [(\<lparr>udata = 3, flt = EVFILT_READ\<rparr>, \<lparr>accepts = Some 6, receives = Some toy_request, garbage = False\<rparr>),
     (\<lparr>udata = 5, flt = EVFILT_READ\<rparr>, \<lparr>accepts = Some 7, receives = Some toy_request, garbage = False\<rparr>)]"

theorem kq_events_as_epoll_witness:
  "runs (\<lambda>s. runs (\<lambda>st'. \<exists>x. ksent st' = [(5, x)])
      (kq_events demo_platform demo_files two_events
        ((kq_start (Some 3) (Some 4) s)\<lparr>watched := {3, 5}, opened := {3, 4, 5}, nonblocking := {3, 5}\<rparr>)))
    demo_server"
proof (rule runs_mono [OF demo_server_runs])
  fix s assume s: "server_ok any_world demo_platform demo_files s"
  let ?st = "(kq_start (Some 3) (Some 4) s)\<lparr>watched := {3, 5}, opened := {3, 4, 5}, nonblocking := {3, 5}\<rparr>"
  have st: "kqfd ?st = Some 4" "listenfd ?st = Some 3" "ksrv ?st = s" "ksent ?st = []" "3 \<in> nonblocking ?st"
    "watched ?st = {3, 5}" "opened ?st = {3, 4, 5}" "nonblocking ?st = {3, 5}"
    by (simp_all add: kq_start_def updateEvents_def Let_def)
  have inv: "loop_inv any_world demo_platform demo_files (epoll_view (map fst (as_epoll two_events)) ?st)"
    using s by (auto simp: loop_inv_def st(1-4,6-8) two_events_def)
  have sup: "supply_ok (admits (refused demo_outside)) (as_epoll two_events) (opened ?st)"
    unfolding st(7) by (simp add: supply_ok_def two_events_def toy_request_length toy_request_admitted)
  have read: "\<forall>(e, k) \<in> set two_events. flt e = EVFILT_READ" by (simp add: two_events_def)
  have fds: "filter (\<lambda>fd. fd \<noteq> 3) (map (udata \<circ> fst) two_events) = [5]" by (simp add: two_events_def)
  show "runs (\<lambda>st'. \<exists>x. ksent st' = [(5, x)]) (kq_events demo_platform demo_files two_events ?st)"
    by (rule runs_mono [OF kq_events_as_epoll [OF demo_setup st(1,2,5) inv read sup]])
      (auto simp: fds st(4) map_eq_Cons_conv)
qed

end
