(* ===== verification/Spec2Isabelle.thy ===== *)
theory Spec2Isabelle
  imports Http_Trace Http_Url_Fields Sds_Contract Request_Contract Controller_Spec Server_Contract Routes_Spec Page_Spec
  Site_Contract Site_Loop Kqueue
begin

text \<open>
  A model of the cweb server: a web server in C that answers requests for static files and for the
  routes of a small blog. The model follows the code function by function and keeps its names.

  \<^bold>\<open>How the program works.\<close> An event loop (\<open>server/socket_handlers/http_epoll.c\<close>, \<open>kqueue.c\<close>) or the server
  behind Go (\<open>server/sharedinterface.c\<close>) gets the bytes of a request. The firewall
  (\<open>simple_waf.c\<close>) looks for banned words in them. The HTTP parser (\<open>http_parser.c\<close>)
  calls back into \<open>requester.c\<close>, which builds the request object from dynamic strings
  (\<open>sds.c\<close>) and key-value pairs (\<open>keyvalue.c\<close>). A registered URL goes to its route
  (\<open>responser.c\<close>, \<open>dev/routing/routes.c\<close>), which may query the database
  (\<open>dev/db/sql_queries.c\<close>, \<open>sqlthings.c\<close>) and fill a template
  (\<open>html_templater/flate.c\<close>); any other URL is a static file
  (\<open>controller.c\<close>), compressed and kept in a ring of pages.

  \<^bold>\<open>Conventions\<close> (\<open>Cweb_Prelude\<close>). A computation has the type \<open>'a run\<close>, an option:
  \<open>None\<close> is undefined behaviour (an access outside an object, a read of uninitialised memory,
  NULL dereferenced, an overflow of a signed integer, a failed assertion). So a theorem that a
  function gives \<open>Some\<close> value, written \<open>runs P m\<close>, says that it returns and that nothing
  undefined happened on the way. NULL is an inner \<open>None\<close>. Memory is a list of cells, each a byte
  or uninitialised; allocation asks the parameter \<open>al\<close> whether there is room for a number of
  bytes. Machine integers are words or numbers with the wrap-around written out. Loops are
  structural recursion or have a measure; those of the template engine, which follow pointers or may
  read a file that includes itself, are partial functions in the option type, so that a loop that
  does not end is \<open>None\<close> too, and the theorems show \<open>Some\<close>. No fuel is needed.

  \<^bold>\<open>Theories.\<close>
  \<^item> \<open>Waf\<close>: the firewall (\<open>simple_waf\<close>), equal to a search for the three words.
  \<^item> \<open>Percent_Decode\<close>, \<open>Base64\<close>: the decoders of \<open>sqlthings.c\<close> and
    \<open>base64.h\<close>, with round trips, the RFC 4648 encoding as the reference, and the inputs on which
    the base64 decoder leaves its buffer.
  \<^item> \<open>Http_Types\<close> (tables, enumerations, the parser record), \<open>Http_Url\<close>,
    \<open>Http_Exec\<close>, \<open>Http_Line\<close>, \<open>Http_Header\<close>, \<open>Http_Body\<close>,
    \<open>Http_Run\<close>: \<open>http_parser_execute\<close>, one definition per state or group of states, and
    the URL parser. \<open>Http_Safety\<close>: every call returns, stays in its buffers and keeps the parser
    invariant; \<open>Http_Trace\<close>: method names, Content-Length, chunk sizes;
    \<open>Http_Url_Fields\<close>: the fields of a URL.
  \<^item> \<open>Sds_Memory\<close>, \<open>Sds_Text\<close>, \<open>Sds_Args\<close>: the string library with its
    packed headers. \<open>Sds_Refine\<close>: \<open>sds_rep s t\<close>, the string \<open>s\<close> stands for the
    bytes \<open>t\<close>, and the refinement of every operation; \<open>Sds_Strings\<close>,
    \<open>Sds_Roundtrip\<close>, \<open>Sds_Format\<close>: splitting, quoting, formats;
    \<open>Sds_Contract\<close>: the properties.
  \<^item> \<open>Keyvalue\<close>: pairs of strings, and the rules for code that works on pointers to strings.
  \<^item> \<open>Requester\<close>: the request object and the callbacks; \<open>Http_Calls\<close>: the parser seen as
    the sequence of callbacks it makes; \<open>Request_Spec\<close>, \<open>Request_Contract\<close>: every request
    gives a well-formed object, and what is in it.
  \<^item> \<open>Responser\<close>, \<open>Response_Spec\<close>: routing table, file extensions and headers.
    \<open>Controller\<close>, \<open>Controller_Spec\<close>: static files and the page cache; the locale
    \<open>page_store\<close> states what a cache of computed pages promises and is interpreted on the code's ring.
  \<^item> \<open>Server\<close>: from the bytes of a request to the response; \<open>Event_Loop\<close>: the epoll loop
    as a step relation. \<open>Server_Spec\<close>: what holds of the server and the loop around handlers that
    leave a well-formed server, and return for the requests of a set \<open>A\<close>; \<open>Server_Contract\<close>: the start
    and the firewall.
  \<^item> \<open>Sql_Queries\<close>: the queries and the array of rows; \<open>Routes\<close>, \<open>Routes_Spec\<close>: the
    routes of the administration and the language cookie.
  \<^item> \<open>Flate\<close>: the template engine, a doubly linked list of units in memory with three sorted
    tables of pointers into it. \<open>Flate_Search\<close>: the tables find every unit with a name;
    \<open>Flate_Doc\<close>: the list in memory as a list of items, the page as a function of the items, and
    setting variables; \<open>Flate_Table\<close>: the lines of a table; \<open>Flate_Parse\<close>: the items of a
    text, a recursion on the text, and that the loop over the buffer computes them;
    \<open>Flate_Contract\<close>: the engine refines edits of the list of items, and what the page of a table
    is. \<open>Page_Routes\<close>, \<open>Page_Spec\<close>: the index, one post, and a category.
  \<^item> \<open>Site\<close>: the seven routes as the handlers of the server; \<open>Site_Contract\<close>: they are such
    handlers, with the requests that do not carry the password as \<open>A\<close>, so the whole program answers
    every such request when the templates take the rows of the database; \<open>Site_Loop\<close>: the descriptors
    of the event loop around the site, whatever the requests are, and the events of a batch. An
    authenticated request is not in \<open>A\<close>: saving a post has undefined behaviour
    (\<open>Routes_Spec\<close>).
  \<^item> \<open>Kqueue\<close>: the kqueue loop, and that it does to a batch of events what the epoll loop does.

  \<^bold>\<open>Parameters.\<close> Not in the repository, or not the program's own: the allocator, zlib (a function
  from input and room to output), SQLite (a function from a statement and a state to a state and
  rows; of \<open>sqlite3_mprintf\<close> the conversion \<open>%q\<close> is modelled), the hash function, the file
  system, the variable \<open>DOCUMENT_ROOT\<close> of the environment, and the kernel's answers to \<open>accept\<close> and \<open>recv\<close>. What is assumed of them is in
  \<open>site_setup\<close> (\<open>deflate_fits\<close>, \<open>files_small\<close>, \<open>site_ok\<close>, \<open>outside_ok\<close>), \<open>kernel_ok\<close> and
  \<open>supply_ok\<close>, and each has a concrete instance in a witness. The theorems about code that never
  looks whether an allocation failed assume an allocator with memory (\<open>mem\<close>).

  \<^bold>\<open>Bounds.\<close> \<open>sds_limit\<close> (2 to the 63rd) bounds the strings of the library, whose lengths
  are \<open>size_t\<close>, \<open>MAXBUF\<close> (131072) the requests of the event loop, and \<open>page_limit\<close> the pages of the
  cache. Lengths of files and responses pass through an \<open>int\<close>: \<open>compress_content\<close> and
  \<open>int_send\<close> convert them as the code does (\<open>as_int\<close>), and \<open>file_limit\<close>, 2 GiB less room for a
  header, is the bound under which the conversions are the identity. The counters of the loops over a
  request, a cookie or a URL (\<open>scan_to\<close>, \<open>scan_until\<close>, \<open>cookie_length\<close>, \<open>traversal_loop\<close>,
  \<open>last_dot\<close>) are an \<open>int\<close> in the code and numbers here. They agree for strings below 2 GiB, and
  every caller passes parts of a request, which are shorter; lemmas about them that only have the
  bound \<open>sds_limit\<close> say nothing of the code beyond 2 GiB.

  \<^bold>\<open>Not modelled.\<close> The functions of the template engine for CGI programs (cookies,
  forms, printing to standard output), which nothing calls; the Go front end; the signal handler; threads (a request is handled alone); output to the terminal, except that
  printing a string reads it; SQLite itself; the retired servers, which nothing builds.
\<close>

end
